(* ===== verification/Rtems_Prelude.thy ===== *)
theory Rtems_Prelude
  imports Main "HOL-Library.Word"
begin

text \<open>
  Shared vocabulary of the development: the machine types of the port (the C6678 is a
  32-bit machine: \<open>uint32_t\<close>, \<open>size_t\<close> and \<open>uintptr_t\<close> are 32-bit words), the
  collections of rewrite rules the component theories fill, and the generic facts on
  lists, options and words that several components use.
\<close>

type_synonym uint8 = "8 word"
type_synonym uint16 = "16 word"
type_synonym uint32 = "32 word"
type_synonym uint64 = "64 word"

text \<open>The status codes of \<^verbatim>\<open>src/include/rtems/rtems/status.h\<close>.\<close>

datatype rtems_status_code =
    RTEMS_SUCCESSFUL | RTEMS_TASK_EXITTED | RTEMS_MP_NOT_CONFIGURED | RTEMS_INVALID_NAME |
  RTEMS_INVALID_ID | RTEMS_TOO_MANY | RTEMS_TIMEOUT | RTEMS_OBJECT_WAS_DELETED |
  RTEMS_INVALID_SIZE | RTEMS_INVALID_ADDRESS | RTEMS_INVALID_NUMBER | RTEMS_NOT_DEFINED |
  RTEMS_RESOURCE_IN_USE | RTEMS_UNSATISFIED | RTEMS_INCORRECT_STATE |
  RTEMS_ALREADY_SUSPENDED | RTEMS_ILLEGAL_ON_SELF | RTEMS_ILLEGAL_ON_REMOTE_OBJECT |
  RTEMS_CALLED_FROM_ISR | RTEMS_INVALID_PRIORITY | RTEMS_INVALID_CLOCK |
  RTEMS_INVALID_NODE | RTEMS_NOT_CONFIGURED | RTEMS_NOT_OWNER_OF_RESOURCE |
  RTEMS_NOT_IMPLEMENTED | RTEMS_INTERNAL_ERROR | RTEMS_NO_MEMORY | RTEMS_IO_ERROR |
  RTEMS_PROXY_BLOCKING

named_theorems score_defs \<open>definitions of the small accessors, unfolded in every component proof\<close>
named_theorems word_nat \<open>transfer of word arithmetic to the natural numbers\<close>

subsection \<open>Words as natural numbers\<close>

lemma unat_uint32_bound: "unat (x :: uint32) < 4294967296"
  using unsigned_less [where ?'a = nat, of x] by simp

lemma uint_nonneg: "0 \<le> uint (x :: 'a :: len word)"
  by simp

lemma unat_add_no_wrap:
  fixes x y :: "'a :: len word"
  assumes "unat x + unat y < 2 ^ LENGTH('a)"
  shows "unat (x + y) = unat x + unat y"
  using assms by (simp add: unat_word_ariths)

lemma unat_mult_no_wrap:
  fixes x y :: "'a :: len word"
  assumes "unat x * unat y < 2 ^ LENGTH('a)"
  shows "unat (x * y) = unat x * unat y"
  using assms by (simp add: unat_word_ariths)

lemma unat_sub_no_wrap:
  fixes x y :: "'a :: len word"
  assumes "unat y \<le> unat x"
  shows "unat (x - y) = unat x - unat y"
  using assms by (simp add: unat_sub_if')

lemma unat_div_word [word_nat]: "unat (x div y) = unat x div unat (y :: 'a :: len word)"
  by (simp add: unat_div)

lemma unat_mod_word [word_nat]: "unat (x mod y) = unat x mod unat (y :: 'a :: len word)"
  by (simp add: unat_mod)

lemma le_word_nat [word_nat]: "x \<le> y \<longleftrightarrow> unat x \<le> unat (y :: 'a :: len word)"
  by (simp add: word_le_nat_alt)

lemma less_word_nat [word_nat]: "x < y \<longleftrightarrow> unat x < unat (y :: 'a :: len word)"
  by (simp add: word_less_nat_alt)

lemma eq_word_nat: "x = y \<longleftrightarrow> unat x = unat (y :: 'a :: len word)"
  by (simp add: word_unat_eq_iff)


text \<open>Masking with the low bits is the remainder by a power of two.\<close>

lemma unat_and_mask: "unat (and x (mask n)) = unat (x :: 'a :: len word) mod 2 ^ n"
  by (simp only: take_bit_eq_mask [symmetric] unsigned_take_bit_eq) (simp add: take_bit_eq_mod)

lemma unat_and_1: "unat (and x 1) = unat (x :: 'a :: len word) mod 2"
  using unat_and_mask [of x 1] by simp

lemma unat_and_3: "unat (and x 3) = unat (x :: 'a :: len word) mod 4"
  using unat_and_mask [of x 2] by (simp add: mask_eq_exp_minus_1)

subsection \<open>Rounded-up division\<close>

lemma ceil_div_int:
  fixes n d :: int
  assumes "0 < d"
  shows "(n + d - 1) div d = (if n mod d = 0 then n div d else n div d + 1)"
proof -
  define q r where "q = n div d" and "r = n mod d"
  have n: "n = d * q + r" and r: "0 \<le> r" "r < d"
    using assms by (simp_all add: q_def r_def)
  have "(d * q + r + d - 1) div d = (if r = 0 then q else q + 1)"
  proof (cases "r = 0")
    case True
    have "(d * q + (d - 1)) div d = q" using assms by (simp add: div_pos_pos_trivial)
    with True show ?thesis by (simp add: algebra_simps)
  next
    case False
    have "(d * (q + 1) + (r - 1)) div d = q + 1"
      using assms r False by (simp add: div_pos_pos_trivial)
    with False show ?thesis by (simp add: algebra_simps)
  qed
  then show ?thesis by (simp only: n [symmetric] q_def [symmetric] r_def [symmetric])
qed

lemma ceil_div_int_bounds:
  fixes n d :: int
  assumes "0 < d"
  shows "n \<le> d * ((n + d - 1) div d)" and "d * ((n + d - 1) div d) < n + d"
proof -
  define q r where "q = n div d" and "r = n mod d"
  have n: "n = d * q + r" and r: "0 \<le> r" "r < d"
    using assms by (simp_all add: q_def r_def)
  have "(n + d - 1) div d = (if r = 0 then q else q + 1)"
    using ceil_div_int [OF assms, of n] by (simp add: q_def r_def)
  with n r assms show "n \<le> d * ((n + d - 1) div d)" and "d * ((n + d - 1) div d) < n + d"
    by (simp_all add: distrib_left)
qed

end
