(* ===== verification/Score_Timespec.thy ===== *)
theory Score_Timespec
  imports Rtems_Prelude
begin

text \<open>
  The time arithmetic of \<^verbatim>\<open>src/librtems/score/timespec\<close>: one definition per function of that
  directory, and \<open>TOD_TICKS_PER_SECOND_method\<close> of \<^verbatim>\<open>src/librtems/score/core/coretodtickspersec.c\<close>.

  \<open>time_t\<close> belongs to the C library, whose headers are not part of the repository: \<open>tv_sec\<close>
  is an unbounded integer here and every conversion to a 32 or 64-bit type is written out.
  \<open>tv_nsec\<close> is a \<open>long\<close> (32 bits); a comparison with a \<open>uint32_t\<close> constant is unsigned,
  as the usual arithmetic conversions of C make it, a comparison with a plain \<open>int\<close> is signed.
  The configuration values of \<open>rtems_configuration_get_*_per_tick\<close> are arguments.
\<close>

record timespec =
  tv_sec :: int
  tv_nsec :: uint32

definition TOD_NANOSECONDS_PER_SECOND :: uint32 where
  "TOD_NANOSECONDS_PER_SECOND = 1000000000"

definition TOD_MICROSECONDS_PER_SECOND :: uint32 where
  "TOD_MICROSECONDS_PER_SECOND = 1000000"

definition TOD_NANOSECONDS_PER_MICROSECOND :: uint32 where
  "TOD_NANOSECONDS_PER_MICROSECOND = 1000"

lemmas tod_constants =
  TOD_NANOSECONDS_PER_SECOND_def TOD_MICROSECONDS_PER_SECOND_def
  TOD_NANOSECONDS_PER_MICROSECOND_def

subsection \<open>Operations\<close>

text \<open>A null pointer is \<open>None\<close>.\<close>

definition Timespec_Is_valid :: "timespec option \<Rightarrow> bool" where
  "Timespec_Is_valid time = (case time of
     None \<Rightarrow> False
   | Some t \<Rightarrow>
       if tv_sec t < 0 then False
       else if tv_nsec t <s 0 then False
       else if tv_nsec t \<ge> TOD_NANOSECONDS_PER_SECOND then False
       else True)"

definition Timespec_Less_than :: "timespec \<Rightarrow> timespec \<Rightarrow> bool" where
  "Timespec_Less_than lhs rhs =
     (if tv_sec lhs < tv_sec rhs then True
      else if tv_sec lhs > tv_sec rhs then False
      else if tv_nsec lhs <s tv_nsec rhs then True
      else False)"

text \<open>The normalisation loop of \<open>_Timespec_Add_to\<close>, then the function itself: the new value of
  \<open>*time\<close> and the returned number of seconds.\<close>

function Timespec_Add_to_loop :: "timespec \<Rightarrow> uint32 \<Rightarrow> timespec \<times> uint32" where
  "Timespec_Add_to_loop time seconds =
     (if tv_nsec time \<ge> TOD_NANOSECONDS_PER_SECOND
      then Timespec_Add_to_loop
             (time\<lparr>tv_nsec := tv_nsec time - TOD_NANOSECONDS_PER_SECOND,
                   tv_sec := tv_sec time + 1\<rparr>)
             (seconds + 1)
      else (time, seconds))"
  by pat_completeness auto
termination
  by (relation "measure (\<lambda>(time, seconds). unat (tv_nsec time))")
     (auto simp: tod_constants word_le_nat_alt unat_sub_no_wrap)

declare Timespec_Add_to_loop.simps [simp del]

definition Timespec_Add_to :: "timespec \<Rightarrow> timespec \<Rightarrow> timespec \<times> uint32" where
  "Timespec_Add_to time add =
     Timespec_Add_to_loop
       (time\<lparr>tv_sec := tv_sec time + tv_sec add, tv_nsec := tv_nsec time + tv_nsec add\<rparr>)
       (word_of_int (tv_sec add))"

definition Timespec_Subtract :: "timespec \<Rightarrow> timespec \<Rightarrow> timespec" where
  "Timespec_Subtract start end =
     (if tv_nsec end <s tv_nsec start
      then \<lparr>tv_sec = tv_sec end - tv_sec start - 1,
            tv_nsec = (TOD_NANOSECONDS_PER_SECOND - tv_nsec start) + tv_nsec end\<rparr>
      else \<lparr>tv_sec = tv_sec end - tv_sec start, tv_nsec = tv_nsec end - tv_nsec start\<rparr>)"

definition Timespec_Get_as_nanoseconds :: "timespec \<Rightarrow> uint64" where
  "Timespec_Get_as_nanoseconds time = word_of_int (tv_sec time) * 1000000000 + scast (tv_nsec time)"

text \<open>The two output parameters \<open>ival_percentage\<close> and \<open>fval_percentage\<close> are the result pair.\<close>

definition Timespec_Divide :: "timespec \<Rightarrow> timespec \<Rightarrow> uint32 \<times> uint32" where
  "Timespec_Divide lhs rhs =
     (let left = word_of_int (tv_sec lhs) * ucast TOD_NANOSECONDS_PER_SECOND :: uint64;
          left = left + scast (tv_nsec lhs);
          right = word_of_int (tv_sec rhs) * ucast TOD_NANOSECONDS_PER_SECOND :: uint64;
          right = right + scast (tv_nsec rhs)
      in if right = 0 then (0, 0)
         else let answer = (left * 100000) div right
              in (ucast (answer div 1000), ucast (answer mod 1000)))"

text \<open>Division by zero is undefined in C: \<open>None\<close>.\<close>

definition Timespec_Divide_by_integer :: "timespec \<Rightarrow> uint32 \<Rightarrow> timespec option" where
  "Timespec_Divide_by_integer time iterations =
     (let t = word_of_int (tv_sec time) :: uint64;
          t = t * ucast TOD_NANOSECONDS_PER_SECOND;
          t = t + scast (tv_nsec time)
      in if iterations = 0 then None
         else let t = t div ucast iterations
              in Some \<lparr>tv_sec = uint (t div ucast TOD_NANOSECONDS_PER_SECOND),
                       tv_nsec = ucast (t mod ucast TOD_NANOSECONDS_PER_SECOND)\<rparr>)"

definition Timespec_From_ticks :: "uint32 \<Rightarrow> uint32 \<Rightarrow> timespec" where
  "Timespec_From_ticks us_per_tick ticks =
     (let usecs = ticks * us_per_tick
      in \<lparr>tv_sec = uint (usecs div TOD_MICROSECONDS_PER_SECOND),
          tv_nsec = (usecs mod TOD_MICROSECONDS_PER_SECOND) * TOD_NANOSECONDS_PER_MICROSECOND\<rparr>)"

definition TOD_TICKS_PER_SECOND_method :: "uint32 \<Rightarrow> uint32" where
  "TOD_TICKS_PER_SECOND_method us_per_tick = TOD_MICROSECONDS_PER_SECOND div us_per_tick"

definition Timespec_To_ticks :: "uint32 \<Rightarrow> uint32 \<Rightarrow> timespec \<Rightarrow> uint32" where
  "Timespec_To_ticks us_per_tick ns_per_tick time =
     (if tv_sec time = 0 \<and> tv_nsec time = 0 then 0
      else let ticks = word_of_int (tv_sec time * uint (TOD_TICKS_PER_SECOND_method us_per_tick));
               ticks = ticks + tv_nsec time div ns_per_tick
           in if tv_nsec time mod ns_per_tick \<noteq> 0 then ticks + 1 else ticks)"


subsection \<open>Times as a number of nanoseconds\<close>

definition timespec_ns :: "timespec \<Rightarrow> int" where
  "timespec_ns t = tv_sec t * 1000000000 + uint (tv_nsec t)"

lemma uint_nsec_bound: "tv_nsec t < 1000000000 \<longleftrightarrow> uint (tv_nsec t) < 1000000000"
  by (simp add: word_less_def)

lemma sless_of_small:
  assumes "(x :: uint32) < 2147483648" "y < 2147483648"
  shows "x <s y \<longleftrightarrow> x < y"
proof -
  have "uint x < 2147483648" "uint y < 2147483648"
    using assms by (simp_all add: word_less_def)
  then have "sint x = uint x" "sint y = uint y"
    by (simp_all add: sint_uint signed_take_bit_eq_if_positive bit_iff_odd take_bit_eq_mod div_pos_pos_trivial)
  then show ?thesis by (simp add: word_sless_alt word_less_def)
qed


lemma Timespec_Is_valid_Some:
  "Timespec_Is_valid (Some t) \<longleftrightarrow> 0 \<le> tv_sec t \<and> uint (tv_nsec t) < 1000000000"
proof -
  have "uint (tv_nsec t) < 1000000000 \<Longrightarrow> \<not> tv_nsec t <s 0"
    using sless_of_small [of "tv_nsec t" 0] by (simp add: word_less_def)
  then show ?thesis
    by (auto simp: Timespec_Is_valid_def tod_constants word_le_def not_le)
qed

lemma Timespec_Add_to_loop_spec:
  "Timespec_Add_to_loop time seconds = (t', s') \<Longrightarrow>
     uint (tv_nsec t') < 1000000000 \<and> timespec_ns t' = timespec_ns time
     \<and> tv_sec time \<le> tv_sec t'
     \<and> s' = seconds + word_of_int (tv_sec t' - tv_sec time)"
proof (induction time seconds rule: Timespec_Add_to_loop.induct)
  case (1 time seconds)
  show ?case
  proof (cases "tv_nsec time \<ge> TOD_NANOSECONDS_PER_SECOND")
    case True
    then have sub: "uint (tv_nsec time - TOD_NANOSECONDS_PER_SECOND) = uint (tv_nsec time) - 1000000000"
      by (simp add: tod_constants word_le_def uint_sub_if')
    from 1 True show ?thesis
      by (simp add: Timespec_Add_to_loop.simps [of time seconds] timespec_ns_def sub
          wi_hom_sub [symmetric] algebra_simps)
  next
    case False
    with 1 show ?thesis
      by (simp add: Timespec_Add_to_loop.simps [of time seconds] tod_constants word_le_def)
  qed
qed

lemma uint_nsec_add:
  assumes "uint (x :: uint32) < 1000000000" "uint y < 1000000000"
  shows "uint (x + y) = uint x + uint y"
  using assms by (simp add: uint_plus_if' )

lemma Timespec_Subtract_ns:
  assumes "uint (tv_nsec s) < 1000000000" "uint (tv_nsec e) < 1000000000"
  shows "timespec_ns (Timespec_Subtract s e) = timespec_ns e - timespec_ns s"
    and "uint (tv_nsec (Timespec_Subtract s e)) < 1000000000"
proof -
  have lt: "tv_nsec e <s tv_nsec s \<longleftrightarrow> uint (tv_nsec e) < uint (tv_nsec s)"
    using assms sless_of_small [of "tv_nsec e" "tv_nsec s"] by (simp add: word_less_def)
  have "uint (1000000000 - tv_nsec s + tv_nsec e) = 1000000000 - uint (tv_nsec s) + uint (tv_nsec e)"
    if "uint (tv_nsec e) < uint (tv_nsec s)"
    using that assms by (simp add: uint_plus_if' uint_sub_if' )
  moreover have "uint (tv_nsec e - tv_nsec s) = uint (tv_nsec e) - uint (tv_nsec s)"
    if "\<not> uint (tv_nsec e) < uint (tv_nsec s)"
    using that by (simp add: uint_sub_if')
  moreover have "uint (tv_nsec e) - uint (tv_nsec s) < 1000000000"
    using assms uint_nonneg [of "tv_nsec s"] by linarith
  ultimately show "timespec_ns (Timespec_Subtract s e) = timespec_ns e - timespec_ns s"
    and "uint (tv_nsec (Timespec_Subtract s e)) < 1000000000"
    using assms lt by (auto simp: Timespec_Subtract_def timespec_ns_def tod_constants)
qed

lemma timespec_ns_inject:
  assumes "timespec_ns a = timespec_ns b"
    and "uint (tv_nsec a) < 1000000000" "uint (tv_nsec b) < 1000000000"
  shows "a = (b :: timespec)"
proof -
  have bounds: "0 \<le> uint (tv_nsec a)" "0 \<le> uint (tv_nsec b)" by simp_all
  from assms bounds have sec: "tv_sec a = tv_sec b" unfolding timespec_ns_def by linarith
  with assms(1) have "uint (tv_nsec a) = uint (tv_nsec b)" by (simp add: timespec_ns_def)
  then have "tv_nsec a = tv_nsec b" by (simp add: word_uint_eq_iff)
  with sec show ?thesis by (cases a; cases b) simp
qed

subsection \<open>Properties\<close>



text \<open>Subtracting two ordered valid times gives a valid time, and adding the difference back to
  the start restores the end.\<close>

theorem Timespec_Subtract_Add_to:
  assumes "Timespec_Is_valid (Some start)" "Timespec_Is_valid (Some end)"
    and "\<not> Timespec_Less_than end start"
  shows "Timespec_Is_valid (Some (Timespec_Subtract start end))
         \<and> fst (Timespec_Add_to start (Timespec_Subtract start end)) = end"
proof -
  have n: "uint (tv_nsec start) < 1000000000" "uint (tv_nsec end) < 1000000000"
    "0 \<le> tv_sec start" "0 \<le> tv_sec end"
    using assms(1,2) by (simp_all add: Timespec_Is_valid_Some)
  have "tv_nsec end <s tv_nsec start \<longleftrightarrow> uint (tv_nsec end) < uint (tv_nsec start)"
    using n sless_of_small [of "tv_nsec end" "tv_nsec start"] by (simp add: word_less_def)
  then have sec: "0 \<le> tv_sec (Timespec_Subtract start end)"
    using assms(3) n by (auto simp: Timespec_Less_than_def Timespec_Subtract_def split: if_splits)
  let ?d = "Timespec_Subtract start end"
  let ?sum = "start\<lparr>tv_sec := tv_sec start + tv_sec ?d, tv_nsec := tv_nsec start + tv_nsec ?d\<rparr>"
  obtain t s where ts: "Timespec_Add_to_loop ?sum (word_of_int (tv_sec ?d)) = (t, s)" by fastforce
  have "timespec_ns ?sum = timespec_ns start + timespec_ns ?d"
    using n Timespec_Subtract_ns(2) [OF n(1,2)] by (simp add: timespec_ns_def uint_nsec_add)
  then have "timespec_ns t = timespec_ns end" "uint (tv_nsec t) < 1000000000"
    using Timespec_Add_to_loop_spec [OF ts] Timespec_Subtract_ns(1) [OF n(1,2)] by simp_all
  then have "t = end" using n by (intro timespec_ns_inject)
  then show ?thesis
    using ts sec Timespec_Subtract_ns(2) [OF n(1,2)]
    by (simp add: Timespec_Is_valid_Some Timespec_Add_to_def)
qed

theorem Timespec_Subtract_Add_to_witness:
  "fst (Timespec_Add_to \<lparr>tv_sec = 1, tv_nsec = 900000000\<rparr>
     (Timespec_Subtract \<lparr>tv_sec = 1, tv_nsec = 900000000\<rparr> \<lparr>tv_sec = 3, tv_nsec = 5\<rparr>))
   = \<lparr>tv_sec = 3, tv_nsec = 5\<rparr>"
  using Timespec_Subtract_Add_to [of "\<lparr>tv_sec = 1, tv_nsec = 900000000\<rparr>" "\<lparr>tv_sec = 3, tv_nsec = 5\<rparr>"]
  by (simp add: Timespec_Is_valid_Some Timespec_Less_than_def)


lemma Timespec_Less_than_ns:
  assumes "Timespec_Is_valid (Some a)" "Timespec_Is_valid (Some b)"
  shows "Timespec_Less_than a b \<longleftrightarrow> timespec_ns a < timespec_ns b"
proof -
  have n: "uint (tv_nsec a) < 1000000000" "uint (tv_nsec b) < 1000000000"
    using assms by (simp_all add: Timespec_Is_valid_Some)
  then have "tv_nsec a <s tv_nsec b \<longleftrightarrow> uint (tv_nsec a) < uint (tv_nsec b)"
    using sless_of_small [of "tv_nsec a" "tv_nsec b"] by (simp add: word_less_def)
  with n uint_nonneg [of "tv_nsec a"] uint_nonneg [of "tv_nsec b"] show ?thesis
    unfolding Timespec_Less_than_def timespec_ns_def by (smt (verit))
qed

text \<open>The rounded-up quotient that \<open>_Timespec_To_ticks\<close> computes on the nanosecond part.\<close>

lemma uint_ticks_part:
  assumes "0 < uint (ns :: uint32)" "uint n < 1000000000"
    and "0 \<le> base" "base + 1000000000 div uint ns + 1 < 4294967296"
  shows "uint (let t = word_of_int base + n div ns in if n mod ns \<noteq> 0 then t + 1 else t)
         = base + (uint n + uint ns - 1) div uint ns"
proof -
  define q where "q = uint n div uint ns"
  have q: "0 \<le> q" "q \<le> 1000000000 div uint ns"
    using assms by (simp_all add: q_def zdiv_mono1 pos_imp_zdiv_nonneg_iff)
  have divmod: "uint (n div ns) = q" "uint (n mod ns) = uint n mod uint ns"
    by (simp_all add: uint_div uint_mod q_def)
  have "uint (word_of_int base + n div ns) = base + q"
    using assms q divmod by (simp add: uint_word_of_int uint_word_arith_bintrs take_bit_eq_mod)
  moreover have "uint (word_of_int base + n div ns + 1) = base + q + 1"
    using assms q divmod by (simp add: uint_word_of_int uint_word_arith_bintrs take_bit_eq_mod)
  moreover have "n mod ns = 0 \<longleftrightarrow> uint n mod uint ns = 0"
    by (simp add: divmod(2) [symmetric] word_uint_eq_iff)
  ultimately show ?thesis
    using ceil_div_int [OF assms(1), of "uint n"] by (simp add: Let_def q_def)
qed

text \<open>C10: With a tick that divides the second evenly and no 32-bit overflow, \<open>_Timespec_To_ticks\<close>
  returns the smallest number of ticks that is not shorter than the requested time.\<close>

theorem Timespec_To_ticks_ceiling:
  assumes valid: "Timespec_Is_valid (Some t)"
    and tick: "0 < uint us" "uint us dvd 1000000" "uint ns = 1000 * uint us"
    and small: "(tv_sec t + 1) * (1000000 div uint us) + 1 < 4294967296"
  shows "timespec_ns t \<le> uint (Timespec_To_ticks us ns t) * uint ns
         \<and> uint (Timespec_To_ticks us ns t) * uint ns < timespec_ns t + uint ns"
proof -
  define tps where "tps = 1000000 div uint us"
  have sec: "tps * uint ns = 1000000000" "0 < uint ns" "1000000000 div uint ns = tps"
    using tick unfolding tps_def by (auto simp: dvd_def)
  have tps: "uint (TOD_TICKS_PER_SECOND_method us) = tps" "0 \<le> tps"
    using tick(1) by (simp_all add: TOD_TICKS_PER_SECOND_method_def tod_constants uint_div tps_def
        pos_imp_zdiv_nonneg_iff)
  have n: "0 \<le> tv_sec t" "uint (tv_nsec t) < 1000000000"
    using valid by (simp_all add: Timespec_Is_valid_Some)
  let ?n = "uint (tv_nsec t)"
  have "uint (Timespec_To_ticks us ns t) = tv_sec t * tps + (?n + uint ns - 1) div uint ns"
  proof (cases "tv_sec t = 0 \<and> tv_nsec t = 0")
    case True
    then show ?thesis using sec by (simp add: Timespec_To_ticks_def div_pos_pos_trivial)
  next
    case False
    have "0 \<le> tv_sec t * tps" "tv_sec t * tps + 1000000000 div uint ns + 1 < 4294967296"
      using n tps sec small by (simp_all add: tps_def [symmetric] algebra_simps)
    from uint_ticks_part [OF sec(2) n(2) this] show ?thesis
      using False unfolding Timespec_To_ticks_def Let_def tps(1) by (simp only: if_False)
  qed
  then have "uint (Timespec_To_ticks us ns t) * uint ns
      = tv_sec t * 1000000000 + uint ns * ((?n + uint ns - 1) div uint ns)"
    by (simp add: sec(1) distrib_right mult.assoc)
  then show ?thesis
    using ceil_div_int_bounds [OF sec(2), of ?n] by (simp add: timespec_ns_def)
qed

theorem Timespec_To_ticks_ceiling_witness:
  "timespec_ns \<lparr>tv_sec = 3, tv_nsec = 10000001\<rparr>
     \<le> uint (Timespec_To_ticks 10000 10000000 \<lparr>tv_sec = 3, tv_nsec = 10000001\<rparr>) * 10000000"
  using Timespec_To_ticks_ceiling [of "\<lparr>tv_sec = 3, tv_nsec = 10000001\<rparr>" 10000 10000000]
  by (simp add: Timespec_Is_valid_Some)

text \<open>Without the divisibility hypothesis the result can be shorter than the request, although the
  comment in the source asks for the opposite: with 30 ms ticks one second becomes 33 ticks, 990 ms.\<close>

lemma Timespec_To_ticks_too_short:
  "uint (Timespec_To_ticks 30000 30000000 \<lparr>tv_sec = 1, tv_nsec = 0\<rparr>) * 30000000
     < timespec_ns \<lparr>tv_sec = 1, tv_nsec = 0\<rparr>"
  by (simp add: Timespec_To_ticks_def TOD_TICKS_PER_SECOND_method_def tod_constants timespec_ns_def)

end
