(* ===== verification/Score_Tod.thy ===== *)
theory Score_Tod
  imports Score_Timespec
begin

text \<open>
  The calendar arithmetic of the clock manager (\<^verbatim>\<open>src/librtems/rtems/clock\<close>): validation of a
  time of day, conversion to seconds since 1970, and the conversion back that
  \<open>rtems_clock_get_tod\<close> performs. All fields are \<open>uint32_t\<close>. The value \<open>now\<close> read from the
  timecounter is an argument. An access outside a table is undefined in C and is \<open>None\<close> here.
\<close>

record rtems_time_of_day =
  tod_year :: uint32
  tod_month :: uint32
  tod_day :: uint32
  tod_hour :: uint32
  tod_minute :: uint32
  tod_second :: uint32
  tod_ticks :: uint32

definition TOD_Days_per_month :: "uint32 list list" where
  "TOD_Days_per_month =
     [[0, 31, 28, 31, 30, 31, 30, 31, 31, 30, 31, 30, 31],
      [0, 31, 29, 31, 30, 31, 30, 31, 31, 30, 31, 30, 31]]"

definition TOD_Days_to_date :: "uint32 list list" where
  "TOD_Days_to_date =
     [[0, 0, 31, 59, 90, 120, 151, 181, 212, 243, 273, 304, 334],
      [0, 0, 31, 60, 91, 121, 152, 182, 213, 244, 274, 305, 335]]"

definition TOD_Days_since_last_leap_year :: "uint32 list" where
  "TOD_Days_since_last_leap_year = [0, 366, 731, 1096]"

definition TOD_SECONDS_PER_DAY :: uint32 where
  "TOD_SECONDS_PER_DAY = 86400"

definition TOD_SECONDS_1970_THROUGH_1988 :: uint32 where
  "TOD_SECONDS_1970_THROUGH_1988 = (1987 - 1970 + 1) * (365 * TOD_SECONDS_PER_DAY) + 4 * TOD_SECONDS_PER_DAY"

definition TOD_SECONDS_AT_2100_03_01_00_00 :: uint32 where
  "TOD_SECONDS_AT_2100_03_01_00_00 = 4107538800"

definition TOD_Validate :: "uint32 \<Rightarrow> rtems_time_of_day option \<Rightarrow> bool" where
  "TOD_Validate us_per_tick the_tod = (case the_tod of
     None \<Rightarrow> False
   | Some tod \<Rightarrow>
       let ticks_per_second = TOD_MICROSECONDS_PER_SECOND div us_per_tick
       in if tod_ticks tod \<ge> ticks_per_second \<or> tod_second tod \<ge> 60 \<or> tod_minute tod \<ge> 60 \<or> tod_hour tod \<ge> 24
             \<or> tod_month tod = 0 \<or> tod_month tod > 12 \<or> tod_year tod < 1988 \<or> tod_day tod = 0
          then False
          else let days_in_month =
                     (if (tod_year tod mod 4 = 0 \<and> tod_year tod mod 100 \<noteq> 0) \<or> tod_year tod mod 400 = 0
                      then TOD_Days_per_month ! 1 ! unat (tod_month tod)
                      else TOD_Days_per_month ! 0 ! unat (tod_month tod))
               in \<not> tod_day tod > days_in_month)"

definition TOD_To_seconds :: "rtems_time_of_day \<Rightarrow> uint32 option" where
  "TOD_To_seconds tod =
     (if tod_month tod > 12 then None
      else let time = tod_day tod - 1;
               year_mod_4 = and (tod_year tod) 3;
               time = (if year_mod_4 = 0
                       then time + TOD_Days_to_date ! 1 ! unat (tod_month tod)
                       else time + TOD_Days_to_date ! 0 ! unat (tod_month tod));
               time = time + ((tod_year tod - 1988) div 4) * (365 * 4 + 1);
               time = time + TOD_Days_since_last_leap_year ! unat year_mod_4;
               time = time * TOD_SECONDS_PER_DAY;
               time = time + ((tod_hour tod * 60) + tod_minute tod) * 60;
               time = time + tod_second tod;
               time = (if time \<ge> TOD_SECONDS_AT_2100_03_01_00_00 - TOD_SECONDS_1970_THROUGH_1988
                       then time - TOD_SECONDS_PER_DAY else time)
           in Some (time + TOD_SECONDS_1970_THROUGH_1988))"

definition Leap_year :: "uint32 \<Rightarrow> bool" where
  "Leap_year y = ((y mod 4 = 0 \<and> y mod 100 \<noteq> 0) \<or> y mod 400 = 0)"

definition Leap_years_before :: "uint32 \<Rightarrow> uint32" where
  "Leap_years_before y = (let y = y - 1 in y div 4 - y div 100 + y div 400)"

definition Leap_years_between :: "uint32 \<Rightarrow> uint32 \<Rightarrow> uint32" where
  "Leap_years_between from to = Leap_years_before to - Leap_years_before (from + 1)"

text \<open>The loop of \<open>_Year_day_as_month\<close>: \<open>days_to_date\<close> points at entry \<open>month + 2\<close> of the table.\<close>

function Year_day_as_month_loop :: "uint32 list \<Rightarrow> uint32 \<Rightarrow> uint32 \<Rightarrow> uint32" where
  "Year_day_as_month_loop days_to_date day month =
     (if month < 11
      then if day < days_to_date ! (unat month + 2) then month
           else Year_day_as_month_loop days_to_date day (month + 1)
      else month)"
  by pat_completeness auto
termination
  by (relation "measure (\<lambda>(t, day, month). 11 - unat month)")
     (auto simp: word_less_nat_alt unat_add_no_wrap)

declare Year_day_as_month_loop.simps [simp del]

text \<open>The returned month and the new value of \<open>*day\<close>.\<close>

definition Year_day_as_month :: "uint32 \<Rightarrow> uint32 \<Rightarrow> uint32 \<times> uint32" where
  "Year_day_as_month year day =
     (let days_to_date = (if Leap_year year then TOD_Days_to_date ! 1 else TOD_Days_to_date ! 0);
          month = Year_day_as_month_loop days_to_date day 0
      in (month, day - days_to_date ! (unat month + 1)))"

text \<open>\<open>time_buffer\<close> is the caller's buffer (a null pointer is \<open>None\<close>), \<open>is_set\<close> is
  \<open>_TOD.is_set\<close>, \<open>now_sec\<close> and \<open>now_usec\<close> are what \<open>_TOD_Get_timeval\<close> delivers.\<close>

definition rtems_clock_get_tod ::
  "uint32 \<Rightarrow> bool \<Rightarrow> uint32 \<times> uint32 \<Rightarrow> rtems_time_of_day option
     \<Rightarrow> rtems_status_code \<times> rtems_time_of_day option" where
  "rtems_clock_get_tod us_per_tick is_set now time_buffer = (case time_buffer of
     None \<Rightarrow> (RTEMS_INVALID_ADDRESS, None)
   | Some buf \<Rightarrow>
       if \<not> is_set then (RTEMS_NOT_DEFINED, Some buf)
       else
         let (now_sec, now_usec) = now;
             days = now_sec div 86400;
             day_secs = now_sec mod 86400;
             year = days div 365 + 1970;
             leap_years = Leap_years_between 1970 year;
             year_days = (days - leap_years) mod 365;
             (year, year_days) =
               (if leap_years > days mod 365
                then let year = year - 1
                     in (year, if Leap_year year then year_days + 1 else year_days)
                else (year, year_days));
             (mon, year_days) = Year_day_as_month year year_days;
             minute = day_secs mod 3600
         in (RTEMS_SUCCESSFUL,
             Some \<lparr>tod_year = year, tod_month = mon + 1, tod_day = year_days + 1, tod_hour = day_secs div 3600,
                   tod_minute = minute div 60, tod_second = minute mod 60,
                   tod_ticks = now_usec div us_per_tick\<rparr>))"


subsection \<open>The reference calendar\<close>

definition leap :: "nat \<Rightarrow> bool" where
  "leap y \<longleftrightarrow> (4 dvd y \<and> \<not> 100 dvd y) \<or> 400 dvd y"

definition month_length :: "bool \<Rightarrow> nat \<Rightarrow> nat" where
  "month_length lp m = (if m = 2 then (if lp then 29 else 28) else if m \<in> {4, 6, 9, 11} then 30 else 31)"

primrec days_to_year :: "nat \<Rightarrow> nat" where
  "days_to_year 0 = 0"
| "days_to_year (Suc n) = days_to_year n + (if leap (1970 + n) then 366 else 365)"

definition days_to_month :: "bool \<Rightarrow> nat \<Rightarrow> nat" where
  "days_to_month lp m = sum_list (map (month_length lp) [1..<m])"

definition calendar_seconds :: "rtems_time_of_day \<Rightarrow> nat" where
  "calendar_seconds tod =
     (days_to_year (unat (tod_year tod) - 1970)
       + days_to_month (leap (unat (tod_year tod))) (unat (tod_month tod))
       + (unat (tod_day tod) - 1)) * 86400
     + unat (tod_hour tod) * 3600 + unat (tod_minute tod) * 60 + unat (tod_second tod)"

definition calendar_date_ok :: "rtems_time_of_day \<Rightarrow> bool" where
  "calendar_date_ok tod \<longleftrightarrow>
     1970 \<le> unat (tod_year tod) \<and> unat (tod_month tod) \<in> {1..12}
     \<and> unat (tod_day tod) \<in> {1..month_length (leap (unat (tod_year tod))) (unat (tod_month tod))}
     \<and> unat (tod_hour tod) < 24 \<and> unat (tod_minute tod) < 60 \<and> unat (tod_second tod) < 60"

text \<open>Leap years before a year, as a closed form and as a count.\<close>

definition leaps_before :: "nat \<Rightarrow> nat" where
  "leaps_before y = (y - 1) div 4 - (y - 1) div 100 + (y - 1) div 400"

lemma leaps_before_Suc: "0 < y \<Longrightarrow> leaps_before (Suc y) = leaps_before y + (if leap y then 1 else 0)"
proof -
  assume "0 < y"
  then obtain m where m: "y = Suc m" by (cases y) auto
  have le: "m div 100 \<le> m div 4" by (rule div_le_mono2) simp_all
  have step: "Suc m div k = m div k + (if k dvd Suc m then 1 else 0)" if "0 < k" for k
    using that by (simp add: div_Suc dvd_eq_mod_eq_0)
  have "100 dvd Suc m \<Longrightarrow> 4 dvd Suc m" "400 dvd Suc m \<Longrightarrow> 100 dvd Suc m"
    by (rule dvd_trans [of _ 100], simp_all) (rule dvd_trans [of _ 400], simp_all)
  then show ?thesis
    using le step [of 4] step [of 100] step [of 400]
    unfolding m leaps_before_def leap_def by simp
qed

lemma leaps_before_mono: "y \<le> z \<Longrightarrow> 0 < y \<Longrightarrow> leaps_before y \<le> leaps_before z"
  by (induction z rule: dec_induct) (auto simp: leaps_before_Suc)

lemma leaps_before_1970: "leaps_before 1970 = 477"
  by (simp add: leaps_before_def)

lemma leaps_before_ge_477: "1970 \<le> y \<Longrightarrow> 477 \<le> leaps_before y"
  using leaps_before_mono [of 1970 y] by (simp add: leaps_before_1970)

lemma days_to_year_closed: "days_to_year n = 365 * n + (leaps_before (1970 + n) - 477)"
proof (induction n)
  case 0
  show ?case by (simp add: leaps_before_def)
next
  case (Suc n)
  have "477 \<le> leaps_before (1970 + n)" by (rule leaps_before_ge_477) simp
  with Suc leaps_before_Suc [of "1970 + n"] show ?case by simp
qed

lemma leaps_before_upto_2106: "y \<le> 2107 \<Longrightarrow> leaps_before y \<le> 511"
proof -
  assume "y \<le> 2107"
  then have "leaps_before y \<le> leaps_before 2107"
    by (cases "y = 0") (simp add: leaps_before_def, simp add: leaps_before_mono)
  also have "leaps_before 2107 \<le> 511" by (simp add: leaps_before_def)
  finally show ?thesis .
qed

subsection \<open>The source's tables and word functions against the reference calendar\<close>

lemma days_tables:
  assumes "m \<in> {1..12}"
  shows "unat (TOD_Days_to_date ! (if lp then 1 else 0) ! m) = days_to_month lp m"
    and "unat (TOD_Days_per_month ! (if lp then 1 else 0) ! m) = month_length lp m"
proof -
  have "m \<in> {1, 2, 3, 4, 5, 6, 7, 8, 9, 10, 11, 12}"
    using assms unfolding atLeastAtMost_iff insert_iff empty_iff by presburger
  then show "unat (TOD_Days_to_date ! (if lp then 1 else 0) ! m) = days_to_month lp m"
    and "unat (TOD_Days_per_month ! (if lp then 1 else 0) ! m) = month_length lp m"
    by (cases lp; elim insertE emptyE;
        simp add: TOD_Days_to_date_def TOD_Days_per_month_def days_to_month_def month_length_def upt_rec)+
qed

lemma Leap_year_nat: "Leap_year y \<longleftrightarrow> leap (unat y)"
  by (simp add: Leap_year_def leap_def eq_word_nat unat_mod_word dvd_eq_mod_eq_0)

lemma Leap_years_before_nat:
  assumes "0 < unat y"
  shows "unat (Leap_years_before y) = leaps_before (unat y)"
proof -
  have one: "unat (y - 1) = unat y - 1" using assms by (simp add: unat_sub_no_wrap)
  let ?m = "unat y - 1"
  have le: "?m div 100 \<le> ?m div 4" by (rule div_le_mono2) simp_all
  have sum: "?m div 4 - ?m div 100 + ?m div 400 < 4294967296"
    using unat_uint32_bound [of y] by linarith
  have "unat ((y - 1) div 4 - (y - 1) div 100) = ?m div 4 - ?m div 100"
    using le by (simp add: unat_sub_no_wrap unat_div_word one)
  moreover have "unat ((y - 1) div 400) = ?m div 400"
    by (simp add: unat_div_word one)
  ultimately show ?thesis
    using sum unat_add_no_wrap [of "(y - 1) div 4 - (y - 1) div 100" "(y - 1) div 400"]
    by (simp only: Leap_years_before_def leaps_before_def Let_def) simp
qed


lemma days_to_month_Suc: "1 \<le> m \<Longrightarrow> days_to_month lp (Suc m) = days_to_month lp m + month_length lp m"
  by (simp add: days_to_month_def)

lemma days_to_month_13: "days_to_month lp 13 = (if lp then 366 else 365)"
  by (simp add: days_to_month_def month_length_def upt_rec)

lemma days_table_nth:
  assumes "t = TOD_Days_to_date ! (if lp then 1 else 0)" "unat month \<le> 11"
  shows "unat (t ! (unat month + 1)) = days_to_month lp (unat month + 1)"
  using days_tables(1) [of "unat month + 1" lp] assms by simp

lemma Year_day_as_month_loop_spec:
  "unat month \<le> 11 \<Longrightarrow> t ! (unat month + 1) \<le> day \<Longrightarrow>
   Year_day_as_month_loop t day month = m \<Longrightarrow>
   unat m \<le> 11 \<and> t ! (unat m + 1) \<le> day \<and> (unat m < 11 \<longrightarrow> day < t ! (unat m + 2))"
proof (induction t day month rule: Year_day_as_month_loop.induct)
  case (1 t day month)
  show ?case
  proof (cases "month < 11 \<and> \<not> day < t ! (unat month + 2)")
    case True
    then have suc: "unat (month + 1) = unat month + 1"
      by (simp add: word_less_nat_alt unat_add_no_wrap)
    from True 1 suc show ?thesis
      by (simp add: Year_day_as_month_loop.simps [of t day month] word_less_nat_alt word_le_nat_alt not_less)
  next
    case False
    with 1 show ?thesis
      by (auto simp: Year_day_as_month_loop.simps [of t day month] word_less_nat_alt split: if_splits)
  qed
qed

lemma Year_day_as_month_spec:
  assumes yd: "unat yd < (if leap (unat y) then 366 else 365)"
    and res: "Year_day_as_month y yd = (m, d)"
  shows "unat m \<le> 11 \<and> days_to_month (leap (unat y)) (unat m + 1) + unat d = unat yd
         \<and> unat d < month_length (leap (unat y)) (unat m + 1)"
proof -
  define t where "t = TOD_Days_to_date ! (if leap (unat y) then 1 else 0)"
  have t: "(if Leap_year y then TOD_Days_to_date ! 1 else TOD_Days_to_date ! 0) = t"
    by (simp add: t_def Leap_year_nat)
  have m: "Year_day_as_month_loop t yd 0 = m" and d: "d = yd - t ! (unat m + 1)"
    using res by (auto simp: Year_day_as_month_def t Let_def)
  have "t ! (unat (0 :: uint32) + 1) \<le> yd"
    by (simp add: t_def TOD_Days_to_date_def)
  from Year_day_as_month_loop_spec [OF _ this m]
  have b: "unat m \<le> 11" "t ! (unat m + 1) \<le> yd" "unat m < 11 \<longrightarrow> yd < t ! (unat m + 2)" by simp_all
  have lo: "unat (t ! (unat m + 1)) = days_to_month (leap (unat y)) (unat m + 1)"
    using days_table_nth [OF t_def b(1)] .
  have hi: "unat yd < days_to_month (leap (unat y)) (unat m + 1) + month_length (leap (unat y)) (unat m + 1)"
  proof (cases "unat m < 11")
    case True
    then have "unat (t ! (unat m + 2)) = days_to_month (leap (unat y)) (unat m + 2)"
      using days_tables(1) [of "unat m + 2" "leap (unat y)"] by (simp add: t_def)
    with True b(3) show ?thesis
      using days_to_month_Suc [of "unat m + 1" "leap (unat y)"] by (simp add: word_less_nat_alt)
  next
    case False
    with b(1) have "unat m + 1 = 12" by simp
    with yd show ?thesis
      using days_to_month_Suc [of 12 "leap (unat y)"] days_to_month_13 [of "leap (unat y)"] by simp
  qed
  have "unat d = unat yd - unat (t ! (unat m + 1))"
    using b(2) by (simp add: d unat_sub_no_wrap word_le_nat_alt)
  with b lo hi show ?thesis by (simp add: word_le_nat_alt)
qed

text \<open>The year estimate of \<open>rtems_clock_get_tod\<close> on natural numbers: \<open>D\<close> days since 1970.\<close>

lemma year_estimate:
  fixes D :: nat
  assumes "D < 49711"
  defines "y \<equiv> D div 365 + 1970"
  defines "lp \<equiv> leaps_before y - 477"
  shows "lp \<le> D"
    and "lp \<le> D mod 365 \<Longrightarrow>
         D = days_to_year (y - 1970) + (D - lp) mod 365 \<and> (D - lp) mod 365 < 365"
    and "D mod 365 < lp \<Longrightarrow>
         1970 < y \<and> D = days_to_year (y - 1 - 1970) + ((D - lp) mod 365 + (if leap (y - 1) then 1 else 0))
         \<and> (D - lp) mod 365 < 365"
proof -
  define k r where "k = D div 365" and "r = D mod 365"
  have D: "D = 365 * k + r" "r < 365" by (simp_all add: k_def r_def)
  have y: "y = 1970 + k" by (simp add: y_def k_def)
  have "k \<le> 136" using assms(1) unfolding k_def by simp
  then have lp: "lp \<le> 34" using leaps_before_upto_2106 [of y] by (simp add: y lp_def)
  have lp0: "k = 0 \<Longrightarrow> lp = 0" by (simp add: lp_def y leaps_before_def)
  show "lp \<le> D" using D lp lp0 by (cases k) auto
  show "D = days_to_year (y - 1970) + (D - lp) mod 365 \<and> (D - lp) mod 365 < 365" if "lp \<le> D mod 365"
  proof -
    have le: "lp \<le> r" using that by (simp add: r_def)
    then have "D - lp = (r - lp) + 365 * k" using D by simp
    then have "(D - lp) mod 365 = (r - lp) mod 365" by (simp only: mod_mult_self2)
    then have "(D - lp) mod 365 = r - lp" using D(2) by simp
    then show ?thesis using D le by (simp add: y days_to_year_closed lp_def)
  qed
  show "1970 < y \<and> D = days_to_year (y - 1 - 1970) + ((D - lp) mod 365 + (if leap (y - 1) then 1 else 0))
         \<and> (D - lp) mod 365 < 365" if "D mod 365 < lp"
  proof -
    have lt: "r < lp" using that by (simp add: r_def)
    with lp0 obtain j where j: "k = Suc j" by (cases k) auto
    have "D - lp = (365 + r - lp) + 365 * j" using D j lp by simp
    then have "(D - lp) mod 365 = (365 + r - lp) mod 365" by (simp only: mod_mult_self2)
    then have md: "(D - lp) mod 365 = 365 + r - lp" using lt lp by simp
    have "477 \<le> leaps_before (1970 + j)" by (rule leaps_before_ge_477) simp
    moreover have "leaps_before (1970 + k) = leaps_before (1970 + j) + (if leap (1970 + j) then 1 else 0)"
      using leaps_before_Suc [of "1970 + j"] j by simp
    ultimately have lpj: "lp = leaps_before (1970 + j) - 477 + (if leap (1970 + j) then 1 else 0)"
      by (simp add: lp_def y)
    have yj: "y - 1 = 1970 + j" "y - 1 - 1970 = j" "1970 < y" by (simp_all add: y j)
    have "D = (365 * j + (leaps_before (1970 + j) - 477))
              + (365 + r - lp + (if leap (1970 + j) then 1 else 0))"
      using D(1) lt lp by (subst lpj, simp add: j, simp add: lpj)
    then show ?thesis
      unfolding yj(1) md using yj(3) lt lp days_to_year_closed [of j] by simp
  qed
qed


subsection \<open>Reading the clock\<close>

lemma get_tod_year_days:
  assumes "unat days < 49711"
  defines "yr \<equiv> days div 365 + 1970"
  defines "lps \<equiv> Leap_years_between 1970 yr"
  defines "yd \<equiv> (days - lps) mod 365"
  assumes res: "(y', yd') = (if lps > days mod 365
                 then (yr - 1, if Leap_year (yr - 1) then yd + 1 else yd) else (yr, yd))"
  shows "1970 \<le> unat y' \<and> unat days = days_to_year (unat y' - 1970) + unat yd'
         \<and> unat yd' < (if leap (unat y') then 366 else 365)"
proof -
  define D where "D = unat days"
  have yr: "unat yr = D div 365 + 1970"
    using assms(1) by (simp add: yr_def D_def unat_add_no_wrap unat_div_word)
  have b: "unat (Leap_years_before yr) = leaps_before (unat yr)"
    by (rule Leap_years_before_nat) (simp add: yr)
  have "477 \<le> leaps_before (unat yr)" by (rule leaps_before_ge_477) (simp add: yr)
  moreover have "Leap_years_before 1971 = 477"
    by (simp add: Leap_years_before_def)
  ultimately have lps: "unat lps = leaps_before (D div 365 + 1970) - 477"
    using b by (simp add: lps_def Leap_years_between_def unat_sub_no_wrap yr)
  note est = year_estimate [of D, folded lps]
  have D: "D < 49711" using assms(1) by (simp add: D_def)
  have yd: "unat yd = (D - unat lps) mod 365"
    using est(1) [OF D] by (simp add: yd_def D_def unat_mod_word unat_sub_no_wrap)
  have cond: "lps > days mod 365 \<longleftrightarrow> D mod 365 < unat lps"
    by (simp add: word_less_nat_alt unat_mod_word D_def)
  show ?thesis
  proof (cases "D mod 365 < unat lps")
    case True
    have y': "unat (yr - 1) = D div 365 + 1970 - 1" by (simp add: unat_sub_no_wrap yr)
    have "unat (yd + 1) = unat yd + 1"
      using yd by (simp add: unat_add_no_wrap less_trans [OF mod_less_divisor])
    with True cond res est(3) [OF D True] y' yd show ?thesis
      by (auto simp: Leap_year_nat D_def [symmetric])
  next
    case False
    with cond res est(2) [OF D] yr yd show ?thesis
      by (auto simp: D_def [symmetric])
  qed
qed

text \<open>C8: Once the time of day is set, \<open>rtems_clock_get_tod\<close> succeeds and returns, for every 32-bit
  number of seconds since 1970, the calendar date and time of day of exactly that second.\<close>

theorem rtems_clock_get_tod_calendar:
  assumes "rtems_clock_get_tod us_per_tick True (now_sec, now_usec) (Some buf) = (status, out)"
  shows "status = RTEMS_SUCCESSFUL \<and>
         (\<exists>tod. out = Some tod \<and> calendar_date_ok tod \<and> calendar_seconds tod = unat now_sec
                \<and> tod_ticks tod = now_usec div us_per_tick)"
proof -
  define days where "days = now_sec div 86400"
  define yr where "yr = days div 365 + 1970"
  define lps where "lps = Leap_years_between 1970 yr"
  define yd where "yd = (days - lps) mod 365"
  obtain y' yd' where yyd: "(y', yd') = (if lps > days mod 365
      then (yr - 1, if Leap_year (yr - 1) then yd + 1 else yd) else (yr, yd))"
    by (metis surj_pair)
  obtain m d where md: "Year_day_as_month y' yd' = (m, d)" by fastforce
  have days: "unat days < 49711"
    using unat_uint32_bound [of now_sec] by (simp add: days_def unat_div_word div_less_iff_less_mult)
  note Y = get_tod_year_days [OF days, folded yr_def, folded lps_def, folded yd_def, OF yyd]
  have M: "unat m \<le> 11" "days_to_month (leap (unat y')) (unat m + 1) + unat d = unat yd'"
    "unat d < month_length (leap (unat y')) (unat m + 1)"
    using Year_day_as_month_spec [OF _ md] Y by auto
  have md1: "unat (m + 1) = unat m + 1" "unat (d + 1) = unat d + 1"
    using M by (simp_all add: unat_add_no_wrap month_length_def split: if_splits)
  define tod where "tod = \<lparr>tod_year = y', tod_month = m + 1, tod_day = d + 1,
      tod_hour = now_sec mod 86400 div 3600, tod_minute = now_sec mod 86400 mod 3600 div 60,
      tod_second = now_sec mod 86400 mod 3600 mod 60, tod_ticks = now_usec div us_per_tick\<rparr>"
  have out: "status = RTEMS_SUCCESSFUL" "out = Some tod"
    using assms
    by (simp_all only: rtems_clock_get_tod_def option.case prod.case Let_def not_True_eq_False if_False
        days_def [symmetric] yr_def [symmetric] lps_def [symmetric] yd_def [symmetric]
        yyd [symmetric] md tod_def prod.inject)
  define S where "S = unat now_sec"
  have hms: "unat (tod_hour tod) = S mod 86400 div 3600" "unat (tod_minute tod) = S mod 86400 mod 3600 div 60"
    "unat (tod_second tod) = S mod 86400 mod 3600 mod 60"
    by (simp_all add: tod_def S_def unat_div_word unat_mod_word)
  have D: "unat days = S div 86400" by (simp add: days_def S_def unat_div_word)
  have "calendar_seconds tod = (S div 86400) * 86400 + S mod 86400 div 3600 * 3600
      + S mod 86400 mod 3600 div 60 * 60 + S mod 86400 mod 3600 mod 60"
    unfolding calendar_seconds_def hms using Y M md1 D by (simp add: tod_def)
  also have "\<dots> = S" by presburger
  finally have "calendar_seconds tod = S" .
  moreover have "calendar_date_ok tod"
    unfolding calendar_date_ok_def hms using Y M md1
    by (simp add: tod_def div_less_iff_less_mult)
  ultimately show ?thesis using out by (simp add: S_def tod_def)
qed

theorem rtems_clock_get_tod_calendar_witness:
  "\<exists>tod. snd (rtems_clock_get_tod 10000 True (4107542399, 20000) (Some undefined)) = Some tod
         \<and> calendar_seconds tod = 4107542399"
proof -
  obtain st out where r: "rtems_clock_get_tod 10000 True (4107542399, 20000) (Some undefined) = (st, out)"
    by fastforce
  from rtems_clock_get_tod_calendar [OF r] r show ?thesis by auto
qed


subsection \<open>Setting the clock\<close>

lemma TOD_Validate_calendar:
  assumes "TOD_Validate us (Some tod)"
  shows "calendar_date_ok tod \<and> 1988 \<le> unat (tod_year tod)"
proof -
  have nz: "0 < unat (tod_month tod)" "0 < unat (tod_day tod)" "unat (tod_month tod) \<le> 12"
    and hms: "unat (tod_hour tod) < 24" "unat (tod_minute tod) < 60" "unat (tod_second tod) < 60"
      "1988 \<le> unat (tod_year tod)"
    using assms unat_gt_0 [of "tod_month tod"] unat_gt_0 [of "tod_day tod"]
    by (auto simp: TOD_Validate_def Let_def word_le_nat_alt word_less_nat_alt not_le not_less
        split: if_splits)
  have "(tod_year tod mod 4 = 0 \<and> tod_year tod mod 100 \<noteq> 0 \<or> tod_year tod mod 400 = 0)
        \<longleftrightarrow> leap (unat (tod_year tod))"
    using Leap_year_nat [of "tod_year tod"] by (simp add: Leap_year_def)
  then have "tod_day tod \<le> TOD_Days_per_month ! (if leap (unat (tod_year tod)) then 1 else 0) ! unat (tod_month tod)"
    using assms by (auto simp: TOD_Validate_def Let_def not_less split: if_splits)
  then have "unat (tod_day tod) \<le> month_length (leap (unat (tod_year tod))) (unat (tod_month tod))"
    using days_tables(2) [of "unat (tod_month tod)" "leap (unat (tod_year tod))"] nz
    by (simp add: word_le_nat_alt)
  with nz hms show ?thesis by (simp add: calendar_date_ok_def)
qed

lemma days_to_year_source:
  assumes "1988 \<le> y" "y \<le> 2106"
  shows "(y - 1988) div 4 * 1461 + [0, 366, 731, 1096] ! (y mod 4) + 6574
         = days_to_year (y - 1970) + (if 2100 < y then 1 else 0)"
proof -
  have cent: "(y - 1) div 100 = (if y \<le> 2000 then 19 else if y \<le> 2100 then 20 else 21)"
    "(y - 1) div 400 = (if y \<le> 2000 then 4 else 5)"
    using assms by (auto intro!: div_nat_eqI)
  have four: "(y - 1988) div 4 * 1461 + [0, 366, 731, 1096] ! (y mod 4) + 6574 + 492
              = 365 * (y - 1970) + (y - 1) div 4"
  proof -
    obtain q where q: "y = 4 * q \<or> y = 4 * q + 1 \<or> y = 4 * q + 2 \<or> y = 4 * q + 3"
      by (rule that [of "y div 4"]) presburger
    with assms(1) have "497 \<le> q" by linarith
    then obtain p where p: "q = p + 497" using le_Suc_ex [of 497 q] by (auto simp: add.commute)
    show ?thesis using q unfolding p by (elim disjE) simp_all
  qed
  define A where "A = (y - 1) div 4"
  have "1987 div 4 \<le> A" unfolding A_def by (rule div_le_mono) (use assms in simp)
  then have A: "496 \<le> A" by simp
  have "leaps_before y = (if y \<le> 2100 then A - 15 else A - 16)"
    using cent A unfolding leaps_before_def A_def [symmetric] by (auto split: if_splits)
  then have "days_to_year (y - 1970) = 365 * (y - 1970) + ((if y \<le> 2100 then A - 15 else A - 16) - 477)"
    using assms by (simp add: days_to_year_closed)
  moreover have "X + 6574 = Y + (A - 15 - 477)" "X + 6574 = Y + (A - 16 - 477) + 1"
    if "X + 6574 + 492 = Y + A" for X Y
    using that A by simp_all
  from this [OF four [folded A_def]] assms
  have "(y - 1988) div 4 * 1461 + [0, 366, 731, 1096] ! (y mod 4) + 6574
        = 365 * (y - 1970) + ((if y \<le> 2100 then A - 15 else A - 16) - 477) + (if 2100 < y then 1 else 0)"
    by (simp only: not_le split: if_split) simp
  ultimately show ?thesis by simp
qed


lemma days_to_year_mono: "m \<le> n \<Longrightarrow> days_to_year m \<le> days_to_year n"
  by (induction n rule: dec_induct) simp_all

lemma days_to_month_mono: "m \<le> n \<Longrightarrow> 1 \<le> m \<Longrightarrow> days_to_month lp m \<le> days_to_month lp n"
  by (induction n rule: dec_induct) (simp_all add: days_to_month_Suc)

lemma days_to_month_le:
  assumes "m \<in> {1..12}" "d \<le> month_length lp m"
  shows "days_to_month lp m + d \<le> (if lp then 366 else 365)"
proof -
  have "days_to_month lp (Suc m) \<le> days_to_month lp 13"
    using assms(1) by (intro days_to_month_mono) auto
  then show ?thesis using assms days_to_month_Suc [of m lp] days_to_month_13 [of lp] by simp
qed


text \<open>The correction the source applies from March 2100 on.\<close>

definition after_feb_2100 :: "rtems_time_of_day \<Rightarrow> bool" where
  "after_feb_2100 tod \<longleftrightarrow> 2100 < unat (tod_year tod) \<or> (unat (tod_year tod) = 2100 \<and> 2 < unat (tod_month tod))"

definition calendar_days :: "rtems_time_of_day \<Rightarrow> nat" where
  "calendar_days tod = days_to_year (unat (tod_year tod) - 1970)
     + days_to_month (leap (unat (tod_year tod))) (unat (tod_month tod)) + (unat (tod_day tod) - 1)"

lemma calendar_seconds_days:
  assumes "calendar_date_ok tod"
  shows "calendar_days tod * 86400 \<le> calendar_seconds tod"
    and "calendar_seconds tod < (calendar_days tod + 1) * 86400"
proof -
  have "calendar_seconds tod = calendar_days tod * 86400 + unat (tod_hour tod) * 3600
      + unat (tod_minute tod) * 60 + unat (tod_second tod)"
    by (simp add: calendar_seconds_def calendar_days_def)
  moreover have "unat (tod_hour tod) < 24" "unat (tod_minute tod) < 60" "unat (tod_second tod) < 60"
    using assms by (simp_all add: calendar_date_ok_def)
  ultimately show "calendar_days tod * 86400 \<le> calendar_seconds tod"
    and "calendar_seconds tod < (calendar_days tod + 1) * 86400"
    by (simp_all add: distrib_right)
qed

lemma calendar_days_in_year:
  assumes "calendar_date_ok tod"
  shows "days_to_year (unat (tod_year tod) - 1970) \<le> calendar_days tod"
    and "calendar_days tod < days_to_year (Suc (unat (tod_year tod) - 1970))"
  using assms days_to_month_le [of "unat (tod_month tod)" "unat (tod_day tod)" "leap (unat (tod_year tod))"]
  unfolding calendar_days_def calendar_date_ok_def by auto

lemma days_to_year_values:
  "days_to_year 130 = 47482" "days_to_year 131 = 47847" "days_to_year 137 = 50038"
  by (simp_all add: days_to_year_closed leaps_before_def)

lemma leap_2100: "\<not> leap 2100"
  by (simp add: leap_def)

lemma after_feb_2100_iff:
  assumes ok: "calendar_date_ok tod"
  shows "after_feb_2100 tod \<longleftrightarrow> 4107542400 \<le> calendar_seconds tod"
proof -
  let ?y = "unat (tod_year tod)" and ?m = "unat (tod_month tod)"
  have day: "after_feb_2100 tod \<longleftrightarrow> 47541 \<le> calendar_days tod"
  proof (cases "?y = 2100")
    case True
    have "days_to_month False 3 = 59" by (simp add: days_to_month_def month_length_def upt_rec)
    then have "2 < ?m \<Longrightarrow> 59 \<le> days_to_month False ?m"
      using days_to_month_mono [of 3 ?m False] by simp
    moreover have "?m \<le> 2 \<Longrightarrow> days_to_month False ?m + (unat (tod_day tod) - 1) < 59"
    proof -
      assume "?m \<le> 2"
      with ok have "?m = 1 \<or> ?m = 2" by (auto simp: calendar_date_ok_def)
      with ok True show ?thesis
        by (auto simp: calendar_date_ok_def leap_2100 month_length_def days_to_month_def upt_rec)
    qed
    ultimately show ?thesis
      using True by (cases "2 < ?m")
        (auto simp: after_feb_2100_def calendar_days_def days_to_year_values leap_2100)
  next
    case False
    show ?thesis
    proof (cases "2100 < ?y")
      case True
      then have "days_to_year 131 \<le> days_to_year (?y - 1970)" by (intro days_to_year_mono) simp
      with True calendar_days_in_year [OF ok] show ?thesis
        by (simp add: after_feb_2100_def days_to_year_values)
    next
      case no: False
      with False have "days_to_year (Suc (?y - 1970)) \<le> days_to_year 130" by (intro days_to_year_mono) simp
      with no False calendar_days_in_year [OF ok] show ?thesis
        by (simp add: after_feb_2100_def days_to_year_values)
    qed
  qed
  show ?thesis unfolding day using calendar_seconds_days [OF ok] by auto
qed

lemma days_source:
  assumes ok: "calendar_date_ok tod" and y: "1988 \<le> unat (tod_year tod)" "unat (tod_year tod) \<le> 2106"
  shows "(unat (tod_day tod) - 1) + days_to_month (4 dvd unat (tod_year tod)) (unat (tod_month tod))
         + ((unat (tod_year tod) - 1988) div 4 * 1461 + [0, 366, 731, 1096] ! (unat (tod_year tod) mod 4)) + 6574
       = calendar_days tod + (if after_feb_2100 tod then 1 else 0)"
proof -
  let ?y = "unat (tod_year tod)" and ?m = "unat (tod_month tod)"
  have "days_to_month (4 dvd ?y) ?m = days_to_month (leap ?y) ?m + (if ?y = 2100 \<and> 2 < ?m then 1 else 0)"
  proof (cases "?y = 2100")
    case True
    have "?m \<in> {1, 2, 3, 4, 5, 6, 7, 8, 9, 10, 11, 12}"
      using ok unfolding calendar_date_ok_def atLeastAtMost_iff insert_iff empty_iff by presburger
    then show ?thesis
      unfolding True by (elim insertE emptyE;
          simp add: leap_2100 days_to_month_def month_length_def upt_rec)
  next
    case False
    have "100 dvd ?y \<Longrightarrow> ?y = 2000"
      using y False by (auto elim!: dvdE)
    with False have "leap ?y \<longleftrightarrow> 4 dvd ?y" by (auto simp: leap_def elim: dvd_trans [rotated])
    with False show ?thesis by simp
  qed
  with days_to_year_source [OF y] show ?thesis
    by (auto simp: calendar_days_def after_feb_2100_def)
qed


lemma TOD_To_seconds_word:
  assumes ok: "calendar_date_ok tod" and y: "1988 \<le> unat (tod_year tod)"
    and raw: "raw = ((unat (tod_day tod) - 1) + days_to_month (4 dvd unat (tod_year tod)) (unat (tod_month tod))
         + ((unat (tod_year tod) - 1988) div 4 * 1461 + [0, 366, 731, 1096] ! (unat (tod_year tod) mod 4))) * 86400
         + (unat (tod_hour tod) * 60 + unat (tod_minute tod)) * 60 + unat (tod_second tod)"
  shows "TOD_To_seconds tod = Some ((if (of_nat raw :: uint32) \<ge> 3539545200 then of_nat raw - 86400 else of_nat raw)
           + 567993600)"
proof -
  let ?y = "unat (tod_year tod)" and ?m = "unat (tod_month tod)"
  have m: "?m \<in> {1..12}" and d: "1 \<le> unat (tod_day tod)"
    using ok by (auto simp: calendar_date_ok_def)
  have m12: "\<not> tod_month tod > 12" using m by (simp add: word_less_nat_alt)
  have d1: "tod_day tod - 1 = of_nat (unat (tod_day tod) - 1)"
    using d by (simp add: of_nat_diff)
  have ym: "and (tod_year tod) 3 = of_nat (?y mod 4)"
    by (simp add: eq_word_nat unat_and_3 unat_of_nat)
  have ym4: "(of_nat (?y mod 4) :: uint32) = 0 \<longleftrightarrow> 4 dvd ?y"
    by (simp add: eq_word_nat unat_of_nat dvd_eq_mod_eq_0)
  have table: "(if 4 dvd ?y then t + TOD_Days_to_date ! 1 ! ?m else t + TOD_Days_to_date ! 0 ! ?m)
      = t + of_nat (days_to_month (4 dvd ?y) ?m)" for t
    by (simp add: days_tables(1) [OF m, symmetric])
  have "(?y - 1988) div 4 < 4294967296" using unat_uint32_bound [of "tod_year tod"] by linarith
  then have yd: "(tod_year tod - 1988) div 4 = of_nat ((?y - 1988) div 4)"
    using y by (simp add: eq_word_nat unat_div_word unat_sub_no_wrap unat_of_nat)
  have since: "TOD_Days_since_last_leap_year ! (?y mod 4) = of_nat ([0, 366, 731, 1096] ! (?y mod 4))"
  proof -
    have "?y mod 4 \<in> {0, 1, 2, 3}" by (simp; presburger)
    then show ?thesis by (auto simp: TOD_Days_since_last_leap_year_def)
  qed
  have idx: "unat (of_nat (?y mod 4) :: uint32) = ?y mod 4" by (simp add: unat_of_nat)
  have sum: "(of_nat (unat (tod_day tod) - 1) + of_nat (days_to_month (4 dvd ?y) ?m)
        + of_nat ((?y - 1988) div 4) * (365 * 4 + 1) + of_nat ([0, 366, 731, 1096] ! (?y mod 4))) * 86400
        + (tod_hour tod * 60 + tod_minute tod) * 60 + tod_second tod = (of_nat raw :: uint32)"
    unfolding raw by (simp add: add.assoc)
  show ?thesis
    unfolding TOD_To_seconds_def Let_def d1 ym yd ym4 table idx since TOD_SECONDS_PER_DAY_def
      TOD_SECONDS_1970_THROUGH_1988_def TOD_SECONDS_AT_2100_03_01_00_00_def sum
    by (simp add: m12)
qed


text \<open>C7: For every validated time of day that a 32-bit count of seconds can express,
  \<open>_TOD_To_seconds\<close> returns the number of seconds from 1970 to that date, except in the last hour of
  28 February 2100, where it is one day short (the constant for 1 March 2100 is one hour too small).\<close>

theorem TOD_To_seconds_calendar:
  assumes valid: "TOD_Validate us_per_tick (Some tod)"
    and fits: "calendar_seconds tod < 4294967296"
  shows "\<exists>w. TOD_To_seconds tod = Some w \<and>
           unat w = (if calendar_seconds tod \<in> {4107538800..<4107542400}
                     then calendar_seconds tod - 86400 else calendar_seconds tod)"
proof -
  have ok: "calendar_date_ok tod" and y1: "1988 \<le> unat (tod_year tod)"
    using TOD_Validate_calendar [OF valid] by simp_all
  have y2: "unat (tod_year tod) \<le> 2106"
  proof (rule ccontr)
    assume "\<not> ?thesis"
    then have "days_to_year 137 \<le> days_to_year (unat (tod_year tod) - 1970)"
      by (intro days_to_year_mono) simp
    then show False
      using calendar_days_in_year(1) [OF ok] calendar_seconds_days(1) [OF ok] fits
      by (simp add: days_to_year_values)
  qed
  define cs where "cs = calendar_seconds tod"
  define E :: nat where "E = (if after_feb_2100 tod then 1 else 0)"
  define rd where "rd = (unat (tod_day tod) - 1) + days_to_month (4 dvd unat (tod_year tod)) (unat (tod_month tod))
         + ((unat (tod_year tod) - 1988) div 4 * 1461 + [0, 366, 731, 1096] ! (unat (tod_year tod) mod 4))"
  define raw where "raw = rd * 86400
         + (unat (tod_hour tod) * 60 + unat (tod_minute tod)) * 60 + unat (tod_second tod)"
  have "rd + 6574 = calendar_days tod + E"
    using days_source [OF ok y1 y2] by (simp add: rd_def E_def)
  then have rel: "raw + 567993600 = cs + E * 86400"
    by (simp add: raw_def cs_def calendar_seconds_def calendar_days_def E_def split: if_splits)
  have E: "E = 1 \<and> 4107542400 \<le> cs \<or> E = 0 \<and> cs < 4107542400"
    using after_feb_2100_iff [OF ok] by (simp add: E_def cs_def not_le)
  have w: "TOD_To_seconds tod = Some ((if (of_nat raw :: uint32) \<ge> 3539545200 then of_nat raw - 86400 else of_nat raw)
           + 567993600)"
    by (rule TOD_To_seconds_word [OF ok y1]) (simp add: raw_def rd_def)
  have "raw < 4294967296" using rel E fits by (auto simp: cs_def)
  then have r: "unat (of_nat raw :: uint32) = raw" by (simp add: unat_of_nat)
  show ?thesis
  proof (cases "3539545200 \<le> raw")
    case True
    then have "unat (of_nat raw - 86400 :: uint32) = raw - 86400"
      using r by (simp add: unat_sub_no_wrap)
    with True r rel E fits w show ?thesis
      by (auto simp: word_le_nat_alt unat_add_no_wrap cs_def)
  next
    case False
    with r rel E fits w show ?thesis
      by (auto simp: word_le_nat_alt unat_add_no_wrap cs_def)
  qed
qed

theorem TOD_To_seconds_calendar_witness:
  "\<exists>w. TOD_To_seconds \<lparr>tod_year = 2100, tod_month = 2, tod_day = 28, tod_hour = 23, tod_minute = 30,
         tod_second = 0, tod_ticks = 0\<rparr> = Some w \<and> unat w = 4107454200"
  using TOD_To_seconds_calendar [of 10000 "\<lparr>tod_year = 2100, tod_month = 2, tod_day = 28, tod_hour = 23,
      tod_minute = 30, tod_second = 0, tod_ticks = 0\<rparr>"]
  by (simp add: TOD_Validate_def calendar_seconds_def days_to_year_values leap_2100 days_to_month_def
      month_length_def upt_rec TOD_Days_per_month_def tod_constants)

end
