(* ===== verification/Score_Chain.thy ===== *)
theory Score_Chain
  imports Rtems_Prelude "HOL-Library.Multiset"
begin

text \<open>
  The chains of the SuperCore (\<^verbatim>\<open>src/librtems/score/chain\<close> and the inline routines of
  \<^verbatim>\<open>src/include/rtems/score/chainimpl.h\<close>): doubly linked lists whose control block holds the head and
  the tail node overlapped. The memory is a function from 32-bit addresses to 32-bit cells. A node at
  address \<open>n\<close> has its \<open>next\<close> field in cell \<open>n\<close> and its \<open>previous\<close> field in cell \<open>n + 4\<close>. A chain
  control at address \<open>c\<close> has three cells: its head node is at \<open>c\<close>, its tail node at \<open>c + 4\<close>, so that
  the cell \<open>c + 4\<close> is both \<open>Head.previous\<close> and \<open>Tail.next\<close>, permanently null. Aliasing is therefore
  the aliasing of the C program.

  The first part is the model, one definition per routine; the second relates a chain to the list of
  its nodes (\<open>chain_rep\<close>) and shows that every routine implements the list operation it stands for.
  Interrupt locking around the routines is the identity on a single processor with interrupts
  disabled: the protected and unprotected variants of the source are one definition here.
\<close>

type_synonym addr = uint32
type_synonym mem = "addr \<Rightarrow> addr"

abbreviation NULL :: addr where
  "NULL \<equiv> 0"

subsection \<open>Operations\<close>

definition Chain_Next :: "mem \<Rightarrow> addr \<Rightarrow> addr" where
  [score_defs]: "Chain_Next m n = m n"

definition Chain_Previous :: "mem \<Rightarrow> addr \<Rightarrow> addr" where
  [score_defs]: "Chain_Previous m n = m (n + 4)"

definition set_next :: "mem \<Rightarrow> addr \<Rightarrow> addr \<Rightarrow> mem" where
  [score_defs]: "set_next m n v = m(n := v)"

definition set_previous :: "mem \<Rightarrow> addr \<Rightarrow> addr \<Rightarrow> mem" where
  [score_defs]: "set_previous m n v = m(n + 4 := v)"

definition Chain_Head :: "addr \<Rightarrow> addr" where
  [score_defs]: "Chain_Head c = c"

definition Chain_Tail :: "addr \<Rightarrow> addr" where
  [score_defs]: "Chain_Tail c = c + 4"

definition Chain_First :: "mem \<Rightarrow> addr \<Rightarrow> addr" where
  [score_defs]: "Chain_First m c = Chain_Next m (Chain_Head c)"

definition Chain_Last :: "mem \<Rightarrow> addr \<Rightarrow> addr" where
  [score_defs]: "Chain_Last m c = Chain_Previous m (Chain_Tail c)"

definition Chain_Is_empty :: "mem \<Rightarrow> addr \<Rightarrow> bool" where
  [score_defs]: "Chain_Is_empty m c = (Chain_First m c = Chain_Tail c)"

definition Chain_Is_first :: "mem \<Rightarrow> addr \<Rightarrow> bool" where
  "Chain_Is_first m n = (Chain_Previous m (Chain_Previous m n) = NULL)"

definition Chain_Is_last :: "mem \<Rightarrow> addr \<Rightarrow> bool" where
  "Chain_Is_last m n = (Chain_Next m (Chain_Next m n) = NULL)"

definition Chain_Has_only_one_node :: "mem \<Rightarrow> addr \<Rightarrow> bool" where
  "Chain_Has_only_one_node m c = (Chain_First m c = Chain_Last m c)"

definition Chain_Initialize_empty :: "mem \<Rightarrow> addr \<Rightarrow> mem" where
  "Chain_Initialize_empty m c =
     (let head = Chain_Head c; tail = Chain_Tail c;
          m = set_next m head tail;
          m = set_previous m head NULL
      in set_previous m tail head)"

text \<open>The loop of \<open>_Chain_Initialize\<close> over the remaining \<open>count\<close> (here \<open>k\<close>), then the routine: \<open>number_nodes\<close>
  nodes of \<open>node_size\<close> bytes from \<open>starting_address\<close> on.\<close>

primrec Chain_Initialize_loop :: "nat \<Rightarrow> addr \<Rightarrow> mem \<Rightarrow> addr \<Rightarrow> addr \<Rightarrow> mem \<times> addr" where
  "Chain_Initialize_loop 0 node_size m current nxt = (m, current)"
| "Chain_Initialize_loop (Suc k) node_size m current nxt =
     Chain_Initialize_loop k node_size
       (set_previous (set_next m current nxt) nxt current) nxt (nxt + node_size)"

definition Chain_Initialize :: "mem \<Rightarrow> addr \<Rightarrow> addr \<Rightarrow> uint32 \<Rightarrow> uint32 \<Rightarrow> mem" where
  "Chain_Initialize m c starting_address number_nodes node_size =
     (let head = Chain_Head c; tail = Chain_Tail c;
          m = set_previous m head NULL;
          (m, current) = Chain_Initialize_loop (unat number_nodes) node_size m head starting_address;
          m = set_next m current tail
      in set_previous m tail current)"

definition Chain_Extract :: "mem \<Rightarrow> addr \<Rightarrow> mem" where
  "Chain_Extract m the_node =
     (let nxt = Chain_Next m the_node;
          previous = Chain_Previous m the_node;
          m = set_previous m nxt previous
      in set_next m previous nxt)"

definition Chain_Get_first_unprotected :: "mem \<Rightarrow> addr \<Rightarrow> mem \<times> addr" where
  "Chain_Get_first_unprotected m c =
     (let head = Chain_Head c;
          old_first = Chain_Next m head;
          new_first = Chain_Next m old_first;
          m = set_next m head new_first
      in (set_previous m new_first head, old_first))"

definition Chain_Get :: "mem \<Rightarrow> addr \<Rightarrow> mem \<times> addr" where
  "Chain_Get m c = (if \<not> Chain_Is_empty m c then Chain_Get_first_unprotected m c else (m, NULL))"

definition Chain_Insert :: "mem \<Rightarrow> addr \<Rightarrow> addr \<Rightarrow> mem" where
  "Chain_Insert m after_node the_node =
     (let m = set_previous m the_node after_node;
          before_node = Chain_Next m after_node;
          m = set_next m after_node the_node;
          m = set_next m the_node before_node
      in set_previous m before_node the_node)"

definition Chain_Append :: "mem \<Rightarrow> addr \<Rightarrow> addr \<Rightarrow> mem" where
  "Chain_Append m c the_node =
     (let tail = Chain_Tail c;
          old_last = Chain_Previous m tail;
          m = set_next m the_node tail;
          m = set_previous m tail the_node;
          m = set_next m old_last the_node
      in set_previous m the_node old_last)"

definition Chain_Prepend :: "mem \<Rightarrow> addr \<Rightarrow> addr \<Rightarrow> mem" where
  "Chain_Prepend m c the_node = Chain_Insert m (Chain_Head c) the_node"

definition Chain_Append_with_empty_check :: "mem \<Rightarrow> addr \<Rightarrow> addr \<Rightarrow> mem \<times> bool" where
  "Chain_Append_with_empty_check m c the_node =
     (let was_empty = Chain_Is_empty m c in (Chain_Append m c the_node, was_empty))"

definition Chain_Prepend_with_empty_check :: "mem \<Rightarrow> addr \<Rightarrow> addr \<Rightarrow> mem \<times> bool" where
  "Chain_Prepend_with_empty_check m c the_node =
     (let was_empty = Chain_Is_empty m c in (Chain_Prepend m c the_node, was_empty))"

text \<open>The new memory, \<open>*the_node\<close> and the returned flag.\<close>

definition Chain_Get_with_empty_check :: "mem \<Rightarrow> addr \<Rightarrow> mem \<times> addr \<times> bool" where
  "Chain_Get_with_empty_check m c =
     (let head = Chain_Head c; tail = Chain_Tail c;
          old_first = Chain_Next m head
      in if old_first \<noteq> tail
         then let new_first = Chain_Next m old_first;
                  m = set_next m head new_first;
                  m = set_previous m new_first head
              in (m, old_first, new_first = tail)
         else (m, NULL, True))"

text \<open>The loops over a chain may run forever on a memory that is no chain: \<open>None\<close>.\<close>

partial_function (option) Chain_Node_count_loop :: "mem \<Rightarrow> addr \<Rightarrow> addr \<Rightarrow> uint32 \<Rightarrow> uint32 option" where
  "Chain_Node_count_loop m tail node cnt =
     (if node \<noteq> tail then Chain_Node_count_loop m tail (Chain_Next m node) (cnt + 1) else Some cnt)"

definition Chain_Node_count :: "mem \<Rightarrow> addr \<Rightarrow> uint32 option" where
  "Chain_Node_count m c = Chain_Node_count_loop m (Chain_Tail c) (Chain_First m c) 0"

partial_function (option) Chain_Insert_ordered_loop ::
  "(addr \<Rightarrow> addr \<Rightarrow> bool) \<Rightarrow> mem \<Rightarrow> addr \<Rightarrow> addr \<Rightarrow> addr \<Rightarrow> addr option" where
  "Chain_Insert_ordered_loop order m tail to_insert nxt =
     (if nxt \<noteq> tail \<and> \<not> order to_insert nxt
      then Chain_Insert_ordered_loop order m tail to_insert (Chain_Next m nxt) else Some nxt)"

definition Chain_Insert_ordered ::
  "(addr \<Rightarrow> addr \<Rightarrow> bool) \<Rightarrow> mem \<Rightarrow> addr \<Rightarrow> addr \<Rightarrow> mem option" where
  "Chain_Insert_ordered order m c to_insert =
     (case Chain_Insert_ordered_loop order m (Chain_Tail c) to_insert (Chain_First m c) of
        None \<Rightarrow> None
      | Some nxt \<Rightarrow> Some (Chain_Insert m (Chain_Previous m nxt) to_insert))"

subsection \<open>Chains as lists\<close>

fun linked :: "mem \<Rightarrow> addr list \<Rightarrow> bool" where
  "linked m (a # b # ns) \<longleftrightarrow> m a = b \<and> m (b + 4) = a \<and> linked m (b # ns)"
| "linked m ns \<longleftrightarrow> True"

definition chain_cells :: "addr \<Rightarrow> addr list \<Rightarrow> addr list" where
  "chain_cells c ns = c # (c + 4) # (c + 8) # ns @ map ((+) 4) ns"

definition chain_rep :: "mem \<Rightarrow> addr \<Rightarrow> addr list \<Rightarrow> bool" where
  "chain_rep m c ns \<longleftrightarrow> distinct (chain_cells c ns) \<and> NULL \<notin> set ns \<and> m (c + 4) = NULL
     \<and> linked m (c # ns @ [c + 4])"

lemma linked_append: "linked m (xs @ a # ys) \<longleftrightarrow> linked m (xs @ [a]) \<and> linked m (a # ys)"
proof (induction xs)
  case (Cons x xs)
  then show ?case by (cases xs) auto
qed simp

lemma linked_cong:
  assumes "\<And>x. x \<in> set (butlast ns) \<Longrightarrow> m x = m' x" "\<And>x. x \<in> set (tl ns) \<Longrightarrow> m (x + 4) = m' (x + 4)"
  shows "linked m ns = linked m' ns"
  using assms
proof (induction m ns rule: linked.induct)
  case (1 m a b ns)
  from 1(2) [of a] 1(3) [of b] have "m a = m' a" "m (b + 4) = m' (b + 4)" by simp_all
  moreover have "linked m (b # ns) = linked m' (b # ns)"
  proof (rule 1(1))
    fix x assume "x \<in> set (butlast (b # ns))"
    then show "m x = m' x" using 1(2) [of x] by simp
  next
    fix x assume "x \<in> set (tl (b # ns))"
    then show "m (x + 4) = m' (x + 4)" using 1(3) [of x] by simp
  qed
  ultimately show ?case by simp
qed simp_all


text \<open>Linking a node between two neighbours, and unlinking it.\<close>

lemma add4_neq [simp]: "(x :: addr) + 4 \<noteq> x" "x \<noteq> x + 4"
  by simp_all

lemma linked_cong_snoc:
  assumes "\<And>x. x \<in> set ns \<Longrightarrow> m x = m' x" "\<And>x. x \<in> set (ns @ [a]) \<Longrightarrow> m (x + 4) = m' (x + 4)"
  shows "linked m (ns @ [a]) = linked m' (ns @ [a])"
  by (rule linked_cong) (use assms in \<open>auto dest: list.set_sel(2) [rotated]\<close>)

lemma linked_cong_Cons:
  assumes "\<And>x. x \<in> set (a # ns) \<Longrightarrow> m x = m' x" "\<And>x. x \<in> set ns \<Longrightarrow> m (x + 4) = m' (x + 4)"
  shows "linked m (a # ns) = linked m' (a # ns)"
  by (rule linked_cong) (use assms in \<open>auto dest: in_set_butlastD split: if_splits\<close>)

lemma linked_splice:
  assumes "linked m (pre @ a # b # post)" "distinct (pre @ a # b # post)"
    and fresh: "n \<notin> set (pre @ a # b # post)" "n + 4 \<notin> set (pre @ a # b # post)"
      "b + 4 \<notin> set (pre @ a # b # post)" "\<forall>x \<in> set (pre @ a # b # post). x + 4 \<noteq> n \<and> x + 4 \<noteq> a"
    and m': "m' = m(n + 4 := a, a := n, n := b, b + 4 := n)"
  shows "linked m' (pre @ a # n # b # post)"
proof -
  have L: "linked m (pre @ [a])" "linked m (b # post)"
    using assms(1) linked_append [of m pre a "b # post"] by (cases post; simp)+
  have "linked m (pre @ [a]) = linked m' (pre @ [a])"
    by (rule linked_cong_snoc) (use fresh assms(2) in \<open>auto simp: m'\<close>)
  moreover have "linked m (b # post) = linked m' (b # post)"
    by (rule linked_cong_Cons) (use fresh assms(2) in \<open>auto simp: m'\<close>)
  moreover have "m' a = n" "m' (n + 4) = a" "m' n = b" "m' (b + 4) = n"
    using fresh assms(2) by (auto simp: m')
  ultimately show ?thesis
    using L linked_append [of m' pre a "n # b # post"] by simp
qed

lemma linked_unsplice:
  assumes "linked m (pre @ a # n # b # post)" "distinct (pre @ a # b # post)"
    and cells: "b + 4 \<notin> set (pre @ a # b # post)" "\<forall>x \<in> set (pre @ a # b # post). x + 4 \<noteq> a"
    and m': "m' = m(b + 4 := a, a := b)"
  shows "linked m' (pre @ a # b # post)"
proof -
  have L: "linked m (pre @ [a])" "linked m (b # post)"
    using assms(1) linked_append [of m pre a "n # b # post"] by (cases post; simp)+
  have "linked m (pre @ [a]) = linked m' (pre @ [a])"
    by (rule linked_cong_snoc) (use cells assms(2) in \<open>auto simp: m'\<close>)
  moreover have "linked m (b # post) = linked m' (b # post)"
    by (rule linked_cong_Cons) (use cells assms(2) in \<open>auto simp: m'\<close>)
  moreover have "m' a = b" "m' (b + 4) = a" using cells by (auto simp: m')
  ultimately show ?thesis
    using L linked_append [of m' pre a "b # post"] by simp
qed

text \<open>The cells of a chain, spelled out.\<close>

lemma chain_cells_distinct:
  "distinct (chain_cells c ns) \<longleftrightarrow>
     distinct ns \<and> c \<notin> set ns \<and> c + 4 \<notin> set ns \<and> c + 8 \<notin> set ns
     \<and> (\<forall>x \<in> set ns. x + 4 \<noteq> c \<and> x + 4 \<noteq> c + 4 \<and> x + 4 \<noteq> c + 8 \<and> x + 4 \<notin> set ns)"
  by (auto simp: chain_cells_def distinct_map inj_on_def add.commute [of _ "4 :: addr"])

lemma tail_cells [simp]: "(c :: addr) + 4 + 4 = c + 8" "c + 8 \<noteq> c" "c \<noteq> c + 8" "c + 8 \<noteq> c + 4" "c + 4 \<noteq> c + 8"
  by (simp_all add: add.assoc)

definition fresh_node :: "addr \<Rightarrow> addr list \<Rightarrow> addr \<Rightarrow> bool" where
  "fresh_node c ns n \<longleftrightarrow> n \<noteq> NULL \<and> n \<notin> set (chain_cells c ns) \<and> n + 4 \<notin> set (chain_cells c ns)"

lemma fresh_node_cells:
  "fresh_node c ns n \<longleftrightarrow> n \<noteq> NULL \<and> n \<noteq> c \<and> n \<noteq> c + 4 \<and> n \<noteq> c + 8 \<and> n + 4 \<noteq> c \<and> n + 4 \<noteq> c + 8
     \<and> n \<notin> set ns \<and> n + 4 \<notin> set ns \<and> (\<forall>x \<in> set ns. n \<noteq> x + 4)"
  by (auto simp: fresh_node_def chain_cells_def add.commute [of _ "4 :: addr"])

lemma chain_rep_insert:
  assumes rep: "chain_rep m c (xs @ ys)" and new: "fresh_node c (xs @ ys) n"
    and a: "a = last (c # xs)" and b: "b = hd (ys @ [c + 4])"
  shows "chain_rep (m(n + 4 := a, a := n, n := b, b + 4 := n)) c (xs @ n # ys)"
proof -
  let ?m = "m(n + 4 := a, a := n, n := b, b + 4 := n)"
  define pre where "pre = butlast (c # xs)"
  define post where "post = tl (ys @ [c + 4])"
  have ends: "pre @ [a] = c # xs" "b # post = ys @ [c + 4]"
    by (simp_all only: pre_def post_def a b append_butlast_last_id list.distinct list.collapse
        append_is_Nil_conv simp_thms)
  have list: "c # (xs @ ys) @ [c + 4] = pre @ a # b # post"
    using arg_cong2 [OF ends, of append] by simp
  have D: "distinct (chain_cells c (xs @ ys))" and nul: "NULL \<notin> set (xs @ ys)" "m (c + 4) = NULL"
    and lk: "linked m (pre @ a # b # post)"
    using rep by (simp_all add: chain_rep_def list [symmetric])
  note D' = D [unfolded chain_cells_distinct] and new' = new [unfolded fresh_node_cells]
  have a_in: "a = c \<or> a \<in> set (xs @ ys)" and b_in: "b = c + 4 \<or> b \<in> set (xs @ ys)"
    unfolding a b by (cases xs rule: rev_cases; auto) (cases ys; auto)
  have mem: "set (pre @ a # b # post) = insert c (insert (c + 4) (set (xs @ ys)))"
    unfolding list [symmetric] by auto
  have dist: "distinct (pre @ a # b # post)"
    unfolding list [symmetric] using D' by auto
  have "linked ?m (pre @ a # n # b # post)"
  proof (rule linked_splice [OF lk dist _ _ _ _ refl])
    show "n \<notin> set (pre @ a # b # post)" "n + 4 \<notin> set (pre @ a # b # post)"
      unfolding mem using new' by simp_all
    show "b + 4 \<notin> set (pre @ a # b # post)"
      unfolding mem using b_in D' by (elim disjE) simp_all
    show "\<forall>x \<in> set (pre @ a # b # post). x + 4 \<noteq> n \<and> x + 4 \<noteq> a"
      unfolding mem using a_in D' new' by (elim disjE) auto
  qed
  moreover have "pre @ a # n # b # post = c # (xs @ n # ys) @ [c + 4]"
    using arg_cong2 [OF ends, of "\<lambda>u v. u @ n # v"] by simp
  moreover have "?m (c + 4) = NULL"
    using D' new' a_in b_in nul by auto
  moreover have "distinct (chain_cells c (xs @ n # ys))"
    unfolding chain_cells_distinct using D' new' by auto
  ultimately show ?thesis using nul new' by (simp add: chain_rep_def)
qed


lemma chain_rep_neighbours:
  assumes rep: "chain_rep m c (xs @ n # ys)"
  shows "m n = hd (ys @ [c + 4])" and "m (n + 4) = last (c # xs)"
proof -
  have lk: "linked m ((c # xs) @ n # (ys @ [c + 4]))" using rep by (simp add: chain_rep_def)
  then have "linked m ((c # xs) @ [n])" "linked m (n # ys @ [c + 4])"
    using linked_append [of m "c # xs" n "ys @ [c + 4]"] by blast+
  then show "m n = hd (ys @ [c + 4])"
    by (cases ys) simp_all
  have "linked m (butlast (c # xs) @ [last (c # xs)] @ [n])"
    using \<open>linked m ((c # xs) @ [n])\<close>
    by (metis append.assoc append_butlast_last_id list.distinct(1))
  then show "m (n + 4) = last (c # xs)"
    using linked_append [of m "butlast (c # xs)" "last (c # xs)" "[n]"] by simp
qed

lemma chain_rep_extract:
  assumes rep: "chain_rep m c (xs @ n # ys)"
    and a: "a = last (c # xs)" and b: "b = hd (ys @ [c + 4])"
  shows "chain_rep (m(b + 4 := a, a := b)) c (xs @ ys)"
proof -
  define pre where "pre = butlast (c # xs)"
  define post where "post = tl (ys @ [c + 4])"
  have ends: "pre @ [a] = c # xs" "b # post = ys @ [c + 4]"
    by (simp_all only: pre_def post_def a b append_butlast_last_id list.distinct list.collapse
        append_is_Nil_conv simp_thms)
  have list: "c # (xs @ n # ys) @ [c + 4] = pre @ a # n # b # post"
    using arg_cong2 [OF ends, of "\<lambda>u v. u @ n # v"] by simp
  have list': "c # (xs @ ys) @ [c + 4] = pre @ a # b # post"
    using arg_cong2 [OF ends, of append] by simp
  note D = rep [unfolded chain_rep_def chain_cells_distinct]
  have a_in: "a = c \<or> a \<in> set (xs @ ys)" and b_in: "b = c + 4 \<or> b \<in> set (xs @ ys)"
    unfolding a b by (cases xs rule: rev_cases; auto) (cases ys; auto)
  have mem: "set (pre @ a # b # post) = insert c (insert (c + 4) (set (xs @ ys)))"
    unfolding list' [symmetric] by auto
  have "linked (m(b + 4 := a, a := b)) (pre @ a # b # post)"
  proof (rule linked_unsplice [OF _ _ _ _ refl])
    show "linked m (pre @ a # n # b # post)" using D by (simp add: list [symmetric])
    show "distinct (pre @ a # b # post)" unfolding list' [symmetric] using D by auto
    show "b + 4 \<notin> set (pre @ a # b # post)"
      unfolding mem using b_in D by (elim disjE) simp_all
    show "\<forall>x \<in> set (pre @ a # b # post). x + 4 \<noteq> a"
      unfolding mem using a_in D by (elim disjE) auto
  qed
  moreover have "(m(b + 4 := a, a := b)) (c + 4) = NULL"
    using D a_in b_in by auto
  moreover have "distinct (chain_cells c (xs @ ys))" "NULL \<notin> set (xs @ ys)"
    unfolding chain_cells_distinct using D by auto
  ultimately show ?thesis by (simp add: chain_rep_def list' [symmetric])
qed

subsection \<open>Every routine implements its list operation\<close>

lemma Chain_Initialize_empty_rep: "chain_rep (Chain_Initialize_empty m c) c []"
  by (simp add: chain_rep_def chain_cells_def Chain_Initialize_empty_def score_defs)

lemma Chain_Is_empty_rep: "chain_rep m c ns \<Longrightarrow> Chain_Is_empty m c \<longleftrightarrow> ns = []"
  by (cases ns) (auto simp: chain_rep_def score_defs chain_cells_def)

lemma Chain_First_rep: "chain_rep m c ns \<Longrightarrow> Chain_First m c = hd (ns @ [c + 4])"
  by (cases ns) (auto simp: chain_rep_def score_defs)

lemma Chain_Last_rep:
  assumes "chain_rep m c ns"
  shows "Chain_Last m c = last (c # ns)"
proof -
  have "linked m (butlast (c # ns) @ [last (c # ns)] @ [c + 4])"
    using assms unfolding chain_rep_def
    by (metis append.assoc append_Cons append_butlast_last_id list.distinct(1))
  then show ?thesis
    using linked_append [of m "butlast (c # ns)" "last (c # ns)" "[c + 4]"]
    by (simp add: score_defs)
qed

lemma Chain_Insert_rep:
  assumes rep: "chain_rep m c (xs @ ys)" and new: "fresh_node c (xs @ ys) n"
    and a: "a = last (c # xs)"
  shows "chain_rep (Chain_Insert m a n) c (xs @ n # ys)"
proof -
  have "m a = hd (ys @ [c + 4])"
  proof (cases xs rule: rev_cases)
    case Nil
    then show ?thesis using rep a by (cases ys) (simp_all add: chain_rep_def)
  next
    case (snoc zs z)
    then show ?thesis using chain_rep_neighbours(1) [of m c zs z ys] rep a by simp
  qed
  moreover have "a \<noteq> n + 4"
    using new a by (cases xs rule: rev_cases) (auto simp: fresh_node_cells)
  ultimately have "Chain_Insert m a n = m(n + 4 := a, a := n, n := hd (ys @ [c + 4]), hd (ys @ [c + 4]) + 4 := n)"
    by (simp add: Chain_Insert_def score_defs Let_def)
  then show ?thesis using chain_rep_insert [OF rep new a refl] by simp
qed

lemma Chain_Prepend_rep:
  "chain_rep m c ns \<Longrightarrow> fresh_node c ns n \<Longrightarrow> chain_rep (Chain_Prepend m c n) c (n # ns)"
  using Chain_Insert_rep [of m c "[]" ns n c] by (simp add: Chain_Prepend_def Chain_Head_def)

lemma upd4_reorder:
  assumes "d = e" "a \<noteq> n" "a \<noteq> p" "a \<noteq> d" "n \<noteq> d" "p \<noteq> d" "n \<noteq> p"
  shows "m(n := v, d := w, a := x, p := y) = m(p := y, a := x, n := v, e := w)"
proof
  fix i
  show "(m(n := v, d := w, a := x, p := y)) i = (m(p := y, a := x, n := v, e := w)) i"
    using assms by (cases "i = n"; cases "i = d"; cases "i = a"; cases "i = p"; simp)
qed

lemma Chain_Append_rep:
  assumes rep: "chain_rep m c ns" and new: "fresh_node c ns n"
  shows "chain_rep (Chain_Append m c n) c (ns @ [n])"
proof -
  let ?a = "last (c # ns)"
  have l: "m (c + 8) = ?a" using Chain_Last_rep [OF rep] by (simp add: score_defs)
  have neq: "?a \<noteq> n" "?a \<noteq> n + 4" "?a \<noteq> c + 8" "n \<noteq> c + 8" "n + 4 \<noteq> c + 8"
    using new rep last_in_set [of "c # ns"]
    by (auto simp: fresh_node_cells chain_rep_def chain_cells_distinct)
  have "Chain_Append m c n = m(n := c + 4, c + 8 := n, ?a := n, n + 4 := ?a)"
    using l neq by (simp add: Chain_Append_def score_defs Let_def)
  also have "\<dots> = m(n + 4 := ?a, ?a := n, n := c + 4, c + 4 + 4 := n)"
    by (rule upd4_reorder) (use neq in simp_all)
  finally have "Chain_Append m c n = m(n + 4 := ?a, ?a := n, n := c + 4, c + 4 + 4 := n)" .
  then show ?thesis
    using chain_rep_insert [of m c ns "[]" n ?a "c + 4"] rep new by simp
qed

lemma Chain_Extract_rep:
  assumes "chain_rep m c (xs @ n # ys)"
  shows "chain_rep (Chain_Extract m n) c (xs @ ys)"
  using chain_rep_extract [OF assms refl refl] chain_rep_neighbours [OF assms]
  by (simp add: Chain_Extract_def score_defs Let_def)

lemma Chain_Get_rep_Nil: "chain_rep m c [] \<Longrightarrow> Chain_Get m c = (m, NULL)"
  by (simp add: Chain_Get_def Chain_Is_empty_rep)

lemma Chain_Get_rep_Cons:
  assumes "chain_rep m c (n # ns)" "Chain_Get m c = (m', r)"
  shows "r = n \<and> chain_rep m' c ns"
proof -
  have first: "m c = n" and nx: "m n = hd (ns @ [c + 4])"
    using assms(1) chain_rep_neighbours(1) [of m c "[]" n ns] by (simp_all add: chain_rep_def)
  have ne: "hd (ns @ [c + 4]) + 4 \<noteq> c" "n \<noteq> c + 4"
    using assms(1) by (cases ns; auto simp: chain_rep_def chain_cells_distinct)+
  have "Chain_Get m c = (m(hd (ns @ [c + 4]) + 4 := c, c := hd (ns @ [c + 4])), n)"
    using first nx ne
    by (simp add: Chain_Get_def Chain_Get_first_unprotected_def score_defs Let_def fun_upd_twist)
  then show ?thesis
    using assms(2) chain_rep_extract [of m c "[]" n ns c] assms(1) by simp
qed

lemma Chain_Get_with_empty_check_Get:
  "Chain_Get_with_empty_check m c =
     (let (m', n) = Chain_Get m c in (m', n, Chain_Is_empty m c \<or> Chain_Next m n = Chain_Tail c))"
  by (simp add: Chain_Get_with_empty_check_def Chain_Get_def Chain_Get_first_unprotected_def score_defs Let_def)

lemma Chain_Append_with_empty_check_rep:
  assumes "chain_rep m c ns" "fresh_node c ns n" "Chain_Append_with_empty_check m c n = (m', was_empty)"
  shows "chain_rep m' c (ns @ [n]) \<and> (was_empty \<longleftrightarrow> ns = [])"
  using assms Chain_Append_rep Chain_Is_empty_rep by (auto simp: Chain_Append_with_empty_check_def Let_def)

lemma Chain_Prepend_with_empty_check_rep:
  assumes "chain_rep m c ns" "fresh_node c ns n" "Chain_Prepend_with_empty_check m c n = (m', was_empty)"
  shows "chain_rep m' c (n # ns) \<and> (was_empty \<longleftrightarrow> ns = [])"
  using assms Chain_Prepend_rep Chain_Is_empty_rep by (auto simp: Chain_Prepend_with_empty_check_def Let_def)

text \<open>The loops over a chain end: they walk the list of its nodes.\<close>

lemma Chain_Node_count_loop_suffix:
  "chain_rep m c (xs @ ys) \<Longrightarrow>
   Chain_Node_count_loop m (c + 4) (hd (ys @ [c + 4])) k = Some (k + of_nat (length ys))"
proof (induction ys arbitrary: xs k)
  case Nil
  then show ?case by (simp add: Chain_Node_count_loop.simps)
next
  case (Cons y ys)
  have "y \<noteq> c + 4" using Cons.prems by (auto simp: chain_rep_def chain_cells_distinct)
  moreover have "m y = hd (ys @ [c + 4])" using chain_rep_neighbours(1) [OF Cons.prems] .
  moreover have "Chain_Node_count_loop m (c + 4) (hd (ys @ [c + 4])) (k + 1)
      = Some (k + 1 + of_nat (length ys))"
    using Cons.IH [of "xs @ [y]" "k + 1"] Cons.prems by simp
  ultimately show ?case
    by (subst Chain_Node_count_loop.simps) (simp add: Chain_Next_def add.assoc)
qed

lemma Chain_Node_count_rep: "chain_rep m c ns \<Longrightarrow> Chain_Node_count m c = Some (of_nat (length ns))"
  using Chain_Node_count_loop_suffix [of m c "[]" ns 0] Chain_First_rep [of m c ns]
  by (simp add: Chain_Node_count_def Chain_Tail_def)

lemma Chain_Insert_ordered_loop_suffix:
  "chain_rep m c (xs @ ys) \<Longrightarrow>
   Chain_Insert_ordered_loop order m (c + 4) n (hd (ys @ [c + 4]))
     = Some (hd (dropWhile (\<lambda>y. \<not> order n y) ys @ [c + 4]))"
proof (induction ys arbitrary: xs)
  case Nil
  then show ?case by (simp add: Chain_Insert_ordered_loop.simps)
next
  case (Cons y ys)
  have "y \<noteq> c + 4" using Cons.prems by (auto simp: chain_rep_def chain_cells_distinct)
  moreover have "m y = hd (ys @ [c + 4])" using chain_rep_neighbours(1) [OF Cons.prems] .
  moreover note Cons.IH [of "xs @ [y]"] Cons.prems
  ultimately show ?case
    by (subst Chain_Insert_ordered_loop.simps) (simp add: Chain_Next_def)
qed

lemma Chain_Previous_rep:
  "chain_rep m c (xs @ ys) \<Longrightarrow> Chain_Previous m (hd (ys @ [c + 4])) = last (c # xs)"
  using chain_rep_neighbours(2) [of m c xs "hd ys" "tl ys"] Chain_Last_rep [of m c "xs"]
  by (cases ys) (simp_all add: score_defs)

lemma Chain_Insert_ordered_rep:
  assumes rep: "chain_rep m c ns" and new: "fresh_node c ns n"
  shows "\<exists>m'. Chain_Insert_ordered order m c n = Some m' \<and>
    chain_rep m' c (takeWhile (\<lambda>y. \<not> order n y) ns @ n # dropWhile (\<lambda>y. \<not> order n y) ns)"
proof -
  let ?xs = "takeWhile (\<lambda>y. \<not> order n y) ns" and ?ys = "dropWhile (\<lambda>y. \<not> order n y) ns"
  have "Chain_Insert_ordered_loop order m (c + 4) n (Chain_First m c) = Some (hd (?ys @ [c + 4]))"
    using Chain_Insert_ordered_loop_suffix [of m c "[]" ns order n] Chain_First_rep [OF rep] rep by simp
  then have "Chain_Insert_ordered order m c n = Some (Chain_Insert m (last (c # ?xs)) n)"
    using Chain_Previous_rep [of m c ?xs ?ys] rep
    by (simp add: Chain_Insert_ordered_def Chain_Tail_def)
  moreover have "chain_rep (Chain_Insert m (last (c # ?xs)) n) c (?xs @ n # ?ys)"
    by (rule Chain_Insert_rep) (use rep new in simp_all)
  ultimately show ?thesis by blast
qed

text \<open>\<open>_Chain_Initialize\<close> threads the nodes of an array in address order.\<close>

primrec node_array :: "addr \<Rightarrow> addr \<Rightarrow> nat \<Rightarrow> addr list" where
  "node_array a sz 0 = []"
| "node_array a sz (Suc k) = a # node_array (a + sz) sz k"

lemma Chain_Initialize_loop_linked:
  assumes "linked m (pre @ [cur])" "Chain_Initialize_loop k sz m cur a = (m', cur')"
    and "ns = node_array a sz k"
    and "distinct (pre @ cur # ns)" "\<forall>x \<in> set ns. x + 4 \<notin> set (pre @ cur # ns)"
    and "\<forall>x \<in> set (pre @ [cur]). \<forall>y \<in> set (cur # ns). x + 4 \<noteq> y"
  shows "linked m' (pre @ cur # ns) \<and> cur' = last (cur # ns)
    \<and> (\<forall>x. x \<notin> set (cur # ns) \<and> (\<forall>y \<in> set ns. x \<noteq> y + 4) \<longrightarrow> m' x = m x)"
  using assms
proof (induction k arbitrary: m pre cur a ns)
  case (Suc k)
  define m1 where "m1 = set_previous (set_next m cur a) a cur"
  let ?ns = "node_array (a + sz) sz k"
  have ns: "ns = a # ?ns" using Suc.prems(3) by simp
  have step: "Chain_Initialize_loop k sz m1 a (a + sz) = (m', cur')"
    using Suc.prems(2) by (simp add: m1_def)
  have "linked m (pre @ [cur]) = linked m1 (pre @ [cur])"
  proof (rule linked_cong_snoc)
    fix x assume "x \<in> set pre"
    then show "m x = m1 x" using Suc.prems(4-6) by (auto simp: m1_def score_defs ns)
  next
    fix x assume "x \<in> set (pre @ [cur])"
    then show "m (x + 4) = m1 (x + 4)" using Suc.prems(4-6) by (auto simp: m1_def score_defs ns)
  qed
  then have same: "linked m1 (pre @ [cur])" using Suc.prems(1) by simp
  have link: "m1 cur = a" "m1 (a + 4) = cur"
    using Suc.prems(5) by (auto simp: m1_def score_defs ns)
  have L1: "linked m1 ((pre @ [cur]) @ [a])"
    using same link linked_append [of m1 pre cur "[a]"] by simp
  have IH: "linked m' ((pre @ [cur]) @ a # ?ns) \<and> cur' = last (a # ?ns)
    \<and> (\<forall>x. x \<notin> set (a # ?ns) \<and> (\<forall>y \<in> set ?ns. x \<noteq> y + 4) \<longrightarrow> m' x = m1 x)"
    by (rule Suc.IH [OF L1 step refl]) (use Suc.prems(4-6) in \<open>auto simp: ns\<close>)
  moreover have "m1 x = m x" if "x \<noteq> cur" "x \<noteq> a + 4" for x
    using that by (simp add: m1_def score_defs)
  ultimately show ?case by (auto simp: ns)
qed simp

lemma Chain_Initialize_rep:
  assumes ns: "ns = node_array a sz (unat k)" and cells: "distinct (chain_cells c ns)" "NULL \<notin> set ns"
  shows "chain_rep (Chain_Initialize m c a k sz) c ns"
proof -
  note D = cells(1) [unfolded chain_cells_distinct]
  define m0 where "m0 = set_previous m c NULL"
  obtain m1 cur where loop: "Chain_Initialize_loop (unat k) sz m0 c a = (m1, cur)" by fastforce
  have res: "Chain_Initialize m c a k sz = set_previous (set_next m1 cur (c + 4)) (c + 4) cur"
    using loop by (simp add: Chain_Initialize_def Chain_Head_def Chain_Tail_def m0_def Let_def)
  have "linked m1 ([] @ c # ns) \<and> cur = last (c # ns)
    \<and> (\<forall>x. x \<notin> set (c # ns) \<and> (\<forall>y \<in> set ns. x \<noteq> y + 4) \<longrightarrow> m1 x = m0 x)"
    by (rule Chain_Initialize_loop_linked [OF _ loop ns]) (use D in auto)
  then have L: "linked m1 (c # ns)" and cur: "cur = last (c # ns)"
    and frame: "\<forall>x. x \<notin> set (c # ns) \<and> (\<forall>y \<in> set ns. x \<noteq> y + 4) \<longrightarrow> m1 x = m0 x" by auto
  let ?m = "m1(cur := c + 4, c + 8 := cur)"
  have cur_in: "cur = c \<or> cur \<in> set ns" using cur by (cases ns rule: rev_cases) auto
  have split: "c # ns = butlast (c # ns) @ [cur]" unfolding cur by (rule append_butlast_last_id [symmetric]) simp
  have dist: "cur \<notin> set (butlast (c # ns))"
  proof -
    have "distinct (butlast (c # ns) @ [cur])" unfolding split [symmetric] using D by simp
    then show ?thesis by simp
  qed
  have "linked m1 (butlast (c # ns) @ [cur]) = linked ?m (butlast (c # ns) @ [cur])"
  proof (rule linked_cong_snoc)
    fix x assume x: "x \<in> set (butlast (c # ns))"
    then have "x \<in> set (c # ns)" by (rule in_set_butlastD)
    then show "m1 x = ?m x" using dist x D by auto
  next
    fix x assume "x \<in> set (butlast (c # ns) @ [cur])"
    then have "x \<in> set (c # ns)" using split by metis
    then show "m1 (x + 4) = ?m (x + 4)" using D cur_in by auto
  qed
  then have "linked ?m (butlast (c # ns) @ [cur])" using L split by simp
  moreover have "linked ?m (cur # [c + 4])" using cur_in D by auto
  ultimately have "linked ?m (butlast (c # ns) @ cur # [c + 4])"
    using linked_append by blast
  moreover have "c # ns @ [c + 4] = butlast (c # ns) @ cur # [c + 4]"
    using arg_cong [OF split, of "\<lambda>l. l @ [c + 4]"] by (simp only: append.assoc append_Cons append_Nil)
  ultimately have "linked ?m (c # ns @ [c + 4])" by (simp only:)
  moreover have "m1 (c + 4) = NULL"
    using frame [rule_format, of "c + 4"] D by (auto simp: m0_def score_defs)
  then have "?m (c + 4) = NULL" using cur_in D by auto
  ultimately show ?thesis using cells by (simp add: chain_rep_def res score_defs)
qed


subsection \<open>What the routines leave alone\<close>

lemma chain_rep_cong:
  assumes "\<forall>x \<in> set (chain_cells c ns). m x = m' x"
  shows "chain_rep m c ns = chain_rep m' c ns"
proof -
  have "linked m (c # ns @ [c + 4]) = linked m' (c # ns @ [c + 4])"
    by (rule linked_cong) (use assms in \<open>auto simp: chain_cells_def butlast_append add.commute [of 4]\<close>)
  moreover have "m (c + 4) = m' (c + 4)" using assms by (simp add: chain_cells_def)
  ultimately show ?thesis by (simp add: chain_rep_def)
qed

lemma Chain_Append_frame:
  assumes "chain_rep m c ns" "x \<notin> set (chain_cells c (ns @ [n]))"
  shows "Chain_Append m c n x = m x"
proof -
  have "Chain_Previous m (Chain_Tail c) = last (c # ns)"
    using Chain_Last_rep [OF assms(1)] by (simp add: Chain_Last_def)
  moreover have "x \<noteq> last (c # ns)"
    using assms(2) last_in_set [of "c # ns"] by (auto simp: chain_cells_def)
  ultimately show ?thesis
    using assms(2) by (simp add: Chain_Append_def Let_def set_next_def set_previous_def chain_cells_def
      Chain_Tail_def add.commute [of 4])
qed

lemma Chain_Get_frame:
  assumes "chain_rep m c ns" "x \<notin> set (chain_cells c ns)"
  shows "fst (Chain_Get m c) x = m x"
proof (cases ns)
  case Nil
  then show ?thesis using assms Chain_Get_rep_Nil by simp
next
  case (Cons n ns')
  have "m c = n" "m n = hd (ns' @ [c + 4])"
    using assms(1) Cons chain_rep_neighbours(1) [of m c "[]" n ns'] by (simp_all add: chain_rep_def)
  moreover have "x \<noteq> c" "x \<noteq> hd (ns' @ [c + 4]) + 4"
    using assms(2) Cons by (cases ns'; auto simp: chain_cells_def add.commute [of 4])+
  ultimately show ?thesis
    by (simp add: Chain_Get_def Chain_Get_first_unprotected_def score_defs Let_def)
qed

subsection \<open>Node pointers of a chain as positions of its list\<close>

text \<open>The components that keep their nodes on chains are modelled over the lists of the nodes: a
  \<open>Chain_Node *\<close> is a position, and the routines act on the list as the lemmas below show.\<close>

datatype 'n chain_pos = Head | Node 'n | Tail

primrec pos_addr :: "addr \<Rightarrow> addr chain_pos \<Rightarrow> addr" where
  "pos_addr c Head = c"
| "pos_addr c (Node n) = n"
| "pos_addr c Tail = c + 4"

primrec chain_next :: "'n list \<Rightarrow> 'n chain_pos \<Rightarrow> 'n chain_pos" where
  "chain_next ns Head = (case ns of [] \<Rightarrow> Tail | n # _ \<Rightarrow> Node n)"
| "chain_next ns (Node x) = (case dropWhile (\<lambda>n. n \<noteq> x) ns of _ # y # _ \<Rightarrow> Node y | _ \<Rightarrow> Tail)"
| "chain_next ns Tail = Tail"

primrec chain_previous :: "'n list \<Rightarrow> 'n chain_pos \<Rightarrow> 'n chain_pos" where
  "chain_previous ns Head = Head"
| "chain_previous ns (Node x) = (case rev (takeWhile (\<lambda>n. n \<noteq> x) ns) of [] \<Rightarrow> Head | y # _ \<Rightarrow> Node y)"
| "chain_previous ns Tail = (case rev ns of [] \<Rightarrow> Head | y # _ \<Rightarrow> Node y)"

primrec chain_insert_after :: "'n list \<Rightarrow> 'n chain_pos \<Rightarrow> 'n \<Rightarrow> 'n list" where
  "chain_insert_after ns Head n = n # ns"
| "chain_insert_after ns (Node x) n =
     takeWhile (\<lambda>y. y \<noteq> x) ns @ (case dropWhile (\<lambda>y. y \<noteq> x) ns of [] \<Rightarrow> [] | y # ys \<Rightarrow> y # n # ys)"
| "chain_insert_after ns Tail n = ns"

lemma while_split:
  assumes "x \<notin> set xs"
  shows "takeWhile (\<lambda>n. n \<noteq> x) (xs @ x # ys) = xs" "dropWhile (\<lambda>n. n \<noteq> x) (xs @ x # ys) = x # ys"
  using assms by (induction xs) auto

lemma chain_next_split [simp]:
  "x \<notin> set xs \<Longrightarrow> chain_next (xs @ x # ys) (Node x) = (case ys of [] \<Rightarrow> Tail | y # _ \<Rightarrow> Node y)"
  by (simp add: while_split split: list.split)

lemma chain_previous_split [simp]:
  "x \<notin> set xs \<Longrightarrow> chain_previous (xs @ x # ys) (Node x) = (case rev xs of [] \<Rightarrow> Head | y # _ \<Rightarrow> Node y)"
  by (simp add: while_split)

lemma chain_insert_after_split [simp]:
  "x \<notin> set xs \<Longrightarrow> chain_insert_after (xs @ x # ys) (Node x) n = xs @ x # n # ys"
  by (simp add: while_split)

lemma chain_next_rep:
  assumes rep: "chain_rep m c ns" and p: "p = Head \<or> p \<in> Node ` set ns"
  shows "Chain_Next m (pos_addr c p) = pos_addr c (chain_next ns p)"
proof (cases p)
  case Head
  then show ?thesis using Chain_First_rep [OF rep] by (cases ns) (simp_all add: score_defs)
next
  case (Node x)
  then obtain xs ys where ns: "ns = xs @ x # ys" using p by (auto dest: split_list)
  then have "x \<notin> set xs" using rep by (auto simp: chain_rep_def chain_cells_distinct)
  then show ?thesis
    using chain_rep_neighbours(1) [OF rep [unfolded ns]] Node
    unfolding ns by (cases ys) (simp_all add: Chain_Next_def del: chain_next.simps(2))
qed (use p in auto)

lemma chain_previous_rep:
  assumes rep: "chain_rep m c ns" and x: "x \<in> set ns"
  shows "Chain_Previous m x = pos_addr c (chain_previous ns (Node x))"
proof -
  obtain xs ys where ns: "ns = xs @ x # ys" using x by (auto dest: split_list)
  then have "x \<notin> set xs" using rep by (auto simp: chain_rep_def chain_cells_distinct)
  then have "chain_previous ns (Node x) = (case rev xs of [] \<Rightarrow> Head | y # _ \<Rightarrow> Node y)"
    unfolding ns by (rule chain_previous_split)
  then show ?thesis
    using chain_rep_neighbours(2) [OF rep [unfolded ns]]
    by (cases xs rule: rev_cases) (simp_all add: Chain_Previous_def del: chain_previous.simps(2))
qed

lemma chain_insert_after_rep:
  assumes rep: "chain_rep m c ns" and new: "fresh_node c ns n" and p: "p = Head \<or> p \<in> Node ` set ns"
  shows "chain_rep (Chain_Insert m (pos_addr c p) n) c (chain_insert_after ns p n)"
proof (cases p)
  case Head
  then show ?thesis using Chain_Insert_rep [of m c "[]" ns n c] rep new by simp
next
  case (Node x)
  then obtain xs ys where ns: "ns = xs @ x # ys" using p by (auto dest: split_list)
  then have "x \<notin> set xs" using rep by (auto simp: chain_rep_def chain_cells_distinct)
  then show ?thesis
    using Chain_Insert_rep [of m c "xs @ [x]" ys n x] rep new Node
    unfolding ns by (simp del: chain_insert_after.simps(2))
qed (use p in auto)

lemma chain_extract_rep:
  assumes rep: "chain_rep m c ns" and x: "x \<in> set ns"
  shows "chain_rep (Chain_Extract m x) c (remove1 x ns)"
proof -
  obtain xs ys where ns: "ns = xs @ x # ys" using x by (auto dest: split_list)
  then have "x \<notin> set xs" using rep by (auto simp: chain_rep_def chain_cells_distinct)
  then show ?thesis using Chain_Extract_rep [OF rep [unfolded ns]] unfolding ns by (simp add: remove1_append)
qed

subsection \<open>The contract of a node queue\<close>

text \<open>Clients (message queues, partitions, object pools) use a chain as a queue of nodes: they append
  at the end, get from the front and are told \<open>NULL\<close> when there is none.\<close>

locale node_queue =
  fixes rep :: "'m \<Rightarrow> 'c \<Rightarrow> 'n list \<Rightarrow> bool"
    and fresh :: "'c \<Rightarrow> 'n list \<Rightarrow> 'n \<Rightarrow> bool"
    and put :: "'m \<Rightarrow> 'c \<Rightarrow> 'n \<Rightarrow> 'm"
    and get :: "'m \<Rightarrow> 'c \<Rightarrow> 'm \<times> 'n"
    and null :: 'n
  assumes put_rep: "rep m c ns \<Longrightarrow> fresh c ns n \<Longrightarrow> rep (put m c n) c (ns @ [n])"
    and get_Nil: "rep m c [] \<Longrightarrow> get m c = (m, null)"
    and get_Cons: "rep m c (n # ns) \<Longrightarrow> get m c = (m', r) \<Longrightarrow> r = n \<and> rep m' c ns"
begin

primrec put_all :: "'m \<Rightarrow> 'c \<Rightarrow> 'n list \<Rightarrow> 'm" where
  "put_all m c [] = m"
| "put_all m c (n # ns) = put_all (put m c n) c ns"

primrec get_many :: "nat \<Rightarrow> 'm \<Rightarrow> 'c \<Rightarrow> 'm \<times> 'n list" where
  "get_many 0 m c = (m, [])"
| "get_many (Suc k) m c = (let (m, n) = get m c; (m, ns) = get_many k m c in (m, n # ns))"

lemma put_all_rep:
  assumes "rep m c ns" "\<And>i. i < length xs \<Longrightarrow> fresh c (ns @ take i xs) (xs ! i)"
  shows "rep (put_all m c xs) c (ns @ xs)"
  using assms
proof (induction xs arbitrary: m ns)
  case (Cons x xs)
  have "fresh c ns x" using Cons.prems(2) [of 0] by simp
  then have "rep (put m c x) c (ns @ [x])" using Cons.prems(1) by (rule put_rep [rotated])
  moreover have "fresh c ((ns @ [x]) @ take i xs) (xs ! i)" if "i < length xs" for i
    using Cons.prems(2) [of "Suc i"] that by simp
  ultimately have "rep (put_all (put m c x) c xs) c ((ns @ [x]) @ xs)" by (rule Cons.IH)
  then show ?case by simp
qed simp

lemma get_many_rep:
  assumes "rep m c (ns @ ys)"
  shows "\<exists>m'. get_many (length ns) m c = (m', ns) \<and> rep m' c ys"
  using assms
proof (induction ns arbitrary: m)
  case (Cons n ns)
  obtain m1 r where g: "get m c = (m1, r)" by fastforce
  with get_Cons [of m c n "ns @ ys"] Cons.prems have "r = n" "rep m1 c (ns @ ys)" by auto
  with Cons.IH [of m1] g show ?case by auto
qed simp

lemma fifo:
  assumes "rep m c ns" "\<And>i. i < length xs \<Longrightarrow> fresh c (ns @ take i xs) (xs ! i)"
  shows "\<exists>m'. get_many (length ns + length xs) (put_all m c xs) c = (m', ns @ xs)
    \<and> get m' c = (m', null)"
  using get_many_rep [of "put_all m c xs" c "ns @ xs" "[]"] put_all_rep [OF assms] get_Nil by fastforce

end

interpretation chain_queue: node_queue chain_rep fresh_node Chain_Append Chain_Get NULL
  by unfold_locales (blast intro: Chain_Append_rep Chain_Get_rep_Nil dest: Chain_Get_rep_Cons)+


subsection \<open>Properties\<close>

text \<open>A chain is a first-in first-out queue of nodes: after appending any fresh nodes to a chain that
  holds \<open>ns\<close>, as many \<open>_Chain_Get\<close>s return exactly \<open>ns\<close> followed by the appended nodes, in that order,
  and the next \<open>_Chain_Get\<close> returns \<open>NULL\<close> and changes nothing.\<close>

theorem Chain_fifo:
  assumes "chain_rep m c ns" "\<And>i. i < length xs \<Longrightarrow> fresh_node c (ns @ take i xs) (xs ! i)"
  shows "\<exists>m'. chain_queue.get_many (length ns + length xs) (chain_queue.put_all m c xs) c = (m', ns @ xs)
    \<and> Chain_Get m' c = (m', NULL)"
  by (rule chain_queue.fifo [OF assms])

theorem Chain_fifo_witness:
  "\<exists>m'. chain_queue.get_many 2 (chain_queue.put_all (Chain_Initialize_empty (\<lambda>_. 0) 0x100) 0x100 [0x200, 0x300]) 0x100
      = (m', [0x200, 0x300]) \<and> Chain_Get m' 0x100 = (m', NULL)"
proof -
  have "fresh_node 0x100 ([] @ take i [0x200, 0x300]) ([0x200, 0x300] ! i)" if "i < length [0x200, 0x300 :: addr]" for i
    using that by (cases i) (auto simp: fresh_node_cells)
  then show ?thesis
    using Chain_fifo [OF Chain_Initialize_empty_rep, of "[0x200, 0x300]" "0x100" "\<lambda>_. 0"]
    by (simp add: numeral_2_eq_2)
qed

lemma sorted_wrt_insert_mid:
  "sorted_wrt R (xs @ ys) \<Longrightarrow> \<forall>x \<in> set xs. R x n \<Longrightarrow> \<forall>y \<in> set ys. R n y \<Longrightarrow> sorted_wrt R (xs @ n # ys)"
  by (simp add: sorted_wrt_append)

text \<open>On every chain \<open>_Chain_Insert_ordered_unprotected\<close> ends, and when the chain is ascending under a
  total preorder given by the callback \<open>order\<close> the new node is linked in so that the chain stays
  ascending, behind all nodes it does not have to precede; no node is lost or duplicated.\<close>

theorem Chain_Insert_ordered_sorted:
  assumes rep: "chain_rep m c ns" and new: "fresh_node c ns n"
    and total: "\<And>x y. order x y \<or> order y x" and trans: "\<And>x y z. order x y \<Longrightarrow> order y z \<Longrightarrow> order x z"
    and sorted: "sorted_wrt order ns"
  shows "\<exists>m' ns'. Chain_Insert_ordered order m c n = Some m' \<and> chain_rep m' c ns'
    \<and> sorted_wrt order ns' \<and> mset ns' = add_mset n (mset ns)"
proof -
  let ?xs = "takeWhile (\<lambda>y. \<not> order n y) ns" and ?ys = "dropWhile (\<lambda>y. \<not> order n y) ns"
  obtain m' where m': "Chain_Insert_ordered order m c n = Some m'" "chain_rep m' c (?xs @ n # ?ys)"
    using Chain_Insert_ordered_rep [OF rep new] by blast
  have parts: "sorted_wrt order (?xs @ ?ys)" using sorted by simp
  have before: "\<forall>x \<in> set ?xs. order x n" using total set_takeWhileD by fastforce
  have after: "\<forall>y \<in> set ?ys. order n y"
  proof (cases ?ys)
    case (Cons z zs)
    then have "order n z" using hd_dropWhile [of "\<lambda>y. \<not> order n y" ns] by simp
    moreover have "\<forall>y \<in> set zs. order z y" using parts Cons by (simp add: sorted_wrt_append)
    ultimately show ?thesis using Cons trans by auto
  next
    case Nil
    show ?thesis unfolding Nil by simp
  qed
  have "sorted_wrt order (?xs @ n # ?ys)"
    using parts before after by (rule sorted_wrt_insert_mid)
  moreover have "mset ns = mset ?xs + mset ?ys"
    by (metis mset_append takeWhile_dropWhile_id)
  then have "mset (?xs @ n # ?ys) = add_mset n (mset ns)" by simp
  ultimately show ?thesis using m' by blast
qed

theorem Chain_Insert_ordered_sorted_witness:
  "\<exists>m' ns'. Chain_Insert_ordered (\<le>) (Chain_Prepend (Chain_Initialize_empty (\<lambda>_. 0) 0x100) 0x100 0x300) 0x100 0x200
      = Some m' \<and> chain_rep m' 0x100 ns' \<and> sorted_wrt (\<le>) ns' \<and> mset ns' = add_mset 0x200 (mset [0x300])"
proof (rule Chain_Insert_ordered_sorted)
  show "chain_rep (Chain_Prepend (Chain_Initialize_empty (\<lambda>_. 0) 0x100) 0x100 0x300) 0x100 [0x300]"
    by (rule Chain_Prepend_rep [OF Chain_Initialize_empty_rep]) (simp add: fresh_node_cells)
qed (auto simp: fresh_node_cells)

text \<open>Two chains over disjoint cells do not disturb each other: getting the first node of one and
  appending it to the other (a message buffer moving from the inactive to the pending chain) moves
  exactly that node and keeps both chains well linked.\<close>

theorem Chain_transfer:
  assumes reps: "chain_rep m c (n # ns)" "chain_rep m d ds"
    and disj: "set (chain_cells c (n # ns)) \<inter> set (chain_cells d ds) = {}"
    and get: "Chain_Get m c = (m', r)"
  shows "r = n \<and> chain_rep (Chain_Append m' d r) c ns \<and> chain_rep (Chain_Append m' d r) d (ds @ [n])"
proof -
  have r: "r = n" and c': "chain_rep m' c ns" using Chain_Get_rep_Cons [OF reps(1) get] by auto
  have "\<forall>x \<in> set (chain_cells d ds). m x = m' x"
    using Chain_Get_frame [OF reps(1)] disj get by fastforce
  then have d': "chain_rep m' d ds" using reps(2) chain_rep_cong by blast
  have cells: "n \<noteq> NULL" "n \<in> set (chain_cells c (n # ns))" "n + 4 \<in> set (chain_cells c (n # ns))"
    using reps(1) by (auto simp: chain_rep_def chain_cells_def add.commute [of 4])
  then have "fresh_node d ds n" using disj by (auto simp: fresh_node_def)
  then have "chain_rep (Chain_Append m' d n) d (ds @ [n])" by (rule Chain_Append_rep [OF d'])
  moreover have "\<forall>x \<in> set (chain_cells c ns). m' x = Chain_Append m' d n x"
  proof
    fix x assume x: "x \<in> set (chain_cells c ns)"
    have "distinct (chain_cells c (n # ns))" using reps(1) by (simp add: chain_rep_def)
    then have "x \<noteq> n" "x \<noteq> n + 4"
      using x by (auto simp: chain_cells_def add.commute [of 4])
    moreover have "x \<notin> set (chain_cells d ds)" using x disj by (auto simp: chain_cells_def)
    ultimately have "x \<notin> set (chain_cells d (ds @ [n]))" by (auto simp: chain_cells_def)
    then show "m' x = Chain_Append m' d n x" using Chain_Append_frame [OF d'] by simp
  qed
  then have "chain_rep (Chain_Append m' d n) c ns" using c' chain_rep_cong by blast
  ultimately show ?thesis using r by simp
qed


text \<open>A memory with a chain of one node and an empty chain.\<close>

definition two_chains :: mem where
  "two_chains = Chain_Initialize_empty (Chain_Append (Chain_Initialize_empty (\<lambda>_. 0) 0x100) 0x100 0x300) 0x200"

lemma two_chains_rep: "chain_rep two_chains 0x100 [0x300]" "chain_rep two_chains 0x200 []"
proof -
  let ?m = "Chain_Append (Chain_Initialize_empty (\<lambda>_. 0) 0x100) 0x100 0x300"
  have "chain_rep ?m 0x100 ([] @ [0x300])"
    by (rule Chain_Append_rep [OF Chain_Initialize_empty_rep]) (simp add: fresh_node_cells)
  moreover have "\<forall>x \<in> set (chain_cells 0x100 [0x300]). ?m x = two_chains x"
    by (simp add: two_chains_def Chain_Initialize_empty_def score_defs chain_cells_def)
  ultimately show "chain_rep two_chains 0x100 [0x300]" using chain_rep_cong [of "0x100" "[0x300]" ?m two_chains] by simp
  show "chain_rep two_chains 0x200 []" unfolding two_chains_def by (rule Chain_Initialize_empty_rep)
qed

theorem Chain_transfer_witness:
  "\<exists>m' r. Chain_Get two_chains 0x100 = (m', r) \<and> r = 0x300 \<and> chain_rep (Chain_Append m' 0x200 r) 0x100 []
    \<and> chain_rep (Chain_Append m' 0x200 r) 0x200 ([] @ [0x300])"
proof -
  obtain m' r where get: "Chain_Get two_chains 0x100 = (m', r)" by fastforce
  have "set (chain_cells 0x100 [0x300]) \<inter> set (chain_cells 0x200 []) = {}"
    by (simp add: chain_cells_def)
  from Chain_transfer [OF two_chains_rep this get] get show ?thesis by blast
qed

end
