(* ===== verification/Score_Heap.thy ===== *)
theory Score_Heap
  imports Score_Chain
begin

unbundle bit_operations_syntax

text \<open>
  The heap handler of the SuperCore (\<^verbatim>\<open>src/librtems/score/heap\<close> with the inline routines of
  \<^verbatim>\<open>src/include/rtems/score/heapimpl.h\<close>), which serves the workspace, the C program heap and the
  regions of the Classic API: boundary-tag blocks with a used flag for the predecessor and a circular
  free list whose head and tail are one block in the control.

  A block is known by its 32-bit address. The four fields of \<open>Heap_Block\<close> are functions from block
  addresses; blocks are at least \<open>sizeof(Heap_Block)\<close> apart, so fields of different blocks never share a
  cell. \<open>HEAP_PROTECTION\<close> and \<open>RTEMS_DEBUG\<close> are not defined in the configuration, so the protection
  hooks and assertions are empty. This theory holds the model; the theories importing it prove it
  correct.
\<close>

subsection \<open>State\<close>

record Heap_Statistics =
  lifetime_allocated :: uint64
  lifetime_freed :: uint64
  st_size :: uint32
  free_size :: uint32
  min_free_size :: uint32
  free_blocks :: uint32
  max_free_blocks :: uint32
  used_blocks :: uint32
  max_search :: uint32
  searches :: uint32
  allocs :: uint32
  failed_allocs :: uint32
  frees :: uint32
  resizes :: uint32

text \<open>The heap: the fields of its blocks and its control; \<open>free_list\<close> is the address of the block in the
  control that is both head and tail of the free list.\<close>

record Heap =
  prev_size :: "addr \<Rightarrow> uint32"
  size_and_flag :: "addr \<Rightarrow> uint32"
  next_free :: "addr \<Rightarrow> addr"
  prev_free :: "addr \<Rightarrow> addr"
  free_list :: addr
  page_size :: uint32
  min_block_size :: uint32
  area_begin :: addr
  area_end :: addr
  first_block :: addr
  last_block :: addr
  stats :: Heap_Statistics

definition set_prev_size :: "addr \<Rightarrow> uint32 \<Rightarrow> Heap \<Rightarrow> Heap" where
  [simp]: "set_prev_size b v s = s\<lparr>prev_size := (prev_size s)(b := v)\<rparr>"

definition set_size_and_flag :: "addr \<Rightarrow> uint32 \<Rightarrow> Heap \<Rightarrow> Heap" where
  [simp]: "set_size_and_flag b v s = s\<lparr>size_and_flag := (size_and_flag s)(b := v)\<rparr>"

definition set_next_free :: "addr \<Rightarrow> addr \<Rightarrow> Heap \<Rightarrow> Heap" where
  [simp]: "set_next_free b v s = s\<lparr>next_free := (next_free s)(b := v)\<rparr>"

definition set_prev_free :: "addr \<Rightarrow> addr \<Rightarrow> Heap \<Rightarrow> Heap" where
  [simp]: "set_prev_free b v s = s\<lparr>prev_free := (prev_free s)(b := v)\<rparr>"

definition upd_stats :: "(Heap_Statistics \<Rightarrow> Heap_Statistics) \<Rightarrow> Heap \<Rightarrow> Heap" where
  [simp]: "upd_stats f s = s\<lparr>stats := f (stats s)\<rparr>"

abbreviation CPU_ALIGNMENT :: uint32 where
  "CPU_ALIGNMENT \<equiv> 8"

abbreviation HEAP_BLOCK_HEADER_SIZE :: uint32 where
  "HEAP_BLOCK_HEADER_SIZE \<equiv> 8"

abbreviation HEAP_ALLOC_BONUS :: uint32 where
  "HEAP_ALLOC_BONUS \<equiv> 4"

abbreviation HEAP_PREV_BLOCK_USED :: uint32 where
  "HEAP_PREV_BLOCK_USED \<equiv> 1"

subsection \<open>Inline routines\<close>

definition Heap_Is_aligned :: "uint32 \<Rightarrow> uint32 \<Rightarrow> bool" where
  "Heap_Is_aligned v alignment = (v mod alignment = 0)"

definition Heap_Align_down :: "uint32 \<Rightarrow> uint32 \<Rightarrow> uint32" where
  "Heap_Align_down v alignment = v - v mod alignment"

definition Heap_Align_up :: "uint32 \<Rightarrow> uint32 \<Rightarrow> uint32" where
  "Heap_Align_up v alignment =
     (let remainder = v mod alignment in if remainder \<noteq> 0 then v - remainder + alignment else v)"

definition Heap_Min_block_size :: "uint32 \<Rightarrow> uint32" where
  "Heap_Min_block_size page = Heap_Align_up 16 page"

definition Heap_Block_at :: "addr \<Rightarrow> uint32 \<Rightarrow> addr" where
  [simp]: "Heap_Block_at b offset = b + offset"

definition Heap_Prev_block :: "Heap \<Rightarrow> addr \<Rightarrow> addr" where
  "Heap_Prev_block s b = b - prev_size s b"

definition Heap_Alloc_area_of_block :: "addr \<Rightarrow> addr" where
  [simp]: "Heap_Alloc_area_of_block b = b + HEAP_BLOCK_HEADER_SIZE"

definition Heap_Block_of_alloc_area :: "addr \<Rightarrow> uint32 \<Rightarrow> addr" where
  "Heap_Block_of_alloc_area alloc_begin page = Heap_Align_down alloc_begin page - HEAP_BLOCK_HEADER_SIZE"

definition Heap_Block_size :: "Heap \<Rightarrow> addr \<Rightarrow> uint32" where
  "Heap_Block_size s b = size_and_flag s b AND NOT HEAP_PREV_BLOCK_USED"

definition Heap_Block_set_size :: "addr \<Rightarrow> uint32 \<Rightarrow> Heap \<Rightarrow> Heap" where
  "Heap_Block_set_size b sz s =
     (let flag = size_and_flag s b AND HEAP_PREV_BLOCK_USED in set_size_and_flag b (sz OR flag) s)"

definition Heap_Is_prev_used :: "Heap \<Rightarrow> addr \<Rightarrow> bool" where
  "Heap_Is_prev_used s b = (size_and_flag s b AND HEAP_PREV_BLOCK_USED \<noteq> 0)"

definition Heap_Is_used :: "Heap \<Rightarrow> addr \<Rightarrow> bool" where
  "Heap_Is_used s b = Heap_Is_prev_used s (Heap_Block_at b (Heap_Block_size s b))"

definition Heap_Is_free :: "Heap \<Rightarrow> addr \<Rightarrow> bool" where
  "Heap_Is_free s b = (\<not> Heap_Is_used s b)"

definition Heap_Is_block_in_heap :: "Heap \<Rightarrow> addr \<Rightarrow> bool" where
  "Heap_Is_block_in_heap s b = (first_block s \<le> b \<and> b \<le> last_block s)"

definition Heap_Set_last_block_size :: "Heap \<Rightarrow> Heap" where
  "Heap_Set_last_block_size s = Heap_Block_set_size (last_block s) (first_block s - last_block s) s"

definition Heap_Max :: "uint32 \<Rightarrow> uint32 \<Rightarrow> uint32" where
  "Heap_Max a b = (if a > b then a else b)"

definition Heap_Free_list_head :: "Heap \<Rightarrow> addr" where
  [simp]: "Heap_Free_list_head s = free_list s"

definition Heap_Free_list_tail :: "Heap \<Rightarrow> addr" where
  [simp]: "Heap_Free_list_tail s = free_list s"

definition Heap_Free_list_first :: "Heap \<Rightarrow> addr" where
  [simp]: "Heap_Free_list_first s = next_free s (Heap_Free_list_head s)"

definition Heap_Free_list_last :: "Heap \<Rightarrow> addr" where
  [simp]: "Heap_Free_list_last s = prev_free s (Heap_Free_list_tail s)"

definition Heap_Free_list_remove :: "addr \<Rightarrow> Heap \<Rightarrow> Heap" where
  "Heap_Free_list_remove b s =
     (let nxt = next_free s b; prev = prev_free s b;
          s = set_next_free prev nxt s
      in set_prev_free nxt prev s)"

definition Heap_Free_list_replace :: "addr \<Rightarrow> addr \<Rightarrow> Heap \<Rightarrow> Heap" where
  "Heap_Free_list_replace old_block new_block s =
     (let nxt = next_free s old_block; prev = prev_free s old_block;
          s = set_next_free new_block nxt s;
          s = set_prev_free new_block prev s;
          s = set_prev_free nxt new_block s
      in set_next_free prev new_block s)"

definition Heap_Free_list_insert_after :: "addr \<Rightarrow> addr \<Rightarrow> Heap \<Rightarrow> Heap" where
  "Heap_Free_list_insert_after block_before new_block s =
     (let nxt = next_free s block_before;
          s = set_next_free new_block nxt s;
          s = set_prev_free new_block block_before s;
          s = set_next_free block_before new_block s
      in set_prev_free nxt new_block s)"

definition Heap_Free_list_insert_before :: "addr \<Rightarrow> addr \<Rightarrow> Heap \<Rightarrow> Heap" where
  "Heap_Free_list_insert_before block_next new_block s =
     (let prev = prev_free s block_next;
          s = set_next_free new_block block_next s;
          s = set_prev_free new_block prev s;
          s = set_next_free prev new_block s
      in set_prev_free block_next new_block s)"

subsection \<open>Initialization\<close>

text \<open>\<open>None\<close> is the returned \<open>false\<close>; otherwise the first and the last block of the area.\<close>

definition Heap_Get_first_and_last_block ::
  "addr \<Rightarrow> uint32 \<Rightarrow> uint32 \<Rightarrow> uint32 \<Rightarrow> (addr \<times> addr) option" where
  "Heap_Get_first_and_last_block heap_area_begin heap_area_size page min_size =
     (let heap_area_end = heap_area_begin + heap_area_size;
          alloc_area_begin = Heap_Align_up (heap_area_begin + HEAP_BLOCK_HEADER_SIZE) page;
          first_block_begin = alloc_area_begin - HEAP_BLOCK_HEADER_SIZE;
          overhead = HEAP_BLOCK_HEADER_SIZE + (first_block_begin - heap_area_begin);
          first_block_size = Heap_Align_down (heap_area_size - overhead) page;
          last_blk = Heap_Block_at first_block_begin first_block_size
      in if heap_area_end < heap_area_begin \<or> heap_area_size \<le> overhead \<or> first_block_size < min_size
         then None else Some (first_block_begin, last_blk))"

definition zero_stats :: Heap_Statistics where
  "zero_stats = \<lparr>lifetime_allocated = 0, lifetime_freed = 0, st_size = 0, free_size = 0, min_free_size = 0,
     free_blocks = 0, max_free_blocks = 0, used_blocks = 0, max_search = 0, searches = 0, allocs = 0,
     failed_allocs = 0, frees = 0, resizes = 0\<rparr>"

text \<open>The \<open>memset\<close> of the control, whose free list block stays at its address.\<close>

definition Heap_clear_control :: "Heap \<Rightarrow> Heap" where
  "Heap_clear_control s =
     s\<lparr>prev_size := (prev_size s)(free_list s := 0), size_and_flag := (size_and_flag s)(free_list s := 0),
       next_free := (next_free s)(free_list s := 0), prev_free := (prev_free s)(free_list s := 0),
       page_size := 0, min_block_size := 0, area_begin := 0, area_end := 0, first_block := 0, last_block := 0,
       stats := zero_stats\<rparr>"

definition Heap_Initialize :: "Heap \<Rightarrow> addr \<Rightarrow> uint32 \<Rightarrow> uint32 \<Rightarrow> Heap \<times> uint32" where
  "Heap_Initialize s heap_area_begin heap_area_size page =
     (let heap_area_end = heap_area_begin + heap_area_size;
          page' = (if page = 0 then CPU_ALIGNMENT else Heap_Align_up page CPU_ALIGNMENT)
      in if page \<noteq> 0 \<and> page' < CPU_ALIGNMENT then (s, 0)
         else let min_size = Heap_Min_block_size page' in
              case Heap_Get_first_and_last_block heap_area_begin heap_area_size page' min_size of
                None \<Rightarrow> (s, 0)
              | Some (first_blk, last_blk) \<Rightarrow>
                  let s = Heap_clear_control s;
                      first_block_size = last_blk - first_blk;
                      s = set_prev_size first_blk heap_area_end s;
                      s = set_size_and_flag first_blk (first_block_size OR HEAP_PREV_BLOCK_USED) s;
                      s = set_next_free first_blk (Heap_Free_list_tail s) s;
                      s = set_prev_free first_blk (Heap_Free_list_head s) s;
                      s = s\<lparr>page_size := page', min_block_size := min_size, area_begin := heap_area_begin,
                            area_end := heap_area_end, first_block := first_blk, last_block := last_blk\<rparr>;
                      s = set_next_free (Heap_Free_list_head s) first_blk s;
                      s = set_prev_free (Heap_Free_list_tail s) first_blk s;
                      s = set_prev_size last_blk first_block_size s;
                      s = set_size_and_flag last_blk 0 s;
                      s = Heap_Set_last_block_size s;
                      s = upd_stats (\<lambda>t. t\<lparr>st_size := first_block_size, free_size := first_block_size,
                            min_free_size := first_block_size, free_blocks := 1, max_free_blocks := 1\<rparr>) s
                  in (s, first_block_size))"

subsection \<open>Allocation in a block\<close>

definition Heap_Block_split :: "addr \<Rightarrow> addr \<Rightarrow> uint32 \<Rightarrow> Heap \<Rightarrow> Heap" where
  "Heap_Block_split block free_list_anchor alloc_size s =
     (let min_alloc_size = min_block_size s - HEAP_BLOCK_HEADER_SIZE;
          block_size = Heap_Block_size s block;
          used_size = Heap_Max alloc_size min_alloc_size + HEAP_BLOCK_HEADER_SIZE;
          used_block_size = Heap_Align_up used_size (page_size s);
          free_size' = block_size + HEAP_ALLOC_BONUS - used_size;
          free_size_limit = min_block_size s + HEAP_ALLOC_BONUS;
          next_block = Heap_Block_at block block_size
      in if free_size' \<ge> free_size_limit
         then let free_block = Heap_Block_at block used_block_size;
                  free_block_size = block_size - used_block_size;
                  s = Heap_Block_set_size block used_block_size s;
                  s = upd_stats (\<lambda>t. t\<lparr>free_size := free_size t + free_block_size\<rparr>) s;
                  (s, free_block_size, next_block) =
                    (if Heap_Is_used s next_block
                     then (upd_stats (\<lambda>t. t\<lparr>free_blocks := free_blocks t + 1\<rparr>)
                             (Heap_Free_list_insert_after free_list_anchor free_block s),
                           free_block_size, next_block)
                     else let next_block_size = Heap_Block_size s next_block;
                              s = Heap_Free_list_replace next_block free_block s;
                              free_block_size = free_block_size + next_block_size
                          in (s, free_block_size, Heap_Block_at free_block free_block_size));
                  s = set_size_and_flag free_block (free_block_size OR HEAP_PREV_BLOCK_USED) s;
                  s = set_prev_size next_block free_block_size s
              in set_size_and_flag next_block (size_and_flag s next_block AND NOT HEAP_PREV_BLOCK_USED) s
         else set_size_and_flag next_block (size_and_flag s next_block OR HEAP_PREV_BLOCK_USED) s)"

definition Heap_Block_allocate_from_begin :: "addr \<Rightarrow> addr \<Rightarrow> uint32 \<Rightarrow> Heap \<Rightarrow> Heap \<times> addr" where
  "Heap_Block_allocate_from_begin block free_list_anchor alloc_size s =
     (Heap_Block_split block free_list_anchor alloc_size s, block)"

definition Heap_Block_allocate_from_end :: "addr \<Rightarrow> addr \<Rightarrow> addr \<Rightarrow> uint32 \<Rightarrow> Heap \<Rightarrow> Heap \<times> addr" where
  "Heap_Block_allocate_from_end block free_list_anchor alloc_begin alloc_size s =
     (let block_size = Heap_Block_size s block;
          block_end = block + block_size;
          new_block = Heap_Block_of_alloc_area alloc_begin (page_size s);
          new_block_size = block_end - new_block;
          block_end = new_block;
          block_size = block_end - block;
          s = upd_stats (\<lambda>t. t\<lparr>free_size := free_size t + block_size\<rparr>) s;
          (s, block, block_size, free_list_anchor) =
            (if Heap_Is_prev_used s block
             then (upd_stats (\<lambda>t. t\<lparr>free_blocks := free_blocks t + 1\<rparr>)
                     (Heap_Free_list_insert_after free_list_anchor block s),
                   block, block_size, block)
             else let prev_block = Heap_Prev_block s block;
                      prev_block_size = Heap_Block_size s prev_block
                  in (s, prev_block, block_size + prev_block_size, free_list_anchor));
          s = set_size_and_flag block (block_size OR HEAP_PREV_BLOCK_USED) s;
          s = set_prev_size new_block block_size s;
          s = set_size_and_flag new_block new_block_size s
      in (Heap_Block_split new_block free_list_anchor alloc_size s, new_block))"

definition Heap_Block_allocate :: "addr \<Rightarrow> addr \<Rightarrow> uint32 \<Rightarrow> Heap \<Rightarrow> Heap \<times> addr" where
  "Heap_Block_allocate block alloc_begin alloc_size s =
     (let alloc_area_begin = Heap_Alloc_area_of_block block;
          alloc_area_offset = alloc_begin - alloc_area_begin;
          (s, free_list_anchor) =
            (if Heap_Is_free s block
             then let anchor = prev_free s block;
                      s = Heap_Free_list_remove block s;
                      s = upd_stats (\<lambda>t. t\<lparr>free_blocks := free_blocks t - 1,
                            used_blocks := used_blocks t + 1,
                            free_size := free_size t - Heap_Block_size s block\<rparr>) s
                  in (s, anchor)
             else (s, Heap_Free_list_head s));
          (s, block) =
            (if alloc_area_offset < page_size s
             then Heap_Block_allocate_from_begin block free_list_anchor (alloc_size + alloc_area_offset) s
             else Heap_Block_allocate_from_end block free_list_anchor alloc_begin alloc_size s);
          s = upd_stats (\<lambda>t. if min_free_size t > free_size t then t\<lparr>min_free_size := free_size t\<rparr> else t) s
      in (s, block))"

subsection \<open>Allocation\<close>

text \<open>The loop of \<open>_Heap_Check_block\<close> that moves the area below boundary lines; \<open>Some None\<close> is its
  \<open>return 0\<close>, \<open>Some (Some a)\<close> the begin of the area when it ends.\<close>

partial_function (option) Heap_Check_block_boundary ::
  "uint32 \<Rightarrow> uint32 \<Rightarrow> uint32 \<Rightarrow> uint32 \<Rightarrow> addr \<Rightarrow> addr \<Rightarrow> addr \<Rightarrow> addr option option" where
  "Heap_Check_block_boundary alloc_size alignment boundary boundary_floor alloc_begin alloc_end boundary_line =
     (if alloc_begin < boundary_line \<and> boundary_line < alloc_end
      then if boundary_line < boundary_floor then Some None
           else let alloc_begin = boundary_line - alloc_size;
                    alloc_begin = Heap_Align_down alloc_begin alignment;
                    alloc_end = alloc_begin + alloc_size;
                    boundary_line = Heap_Align_down alloc_end boundary
                in Heap_Check_block_boundary alloc_size alignment boundary boundary_floor alloc_begin alloc_end boundary_line
      else Some (Some alloc_begin))"

definition Heap_Check_block :: "Heap \<Rightarrow> addr \<Rightarrow> uint32 \<Rightarrow> uint32 \<Rightarrow> uint32 \<Rightarrow> addr option" where
  "Heap_Check_block s block alloc_size alignment boundary =
     (let page = page_size s;
          min_size = min_block_size s;
          block_end = block + Heap_Block_size s block;
          alloc_begin_floor = Heap_Alloc_area_of_block block;
          alloc_begin_ceiling = block_end - min_size + HEAP_BLOCK_HEADER_SIZE + page - 1;
          alloc_end = block_end + HEAP_ALLOC_BONUS;
          alloc_begin = Heap_Align_down (alloc_end - alloc_size) alignment;
          alloc_begin = (if alloc_begin > alloc_begin_ceiling
                         then Heap_Align_down alloc_begin_ceiling alignment else alloc_begin);
          alloc_end = alloc_begin + alloc_size;
          bounded = (if boundary \<noteq> 0
                     then Heap_Check_block_boundary alloc_size alignment boundary (alloc_begin_floor + alloc_size)
                            alloc_begin alloc_end (Heap_Align_down alloc_end boundary)
                     else Some (Some alloc_begin))
      in case bounded of
           None \<Rightarrow> None
         | Some None \<Rightarrow> Some 0
         | Some (Some alloc_begin) \<Rightarrow>
             if alloc_begin \<ge> alloc_begin_floor
             then let free_size' = Heap_Block_of_alloc_area alloc_begin page - block
                  in if free_size' \<ge> min_size \<or> free_size' = 0 then Some alloc_begin else Some 0
             else Some 0)"

text \<open>The search along the free list: the block found, its \<open>alloc_begin\<close> (0 when none) and the
  search count.\<close>

partial_function (option) Heap_Allocate_search ::
  "Heap \<Rightarrow> uint32 \<Rightarrow> uint32 \<Rightarrow> uint32 \<Rightarrow> uint32 \<Rightarrow> addr \<Rightarrow> uint32 \<Rightarrow> (addr \<times> addr \<times> uint32) option" where
  "Heap_Allocate_search s alloc_size block_size_floor alignment boundary block search_count =
     (if block = Heap_Free_list_tail s then Some (block, 0, search_count)
      else case (if size_and_flag s block > block_size_floor
                 then if alignment = 0 then Some (Heap_Alloc_area_of_block block)
                      else Heap_Check_block s block alloc_size alignment boundary
                 else Some 0) of
             None \<Rightarrow> None
           | Some alloc_begin \<Rightarrow>
               if alloc_begin \<noteq> 0 then Some (block, alloc_begin, search_count + 1)
               else Heap_Allocate_search s alloc_size block_size_floor alignment boundary (next_free s block) (search_count + 1))"

definition Heap_Allocate_aligned_with_boundary ::
  "Heap \<Rightarrow> uint32 \<Rightarrow> uint32 \<Rightarrow> uint32 \<Rightarrow> (Heap \<times> addr) option" where
  "Heap_Allocate_aligned_with_boundary s alloc_size alignment boundary =
     (let block_size_floor = alloc_size + HEAP_BLOCK_HEADER_SIZE - HEAP_ALLOC_BONUS in
      if block_size_floor < alloc_size then Some (s, NULL)
      else if boundary \<noteq> 0 \<and> boundary < alloc_size then Some (s, NULL)
      else let alignment = (if boundary \<noteq> 0 \<and> alignment = 0 then page_size s else alignment) in
           case Heap_Allocate_search s alloc_size block_size_floor alignment boundary (Heap_Free_list_first s) 0 of
             None \<Rightarrow> None
           | Some (block, alloc_begin, search_count) \<Rightarrow>
               let s = (if alloc_begin \<noteq> 0
                        then let (s, block) = Heap_Block_allocate block alloc_begin alloc_size s
                             in upd_stats (\<lambda>t. t\<lparr>allocs := allocs t + 1, searches := searches t + search_count,
                                  lifetime_allocated := lifetime_allocated t + ucast (Heap_Block_size s block)\<rparr>) s
                        else upd_stats (\<lambda>t. t\<lparr>failed_allocs := failed_allocs t + 1\<rparr>) s);
                   s = upd_stats (\<lambda>t. if max_search t < search_count then t\<lparr>max_search := search_count\<rparr> else t) s
               in Some (s, alloc_begin))"

definition Heap_Allocate_aligned :: "Heap \<Rightarrow> uint32 \<Rightarrow> uint32 \<Rightarrow> (Heap \<times> addr) option" where
  "Heap_Allocate_aligned s sz alignment = Heap_Allocate_aligned_with_boundary s sz alignment 0"

definition Heap_Allocate :: "Heap \<Rightarrow> uint32 \<Rightarrow> (Heap \<times> addr) option" where
  "Heap_Allocate s sz = Heap_Allocate_aligned_with_boundary s sz 0 0"

subsection \<open>Release, resize and size\<close>

definition Heap_Free :: "Heap \<Rightarrow> addr \<Rightarrow> Heap \<times> bool" where
  "Heap_Free s alloc_begin =
     (if alloc_begin = NULL then (s, True)
      else let block = Heap_Block_of_alloc_area alloc_begin (page_size s) in
      if \<not> Heap_Is_block_in_heap s block then (s, False)
      else let block_size = Heap_Block_size s block;
               next_block = Heap_Block_at block block_size in
      if \<not> Heap_Is_block_in_heap s next_block then (s, False)
      else if \<not> Heap_Is_prev_used s next_block then (s, False)
      else let next_block_size = Heap_Block_size s next_block;
               next_is_free = (next_block \<noteq> last_block s
                 \<and> \<not> Heap_Is_prev_used s (Heap_Block_at next_block next_block_size));
               done = (\<lambda>s. (upd_stats (\<lambda>t. t\<lparr>used_blocks := used_blocks t - 1, frees := frees t + 1,
                  free_size := free_size t + block_size,
                  lifetime_freed := lifetime_freed t + ucast block_size\<rparr>) s, True)) in
      if \<not> Heap_Is_prev_used s block
      then let prev_size' = prev_size s block;
               prev_block = Heap_Block_at block (- prev_size') in
           if \<not> Heap_Is_block_in_heap s prev_block then (s, False)
           else if \<not> Heap_Is_prev_used s prev_block then (s, False)
           else if next_is_free
           then let sz = block_size + prev_size' + next_block_size;
                    s = Heap_Free_list_remove next_block s;
                    s = upd_stats (\<lambda>t. t\<lparr>free_blocks := free_blocks t - 1\<rparr>) s;
                    s = set_size_and_flag prev_block (sz OR HEAP_PREV_BLOCK_USED) s;
                    next_block = Heap_Block_at prev_block sz
                in done (set_prev_size next_block sz s)
           else let sz = block_size + prev_size';
                    s = set_size_and_flag prev_block (sz OR HEAP_PREV_BLOCK_USED) s;
                    s = set_size_and_flag next_block (size_and_flag s next_block AND NOT HEAP_PREV_BLOCK_USED) s
                in done (set_prev_size next_block sz s)
      else if next_is_free
      then let sz = block_size + next_block_size;
               s = Heap_Free_list_replace next_block block s;
               s = set_size_and_flag block (sz OR HEAP_PREV_BLOCK_USED) s;
               next_block = Heap_Block_at block sz
           in done (set_prev_size next_block sz s)
      else let s = Heap_Free_list_insert_after (Heap_Free_list_head s) block s;
               s = set_size_and_flag block (block_size OR HEAP_PREV_BLOCK_USED) s;
               s = set_size_and_flag next_block (size_and_flag s next_block AND NOT HEAP_PREV_BLOCK_USED) s;
               s = set_prev_size next_block block_size s;
               s = upd_stats (\<lambda>t. t\<lparr>free_blocks := free_blocks t + 1\<rparr>) s
           in done (upd_stats (\<lambda>t. if max_free_blocks t < free_blocks t
                then t\<lparr>max_free_blocks := free_blocks t\<rparr> else t) s))"

text \<open>\<open>None\<close> is the returned \<open>false\<close>.\<close>

definition Heap_Size_of_alloc_area :: "Heap \<Rightarrow> addr \<Rightarrow> uint32 option" where
  "Heap_Size_of_alloc_area s alloc_begin =
     (let block = Heap_Block_of_alloc_area alloc_begin (page_size s) in
      if \<not> Heap_Is_block_in_heap s block then None
      else let next_block = Heap_Block_at block (Heap_Block_size s block) in
           if \<not> Heap_Is_block_in_heap s next_block \<or> \<not> Heap_Is_prev_used s next_block then None
           else Some (next_block + HEAP_ALLOC_BONUS - alloc_begin))"

datatype Heap_Resize_status = HEAP_RESIZE_SUCCESSFUL | HEAP_RESIZE_UNSATISFIED | HEAP_RESIZE_FATAL_ERROR

text \<open>The new heap, the status, \<open>*old_size\<close> and \<open>*new_size\<close> (which starts as 0 in the caller).\<close>

definition Heap_Resize_block_checked :: "Heap \<Rightarrow> addr \<Rightarrow> addr \<Rightarrow> uint32 \<Rightarrow> Heap \<times> Heap_Resize_status \<times> uint32 \<times> uint32" where
  "Heap_Resize_block_checked s block alloc_begin new_alloc_size =
     (let block_size = Heap_Block_size s block;
          block_end = block + block_size;
          alloc_size = block_end - alloc_begin + HEAP_ALLOC_BONUS;
          next_block = Heap_Block_at block block_size;
          next_block_size = Heap_Block_size s next_block;
          next_block_is_free = Heap_Is_free s next_block;
          old_size = alloc_size;
          (block_size, alloc_size) =
            (if next_block_is_free then (block_size + next_block_size, alloc_size + next_block_size)
             else (block_size, alloc_size))
      in if new_alloc_size > alloc_size then (s, HEAP_RESIZE_UNSATISFIED, old_size, 0)
         else let s = (if next_block_is_free
                       then let s = Heap_Block_set_size block block_size s;
                                s = Heap_Free_list_remove next_block s;
                                next_block = Heap_Block_at block block_size;
                                s = set_size_and_flag next_block (size_and_flag s next_block OR HEAP_PREV_BLOCK_USED) s
                            in upd_stats (\<lambda>t. t\<lparr>free_blocks := free_blocks t - 1,
                                 free_size := free_size t - next_block_size\<rparr>) s
                       else s);
                  (s, block) = Heap_Block_allocate block alloc_begin new_alloc_size s;
                  block_size = Heap_Block_size s block;
                  next_block = Heap_Block_at block block_size;
                  s = upd_stats (\<lambda>t. t\<lparr>resizes := resizes t + 1\<rparr>) s
              in (s, HEAP_RESIZE_SUCCESSFUL, old_size, next_block - alloc_begin + HEAP_ALLOC_BONUS))"

definition Heap_Resize_block :: "Heap \<Rightarrow> addr \<Rightarrow> uint32 \<Rightarrow> Heap \<times> Heap_Resize_status \<times> uint32 \<times> uint32" where
  "Heap_Resize_block s alloc_begin new_alloc_size =
     (let block = Heap_Block_of_alloc_area alloc_begin (page_size s) in
      if Heap_Is_block_in_heap s block then Heap_Resize_block_checked s block alloc_begin new_alloc_size
      else (s, HEAP_RESIZE_FATAL_ERROR, 0, 0))"

subsection \<open>Iteration and information\<close>

text \<open>The visitor gets the block, its size and whether it is used, and returns the new argument and
  whether to stop.\<close>

partial_function (option) Heap_Iterate_loop ::
  "(addr \<Rightarrow> uint32 \<Rightarrow> bool \<Rightarrow> 'a \<Rightarrow> 'a \<times> bool) \<Rightarrow> Heap \<Rightarrow> addr \<Rightarrow> addr \<Rightarrow> bool \<Rightarrow> 'a \<Rightarrow> 'a option" where
  "Heap_Iterate_loop visitor s cur end_block stop arg =
     (if \<not> stop \<and> cur \<noteq> end_block
      then let sz = Heap_Block_size s cur;
               nxt = Heap_Block_at cur sz;
               used = Heap_Is_prev_used s nxt;
               (arg, stop) = visitor cur sz used arg
           in Heap_Iterate_loop visitor s nxt end_block stop arg
      else Some arg)"

definition Heap_Iterate :: "(addr \<Rightarrow> uint32 \<Rightarrow> bool \<Rightarrow> 'a \<Rightarrow> 'a \<times> bool) \<Rightarrow> Heap \<Rightarrow> 'a \<Rightarrow> 'a option" where
  "Heap_Iterate visitor s arg = Heap_Iterate_loop visitor s (first_block s) (last_block s) False arg"

record Heap_Information =
  number :: uint32
  largest :: uint32
  total :: uint32

record Heap_Information_block =
  Free :: Heap_Information
  Used :: Heap_Information
  Stats :: Heap_Statistics

definition count_block :: "uint32 \<Rightarrow> Heap_Information \<Rightarrow> Heap_Information" where
  "count_block sz info =
     (let info = info\<lparr>number := number info + 1\<rparr>;
          info = info\<lparr>total := total info + sz\<rparr>
      in if largest info < sz then info\<lparr>largest := sz\<rparr> else info)"

definition Heap_Get_information_visitor ::
  "addr \<Rightarrow> uint32 \<Rightarrow> bool \<Rightarrow> Heap_Information_block \<Rightarrow> Heap_Information_block \<times> bool" where
  "Heap_Get_information_visitor block block_size block_is_used info_block =
     ((if block_is_used then info_block\<lparr>Used := count_block block_size (Used info_block)\<rparr>
       else info_block\<lparr>Free := count_block block_size (Free info_block)\<rparr>), False)"

definition Heap_Get_information :: "Heap \<Rightarrow> Heap_Information_block option" where
  "Heap_Get_information s =
     (let none = \<lparr>number = 0, largest = 0, total = 0\<rparr> in
      case Heap_Iterate Heap_Get_information_visitor s \<lparr>Free = none, Used = none, Stats = zero_stats\<rparr> of
        None \<Rightarrow> None
      | Some info \<Rightarrow> Some (info\<lparr>Stats := stats s\<rparr>))"

partial_function (option) Heap_Get_free_information_loop :: "Heap \<Rightarrow> addr \<Rightarrow> Heap_Information \<Rightarrow> Heap_Information option" where
  "Heap_Get_free_information_loop s the_block info =
     (if the_block \<noteq> Heap_Free_list_tail s
      then Heap_Get_free_information_loop s (next_free s the_block) (count_block (Heap_Block_size s the_block) info)
      else Some info)"

definition Heap_Get_free_information :: "Heap \<Rightarrow> Heap_Information option" where
  "Heap_Get_free_information s =
     Heap_Get_free_information_loop s (Heap_Free_list_first s) \<lparr>number = 0, largest = 0, total = 0\<rparr>"

subsection \<open>Greedy allocation\<close>

text \<open>The first loop allocates the given sizes and stacks the blocks in their \<open>next\<close> fields.\<close>

primrec Heap_Greedy_allocate_sizes :: "uint32 list \<Rightarrow> Heap \<Rightarrow> addr \<Rightarrow> (Heap \<times> addr) option" where
  "Heap_Greedy_allocate_sizes [] s allocated_blocks = Some (s, allocated_blocks)"
| "Heap_Greedy_allocate_sizes (sz # szs) s allocated_blocks =
     (case Heap_Allocate s sz of
        None \<Rightarrow> None
      | Some (s, nxt) \<Rightarrow>
          if nxt \<noteq> NULL
          then let next_block = Heap_Block_of_alloc_area nxt (page_size s)
               in Heap_Greedy_allocate_sizes szs (set_next_free next_block allocated_blocks s) next_block
          else Heap_Greedy_allocate_sizes szs s allocated_blocks)"

partial_function (option) Heap_Greedy_allocate_rest :: "Heap \<Rightarrow> addr \<Rightarrow> (Heap \<times> addr) option" where
  "Heap_Greedy_allocate_rest s blocks =
     (let cur = Heap_Free_list_first s in
      if cur \<noteq> Heap_Free_list_tail s
      then let (s, _) = Heap_Block_allocate cur (Heap_Alloc_area_of_block cur)
                          (Heap_Block_size s cur - HEAP_BLOCK_HEADER_SIZE) s;
               s = set_next_free cur blocks s
           in Heap_Greedy_allocate_rest s cur
      else Some (s, blocks))"

partial_function (option) Heap_Greedy_free :: "Heap \<Rightarrow> addr \<Rightarrow> Heap option" where
  "Heap_Greedy_free s blocks =
     (if blocks \<noteq> NULL
      then let cur = blocks;
               blocks = next_free s blocks;
               (s, _) = Heap_Free s (Heap_Alloc_area_of_block cur)
           in Heap_Greedy_free s blocks
      else Some s)"

definition Heap_Greedy_allocate :: "Heap \<Rightarrow> uint32 list \<Rightarrow> (Heap \<times> addr) option" where
  "Heap_Greedy_allocate s block_sizes =
     (case Heap_Greedy_allocate_sizes block_sizes s NULL of
        None \<Rightarrow> None
      | Some (s, allocated_blocks) \<Rightarrow>
          (case Heap_Greedy_allocate_rest s NULL of
             None \<Rightarrow> None
           | Some (s, blocks) \<Rightarrow>
               (case Heap_Greedy_free s allocated_blocks of
                  None \<Rightarrow> None
                | Some s \<Rightarrow> Some (s, blocks))))"

definition Heap_Greedy_allocate_all_except_largest :: "Heap \<Rightarrow> (Heap \<times> addr \<times> uint32) option" where
  "Heap_Greedy_allocate_all_except_largest s =
     (case Heap_Get_free_information s of
        None \<Rightarrow> None
      | Some info \<Rightarrow>
          let allocatable_size = (if largest info > 0 then largest info - HEAP_BLOCK_HEADER_SIZE + HEAP_ALLOC_BONUS else 0) in
          case Heap_Greedy_allocate s [allocatable_size] of
            None \<Rightarrow> None
          | Some (s, blocks) \<Rightarrow> Some (s, blocks, allocatable_size))"

subsection \<open>Extension\<close>

definition Heap_Free_block :: "addr \<Rightarrow> Heap \<Rightarrow> Heap" where
  "Heap_Free_block block s =
     (let s = upd_stats (\<lambda>t. t\<lparr>used_blocks := used_blocks t + 1, frees := frees t - 1\<rparr>) s;
          s = fst (Heap_Free s (Heap_Alloc_area_of_block block));
          first_free = Heap_Free_list_first s;
          s = Heap_Free_list_remove first_free s
      in Heap_Free_list_insert_before (Heap_Free_list_tail s) first_free s)"

definition Heap_Merge_below :: "addr \<Rightarrow> addr \<Rightarrow> Heap \<Rightarrow> Heap" where
  "Heap_Merge_below extend_area_begin first_blk s =
     (let new_first_block_alloc_begin = Heap_Align_up (extend_area_begin + HEAP_BLOCK_HEADER_SIZE) (page_size s);
          new_first_block = new_first_block_alloc_begin - HEAP_BLOCK_HEADER_SIZE;
          new_first_block_size = first_blk - new_first_block;
          s = set_prev_size new_first_block (prev_size s first_blk) s;
          s = set_size_and_flag new_first_block (new_first_block_size OR HEAP_PREV_BLOCK_USED) s
      in Heap_Free_block new_first_block s)"

definition Heap_Merge_above :: "addr \<Rightarrow> addr \<Rightarrow> Heap \<Rightarrow> Heap" where
  "Heap_Merge_above last_blk extend_area_end s =
     (let last_block_new_size = Heap_Align_down (extend_area_end - last_blk - HEAP_BLOCK_HEADER_SIZE) (page_size s);
          new_last_block = Heap_Block_at last_blk last_block_new_size;
          s = set_size_and_flag new_last_block
                ((size_and_flag s last_blk - last_block_new_size) OR HEAP_PREV_BLOCK_USED) s;
          s = Heap_Block_set_size last_blk last_block_new_size s
      in Heap_Free_block last_blk s)"

definition Heap_Link_below :: "addr \<Rightarrow> addr \<Rightarrow> Heap \<Rightarrow> Heap" where
  "Heap_Link_below link last_blk s = set_size_and_flag last_blk ((link - last_blk) OR HEAP_PREV_BLOCK_USED) s"

definition Heap_Link_above :: "addr \<Rightarrow> addr \<Rightarrow> addr \<Rightarrow> Heap \<Rightarrow> Heap" where
  "Heap_Link_above link first_blk last_blk s =
     (let s = Heap_Block_set_size link (first_blk - link) s
      in set_size_and_flag last_blk (size_and_flag s last_blk OR HEAP_PREV_BLOCK_USED) s)"

text \<open>The blocks the search of \<open>_Heap_Extend\<close> remembers; \<open>None\<close> stands for \<open>NULL\<close>.\<close>

record extend_links =
  merge_below :: "addr option"
  link_below :: "addr option"
  merge_above :: "addr option"
  link_above :: "addr option"

text \<open>The loop over the areas of the heap: \<open>Some None\<close> is the \<open>return 0\<close> on an overlap.\<close>

partial_function (option) Heap_Extend_loop ::
  "addr \<Rightarrow> addr \<Rightarrow> addr \<Rightarrow> extend_links \<Rightarrow> Heap \<Rightarrow> (Heap \<times> extend_links option) option" where
  "Heap_Extend_loop extend_area_begin extend_area_end start_block links s =
     (let sub_area_begin = (if start_block \<noteq> first_block s then start_block else area_begin s);
          sub_area_end = prev_size s start_block;
          end_block = Heap_Block_of_alloc_area sub_area_end (page_size s)
      in if sub_area_end > extend_area_begin \<and> extend_area_end > sub_area_begin then Some (s, None)
         else let links = (if extend_area_end = sub_area_begin then links\<lparr>merge_below := Some start_block\<rparr>
                           else if extend_area_end < sub_area_end then links\<lparr>link_below := Some start_block\<rparr>
                           else links);
                  (s, links) =
                    (if sub_area_end = extend_area_begin
                     then (set_prev_size start_block extend_area_end s, links\<lparr>merge_above := Some end_block\<rparr>)
                     else if sub_area_end < extend_area_begin then (s, links\<lparr>link_above := Some end_block\<rparr>)
                     else (s, links));
                  start_block = Heap_Block_at end_block (Heap_Block_size s end_block)
              in if start_block \<noteq> first_block s
                 then Heap_Extend_loop extend_area_begin extend_area_end start_block links s
                 else Some (s, Some links))"

definition Heap_Extend :: "Heap \<Rightarrow> addr \<Rightarrow> uint32 \<Rightarrow> (Heap \<times> uint32) option" where
  "Heap_Extend s extend_area_begin extend_area_size =
     (let extend_area_end = extend_area_begin + extend_area_size;
          free_size' = free_size (stats s) in
      if extend_area_end < extend_area_begin then Some (s, 0)
      else case Heap_Get_first_and_last_block extend_area_begin extend_area_size (page_size s) (min_block_size s) of
        None \<Rightarrow> Some (s, 0)
      | Some (extend_first_block, extend_last_block) \<Rightarrow>
        (case Heap_Extend_loop extend_area_begin extend_area_end (first_block s)
                \<lparr>merge_below = None, link_below = None, merge_above = None, link_above = None\<rparr> s of
           None \<Rightarrow> None
         | Some (s, None) \<Rightarrow> Some (s, 0)
         | Some (s, Some links) \<Rightarrow>
             let s = (if extend_area_begin < area_begin s then s\<lparr>area_begin := extend_area_begin\<rparr>
                      else if area_end s < extend_area_end then s\<lparr>area_end := extend_area_end\<rparr> else s);
                 extend_first_block_size = extend_last_block - extend_first_block;
                 s = set_prev_size extend_first_block extend_area_end s;
                 s = set_size_and_flag extend_first_block (extend_first_block_size OR HEAP_PREV_BLOCK_USED) s;
                 s = set_prev_size extend_last_block extend_first_block_size s;
                 s = set_size_and_flag extend_last_block 0 s;
                 s = (if extend_first_block < first_block s then s\<lparr>first_block := extend_first_block\<rparr>
                      else if extend_last_block > last_block s then s\<lparr>last_block := extend_last_block\<rparr> else s);
                 s = (case merge_below links of
                        Some b \<Rightarrow> Heap_Merge_below extend_area_begin b s
                      | None \<Rightarrow> (case link_below links of Some b \<Rightarrow> Heap_Link_below b extend_last_block s | None \<Rightarrow> s));
                 s = (case merge_above links of
                        Some b \<Rightarrow> Heap_Merge_above b extend_area_end s
                      | None \<Rightarrow> (case link_above links of
                                   Some b \<Rightarrow> Heap_Link_above b extend_first_block extend_last_block s | None \<Rightarrow> s));
                 s = (if merge_below links = None \<and> merge_above links = None
                      then Heap_Free_block extend_first_block s else s);
                 s = Heap_Set_last_block_size s;
                 extended_size = free_size (stats s) - free_size'
             in Some (upd_stats (\<lambda>t. t\<lparr>st_size := st_size t + extended_size\<rparr>) s, extended_size)))"

definition Heap_No_extend :: "Heap \<Rightarrow> addr \<Rightarrow> uint32 \<Rightarrow> Heap \<times> uint32" where
  "Heap_No_extend s b sz = (s, 0)"

subsection \<open>The consistency check\<close>

text \<open>\<open>_Heap_Walk\<close> without its output.\<close>

partial_function (option) Heap_Walk_check_free_list_loop :: "Heap \<Rightarrow> addr \<Rightarrow> addr \<Rightarrow> bool option" where
  "Heap_Walk_check_free_list_loop s prev_block free_block =
     (if free_block \<noteq> Heap_Free_list_tail s
      then if \<not> Heap_Is_block_in_heap s free_block then Some False
           else if \<not> Heap_Is_aligned (Heap_Alloc_area_of_block free_block) (page_size s) then Some False
           else if Heap_Is_used s free_block then Some False
           else if prev_free s free_block \<noteq> prev_block then Some False
           else Heap_Walk_check_free_list_loop s free_block (next_free s free_block)
      else Some True)"

definition Heap_Walk_check_free_list :: "Heap \<Rightarrow> bool option" where
  "Heap_Walk_check_free_list s = Heap_Walk_check_free_list_loop s (Heap_Free_list_tail s) (Heap_Free_list_first s)"

partial_function (option) Heap_Walk_is_in_free_list_loop :: "Heap \<Rightarrow> addr \<Rightarrow> addr \<Rightarrow> bool option" where
  "Heap_Walk_is_in_free_list_loop s block free_block =
     (if free_block \<noteq> Heap_Free_list_tail s
      then if free_block = block then Some True
           else Heap_Walk_is_in_free_list_loop s block (next_free s free_block)
      else Some False)"

definition Heap_Walk_is_in_free_list :: "Heap \<Rightarrow> addr \<Rightarrow> bool option" where
  "Heap_Walk_is_in_free_list s block = Heap_Walk_is_in_free_list_loop s block (Heap_Free_list_first s)"

definition Heap_Walk_check_control :: "Heap \<Rightarrow> bool option" where
  "Heap_Walk_check_control s =
     (if page_size s = 0 then Some False
      else if page_size s mod CPU_ALIGNMENT \<noteq> 0 then Some False
      else if \<not> Heap_Is_aligned (min_block_size s) (page_size s) then Some False
      else if \<not> Heap_Is_aligned (Heap_Alloc_area_of_block (first_block s)) (page_size s) then Some False
      else if \<not> Heap_Is_prev_used s (first_block s) then Some False
      else if Heap_Is_free s (last_block s) then Some False
      else if Heap_Block_at (last_block s) (Heap_Block_size s (last_block s)) \<noteq> first_block s then Some False
      else Heap_Walk_check_free_list s)"

definition Heap_Walk_check_free_block :: "Heap \<Rightarrow> addr \<Rightarrow> bool option" where
  "Heap_Walk_check_free_block s block =
     (let prev_used = Heap_Is_prev_used s block;
          block_size = Heap_Block_size s block;
          next_block = Heap_Block_at block block_size
      in if block_size \<noteq> prev_size s next_block then Some False
         else if \<not> prev_used then Some False
         else case Heap_Walk_is_in_free_list s block of
                None \<Rightarrow> None
              | Some is_in \<Rightarrow> if \<not> is_in then Some False else Some True)"

partial_function (option) Heap_Walk_loop :: "Heap \<Rightarrow> addr \<Rightarrow> bool option" where
  "Heap_Walk_loop s block =
     (let block_size = Heap_Block_size s block;
          next_block = Heap_Block_at block block_size;
          is_not_last_block = (block \<noteq> last_block s)
      in if \<not> Heap_Is_block_in_heap s next_block then Some False
         else if \<not> Heap_Is_aligned block_size (page_size s) \<and> is_not_last_block then Some False
         else if block_size < min_block_size s \<and> is_not_last_block then Some False
         else if next_block \<le> block \<and> is_not_last_block then Some False
         else case (if \<not> Heap_Is_prev_used s next_block then Heap_Walk_check_free_block s block else Some True) of
                None \<Rightarrow> None
              | Some ok \<Rightarrow>
                  if \<not> ok then Some False
                  else if next_block \<noteq> first_block s then Heap_Walk_loop s next_block else Some True)"

definition Heap_Walk :: "bool \<Rightarrow> Heap \<Rightarrow> bool option" where
  "Heap_Walk system_state_is_up s =
     (if \<not> system_state_is_up then Some True
      else case Heap_Walk_check_control s of
             None \<Rightarrow> None
           | Some ok \<Rightarrow> if \<not> ok then Some False else Heap_Walk_loop s (first_block s))"

text \<open>The equations of the loops evaluate.\<close>

declare Heap_Check_block_boundary.simps [code]
  Heap_Allocate_search.simps [code]
  Heap_Iterate_loop.simps [code]
  Heap_Get_free_information_loop.simps [code]
  Heap_Greedy_allocate_rest.simps [code]
  Heap_Greedy_free.simps [code]
  Heap_Extend_loop.simps [code]
  Heap_Walk_check_free_list_loop.simps [code]
  Heap_Walk_is_in_free_list_loop.simps [code]
  Heap_Walk_loop.simps [code]

end
