(* ===== verification/Score_Heap_Inv.thy ===== *)
theory Score_Heap_Inv
  imports Score_Heap
begin

text \<open>
  The invariant of the heap and its preservation by \<open>_Heap_Free\<close>. The blocks of a heap are the list \<open>bs\<close>
  of their addresses in ascending order, ended by the last block of the control; the free list is the
  list \<open>fs\<close> of its blocks. Every pair of neighbours carries the boundary tags: the size of the first is
  their distance, the flag of the second tells whether the first is free, and only after a free block is
  the size repeated. Operations change a few neighbours and leave the rest of the list alone, which is
  how the proofs go.
\<close>

subsection \<open>Size and flag\<close>

lemma even_or_1:
  assumes "\<not> bit (v :: uint32) 0"
  shows "(v OR 1) AND NOT 1 = v" "(v OR 1) AND 1 = 1" "v AND NOT 1 = v" "v AND 1 = 0"
  using assms by (auto intro!: bit_word_eqI gr0I simp: bit_simps)

lemma flag_only:
  "((x :: uint32) AND NOT 1) AND NOT 1 = x AND NOT 1" "(x AND NOT 1) AND 1 = 0"
  "(x OR 1) AND NOT 1 = x AND NOT 1" "(x OR 1) AND 1 = 1"
  by (auto intro!: bit_word_eqI simp: bit_simps)

lemma set_size_flag:
  assumes "\<not> bit (v :: uint32) 0"
  shows "(v OR (x AND 1)) AND NOT 1 = v" "(v OR (x AND 1)) AND 1 = x AND 1"
  using assms by (auto intro!: bit_word_eqI gr0I simp: bit_simps)

lemma even_unat: "\<not> bit (v :: uint32) 0 \<longleftrightarrow> even (unat v)"
proof -
  have "bit (unat v) 0 \<longleftrightarrow> bit v 0" by (simp only: bit_unsigned_iff) simp
  then show ?thesis by (simp add: bit_0)
qed

lemma not_flag: "NOT (1 :: uint32) = - 2"
  by simp

lemmas tags = even_or_1 [unfolded not_flag] flag_only [unfolded not_flag] set_size_flag [unfolded not_flag]

subsection \<open>Layout\<close>

text \<open>Neighbours \<open>b\<close> and \<open>b'\<close> of a heap with minimal block size \<open>mn\<close>, fields \<open>sf\<close> and \<open>ps\<close> and free blocks
  \<open>F\<close>. In the middle of an operation the flag that tells whether \<open>b\<close> is used may be out of date, for \<open>b\<close>
  in \<open>H\<close>.\<close>

definition adj :: "nat \<Rightarrow> (addr \<Rightarrow> uint32) \<Rightarrow> (addr \<Rightarrow> uint32) \<Rightarrow> addr set \<Rightarrow> addr set \<Rightarrow> addr \<Rightarrow> addr \<Rightarrow> bool" where
  "adj mn sf ps H F b b' \<longleftrightarrow> unat b + mn \<le> unat b' \<and> sf b AND NOT 1 = b' - b
     \<and> (b \<notin> H \<longrightarrow> (sf b' AND 1 \<noteq> 0 \<longleftrightarrow> b \<notin> F)) \<and> (b \<in> F \<longrightarrow> ps b' = b' - b \<and> b' \<notin> F)"

abbreviation layout :: "nat \<Rightarrow> (addr \<Rightarrow> uint32) \<Rightarrow> (addr \<Rightarrow> uint32) \<Rightarrow> addr set \<Rightarrow> addr set \<Rightarrow> addr list \<Rightarrow> bool" where
  "layout mn sf ps H F bs \<equiv> successively (adj mn sf ps H F) bs"

lemma layout_cong:
  assumes "layout mn sf ps H F bs"
    and "\<forall>b \<in> set bs. sf' b = sf b \<and> ps' b = ps b \<and> (b \<in> F' \<longleftrightarrow> b \<in> F) \<and> (b \<in> H \<longrightarrow> b \<in> H')"
  shows "layout mn sf' ps' H' F' bs"
  using assms
proof (induction bs rule: induct_list012)
  case (3 x y zs)
  then show ?case by (auto simp: adj_def)
qed simp_all

lemma layout_append:
  "layout mn sf ps H F (xs @ ys) \<longleftrightarrow> layout mn sf ps H F xs \<and> layout mn sf ps H F ys
     \<and> (xs = [] \<or> ys = [] \<or> adj mn sf ps H F (last xs) (hd ys))"
  by (auto simp: successively_append_iff)

lemma layout_sorted:
  "layout mn sf ps H F bs \<Longrightarrow> 0 < mn \<Longrightarrow> sorted_wrt (\<lambda>b b'. unat b + mn \<le> unat b') bs"
proof (induction bs rule: induct_list012)
  case (3 x y zs)
  then have "unat x + mn \<le> unat y" and "sorted_wrt (\<lambda>b b'. unat b + mn \<le> unat b') (y # zs)" by (simp_all add: adj_def)
  then show ?case by auto
qed simp_all

lemma layout_distinct:
  assumes "layout mn sf ps H F bs" "0 < mn"
  shows "distinct bs"
proof -
  have "sorted_wrt (\<lambda>b b'. unat b + mn \<le> unat b') bs" by (rule layout_sorted [OF assms])
  then have "sorted_wrt (\<noteq>) bs" by (rule sorted_wrt_mono_rel [rotated]) (use assms(2) in auto)
  then show ?thesis by (simp add: distinct_conv_nth sorted_wrt_iff_nth_less) (metis nat_neq_iff)
qed

text \<open>Replacing the blocks \<open>mid\<close> of a heap by \<open>mid'\<close>: the blocks outside are not written, and what is in
  \<open>mid\<close> is shown directly.\<close>

lemma layout_surgery:
  assumes old: "layout mn sf ps H F (xs @ mid @ ys)"
    and same: "\<forall>b \<in> set xs \<union> set ys. sf' b = sf b \<and> ps' b = ps b \<and> (b \<in> F' \<longleftrightarrow> b \<in> F) \<and> (b \<in> H \<longrightarrow> b \<in> H')"
    and mid: "layout mn sf' ps' H' F' mid'" "mid \<noteq> []" "mid' \<noteq> []"
    and before: "xs \<noteq> [] \<Longrightarrow> adj mn sf ps H F (last xs) (hd mid) \<Longrightarrow> adj mn sf' ps' H' F' (last xs) (hd mid')"
    and after: "ys \<noteq> [] \<Longrightarrow> adj mn sf ps H F (last mid) (hd ys) \<Longrightarrow> adj mn sf' ps' H' F' (last mid') (hd ys)"
  shows "layout mn sf' ps' H' F' (xs @ mid' @ ys)"
proof -
  have L: "layout mn sf ps H F xs" "layout mn sf ps H F ys"
    and B: "xs \<noteq> [] \<Longrightarrow> adj mn sf ps H F (last xs) (hd mid)" "ys \<noteq> [] \<Longrightarrow> adj mn sf ps H F (last mid) (hd ys)"
    using old mid(2) unfolding layout_append by auto
  have "layout mn sf' ps' H' F' xs" by (rule layout_cong [OF L(1)]) (use same in blast)
  moreover have "layout mn sf' ps' H' F' ys" by (rule layout_cong [OF L(2)]) (use same in blast)
  moreover have "ys = [] \<or> adj mn sf' ps' H' F' (last mid') (hd ys)" using after B(2) by blast
  moreover have "xs = [] \<or> adj mn sf' ps' H' F' (last xs) (hd mid')" using before B(1) by blast
  ultimately show ?thesis
    using mid unfolding layout_append by simp
qed

subsection \<open>The free list\<close>

fun flinked :: "(addr \<Rightarrow> addr) \<Rightarrow> (addr \<Rightarrow> addr) \<Rightarrow> addr list \<Rightarrow> bool" where
  "flinked nx pv (a # b # ns) \<longleftrightarrow> nx a = b \<and> pv b = a \<and> flinked nx pv (b # ns)"
| "flinked nx pv ns \<longleftrightarrow> True"

lemma flinked_cong:
  "flinked nx pv ns \<Longrightarrow> \<forall>x \<in> set (butlast ns). nx' x = nx x \<Longrightarrow> \<forall>x \<in> set (tl ns). pv' x = pv x \<Longrightarrow> flinked nx' pv' ns"
proof (induction nx pv ns rule: flinked.induct)
  case (1 nx pv a b ns)
  then show ?case by (cases ns) auto
qed simp_all

lemma flinked_append: "flinked nx pv (xs @ a # ys) \<longleftrightarrow> flinked nx pv (xs @ [a]) \<and> flinked nx pv (a # ys)"
proof (induction xs)
  case (Cons x xs)
  then show ?case by (cases xs) auto
qed simp

definition ring :: "addr \<Rightarrow> (addr \<Rightarrow> addr) \<Rightarrow> (addr \<Rightarrow> addr) \<Rightarrow> addr list \<Rightarrow> bool" where
  "ring h nx pv fs \<longleftrightarrow> distinct (h # fs) \<and> flinked nx pv (h # fs @ [h])"

text \<open>The ring around one block (or position) \<open>a\<close>, and around \<open>a\<close> and its successor \<open>b\<close>.\<close>

lemma ring_ends:
  "ring h nx pv (xs @ ys) \<longleftrightarrow> distinct (h # xs @ ys) \<and> flinked nx pv (h # xs) \<and> flinked nx pv (ys @ [h])
     \<and> nx (last (h # xs)) = hd (ys @ [h]) \<and> pv (hd (ys @ [h])) = last (h # xs)"
proof -
  have "h # (xs @ ys) @ [h] = butlast (h # xs) @ last (h # xs) # hd (ys @ [h]) # tl (ys @ [h])"
  proof -
    have "h # xs = butlast (h # xs) @ [last (h # xs)]" by (simp only: append_butlast_last_id list.distinct not_False_eq_True)
    moreover have "ys @ [h] = hd (ys @ [h]) # tl (ys @ [h])" by simp
    ultimately have "(h # xs) @ (ys @ [h]) = (butlast (h # xs) @ [last (h # xs)]) @ (hd (ys @ [h]) # tl (ys @ [h]))"
      by (simp only:)
    then show ?thesis by (simp only: append.assoc append_Cons append_Nil)
  qed
  then have "flinked nx pv (h # (xs @ ys) @ [h]) = flinked nx pv (butlast (h # xs) @ last (h # xs) # hd (ys @ [h]) # tl (ys @ [h]))"
    by (rule arg_cong)
  also have "\<dots> \<longleftrightarrow> flinked nx pv (butlast (h # xs) @ [last (h # xs)]) \<and> flinked nx pv (last (h # xs) # hd (ys @ [h]) # tl (ys @ [h]))"
    by (rule flinked_append)
  finally have "flinked nx pv (h # (xs @ ys) @ [h]) \<longleftrightarrow>
     flinked nx pv (butlast (h # xs) @ [last (h # xs)]) \<and> flinked nx pv (last (h # xs) # hd (ys @ [h]) # tl (ys @ [h]))" .
  note X = this
  have E1: "butlast (h # xs) @ [last (h # xs)] = h # xs" by (rule append_butlast_last_id) simp
  have E2: "hd (ys @ [h]) # tl (ys @ [h]) = ys @ [h]" by (rule list.collapse) simp
  show ?thesis unfolding ring_def X [unfolded flinked.simps(1), unfolded E1 E2] by blast
qed

lemma flinked_off:
  "flinked nx pv ns \<Longrightarrow> a \<notin> set (butlast ns) \<Longrightarrow> flinked (nx(a := v)) pv ns"
  "flinked nx pv ns \<Longrightarrow> a \<notin> set (tl ns) \<Longrightarrow> flinked nx (pv(a := v)) ns"
  by (rule flinked_cong; auto)+

lemma last_notin_butlast: "distinct (h # xs) \<Longrightarrow> last (h # xs) \<notin> set (butlast (h # xs))"
  by (metis append_butlast_last_id distinct_append disjoint_insert(1) list.distinct(1) list.simps(15) inf_commute)

lemma ring_insert:
  assumes r: "ring h nx pv (xs @ ys)" and n: "n \<notin> set (h # xs @ ys)"
    and a: "a = last (h # xs)" and b: "b = hd (ys @ [h])"
  shows "ring h (nx(n := b, a := n)) (pv(n := a, b := n)) (xs @ n # ys)"
proof -
  note R = r [unfolded ring_ends]
  have D: "distinct (h # xs)" "distinct (ys @ [h])" using R by auto
  have a_in: "a \<in> set (h # xs)" and b_in: "b \<in> set (ys @ [h])"
    unfolding a b by (rule last_in_set, simp) (cases ys; simp)
  have an: "a \<noteq> n" "b \<noteq> n" using n a_in b_in by auto
  have "a \<notin> set (butlast (h # xs))" unfolding a by (rule last_notin_butlast [OF D(1)])
  moreover have "b \<notin> set (tl (ys @ [h]))" unfolding b using D(2) by (cases ys) auto
  moreover have "b \<notin> set xs" using b_in R by auto
  moreover have "a \<notin> set ys" using a_in R by auto
  ultimately have "flinked (nx(n := b, a := n)) (pv(n := a, b := n)) (h # xs)"
    "flinked (nx(n := b, a := n)) (pv(n := a, b := n)) (ys @ [h])"
    using R n by (auto intro!: flinked_off dest: in_set_butlastD list.set_sel(2) [rotated] simp: tl_append split: list.splits)
  moreover have "n # ys @ [h] = [n] @ b # tl (ys @ [h])" unfolding b by (cases ys) auto
  ultimately show ?thesis
    using R n an a b by (cases ys) (auto simp: ring_ends)
qed

lemma ring_neighbours:
  assumes "ring h nx pv (xs @ n # ys)"
  shows "nx n = hd (ys @ [h])" "pv n = last (h # xs)" "n \<noteq> h" "n \<notin> set xs" "n \<notin> set ys"
proof -
  have "flinked nx pv (n # ys @ [h])" "pv n = last (h # xs)" "distinct (h # xs @ n # ys)"
    using assms unfolding ring_ends by auto
  then show "nx n = hd (ys @ [h])" "pv n = last (h # xs)" "n \<noteq> h" "n \<notin> set xs" "n \<notin> set ys"
    by (cases ys; auto)+
qed

lemma ring_remove:
  assumes r: "ring h nx pv (xs @ n # ys)" and a: "a = last (h # xs)" and b: "b = hd (ys @ [h])"
  shows "ring h (nx(a := b)) (pv(b := a)) (xs @ ys)"
proof -
  note R = r [unfolded ring_ends]
  have D: "distinct (h # xs)" "distinct (ys @ [h])" using R by auto
  have a_in: "a \<in> set (h # xs)" and b_in: "b \<in> set (ys @ [h])"
    unfolding a b by (rule last_in_set, simp) (cases ys; simp)
  have "flinked nx pv (n # ys @ [h])" using R by simp
  then have ys: "flinked nx pv (ys @ [h])" by (cases ys) auto
  have "a \<notin> set (butlast (h # xs))" unfolding a by (rule last_notin_butlast [OF D(1)])
  moreover have "b \<notin> set (tl (ys @ [h]))" unfolding b using D(2) by (cases ys) auto
  moreover have "b \<notin> set xs" using b_in R by auto
  moreover have "a \<notin> set ys" using a_in R by auto
  ultimately have "flinked (nx(a := b)) (pv(b := a)) (h # xs)" "flinked (nx(a := b)) (pv(b := a)) (ys @ [h])"
    using R ys by (auto intro!: flinked_off dest: in_set_butlastD)
  then show ?thesis using R a b by (auto simp: ring_ends)
qed

lemma ring_replace:
  assumes r: "ring h nx pv (xs @ old # ys)" and n: "n \<notin> set (h # xs @ ys)"
    and a: "a = last (h # xs)" and b: "b = hd (ys @ [h])"
  shows "ring h (nx(n := b, a := n)) (pv(n := a, b := n)) (xs @ n # ys)"
proof -
  have "a \<in> set (h # xs)" "b \<in> set (ys @ [h])" unfolding a b by (rule last_in_set, simp) (cases ys; simp)
  then have "a \<noteq> n" "b \<noteq> n" using n by auto
  then have "(nx(a := b))(n := b, a := n) = nx(n := b, a := n)" "(pv(b := a))(n := a, b := n) = pv(n := a, b := n)"
    by auto
  then show ?thesis using ring_insert [OF ring_remove [OF r a b] n a b] by simp
qed

subsection \<open>The invariant\<close>

definition heap_control_ok :: "Heap \<Rightarrow> bool" where
  "heap_control_ok s \<longleftrightarrow> 0 < unat (page_size s) \<and> 8 dvd unat (page_size s)
     \<and> unat (page_size s) dvd unat (min_block_size s) \<and> 16 \<le> unat (min_block_size s)"

definition block_ok :: "Heap \<Rightarrow> addr \<Rightarrow> bool" where
  "block_ok s b \<longleftrightarrow> unat (page_size s) dvd unat b + 8 \<and> unat b + 8 < 2 ^ 32"

text \<open>\<open>H\<close> is the set of blocks whose used flag is out of date, empty between operations.\<close>

definition heap_inv_except :: "addr set \<Rightarrow> Heap \<Rightarrow> addr list \<Rightarrow> addr list \<Rightarrow> bool" where
  "heap_inv_except H s bs fs \<longleftrightarrow> heap_control_ok s
     \<and> 2 \<le> length bs \<and> hd bs = first_block s \<and> last bs = last_block s
     \<and> layout (unat (min_block_size s)) (size_and_flag s) (prev_size s) H (set fs) bs
     \<and> list_all (block_ok s) bs
     \<and> size_and_flag s (first_block s) AND 1 \<noteq> 0
     \<and> size_and_flag s (last_block s) AND NOT 1 = first_block s - last_block s
     \<and> set fs \<subseteq> set (butlast bs) \<and> \<not> Heap_Is_block_in_heap s (free_list s)
     \<and> ring (free_list s) (next_free s) (prev_free s) fs"

abbreviation heap_inv :: "Heap \<Rightarrow> addr list \<Rightarrow> addr list \<Rightarrow> bool" where
  "heap_inv \<equiv> heap_inv_except {}"

lemma heap_inv_exceptD:
  assumes "heap_inv_except H s bs fs"
  shows "heap_control_ok s" "layout (unat (min_block_size s)) (size_and_flag s) (prev_size s) H (set fs) bs"
    "ring (free_list s) (next_free s) (prev_free s) fs" "set fs \<subseteq> set (butlast bs)" "\<not> Heap_Is_block_in_heap s (free_list s)"
    "\<forall>b \<in> set bs. block_ok s b" "hd bs = first_block s" "last bs = last_block s" "2 \<le> length bs"
    "size_and_flag s (first_block s) AND 1 \<noteq> 0" "size_and_flag s (last_block s) AND NOT 1 = first_block s - last_block s"
  using assms by (simp_all add: heap_inv_except_def list_all_iff)

lemma heap_inv_distinct: "heap_inv_except H s bs fs \<Longrightarrow> distinct bs"
  using layout_distinct [OF heap_inv_exceptD(2)] heap_inv_exceptD(1) by (fastforce simp: heap_control_ok_def)

lemma heap_inv_sorted:
  "heap_inv_except H s bs fs \<Longrightarrow> sorted_wrt (\<lambda>b b'. unat b + unat (min_block_size s) \<le> unat b') bs"
  using layout_sorted [OF heap_inv_exceptD(2)] heap_inv_exceptD(1) by (fastforce simp: heap_control_ok_def)

lemma block_ok_even:
  assumes "heap_control_ok s" "block_ok s b"
  shows "\<not> bit b 0"
proof -
  have "8 dvd unat (page_size s)" "unat (page_size s) dvd unat b + 8"
    using assms by (simp_all add: heap_control_ok_def block_ok_def)
  then have "8 dvd unat b + 8" by (rule dvd_trans)
  then have "even (unat b + 8)" by (rule dvd_trans [rotated]) simp
  then show ?thesis by (simp add: even_unat)
qed

lemma even_diff:
  assumes "\<not> bit (a :: uint32) 0" "\<not> bit b 0"
  shows "\<not> bit (b - a) 0"
  using assms by (simp add: bit_0)

text \<open>The blocks lie between the first and the last one.\<close>

lemma heap_inv_in_heap:
  assumes inv: "heap_inv_except H s bs fs" and b: "b \<in> set bs"
  shows "Heap_Is_block_in_heap s b"
proof -
  note S = heap_inv_sorted [OF inv]
  have ne: "bs \<noteq> []" using b by auto
  have "unat (hd bs) \<le> unat b"
  proof (cases bs)
    case (Cons x xs)
    then show ?thesis using S b by auto
  qed (use ne in simp)
  moreover have "unat b \<le> unat (last bs)"
  proof (cases bs rule: rev_cases)
    case (snoc xs x)
    then show ?thesis using S b by (auto simp: sorted_wrt_append)
  qed (use ne in simp)
  ultimately show ?thesis
    using heap_inv_exceptD(7,8) [OF inv] by (simp add: Heap_Is_block_in_heap_def word_le_nat_alt)
qed

text \<open>What the block after the block of an allocation shows.\<close>

lemma heap_inv_pair:
  assumes "heap_inv_except H s (xs @ b # n # ys) fs"
  shows "adj (unat (min_block_size s)) (size_and_flag s) (prev_size s) H (set fs) b n"
  using heap_inv_exceptD(2) [OF assms] by (simp add: layout_append)

lemma Heap_Block_of_alloc_area_eq:
  assumes "heap_control_ok s" "block_ok s b" "unat b + 8 \<le> unat a" "unat a < unat b + 8 + unat (page_size s)"
  shows "Heap_Block_of_alloc_area a (page_size s) = b"
proof -
  obtain k where k: "unat b + 8 = unat (page_size s) * k" using assms(2) by (auto simp: block_ok_def)
  define r where "r = unat a - (unat b + 8)"
  have a: "unat a = unat (page_size s) * k + r" and r: "r < unat (page_size s)" using assms(3,4) k by (simp_all add: r_def)
  then have "unat a mod unat (page_size s) = r" by simp
  then have "unat (a - a mod page_size s) = unat b + 8"
    using a k by (subst unat_sub_no_wrap) (simp_all add: unat_mod_word)
  then have "unat (a - a mod page_size s - 8) = unat b" by (subst unat_sub_no_wrap) simp_all
  then show ?thesis by (simp add: Heap_Block_of_alloc_area_def Heap_Align_down_def eq_word_nat)
qed

lemma heap_inv_surgery:
  assumes inv: "heap_inv_except H s (xs @ mid @ ys) fs"
    and ctl: "page_size s' = page_size s" "min_block_size s' = min_block_size s" "first_block s' = first_block s"
      "last_block s' = last_block s" "free_list s' = free_list s"
    and same: "\<forall>b \<in> set xs \<union> set ys. size_and_flag s' b = size_and_flag s b \<and> prev_size s' b = prev_size s b
        \<and> (b \<in> set fs' \<longleftrightarrow> b \<in> set fs)"
    and mid: "mid \<noteq> []" "mid' \<noteq> []" "hd mid' = hd mid" "last mid' = last mid"
      "layout (unat (min_block_size s)) (size_and_flag s') (prev_size s') H' (set fs') mid'"
      "\<forall>b \<in> set mid'. block_ok s b"
    and hole: "H \<subseteq> set mid" "last mid \<notin> H"
    and first: "size_and_flag s' (hd mid) AND 1 \<noteq> 0 \<longleftrightarrow> size_and_flag s (hd mid) AND 1 \<noteq> 0"
      "prev_size s' (hd mid) = prev_size s (hd mid)"
      "hd mid \<in> set fs' \<Longrightarrow> hd mid \<in> set fs \<or> size_and_flag s (hd mid) AND 1 \<noteq> 0"
    and last: "size_and_flag s' (last mid) AND NOT 1 = size_and_flag s (last mid) AND NOT 1"
      "last mid \<in> set fs' \<longleftrightarrow> last mid \<in> set fs"
    and frees: "ring (free_list s') (next_free s') (prev_free s') fs'" "set fs' \<subseteq> set (butlast (xs @ mid' @ ys))"
      and len: "2 \<le> length (xs @ mid' @ ys)"
  shows "heap_inv_except H' s' (xs @ mid' @ ys) fs'"
proof -
  note I = heap_inv_exceptD [OF inv]
  note D = heap_inv_distinct [OF inv]
  let ?mn = "unat (min_block_size s)"
  have ends: "hd (xs @ mid' @ ys) = first_block s" "List.last (xs @ mid' @ ys) = last_block s"
    using I(7,8) mid by (simp_all add: hd_append last_append split: if_splits)
  have "layout ?mn (size_and_flag s') (prev_size s') H' (set fs') (xs @ mid' @ ys)"
  proof (rule layout_surgery [OF I(2) _ mid(5,1,2)])
    show "\<forall>b \<in> set xs \<union> set ys. size_and_flag s' b = size_and_flag s b \<and> prev_size s' b = prev_size s b
        \<and> (b \<in> set fs' \<longleftrightarrow> b \<in> set fs) \<and> (b \<in> H \<longrightarrow> b \<in> H')"
      using same hole(1) D by auto
    show "adj ?mn (size_and_flag s') (prev_size s') H' (set fs') (List.last xs) (hd mid')"
      if "xs \<noteq> []" "adj ?mn (size_and_flag s) (prev_size s) H (set fs) (List.last xs) (hd mid)"
    proof -
      have "List.last xs \<in> set xs" using that by simp
      then have "List.last xs \<notin> H" using hole(1) D by auto
      then show ?thesis using that same first mid(3) \<open>List.last xs \<in> set xs\<close> unfolding adj_def by auto
    qed
    show "adj ?mn (size_and_flag s') (prev_size s') H' (set fs') (List.last mid') (hd ys)"
      if "ys \<noteq> []" "adj ?mn (size_and_flag s) (prev_size s) H (set fs) (List.last mid) (hd ys)"
    proof -
      have "hd ys \<in> set ys" using that by simp
      then show ?thesis using that same last mid(4) hole(2) unfolding adj_def by auto
    qed
  qed
  moreover have "size_and_flag s' (first_block s) AND 1 \<noteq> 0"
  proof (cases xs)
    case Nil
    then show ?thesis using I(7,10) mid(1) first(1) by simp
  next
    case (Cons x xs')
    then show ?thesis using I(7,10) same by simp
  qed
  moreover have "size_and_flag s' (last_block s) AND NOT 1 = first_block s - last_block s"
  proof (cases ys rule: rev_cases)
    case Nil
    then show ?thesis using I(8,11) mid(1) last(1) by simp
  next
    case (snoc ys' y)
    then show ?thesis using I(8,11) same by simp
  qed
  moreover have "\<forall>b \<in> set (xs @ mid' @ ys). block_ok s' b" using I(6) mid(6) ctl by (auto simp: block_ok_def)
  moreover have "heap_control_ok s'" using I(1) ctl by (simp add: heap_control_ok_def)
  moreover have "\<not> Heap_Is_block_in_heap s' (free_list s')" using I(5) ctl by (simp add: Heap_Is_block_in_heap_def)
  ultimately show ?thesis
    using ends frees len ctl by (simp add: heap_inv_except_def list_all_iff)
qed

text \<open>The blocks in use with their sizes, the last block of the control included: what clients own.\<close>

definition used_list :: "Heap \<Rightarrow> addr list \<Rightarrow> addr list \<Rightarrow> (addr \<times> uint32) list" where
  "used_list s bs fs = map (\<lambda>b. (b, Heap_Block_size s b)) (filter (\<lambda>b. b \<notin> set fs) bs)"

lemma used_list_append: "used_list s (xs @ ys) fs = used_list s xs fs @ used_list s ys fs"
  by (simp add: used_list_def)

lemma used_list_Cons:
  "used_list s (x # xs) fs = (if x \<in> set fs then used_list s xs fs else (x, Heap_Block_size s x) # used_list s xs fs)"
  by (simp add: used_list_def)

lemma used_list_Nil [simp]: "used_list s [] fs = []"
  by (simp add: used_list_def)

lemma used_list_drop: "b \<notin> set xs \<Longrightarrow> filter (\<lambda>(u, z). u \<noteq> b) (used_list s xs fs) = used_list s xs fs"
  by (auto simp: used_list_def filter_id_conv)

lemma used_list_same:
  assumes "\<forall>b \<in> set xs. size_and_flag s' b = size_and_flag s b \<and> (b \<in> set fs' \<longleftrightarrow> b \<in> set fs)"
  shows "used_list s' xs fs' = used_list s xs fs"
  unfolding used_list_def using assms by (auto simp: Heap_Block_size_def intro!: map_cong filter_cong)

lemma heap_inv_stats [simp]: "heap_inv_except H (s\<lparr>stats := t\<rparr>) bs fs = heap_inv_except H s bs fs"
  by (simp add: heap_inv_except_def heap_control_ok_def block_ok_def Heap_Is_block_in_heap_def cong: list.pred_cong)

lemma used_list_stats [simp]: "used_list (s\<lparr>stats := t\<rparr>) bs fs = used_list s bs fs"
  by (simp add: used_list_def Heap_Block_size_def)

lemma Heap_Block_size_stats [simp]: "Heap_Block_size (s\<lparr>stats := t\<rparr>) b = Heap_Block_size s b"
  by (simp add: Heap_Block_size_def)

lemma free_list_fields [simp]:
  "size_and_flag (Heap_Free_list_insert_after a b s) = size_and_flag s"
  "prev_size (Heap_Free_list_insert_after a b s) = prev_size s"
  "size_and_flag (Heap_Free_list_replace a b s) = size_and_flag s"
  "prev_size (Heap_Free_list_replace a b s) = prev_size s"
  "size_and_flag (Heap_Free_list_remove b s) = size_and_flag s"
  "prev_size (Heap_Free_list_remove b s) = prev_size s"
  by (simp_all add: Heap_Free_list_insert_after_def Heap_Free_list_replace_def Heap_Free_list_remove_def Let_def)

lemma free_list_control [simp]:
  "page_size (Heap_Free_list_insert_after a b s) = page_size s" "page_size (Heap_Free_list_replace a b s) = page_size s"
  "page_size (Heap_Free_list_remove b s) = page_size s"
  "min_block_size (Heap_Free_list_insert_after a b s) = min_block_size s" "min_block_size (Heap_Free_list_replace a b s) = min_block_size s"
  "min_block_size (Heap_Free_list_remove b s) = min_block_size s"
  "first_block (Heap_Free_list_insert_after a b s) = first_block s" "first_block (Heap_Free_list_replace a b s) = first_block s"
  "first_block (Heap_Free_list_remove b s) = first_block s"
  "last_block (Heap_Free_list_insert_after a b s) = last_block s" "last_block (Heap_Free_list_replace a b s) = last_block s"
  "last_block (Heap_Free_list_remove b s) = last_block s"
  "free_list (Heap_Free_list_insert_after a b s) = free_list s" "free_list (Heap_Free_list_replace a b s) = free_list s"
  "free_list (Heap_Free_list_remove b s) = free_list s"
  "stats (Heap_Free_list_insert_after a b s) = stats s" "stats (Heap_Free_list_replace a b s) = stats s"
  "stats (Heap_Free_list_remove b s) = stats s"
  by (simp_all add: Heap_Free_list_insert_after_def Heap_Free_list_replace_def Heap_Free_list_remove_def Let_def)

abbreviation free_ring :: "Heap \<Rightarrow> addr list \<Rightarrow> bool" where
  "free_ring s fs \<equiv> ring (free_list s) (next_free s) (prev_free s) fs"

lemma Heap_Free_list_insert_after_ring:
  assumes "free_ring s (xs @ ys)" "n \<notin> set (free_list s # xs @ ys)" "a = last (free_list s # xs)"
  shows "free_ring (Heap_Free_list_insert_after a n s) (xs @ n # ys)"
proof -
  have "next_free s a = hd (ys @ [free_list s])" using assms(1,3) by (simp add: ring_ends)
  moreover have "a \<noteq> n" using assms(2,3) last_in_set [of "free_list s # xs"] by auto
  ultimately show ?thesis
    using ring_insert [OF assms(1,2,3) refl]
    by (simp add: Heap_Free_list_insert_after_def Let_def fun_upd_twist)
qed

lemma Heap_Free_list_remove_ring:
  assumes "free_ring s (xs @ n # ys)"
  shows "free_ring (Heap_Free_list_remove n s) (xs @ ys)"
  using ring_remove [OF assms refl refl] ring_neighbours [OF assms] by (simp add: Heap_Free_list_remove_def Let_def)

lemma Heap_Free_list_replace_ring:
  assumes "free_ring s (xs @ old # ys)" "n \<notin> set (free_list s # xs @ ys)"
  shows "free_ring (Heap_Free_list_replace old n s) (xs @ n # ys)"
  using ring_replace [OF assms refl refl] ring_neighbours [OF assms(1)]
  by (simp add: Heap_Free_list_replace_def Let_def)

subsection \<open>Release\<close>

text \<open>The four ways a used block between \<open>xs\<close> and \<open>n\<close> is released.\<close>

lemma heap_pairD:
  assumes inv: "heap_inv_except H s (xs @ b # n # ys) fs"
  shows "unat b + unat (min_block_size s) \<le> unat n" "size_and_flag s b AND NOT 1 = n - b" "\<not> bit (n - b) 0"
    "b \<notin> H \<Longrightarrow> (size_and_flag s n AND 1 \<noteq> 0) \<longleftrightarrow> b \<notin> set fs" "b \<in> set fs \<Longrightarrow> prev_size s n = n - b \<and> n \<notin> set fs"
    "b \<noteq> n" "b \<notin> set xs" "b \<notin> set ys" "n \<notin> set xs" "n \<notin> set ys" "block_ok s b" "block_ok s n"
    "free_list s \<noteq> b" "free_list s \<noteq> n"
proof -
  note I = heap_inv_exceptD [OF inv] and D = heap_inv_distinct [OF inv]
  have P: "adj (unat (min_block_size s)) (size_and_flag s) (prev_size s) H (set fs) b n"
    by (rule heap_inv_pair [OF inv])
  then show "unat b + unat (min_block_size s) \<le> unat n" "size_and_flag s b AND NOT 1 = n - b"
    "b \<notin> H \<Longrightarrow> (size_and_flag s n AND 1 \<noteq> 0) \<longleftrightarrow> b \<notin> set fs" "b \<in> set fs \<Longrightarrow> prev_size s n = n - b \<and> n \<notin> set fs"
    by (auto simp: adj_def)
  show "block_ok s b" "block_ok s n" using I(6) by auto
  then show "\<not> bit (n - b) 0" using I(1) by (intro even_diff block_ok_even)
  show "b \<noteq> n" "b \<notin> set xs" "b \<notin> set ys" "n \<notin> set xs" "n \<notin> set ys" using D by auto
  show "free_list s \<noteq> b" "free_list s \<noteq> n" using I(5) heap_inv_in_heap [OF inv] by auto
qed

lemma Heap_Free_none:
  assumes inv: "heap_inv s (xs @ b # n # ys) fs" and used: "b \<notin> set fs" "n \<notin> set fs"
    and prev: "size_and_flag s b AND 1 \<noteq> 0"
    and s': "s' = set_prev_size n (n - b) (set_size_and_flag n (size_and_flag s n AND NOT 1)
       (set_size_and_flag b ((n - b) OR 1) (Heap_Free_list_insert_after (free_list s) b s)))"
  shows "heap_inv s' (xs @ [b, n] @ ys) (b # fs)"
proof -
  note P = heap_pairD [OF inv] and I = heap_inv_exceptD [OF inv]
  have inv': "heap_inv s (xs @ [b, n] @ ys) fs" using inv by simp
  show ?thesis
  proof (rule heap_inv_surgery [OF inv'])
    show "layout (unat (min_block_size s)) (size_and_flag s') (prev_size s') {} (set (b # fs)) [b, n]"
      using P used by (simp add: s' adj_def tags)
    show "free_ring s' (b # fs)"
      using Heap_Free_list_insert_after_ring [of s "[]" fs b "free_list s"] I(3) P used by (simp add: s')
    show "set (b # fs) \<subseteq> set (butlast (xs @ [b, n] @ ys))" using I(4) by (auto simp: butlast_append)
  qed (use P used prev in \<open>auto simp: s' even_or_1 flag_only\<close>)
qed

lemma Heap_Free_next:
  assumes inv: "heap_inv s (xs @ b # n # q # ys) (us @ n # vs)" and used: "b \<notin> set (us @ n # vs)"
    and prev: "size_and_flag s b AND 1 \<noteq> 0"
    and s': "s' = set_prev_size q (q - b) (set_size_and_flag b ((q - b) OR 1) (Heap_Free_list_replace n b s))"
  shows "heap_inv s' (xs @ [b, q] @ ys) (us @ b # vs)"
proof -
  note P = heap_pairD [OF inv] and I = heap_inv_exceptD [OF inv]
  have inv': "heap_inv s (xs @ [b, n, q] @ ys) (us @ n # vs)" "heap_inv s ((xs @ [b]) @ n # q # ys) (us @ n # vs)"
    using inv by simp_all
  note Q = heap_pairD [OF inv'(2)] and R = ring_neighbours [OF I(3)]
  have even: "\<not> bit (q - b) 0" using P(11) Q(12) I(1) by (intro even_diff block_ok_even)
  show ?thesis
  proof (rule heap_inv_surgery [OF inv'(1)])
    show "layout (unat (min_block_size s)) (size_and_flag s') (prev_size s') {} (set (us @ b # vs)) [b, q]"
      using P Q used even by (auto simp: s' adj_def tags)
    show "free_ring s' (us @ b # vs)"
      using Heap_Free_list_replace_ring [OF I(3), of b] P used by (simp add: s')
    show "set (us @ b # vs) \<subseteq> set (butlast (xs @ [b, q] @ ys))"
      using I(4) R Q(6) P(9,10) by (auto simp: butlast_append split: if_splits)
  qed (use P Q R used prev in \<open>auto simp: s' tags\<close>)
qed

lemma Heap_Free_prev:
  assumes inv: "heap_inv s (xs @ p # b # n # ys) fs" and used: "b \<notin> set fs" "n \<notin> set fs" "p \<in> set fs"
    and s': "s' = set_prev_size n (n - p) (set_size_and_flag n (size_and_flag s n AND NOT 1)
       (set_size_and_flag p ((n - p) OR 1) s))"
    and prev: "size_and_flag s p AND 1 \<noteq> 0"
  shows "heap_inv s' (xs @ [p, n] @ ys) fs"
proof -
  note P = heap_pairD [OF inv] and I = heap_inv_exceptD [OF inv]
  have inv': "heap_inv s (xs @ [p, b, n] @ ys) fs" "heap_inv s ((xs @ [p]) @ b # n # ys) fs" using inv by simp_all
  note Q = heap_pairD [OF inv'(2)]
  have even: "\<not> bit (n - p) 0" using P(11) Q(12) I(1) by (intro even_diff block_ok_even)
  show ?thesis
  proof (rule heap_inv_surgery [OF inv'(1)])
    show "layout (unat (min_block_size s)) (size_and_flag s') (prev_size s') {} (set fs) [p, n]"
      using P Q used even by (auto simp: s' adj_def tags)
    show "free_ring s' fs" using I(3) by (simp add: s')
    show "set fs \<subseteq> set (butlast (xs @ [p, n] @ ys))"
      using I(4) used by (auto simp: butlast_append split: if_splits)
  qed (use P Q used prev in \<open>auto simp: s' tags\<close>)
qed

lemma Heap_Free_both:
  assumes inv: "heap_inv s (xs @ p # b # n # q # ys) (us @ n # vs)" and used: "b \<notin> set (us @ n # vs)" "p \<in> set (us @ n # vs)"
    and s': "s' = set_prev_size q (q - p) (set_size_and_flag p ((q - p) OR 1) (Heap_Free_list_remove n s))"
    and prev: "size_and_flag s p AND 1 \<noteq> 0"
  shows "heap_inv s' (xs @ [p, q] @ ys) (us @ vs)"
proof -
  note P = heap_pairD [OF inv] and I = heap_inv_exceptD [OF inv]
  have inv': "heap_inv s (xs @ [p, b, n, q] @ ys) (us @ n # vs)" "heap_inv s ((xs @ [p]) @ b # n # q # ys) (us @ n # vs)"
    "heap_inv s ((xs @ [p, b]) @ n # q # ys) (us @ n # vs)" using inv by simp_all
  note Q = heap_pairD [OF inv'(2)] and R = heap_pairD [OF inv'(3)] and T = ring_neighbours [OF I(3)]
  have even: "\<not> bit (q - p) 0" using P(11) R(12) I(1) by (intro even_diff block_ok_even)
  have pn: "p \<in> set (us @ vs)" using used(2) Q by auto
  show ?thesis
  proof (rule heap_inv_surgery [OF inv'(1)])
    show "layout (unat (min_block_size s)) (size_and_flag s') (prev_size s') {} (set (us @ vs)) [p, q]"
      using P Q R used pn even by (auto simp: s' adj_def tags)
    show "free_ring s' (us @ vs)"
      using Heap_Free_list_remove_ring [OF I(3)] by (simp add: s')
    show "set (us @ vs) \<subseteq> set (butlast (xs @ [p, q] @ ys))"
      using I(4) T used(1) R(6) by (auto simp: butlast_append split: if_splits)
  qed (use P Q R T used prev in \<open>auto simp: s' tags\<close>)
qed

text \<open>What the flags and sizes say of the neighbours of a block.\<close>

lemma heap_prev_flag:
  assumes inv: "heap_inv_except H s (xs @ b # ys) fs" and H: "H \<inter> set xs = {}"
  shows "size_and_flag s b AND 1 \<noteq> 0 \<longleftrightarrow> (xs = [] \<or> last xs \<notin> set fs)"
proof (cases xs rule: rev_cases)
  case Nil
  then show ?thesis using heap_inv_exceptD(7,10) [OF inv] by simp
next
  case (snoc xs' p)
  then have "heap_inv_except H s (xs' @ p # b # ys) fs" "p \<notin> H" using inv H by auto
  then show ?thesis using heap_pairD(4) snoc by simp
qed

lemma heap_last_not_free: "heap_inv_except H s (xs @ [b]) fs \<Longrightarrow> b \<notin> set fs"
  using heap_inv_exceptD(4) [of H s "xs @ [b]" fs] heap_inv_distinct [of H s "xs @ [b]" fs] by auto

lemma heap_next_free:
  assumes inv: "heap_inv s (xs @ n # ys) fs"
  shows "(n \<noteq> last_block s \<and> \<not> Heap_Is_prev_used s (n + Heap_Block_size s n)) \<longleftrightarrow> n \<in> set fs"
proof (cases ys)
  case Nil
  then show ?thesis using heap_inv_exceptD(8) [OF inv] heap_last_not_free [of "{}" s xs n fs] inv by simp
next
  case (Cons q ys')
  have "distinct (xs @ n # ys)" by (rule heap_inv_distinct [OF inv])
  moreover have "last_block s \<in> set (q # ys')" using heap_inv_exceptD(8) [OF inv] Cons last_in_set [of "q # ys'"] by simp
  ultimately have "n \<noteq> last_block s" using Cons by auto
  then show ?thesis
    using heap_pairD(2,4) [of "{}" s xs n q ys' fs] inv Cons
    by (simp add: Heap_Is_prev_used_def Heap_Block_size_def)
qed

lemma unat_distance: "unat b + mn \<le> unat n \<Longrightarrow> unat b + unat (n - b) = unat (n :: addr)"
  by (simp add: unat_sub_no_wrap)

text \<open>The body of \<open>_Heap_Free\<close> behind its checks, for a block \<open>b\<close> followed by \<open>n\<close>.\<close>

definition free_stats :: "uint32 \<Rightarrow> Heap \<Rightarrow> Heap" where
  "free_stats z s = upd_stats (\<lambda>t. t\<lparr>used_blocks := used_blocks t - 1, frees := frees t + 1,
     free_size := free_size t + z, lifetime_freed := lifetime_freed t + ucast z\<rparr>) s"

lemma free_stats_simps [simp]:
  "heap_inv_except H (free_stats z t) bs fs = heap_inv_except H t bs fs" "used_list (free_stats z t) bs fs = used_list t bs fs"
  "Heap_Block_size (free_stats z t) f = Heap_Block_size t f" "page_size (free_stats z t) = page_size t"
  "free_list (free_stats z t) = free_list t"
  by (simp_all add: free_stats_def)

lemma add_distance: "b + (n - b) = (n :: addr)"
  by simp

lemma Heap_Free_body:
  assumes "a \<noteq> NULL" "Heap_Block_of_alloc_area a (page_size s) = b" "Heap_Is_block_in_heap s b = True"
    "Heap_Block_size s b = n - b" "Heap_Is_block_in_heap s n = True" "Heap_Is_prev_used s n = True"
    and nf: "(n \<noteq> last_block s \<and> \<not> Heap_Is_prev_used s (n + nz)) = nf"
    and nz: "Heap_Block_size s n = nz"
    and pz: "prev_size s b = pz" "Heap_Is_block_in_heap s (b - pz) = True" "Heap_Is_prev_used s (b - pz) = True"
  shows "\<not> Heap_Is_prev_used s b \<Longrightarrow> nf \<Longrightarrow> Heap_Free s a =
      (free_stats (n - b) (set_prev_size (b - pz + (n - b + pz + nz)) (n - b + pz + nz)
         (set_size_and_flag (b - pz) ((n - b + pz + nz) OR 1)
           (upd_stats (\<lambda>t. t\<lparr>free_blocks := free_blocks t - 1\<rparr>) (Heap_Free_list_remove n s)))), True)"
    and "\<not> Heap_Is_prev_used s b \<Longrightarrow> \<not> nf \<Longrightarrow> Heap_Free s a =
      (free_stats (n - b) (let t = set_size_and_flag (b - pz) ((n - b + pz) OR 1) s in
         set_prev_size n (n - b + pz) (set_size_and_flag n (size_and_flag t n AND NOT 1) t)), True)"
  unfolding Heap_Free_def Let_def Heap_Block_at_def
  by (simp_all only: assms add_distance add_uminus_conv_diff free_stats_def [symmetric] if_True if_False simp_thms)

lemma Heap_Free_body_prev_used:
  assumes "a \<noteq> NULL" "Heap_Block_of_alloc_area a (page_size s) = b" "Heap_Is_block_in_heap s b = True"
    "Heap_Block_size s b = n - b" "Heap_Is_block_in_heap s n = True" "Heap_Is_prev_used s n = True"
    and nf: "(n \<noteq> last_block s \<and> \<not> Heap_Is_prev_used s (n + nz)) = nf"
    and nz: "Heap_Block_size s n = nz" and pu: "Heap_Is_prev_used s b"
  shows "nf \<Longrightarrow> Heap_Free s a =
      (free_stats (n - b) (set_prev_size (b + (n - b + nz)) (n - b + nz)
         (set_size_and_flag b ((n - b + nz) OR 1) (Heap_Free_list_replace n b s))), True)"
    and "\<not> nf \<Longrightarrow> \<exists>g. Heap_Free s a =
      (free_stats (n - b) (upd_stats g (let t = set_size_and_flag b ((n - b) OR 1) (Heap_Free_list_insert_after (free_list s) b s) in
         set_prev_size n (n - b) (set_size_and_flag n (size_and_flag t n AND NOT 1) t))), True)"
proof -
  show "nf \<Longrightarrow> Heap_Free s a =
      (free_stats (n - b) (set_prev_size (b + (n - b + nz)) (n - b + nz)
         (set_size_and_flag b ((n - b + nz) OR 1) (Heap_Free_list_replace n b s))), True)"
    unfolding Heap_Free_def Let_def Heap_Block_at_def
    by (simp only: assms add_distance free_stats_def [symmetric] if_True if_False simp_thms)
  let ?g = "\<lambda>t. if max_free_blocks (t\<lparr>free_blocks := free_blocks t + 1\<rparr>) < free_blocks (t\<lparr>free_blocks := free_blocks t + 1\<rparr>)
     then t\<lparr>free_blocks := free_blocks t + 1, max_free_blocks := free_blocks t + 1\<rparr> else t\<lparr>free_blocks := free_blocks t + 1\<rparr>"
  have two: "upd_stats (\<lambda>t. if max_free_blocks t < free_blocks t then t\<lparr>max_free_blocks := free_blocks t\<rparr> else t)
      (upd_stats (\<lambda>t. t\<lparr>free_blocks := free_blocks t + 1\<rparr>) t) = upd_stats ?g t" for t by simp
  assume "\<not> nf"
  then have "Heap_Free s a =
      (free_stats (n - b) (upd_stats ?g (let t = set_size_and_flag b ((n - b) OR 1) (Heap_Free_list_insert_after (free_list s) b s) in
         set_prev_size n (n - b) (set_size_and_flag n (size_and_flag t n AND NOT 1) t))), True)"
    unfolding Heap_Free_def Let_def Heap_Block_at_def two [symmetric]
    by (simp only: assms add_distance Heap_Free_list_head_def free_stats_def [symmetric] if_True if_False simp_thms)
  then show "\<exists>g. Heap_Free s a =
      (free_stats (n - b) (upd_stats g (let t = set_size_and_flag b ((n - b) OR 1) (Heap_Free_list_insert_after (free_list s) b s) in
         set_prev_size n (n - b) (set_size_and_flag n (size_and_flag t n AND NOT 1) t))), True)" by blast
qed

text \<open>Releasing an area of a used block: the area lies in a free block afterwards, the blocks in use are
  those before without the released one, and the invariant holds.\<close>

definition freed :: "Heap \<Rightarrow> addr list \<Rightarrow> addr list \<Rightarrow> addr \<Rightarrow> addr \<Rightarrow> Heap \<Rightarrow> addr list \<Rightarrow> addr list \<Rightarrow> bool" where
  "freed s bs fs b n s' bs' fs' \<longleftrightarrow> heap_inv s' bs' fs'
     \<and> used_list s' bs' fs' = filter (\<lambda>(u, z). u \<noteq> b) (used_list s bs fs)
     \<and> (\<exists>f \<in> set fs'. unat f \<le> unat b \<and> unat n \<le> unat f + unat (Heap_Block_size s' f))
     \<and> page_size s' = page_size s \<and> free_list s' = free_list s"

lemma freed_stats [simp]:
  "freed s bs fs b n (free_stats z s') bs' fs' = freed s bs fs b n s' bs' fs'"
  "freed s bs fs b n (s'\<lparr>stats := t\<rparr>) bs' fs' = freed s bs fs b n s' bs' fs'"
  by (simp_all add: freed_def)

lemma freed_none:
  assumes inv: "heap_inv s (xs @ b # n # ys) fs" and used: "b \<notin> set fs" "n \<notin> set fs"
    and prev: "size_and_flag s b AND 1 \<noteq> 0"
    and s': "s' = set_prev_size n (n - b) (set_size_and_flag n (size_and_flag s n AND NOT 1)
       (set_size_and_flag b ((n - b) OR 1) (Heap_Free_list_insert_after (free_list s) b s)))"
  shows "freed s (xs @ b # n # ys) fs b n s' (xs @ [b, n] @ ys) (b # fs)"
proof -
  note P = heap_pairD [OF inv]
  have "used_list s' xs (b # fs) = used_list s xs fs" "used_list s' ys (b # fs) = used_list s ys fs"
    using P by (auto intro!: used_list_same simp: s')
  moreover have "Heap_Block_size s' n = Heap_Block_size s n" "Heap_Block_size s' b = n - b"
    using P(3,6) by (simp_all add: s' Heap_Block_size_def tags)
  ultimately show ?thesis
    using Heap_Free_none [OF inv used prev s'] P used unat_distance [OF P(1)]
    by (simp add: freed_def used_list_append used_list_Cons used_list_drop s')
qed

lemma freed_next:
  assumes inv: "heap_inv s (xs @ b # n # q # ys) (us @ n # vs)" and used: "b \<notin> set (us @ n # vs)"
    and prev: "size_and_flag s b AND 1 \<noteq> 0"
    and s': "s' = set_prev_size q (q - b) (set_size_and_flag b ((q - b) OR 1) (Heap_Free_list_replace n b s))"
  shows "freed s (xs @ b # n # q # ys) (us @ n # vs) b n s' (xs @ [b, q] @ ys) (us @ b # vs)"
proof -
  have inv': "heap_inv s ((xs @ [b]) @ n # q # ys) (us @ n # vs)" using inv by simp
  note P = heap_pairD [OF inv] and Q = heap_pairD [OF inv'] and I = heap_inv_exceptD [OF inv]
  have even: "\<not> bit (q - b) 0" using P(11) Q(12) I(1) by (intro even_diff block_ok_even)
  have "used_list s' xs (us @ b # vs) = used_list s xs (us @ n # vs)" "used_list s' ys (us @ b # vs) = used_list s ys (us @ n # vs)"
    using P Q by (auto intro!: used_list_same simp: s')
  moreover have "Heap_Block_size s' q = Heap_Block_size s q" "Heap_Block_size s' b = q - b"
    using Q(9) even by (auto simp: s' Heap_Block_size_def tags)
  moreover have "unat b + unat (q - b) = unat q" using P(1) Q(1) by (intro unat_distance [of b 0]) simp
  moreover have "q \<notin> set (us @ n # vs)" using Q(5) by simp
  ultimately show ?thesis
    using Heap_Free_next [OF inv used prev s'] P Q used
    by (simp add: freed_def used_list_append used_list_Cons used_list_drop s')
qed

lemma freed_prev:
  assumes inv: "heap_inv s (xs @ p # b # n # ys) fs" and used: "b \<notin> set fs" "n \<notin> set fs" "p \<in> set fs"
    and s': "s' = set_prev_size n (n - p) (set_size_and_flag n (size_and_flag s n AND NOT 1)
       (set_size_and_flag p ((n - p) OR 1) s))"
    and prev: "size_and_flag s p AND 1 \<noteq> 0"
  shows "freed s (xs @ p # b # n # ys) fs b n s' (xs @ [p, n] @ ys) fs"
proof -
  have inv': "heap_inv s ((xs @ [p]) @ b # n # ys) fs" using inv by simp
  note P = heap_pairD [OF inv] and Q = heap_pairD [OF inv'] and I = heap_inv_exceptD [OF inv]
  have even: "\<not> bit (n - p) 0" using P(11) Q(12) I(1) by (intro even_diff block_ok_even)
  have pn: "p \<noteq> n" using Q by auto
  have "used_list s' xs fs = used_list s xs fs" "used_list s' ys fs = used_list s ys fs"
    using P Q by (auto intro!: used_list_same simp: s')
  moreover have "Heap_Block_size s' n = Heap_Block_size s n" "Heap_Block_size s' p = n - p"
    using pn even by (simp_all add: s' Heap_Block_size_def tags)
  moreover have "unat p + unat (n - p) = unat n" using P(1) Q(1) by (intro unat_distance [of p 0]) simp
  moreover have "\<exists>f \<in> set fs. unat f \<le> unat b \<and> unat n \<le> unat f + unat (Heap_Block_size s' f)"
    using used(3) calculation(4,5) P(1) by (intro bexI [of _ p]) simp_all
  ultimately show ?thesis
    using Heap_Free_prev [OF inv used s' prev] P Q used
    by (simp add: freed_def used_list_append used_list_Cons used_list_drop s')
qed

lemma freed_both:
  assumes inv: "heap_inv s (xs @ p # b # n # q # ys) (us @ n # vs)" and used: "b \<notin> set (us @ n # vs)" "p \<in> set (us @ n # vs)"
    and s': "s' = set_prev_size q (q - p) (set_size_and_flag p ((q - p) OR 1) (Heap_Free_list_remove n s))"
    and prev: "size_and_flag s p AND 1 \<noteq> 0"
  shows "freed s (xs @ p # b # n # q # ys) (us @ n # vs) b n s' (xs @ [p, q] @ ys) (us @ vs)"
proof -
  have inv': "heap_inv s ((xs @ [p]) @ b # n # q # ys) (us @ n # vs)" "heap_inv s ((xs @ [p, b]) @ n # q # ys) (us @ n # vs)"
    using inv by simp_all
  note P = heap_pairD [OF inv] and Q = heap_pairD [OF inv'(1)] and R = heap_pairD [OF inv'(2)] and I = heap_inv_exceptD [OF inv]
  note T = ring_neighbours [OF I(3)]
  have even: "\<not> bit (q - p) 0" using P(11) R(12) I(1) by (intro even_diff block_ok_even)
  have pq: "p \<noteq> q" "p \<noteq> n" "p \<in> set (us @ vs)" using R Q used(2) by auto
  have "used_list s' xs (us @ vs) = used_list s xs (us @ n # vs)" "used_list s' ys (us @ vs) = used_list s ys (us @ n # vs)"
    using P Q R by (auto intro!: used_list_same simp: s')
  moreover have "Heap_Block_size s' q = Heap_Block_size s q" "Heap_Block_size s' p = q - p"
    using pq even by (auto simp: s' Heap_Block_size_def tags)
  moreover have "unat p + unat (q - p) = unat q" using P(1) Q(1) R(1) by (intro unat_distance [of p 0]) simp
  moreover have "\<exists>f \<in> set (us @ vs). unat f \<le> unat b \<and> unat n \<le> unat f + unat (Heap_Block_size s' f)"
    using pq(3) calculation(4,5) P(1) R(1) by (intro bexI [of _ p]) simp_all
  moreover have "q \<notin> set (us @ n # vs)" using R(5) by simp
  ultimately show ?thesis
    using Heap_Free_both [OF inv used s' prev] P Q R T used
    by (simp add: freed_def used_list_append used_list_Cons used_list_drop s')
qed

lemma Heap_Free_correct:
  assumes inv: "heap_inv s (xs @ b # n # ys) fs" and used: "b \<notin> set fs"
    and a: "unat b + 8 \<le> unat a" "unat a < unat b + 8 + unat (page_size s)"
  shows "\<exists>s' bs' fs'. Heap_Free s a = (s', True) \<and> freed s (xs @ b # n # ys) fs b n s' bs' fs'"
proof -
  note P = heap_pairD [OF inv] and I = heap_inv_exceptD [OF inv]
  have blk: "Heap_Block_of_alloc_area a (page_size s) = b" by (rule Heap_Block_of_alloc_area_eq [OF I(1) P(11) a])
  have a0: "a \<noteq> 0" using a(1) by auto
  have inh: "Heap_Is_block_in_heap s b = True" "Heap_Is_block_in_heap s n = True" using heap_inv_in_heap [OF inv] by auto
  have size: "Heap_Block_size s b = n - b" using P(2) by (simp add: Heap_Block_size_def)
  have nused: "Heap_Is_prev_used s n = True" using P(4) used by (simp add: Heap_Is_prev_used_def)
  have invn: "heap_inv s ((xs @ [b]) @ n # ys) fs" using inv by simp
  have pflag: "Heap_Is_prev_used s b \<longleftrightarrow> (xs = [] \<or> last xs \<notin> set fs)"
    using heap_prev_flag [OF inv] by (simp add: Heap_Is_prev_used_def)
  have nf: "(n \<noteq> last_block s \<and> \<not> Heap_Is_prev_used s (n + Heap_Block_size s n)) = (n \<in> set fs)"
    by (rule heap_next_free [OF invn])
  have next_cases: "\<exists>q ys' us vs. ys = q # ys' \<and> fs = us @ n # vs \<and> Heap_Block_size s n = q - n" if nfs: "n \<in> set fs"
  proof -
    obtain us vs where fs: "fs = us @ n # vs" using nfs by (auto dest: split_list)
    have "n \<noteq> last_block s" using nf nfs by simp
    then obtain q ys' where ys: "ys = q # ys'" using I(8) by (cases ys) auto
    then have "heap_inv s ((xs @ [b]) @ n # q # ys') fs" using inv by simp
    from heap_pairD(2) [OF this] show ?thesis using fs ys by (auto simp: Heap_Block_size_def)
  qed
  show ?thesis
  proof (cases "Heap_Is_prev_used s b")
    case pu: True
    then have prev: "size_and_flag s b AND 1 \<noteq> 0" by (simp add: Heap_Is_prev_used_def)
    note body = Heap_Free_body_prev_used [OF a0 blk inh(1) size inh(2) nused nf refl pu]
    show ?thesis
    proof (cases "n \<in> set fs")
      case False
      obtain g where g: "Heap_Free s a = (free_stats (n - b) (upd_stats g (let t = set_size_and_flag b ((n - b) OR 1)
          (Heap_Free_list_insert_after (free_list s) b s) in
          set_prev_size n (n - b) (set_size_and_flag n (size_and_flag t n AND NOT 1) t))), True)"
        using body(2) [OF False] by blast
      have "freed s (xs @ b # n # ys) fs b n (set_prev_size n (n - b) (set_size_and_flag n (size_and_flag s n AND NOT 1)
         (set_size_and_flag b ((n - b) OR 1) (Heap_Free_list_insert_after (free_list s) b s)))) (xs @ [b, n] @ ys) (b # fs)"
        by (rule freed_none [OF inv used False prev refl])
      then show ?thesis using g P(6) by (auto simp: Let_def intro!: exI)
    next
      case True
      then obtain q ys' us vs where e: "ys = q # ys'" "fs = us @ n # vs" "Heap_Block_size s n = q - n" using next_cases by blast
      have "Heap_Free s a = (free_stats (n - b) (set_prev_size q (q - b)
          (set_size_and_flag b ((q - b) OR 1) (Heap_Free_list_replace n b s))), True)"
        using body(1) [OF True] by (simp add: e(3))
      moreover have "freed s (xs @ b # n # q # ys') (us @ n # vs) b n (set_prev_size q (q - b)
          (set_size_and_flag b ((q - b) OR 1) (Heap_Free_list_replace n b s))) (xs @ [b, q] @ ys') (us @ b # vs)"
        by (rule freed_next [OF _ _ prev refl]) (use inv used e in simp_all)
      ultimately show ?thesis unfolding e(1,2) using freed_stats(1) by blast
    qed
  next
    case pu: False
    then obtain xs' p where xs: "xs = xs' @ [p]" and p: "p \<in> set fs"
      using pflag by (cases xs rule: rev_cases) auto
    have inv': "heap_inv s (xs' @ p # b # n # ys) fs" using inv xs by simp
    note Q = heap_pairD [OF inv']
    have pz: "prev_size s b = b - p" using Q(5) p by simp
    have "xs' = [] \<or> last xs' \<notin> set fs"
    proof (cases xs' rule: rev_cases)
      case (snoc zs z)
      then have "heap_inv s (zs @ z # p # b # n # ys) fs" using inv' by simp
      from heap_pairD(5) [OF this] p snoc show ?thesis by auto
    qed simp
    then have prev: "size_and_flag s p AND 1 \<noteq> 0" using heap_prev_flag [OF inv'] by simp
    have pp: "b - (b - p) = p" by simp
    have pu': "Heap_Is_block_in_heap s (b - (b - p)) = True" "Heap_Is_prev_used s (b - (b - p)) = True"
      using heap_inv_in_heap [OF inv', of p] prev by (simp_all add: Heap_Is_prev_used_def)
    note body = Heap_Free_body [OF a0 blk inh(1) size inh(2) nused nf refl pz pu' pu]
    show ?thesis
    proof (cases "n \<in> set fs")
      case False
      have "Heap_Free s a = (free_stats (n - b) (set_prev_size n (n - p) (set_size_and_flag n (size_and_flag s n AND NOT 1)
         (set_size_and_flag p ((n - p) OR 1) s))), True)"
        using body(2) [OF False] heap_pairD [OF inv'] P(9) xs by (simp add: Let_def)
      moreover have "freed s (xs' @ p # b # n # ys) fs b n (set_prev_size n (n - p) (set_size_and_flag n (size_and_flag s n AND NOT 1)
         (set_size_and_flag p ((n - p) OR 1) s))) (xs' @ [p, n] @ ys) fs"
        by (rule freed_prev [OF inv' used False p refl prev])
      ultimately show ?thesis unfolding xs append.assoc append_Cons append_Nil using freed_stats(1) by blast
    next
      case True
      then obtain q ys' us vs where e: "ys = q # ys'" "fs = us @ n # vs" "Heap_Block_size s n = q - n" using next_cases by blast
      have sum: "n - b + (b - p) + (q - n) = q - p" by simp
      have "Heap_Free s a = (free_stats (n - b) (set_prev_size q (q - p) (set_size_and_flag p ((q - p) OR 1)
          (upd_stats (\<lambda>t. t\<lparr>free_blocks := free_blocks t - 1\<rparr>) (Heap_Free_list_remove n s)))), True)"
        using body(1) [OF True] unfolding e(3) sum pp by simp
      moreover have "freed s (xs' @ p # b # n # q # ys') (us @ n # vs) b n (set_prev_size q (q - p)
          (set_size_and_flag p ((q - p) OR 1) (Heap_Free_list_remove n s))) (xs' @ [p, q] @ ys') (us @ vs)"
        by (rule freed_both [OF _ _ _ refl prev]) (use inv' used p e in simp_all)
      moreover have "set_prev_size q (q - p) (set_size_and_flag p ((q - p) OR 1) (upd_stats g r)) =
          upd_stats g (set_prev_size q (q - p) (set_size_and_flag p ((q - p) OR 1) r))" for g r by simp
      ultimately show ?thesis
        unfolding xs e(1,2) append.assoc append_Cons append_Nil upd_stats_def using freed_stats by metis
    qed
  qed
qed

end
