(* ===== verification/Score_Heap_Alloc.thy ===== *)
theory Score_Heap_Alloc
  imports Score_Heap_Inv
begin

text \<open>
  Allocation keeps the invariant of the heap: splitting a block, allocating from the begin or the end of
  a block, choosing an area under alignment and boundary constraints, the search of the free list, and
  resizing a block in place.
\<close>

subsection \<open>Alignment\<close>

lemma Heap_Align_up_correct:
  assumes p: "0 < unat p" and k: "unat p dvd k" "unat v \<le> k" "k < 2 ^ 32"
  shows "unat v \<le> unat (Heap_Align_up v p)" "unat (Heap_Align_up v p) < unat v + unat p"
    "unat p dvd unat (Heap_Align_up v p)" "unat (Heap_Align_up v p) \<le> k"
proof -
  define q r where "q = unat v div unat p" and "r = unat v mod unat p"
  have v: "unat v = unat p * q + r" and r: "r < unat p" using p by (simp_all add: q_def r_def)
  obtain j where j: "k = unat p * j" using k(1) by auto
  have rem: "unat (v mod p) = r" by (simp add: unat_mod_word r_def)
  have "unat (Heap_Align_up v p) = (if r = 0 then unat p * q else unat p * (q + 1))"
  proof (cases "r = 0")
    case True
    then show ?thesis using rem v by (simp add: Heap_Align_up_def Let_def unat_eq_0)
  next
    case False
    have "unat p * q < unat p * j" using v k(2) False j by linarith
    then have qj: "q + 1 \<le> j" using p by simp
    then have le: "unat p * (q + 1) \<le> k" unfolding j by (rule mult_le_mono2)
    have "unat (v - v mod p) = unat p * q" using v rem by (subst unat_sub_no_wrap) simp_all
    then have "unat (v - v mod p + p) = unat p * q + unat p"
      using le k(3) by (subst unat_add_no_wrap) (simp_all add: distrib_left)
    moreover have "v mod p \<noteq> 0" using False rem by (metis unat_0)
    ultimately show ?thesis using False by (simp add: Heap_Align_up_def Let_def)
  qed
  moreover have "unat p * q \<le> k" using v k(2) by linarith
  moreover have "unat p * (q + 1) \<le> k" if "r \<noteq> 0"
  proof -
    have "unat p * q < unat p * j" using v k(2) that j by linarith
    then have "q + 1 \<le> j" using p by simp
    then show ?thesis unfolding j by (rule mult_le_mono2)
  qed
  ultimately show "unat v \<le> unat (Heap_Align_up v p)" "unat (Heap_Align_up v p) < unat v + unat p"
    "unat p dvd unat (Heap_Align_up v p)" "unat (Heap_Align_up v p) \<le> k"
    using v r by (auto simp: distrib_left)
qed

lemma Heap_Align_down_correct:
  assumes p: "0 < unat p"
  shows "unat (Heap_Align_down v p) \<le> unat v" "unat v < unat (Heap_Align_down v p) + unat p"
    "unat p dvd unat (Heap_Align_down v p)" "\<And>k. unat p dvd k \<Longrightarrow> k \<le> unat v \<Longrightarrow> k \<le> unat (Heap_Align_down v p)"
proof -
  have e: "unat (Heap_Align_down v p) = unat p * (unat v div unat p)"
    unfolding Heap_Align_down_def
    by (subst unat_sub_no_wrap) (simp_all add: unat_mod_word minus_mod_eq_mult_div)
  show "unat (Heap_Align_down v p) \<le> unat v" "unat p dvd unat (Heap_Align_down v p)" unfolding e by simp_all
  show "unat v < unat (Heap_Align_down v p) + unat p"
    unfolding e using p by (metis add_less_cancel_left mod_less_divisor mult_div_mod_eq)
  show "\<And>k. unat p dvd k \<Longrightarrow> k \<le> unat v \<Longrightarrow> k \<le> unat (Heap_Align_down v p)"
    unfolding e using p by (auto simp: less_eq_div_iff_mult_less_eq mult.commute)
qed

subsection \<open>Splitting a block\<close>

text \<open>The numbers of \<open>_Heap_Block_split\<close> for a block of size \<open>B\<close> that the request fits into.\<close>

lemma split_numbers:
  assumes ctl: "heap_control_ok s" and B: "unat (page_size s) dvd unat B" "unat (min_block_size s) \<le> unat B" "unat B + 8 < 2 ^ 32"
    and fits: "unat z + 4 \<le> unat B"
    and used: "used = Heap_Max z (min_block_size s - 8) + 8"
    and ubs: "ubs = Heap_Align_up used (page_size s)"
  shows "unat z + 8 \<le> unat used" "unat (min_block_size s) \<le> unat used" "unat used \<le> unat B + 4"
    "B + 4 - used \<ge> min_block_size s + 4 \<longleftrightarrow> unat used + unat (min_block_size s) \<le> unat B"
    "unat used + unat (min_block_size s) \<le> unat B \<Longrightarrow> unat used \<le> unat ubs \<and> unat (page_size s) dvd unat ubs
       \<and> unat ubs + unat (min_block_size s) \<le> unat B \<and> unat (B - ubs) = unat B - unat ubs"
proof -
  define mn where "mn = unat (min_block_size s)"
  have c: "0 < unat (page_size s)" "unat (page_size s) dvd mn" "16 \<le> mn" using ctl by (simp_all add: heap_control_ok_def mn_def)
  have m8: "unat (min_block_size s - 8) = mn - 8" using c(3) by (subst unat_sub_no_wrap) (simp_all add: mn_def)
  have mx: "unat (Heap_Max z (min_block_size s - 8)) = max (unat z) (mn - 8)"
    by (simp add: Heap_Max_def word_less_nat_alt m8 max_def)
  have u: "unat used = max (unat z) (mn - 8) + 8"
    unfolding used using mx fits B(2,3) by (subst unat_add_no_wrap) (simp_all add: mn_def)
  show 1: "unat z + 8 \<le> unat used" using u by simp
  show 2: "unat (min_block_size s) \<le> unat used" using u c(3) by (simp add: mn_def)
  show 3: "unat used \<le> unat B + 4" using u fits B(2) c(3) by (simp add: mn_def)
  have B4: "unat (B + 4) = unat B + 4" using B(3) by (subst unat_add_no_wrap) simp_all
  have "unat (B + 4 - used) = unat B + 4 - unat used" using 3 by (subst unat_sub_no_wrap) (simp_all add: B4)
  moreover have "unat (min_block_size s + 4) = mn + 4" using B(2,3) by (subst unat_add_no_wrap) (simp_all add: mn_def)
  ultimately show "B + 4 - used \<ge> min_block_size s + 4 \<longleftrightarrow> unat used + unat (min_block_size s) \<le> unat B"
    using 3 by (auto simp: word_le_nat_alt mn_def)
  assume a: "unat used + unat (min_block_size s) \<le> unat B"
  have d: "unat (page_size s) dvd unat B - mn" using B(1) c(2) by simp
  note A = Heap_Align_up_correct [OF c(1) d, of used, folded ubs]
  have "unat used \<le> unat ubs" "unat (page_size s) dvd unat ubs" "unat ubs \<le> unat B - mn"
    using A a B(3) by (simp_all add: mn_def)
  then show "unat used \<le> unat ubs \<and> unat (page_size s) dvd unat ubs
       \<and> unat ubs + unat (min_block_size s) \<le> unat B \<and> unat (B - ubs) = unat B - unat ubs"
    using a by (auto simp: mn_def unat_sub_no_wrap)
qed

lemma block_diff_even: "heap_control_ok s \<Longrightarrow> block_ok s a \<Longrightarrow> block_ok s b \<Longrightarrow> \<not> bit (b - a) 0"
  by (intro even_diff block_ok_even)

lemma between_new:
  assumes inv: "heap_inv_except H s (xs @ b # n # ys) fs" and f: "unat b < unat f" "unat f < unat n"
  shows "f \<notin> set (xs @ b # n # ys)" "f \<notin> set fs" "f \<noteq> free_list s"
proof -
  note S = heap_inv_sorted [OF inv] and I = heap_inv_exceptD [OF inv]
  show nf: "f \<notin> set (xs @ b # n # ys)"
  proof
    assume "f \<in> set (xs @ b # n # ys)"
    then consider "f \<in> set xs" | "f = b" | "f = n" | "f \<in> set ys" by auto
    then show False using S f by cases (auto simp: sorted_wrt_append)
  qed
  then show "f \<notin> set fs" using I(4) in_set_butlastD by fastforce
  have "Heap_Is_block_in_heap s b" "Heap_Is_block_in_heap s n" using heap_inv_in_heap [OF inv] by auto
  then have "Heap_Is_block_in_heap s f" using f by (simp add: Heap_Is_block_in_heap_def word_le_nat_alt)
  then show "f \<noteq> free_list s" using I(5) by auto
qed

lemma split_used:
  assumes inv: "heap_inv_except H s (xs @ b # n # ys) (us @ vs)" and H: "H \<subseteq> {b}"
    and used: "b \<notin> set (us @ vs)" "n \<notin> set (us @ vs)"
    and f: "unat b + unat (min_block_size s) \<le> unat f" "unat f + unat (min_block_size s) \<le> unat n" "unat (page_size s) dvd unat f + 8"
    and s': "size_and_flag s' = (size_and_flag s)(b := (f - b) OR (size_and_flag s b AND 1), f := (n - f) OR 1, n := size_and_flag s n AND NOT 1)"
      "prev_size s' = (prev_size s)(n := n - f)" "free_ring s' (us @ f # vs)"
      "page_size s' = page_size s" "min_block_size s' = min_block_size s" "first_block s' = first_block s"
      "last_block s' = last_block s" "free_list s' = free_list s"
  shows "heap_inv s' (xs @ [b, f, n] @ ys) (us @ f # vs)"
proof -
  note P = heap_pairD [OF inv] and I = heap_inv_exceptD [OF inv]
  have mn: "0 < unat (min_block_size s)" using I(1) by (simp add: heap_control_ok_def)
  have new: "f \<notin> set (xs @ b # n # ys)" "f \<notin> set (us @ vs)" using between_new [OF inv, of f] f mn by auto
  have ok: "block_ok s f" using f P(12) by (auto simp: block_ok_def)
  have even: "\<not> bit (f - b) 0" "\<not> bit (n - f) 0" using block_diff_even [OF I(1)] P(11,12) ok by blast+
  have inv': "heap_inv_except H s (xs @ [b, n] @ ys) (us @ vs)" using inv by simp
  have last: "last_block s \<in> set (n # ys)" using I(8) last_in_set [of "n # ys"] by (simp split: if_splits)
  show ?thesis
  proof (rule heap_inv_surgery [OF inv'])
    show "layout (unat (min_block_size s)) (size_and_flag s') (prev_size s') {} (set (us @ f # vs)) [b, f, n]"
      using P used f new even by (auto simp: s' adj_def tags)
    show "set (us @ f # vs) \<subseteq> set (butlast (xs @ [b, f, n] @ ys))"
      using I(4) by (auto simp: butlast_append)
  qed (use P used H ok new even s' f in \<open>auto simp: tags\<close>)
qed

lemma split_free:
  assumes inv: "heap_inv_except H s (xs @ b # n # q # ys) (us @ n # vs)" and H: "H \<subseteq> {b}"
    and used: "b \<notin> set (us @ n # vs)"
    and f: "unat b + unat (min_block_size s) \<le> unat f" "unat f + unat (min_block_size s) \<le> unat n" "unat (page_size s) dvd unat f + 8"
    and s': "size_and_flag s' = (size_and_flag s)(b := (f - b) OR (size_and_flag s b AND 1), f := (q - f) OR 1, q := size_and_flag s q AND NOT 1)"
      "prev_size s' = (prev_size s)(q := q - f)" "free_ring s' (us @ f # vs)"
      "page_size s' = page_size s" "min_block_size s' = min_block_size s" "first_block s' = first_block s"
      "last_block s' = last_block s" "free_list s' = free_list s"
  shows "heap_inv s' (xs @ [b, f, q] @ ys) (us @ f # vs)"
proof -
  have inv2: "heap_inv_except H s ((xs @ [b]) @ n # q # ys) (us @ n # vs)" using inv by simp
  note P = heap_pairD [OF inv] and I = heap_inv_exceptD [OF inv] and Q = heap_pairD [OF inv2] and R = ring_neighbours [OF heap_inv_exceptD(3) [OF inv]]
  have mn: "0 < unat (min_block_size s)" using I(1) by (simp add: heap_control_ok_def)
  have new: "f \<notin> set (xs @ b # n # q # ys)" "f \<notin> set (us @ n # vs)" using between_new [OF inv, of f] f mn by auto
  have ok: "block_ok s f" using f P(12) by (auto simp: block_ok_def)
  have even: "\<not> bit (f - b) 0" "\<not> bit (q - f) 0" using block_diff_even [OF I(1)] P(11) Q(12) ok by blast+
  have inv': "heap_inv_except H s (xs @ [b, n, q] @ ys) (us @ n # vs)" using inv by simp
  show ?thesis
  proof (rule heap_inv_surgery [OF inv'])
    show "layout (unat (min_block_size s)) (size_and_flag s') (prev_size s') {} (set (us @ f # vs)) [b, f, q]"
      using P Q used f new even by (auto simp: s' adj_def tags)
    show "set (us @ f # vs) \<subseteq> set (butlast (xs @ [b, f, q] @ ys))"
      using I(4) R by (auto simp: butlast_append split: if_splits)
  qed (use P Q R used H ok new even s' f in \<open>auto simp: tags\<close>)
qed

lemma split_none:
  assumes inv: "heap_inv_except H s (xs @ b # n # ys) fs" and H: "H \<subseteq> {b}" and used: "b \<notin> set fs"
    and s': "s' = set_size_and_flag n (size_and_flag s n OR 1) s"
  shows "heap_inv s' (xs @ [b, n] @ ys) fs"
proof -
  note P = heap_pairD [OF inv] and I = heap_inv_exceptD [OF inv]
  have inv': "heap_inv_except H s (xs @ [b, n] @ ys) fs" using inv by simp
  show ?thesis
  proof (rule heap_inv_surgery [OF inv'])
    show "layout (unat (min_block_size s)) (size_and_flag s') (prev_size s') {} (set fs) [b, n]"
      using P used by (simp add: s' adj_def tags)
    show "set fs \<subseteq> set (butlast (xs @ [b, n] @ ys))" using I(4) by simp
    show "free_ring s' fs" using I(3) by (simp add: s')
  qed (use P used H s' in \<open>auto simp: tags\<close>)
qed

lemma heap_is_used:
  assumes inv: "heap_inv_except H s (xs @ n # ys) fs" and H: "n \<notin> H"
  shows "Heap_Is_used s n \<longleftrightarrow> n \<notin> set fs"
proof (cases ys)
  case Nil
  then have "last_block s = n" using heap_inv_exceptD(8) [OF inv] by simp
  then have "n + Heap_Block_size s n = first_block s"
    using heap_inv_exceptD(11) [OF inv] by (simp add: Heap_Block_size_def)
  then show ?thesis
    using heap_inv_exceptD(10) [OF inv] heap_last_not_free [of H s xs n fs] inv Nil
    by (simp add: Heap_Is_used_def Heap_Is_prev_used_def)
next
  case (Cons q ys')
  then show ?thesis
    using heap_pairD(2,4) [of H s xs n q ys' fs] inv H
    by (simp add: Heap_Is_used_def Heap_Is_prev_used_def Heap_Block_size_def)
qed

text \<open>The outcome of an allocation in the block \<open>b\<close>: its end has moved to \<open>n'\<close>, and everything else in use
  is as before.\<close>

definition resized :: "uint32 \<Rightarrow> Heap \<Rightarrow> addr list \<Rightarrow> addr \<Rightarrow> addr \<Rightarrow> addr list \<Rightarrow> addr list \<Rightarrow> Heap \<Rightarrow> addr \<Rightarrow> addr list \<Rightarrow> addr list \<Rightarrow> bool" where
  "resized z s xs b n ys fs s' n' ys' fs' \<longleftrightarrow> heap_inv s' (xs @ b # n' # ys') fs' \<and> b \<notin> set fs'
     \<and> unat z + 4 \<le> unat (n' - b) \<and> unat n' \<le> unat n
     \<and> used_list s' xs fs' = used_list s xs fs \<and> used_list s' (n' # ys') fs' = used_list s (n # ys) fs
     \<and> page_size s' = page_size s \<and> min_block_size s' = min_block_size s \<and> free_list s' = free_list s"

lemma resized_stats [simp]:
  "resized z s xs b n ys fs (s'\<lparr>stats := t\<rparr>) = resized z s xs b n ys fs s'"
  by (simp add: resized_def fun_eq_iff)

lemma Heap_Block_split_correct:
  assumes inv: "heap_inv_except H s (xs @ b # n # ys) (us @ vs)" and H: "H \<subseteq> {b}" and used: "b \<notin> set (us @ vs)"
    and anchor: "a = last (free_list s # us)" and fits: "unat z + 4 \<le> unat (n - b)"
  shows "\<exists>n' ys' fs'. resized z s xs b n ys (us @ vs) (Heap_Block_split b a z s) n' ys' fs'"
proof -
  note P = heap_pairD [OF inv] and I = heap_inv_exceptD [OF inv]
  define B where "B = n - b"
  define used_size where "used_size = Heap_Max z (min_block_size s - 8) + 8"
  define ubs where "ubs = Heap_Align_up used_size (page_size s)"
  have size: "Heap_Block_size s b = B" using P(2) by (simp add: Heap_Block_size_def B_def)
  have nB: "unat n = unat b + unat B" using unat_distance [OF P(1)] by (simp add: B_def)
  have b8: "unat (page_size s) dvd unat b + 8" "unat (page_size s) dvd unat n + 8" "unat n + 8 < 2 ^ 32"
    using P(11,12) by (simp_all add: block_ok_def)
  have Bd: "unat (page_size s) dvd unat B" using dvd_diff_nat [OF b8(2,1)] nB by simp
  have "unat (min_block_size s) \<le> unat B" "unat B + 8 < 2 ^ 32" using P(1) nB b8(3) by simp_all
  note N = split_numbers [OF I(1) Bd this, of z used_size ubs, OF _ used_size_def ubs_def]
  have fits': "unat z + 4 \<le> unat B" using fits by (simp add: B_def)
  have cond: "(B + 4 - used_size \<ge> min_block_size s + 4) \<longleftrightarrow> unat used_size + unat (min_block_size s) \<le> unat B"
    by (rule N(4) [OF fits'])
  define f where "f = b + ubs"
  have cong: "used_list s' xs fs' = used_list s xs fs \<and> used_list s' ys fs' = used_list s ys fs"
    if "\<forall>c \<in> set xs \<union> set ys. size_and_flag s' c = size_and_flag s c \<and> (c \<in> set fs' \<longleftrightarrow> c \<in> set fs)" for s' fs fs'
    using that by (auto intro!: used_list_same)
  show ?thesis
  proof (cases "unat used_size + unat (min_block_size s) \<le> unat B")
    case False
    define s' where "s' = set_size_and_flag n (size_and_flag s n OR 1) s"
    have "Heap_Block_split b a z s = s'"
      using False cond size unfolding Heap_Block_split_def Let_def used_size_def
      by (simp add: s'_def B_def)
    moreover have "heap_inv s' (xs @ [b, n] @ ys) (us @ vs)" by (rule split_none [OF inv H used s'_def])
    moreover have "used_list s' xs (us @ vs) = used_list s xs (us @ vs) \<and> used_list s' ys (us @ vs) = used_list s ys (us @ vs)"
      using P by (intro cong) (auto simp: s'_def)
    moreover have "Heap_Block_size s' n = Heap_Block_size s n" by (simp add: s'_def Heap_Block_size_def tags)
    ultimately have "resized z s xs b n ys (us @ vs) (Heap_Block_split b a z s) n ys (us @ vs)"
      using fits used by (simp add: resized_def used_list_Cons s'_def)
    then show ?thesis by blast
  next
    case True
    note M = N(5) [OF fits' True]
    have fb: "unat f = unat b + unat ubs" unfolding f_def using M nB b8(3) by (subst unat_add_no_wrap) simp_all
    have F: "unat b + unat (min_block_size s) \<le> unat f" "unat f + unat (min_block_size s) \<le> unat n"
      using fb M N(2) [OF fits'] nB by auto
    have Fd: "unat (page_size s) dvd unat f + 8"
    proof -
      have "unat f + 8 = (unat b + 8) + unat ubs" using fb by simp
      then show ?thesis using dvd_add [OF b8(1), of "unat ubs"] M by metis
    qed
    have fsub: "f - b = ubs" "B - ubs = n - f" by (simp_all add: f_def B_def)
    have mn: "0 < unat (min_block_size s)" using I(1) by (simp add: heap_control_ok_def)
    have new: "f \<notin> set (xs @ b # n # ys)" "f \<notin> set (us @ vs)" "f \<noteq> free_list s"
      using between_new [OF inv, of f] F mn by auto
    have ne: "n \<noteq> f" "f \<noteq> n" "b \<noteq> f" "f \<noteq> b" using new(1) by auto
    have okf: "block_ok s f" using F Fd P(12) by (auto simp: block_ok_def)
    have even: "\<not> bit ubs 0" using block_diff_even [OF I(1) P(11) okf] by (simp add: fsub)
    define s1 where "s1 = upd_stats (\<lambda>t. t\<lparr>free_size := free_size t + (n - f)\<rparr>) (Heap_Block_set_size b ubs s)"
    have s1: "size_and_flag s1 = (size_and_flag s)(b := (f - b) OR (size_and_flag s b AND 1))" "prev_size s1 = prev_size s"
      "next_free s1 = next_free s" "prev_free s1 = prev_free s" "free_list s1 = free_list s" "page_size s1 = page_size s"
      "min_block_size s1 = min_block_size s" "first_block s1 = first_block s" "last_block s1 = last_block s"
      by (simp_all add: s1_def Heap_Block_set_size_def Let_def fsub)
    have used_n: "Heap_Is_used s1 n \<longleftrightarrow> n \<notin> set (us @ vs)"
    proof -
      have "Heap_Is_used s1 n = Heap_Is_used s n"
        using P(6) even by (simp add: Heap_Is_used_def Heap_Is_prev_used_def Heap_Block_size_def s1 fsub tags)
      then show ?thesis using heap_is_used [of H s "xs @ [b]" n ys "us @ vs"] inv H P(6) by auto
    qed
    have fits2: "unat z + 4 \<le> unat (f - b)" using M N(1) [OF fits'] by (simp add: fsub)
    have len: "unat f \<le> unat n" using F by simp
    show ?thesis
    proof (cases "n \<in> set (us @ vs)")
      case False
      define s2 where "s2 = upd_stats (\<lambda>t. t\<lparr>free_blocks := free_blocks t + 1\<rparr>) (Heap_Free_list_insert_after a f s1)"
      define s' where "s' = set_size_and_flag n (size_and_flag s2 n AND NOT 1) (set_prev_size n (n - f) (set_size_and_flag f ((n - f) OR 1) s2))"
      have eq: "Heap_Block_split b a z s = s'"
        unfolding Heap_Block_split_def Let_def used_size_def [symmetric] ubs_def [symmetric] Heap_Block_at_def size
          f_def [symmetric] fsub(2) s1_def [symmetric]
        using True cond used_n False ne by (simp add: s'_def s2_def B_def s1(1))
      have "heap_inv s' (xs @ [b, f, n] @ ys) (us @ f # vs)"
      proof (rule split_used [OF inv H used False F Fd])
        show "free_ring s' (us @ f # vs)"
          using Heap_Free_list_insert_after_ring [of s1 us vs f a] I(3) new anchor
          by (simp add: s'_def s2_def s1)
      qed (use new P(6) in \<open>simp_all add: s'_def s2_def s1\<close>)
      moreover have "used_list s' xs (us @ f # vs) = used_list s xs (us @ vs) \<and> used_list s' ys (us @ f # vs) = used_list s ys (us @ vs)"
        using P new by (intro cong) (auto simp: s'_def s2_def s1)
      moreover have "Heap_Block_size s' n = Heap_Block_size s n"
        using new P(6) by (auto simp: s'_def s2_def s1 Heap_Block_size_def tags)
      moreover have "page_size s' = page_size s" "min_block_size s' = min_block_size s" "free_list s' = free_list s"
        by (simp_all add: s'_def s2_def s1)
      ultimately have "resized z s xs b n ys (us @ vs) s' f (n # ys) (us @ f # vs)"
        using fits2 len used new ne False by (simp add: resized_def used_list_Cons)
      then show ?thesis using eq by blast
    next
      case True
      obtain us' vs' where fs: "us @ vs = us' @ n # vs'" using split_list [OF True] by blast
      obtain q ys' where ys: "ys = q # ys'"
        using heap_last_not_free [of H s "xs @ [b]" n "us @ vs"] True inv by (cases ys) auto
      have inv2: "heap_inv_except H s (xs @ b # n # q # ys') (us' @ n # vs')" "heap_inv_except H s ((xs @ [b]) @ n # q # ys') (us' @ n # vs')"
        using inv ys fs by simp_all
      note Q = heap_pairD [OF inv2(2)]
      have nz: "Heap_Block_size s1 n = q - n" using Q(2) P(6) by (simp add: s1 Heap_Block_size_def)
      have qne: "q \<noteq> f" "f \<noteq> q" "q \<noteq> b" "q \<noteq> n" using new(1) ys Q(6,9) by auto
      have nu: "\<not> Heap_Is_used s1 n" using used_n True by simp
      define s2 where "s2 = Heap_Free_list_replace n f s1"
      define s' where "s' = set_size_and_flag q (size_and_flag s2 q AND NOT 1) (set_prev_size q (q - f) (set_size_and_flag f ((q - f) OR 1) s2))"
      have qf: "f + (q - f) = q" "n - f + (q - n) = q - f" by simp_all
      have eq: "Heap_Block_split b a z s = s'"
        unfolding Heap_Block_split_def Let_def used_size_def [symmetric] ubs_def [symmetric] Heap_Block_at_def size
          f_def [symmetric] fsub(2) s1_def [symmetric]
        using \<open>unat used_size + unat (min_block_size s) \<le> unat B\<close> cond nu ne qne nz
        by (simp add: s'_def s2_def B_def s1(1) qf)
      have new': "f \<notin> set (us' @ n # vs')" using new(2) fs by simp
      have "heap_inv s' (xs @ [b, f, q] @ ys') (us' @ f # vs')"
      proof (rule split_free [OF inv2(1) H _ F Fd])
        show "b \<notin> set (us' @ n # vs')" using used fs by simp
        show "free_ring s' (us' @ f # vs')"
          using Heap_Free_list_replace_ring [of s1 us' n vs' f] I(3) new(3) new' fs
          by (simp add: s'_def s2_def s1)
      qed (use new Q(9) ys in \<open>auto simp: s'_def s2_def s1\<close>)
      moreover have "used_list s' xs (us' @ f # vs') = used_list s xs (us' @ n # vs') \<and> used_list s' ys' (us' @ f # vs') = used_list s ys' (us' @ n # vs')"
        using P Q new ys by (auto intro!: used_list_same simp: s'_def s2_def s1)
      moreover have "Heap_Block_size s' q = Heap_Block_size s q"
        using new Q(9) ys by (auto simp: s'_def s2_def s1 Heap_Block_size_def tags)
      moreover have "q \<notin> set (us' @ n # vs')" using Q(5) by simp
      moreover have "page_size s' = page_size s" "min_block_size s' = min_block_size s" "free_list s' = free_list s"
        by (simp_all add: s'_def s2_def s1)
      ultimately have "resized z s xs b n ys (us' @ n # vs') s' f (q # ys') (us' @ f # vs')"
        using fits2 len used new ne qne fs ys Q by (simp add: resized_def used_list_Cons)
      then show ?thesis using eq fs by metis
    qed
  qed
qed

subsection \<open>Allocation in a free block\<close>

lemma heap_inv_take:
  assumes inv: "heap_inv s (xs @ b # n # ys) (us @ b # vs)"
  shows "heap_inv_except {b} (Heap_Free_list_remove b s) (xs @ b # n # ys) (us @ vs)"
proof -
  note P = heap_pairD [OF inv] and I = heap_inv_exceptD [OF inv] and R = ring_neighbours [OF heap_inv_exceptD(3) [OF inv]]
  have inv': "heap_inv s (xs @ [b, n] @ ys) (us @ b # vs)" using inv by simp
  have "heap_inv_except {b} (Heap_Free_list_remove b s) (xs @ [b, n] @ ys) (us @ vs)"
  proof (rule heap_inv_surgery [OF inv'])
    show "layout (unat (min_block_size s)) (size_and_flag (Heap_Free_list_remove b s)) (prev_size (Heap_Free_list_remove b s))
      {b} (set (us @ vs)) [b, n]"
      using P R by (simp add: adj_def)
    show "free_ring (Heap_Free_list_remove b s) (us @ vs)" by (rule Heap_Free_list_remove_ring [OF I(3)])
    show "set (us @ vs) \<subseteq> set (butlast (xs @ [b, n] @ ys))" using I(4) by simp
  qed (use P R in auto)
  then show ?thesis by simp
qed

text \<open>What an allocation of \<open>z\<close> bytes at \<open>a\<close> promises: the area lies in one block \<open>blk\<close> that was not in use,
  from its first page on and up to its end, and everything in use before still is.\<close>

definition allocated :: "Heap \<Rightarrow> addr list \<Rightarrow> addr list \<Rightarrow> addr \<Rightarrow> uint32 \<Rightarrow> Heap \<Rightarrow> addr \<Rightarrow> bool" where
  "allocated s bs fs a z s' blk \<longleftrightarrow> (\<exists>ps n' rs fs' U V. heap_inv s' (ps @ blk # n' # rs) fs' \<and> blk \<notin> set fs'
     \<and> unat blk + 8 \<le> unat a \<and> unat a < unat blk + 8 + unat (page_size s) \<and> unat a + unat z \<le> unat n' + 4
     \<and> used_list s bs fs = U @ V \<and> used_list s' (ps @ blk # n' # rs) fs' = U @ (blk, n' - blk) # V
     \<and> page_size s' = page_size s \<and> min_block_size s' = min_block_size s \<and> free_list s' = free_list s)"

lemma allocated_stats [simp]:
  "allocated s bs fs a z (s'\<lparr>stats := t\<rparr>) = allocated s bs fs a z s'"
  by (simp add: allocated_def fun_eq_iff)

lemma resized_allocated:
  assumes r: "resized z' s ps b n ys fs s' n' ys' fs'"
    and u: "used_list t bs gs = used_list s ps fs @ used_list s (n # ys) fs"
    and a: "unat b + 8 \<le> unat a" "unat a < unat b + 8 + unat (page_size t)" "unat a + unat z \<le> unat b + 8 + unat z'"
    and ctl: "page_size s = page_size t" "min_block_size s = min_block_size t" "free_list s = free_list t"
  shows "allocated t bs gs a z s' b"
proof -
  have inv: "heap_inv s' (ps @ b # n' # ys') fs'" and R: "b \<notin> set fs'" "unat z' + 4 \<le> unat (n' - b)"
    "used_list s' ps fs' = used_list s ps fs" "used_list s' (n' # ys') fs' = used_list s (n # ys) fs"
    "page_size s' = page_size s" "min_block_size s' = min_block_size s" "free_list s' = free_list s"
    using r by (auto simp: resized_def)
  have "Heap_Block_size s' b = n' - b" using heap_pairD(2) [OF inv] by (simp add: Heap_Block_size_def)
  moreover have "unat b + unat (n' - b) = unat n'" using unat_distance [OF heap_pairD(1) [OF inv]] .
  moreover have "used_list s' (ps @ b # n' # ys') fs' = used_list s ps fs @ (b, n' - b) # used_list s (n # ys) fs"
    using R calculation(1) by (simp add: used_list_append used_list_Cons [of s' b])
  ultimately show ?thesis
    unfolding allocated_def using inv R a ctl u
    by (intro exI [of _ ps] exI [of _ n'] exI [of _ ys'] exI [of _ fs'] exI [of _ "used_list s ps fs"] exI [of _ "used_list s (n # ys) fs"]) simp
qed

lemma used_list_take:
  assumes "b \<notin> set bs" "\<forall>c \<in> set bs. size_and_flag s' c = size_and_flag s c"
  shows "used_list s' bs (us @ vs) = used_list s bs (us @ b # vs)"
  using assms by (intro used_list_same) auto

lemma Heap_Block_allocate_begin:
  assumes inv: "heap_inv s (xs @ b # n # ys) (us @ b # vs)"
    and a: "unat b + 8 \<le> unat a" "unat a < unat b + 8 + unat (page_size s)" "unat a + unat z \<le> unat n + 4"
  shows "\<exists>s'. Heap_Block_allocate b a z s = (s', b) \<and> allocated s (xs @ b # n # ys) (us @ b # vs) a z s' b"
proof -
  note P = heap_pairD [OF inv] and I = heap_inv_exceptD [OF inv] and R = ring_neighbours [OF heap_inv_exceptD(3) [OF inv]]
  define t where "t = upd_stats (\<lambda>t. t\<lparr>free_blocks := free_blocks t - 1, used_blocks := used_blocks t + 1,
     free_size := free_size t - Heap_Block_size (Heap_Free_list_remove b s) b\<rparr>) (Heap_Free_list_remove b s)"
  have t: "heap_inv_except {b} t (xs @ b # n # ys) (us @ vs)" using heap_inv_take [OF inv] by (simp add: t_def)
  have free: "Heap_Is_free s b" using heap_is_used [OF inv] by (simp add: Heap_Is_free_def)
  have b8: "unat (b + 8) = unat b + 8" using P(11) by (subst unat_add_no_wrap) (simp_all add: block_ok_def)
  have off: "unat (a - (b + 8)) = unat a - (unat b + 8)" using a(1) by (subst unat_sub_no_wrap) (simp_all add: b8)
  have bn: "unat b + unat (n - b) = unat n" by (rule unat_distance [OF P(1)])
  have n8: "unat n + 8 < 2 ^ 32" using P(12) by (simp add: block_ok_def)
  have z': "unat (z + (a - (b + 8))) = unat z + (unat a - (unat b + 8))"
    using off a n8 by (subst unat_add_no_wrap) simp_all
  have fits: "unat (z + (a - (b + 8))) + 4 \<le> unat (n - b)" using z' a bn by simp
  have offp: "a - (b + 8) < page_size s" using off a by (simp add: word_less_nat_alt)
  have anchor: "prev_free s b = last (free_list t # us)" using R(2) by (simp add: t_def)
  obtain n' ys' fs' where r: "resized (z + (a - (b + 8))) t xs b n ys (us @ vs)
      (Heap_Block_split b (prev_free s b) (z + (a - (b + 8))) t) n' ys' fs'"
    using Heap_Block_split_correct [OF t _ _ anchor fits] R(4,5) by auto
  have "allocated s (xs @ b # n # ys) (us @ b # vs) a z (Heap_Block_split b (prev_free s b) (z + (a - (b + 8))) t) b"
  proof (rule resized_allocated [OF r])
    have "used_list t xs (us @ vs) = used_list s xs (us @ b # vs)" "used_list t (n # ys) (us @ vs) = used_list s (n # ys) (us @ b # vs)"
      using P by (auto intro!: used_list_take simp: t_def)
    then show "used_list s (xs @ b # n # ys) (us @ b # vs) = used_list t xs (us @ vs) @ used_list t (n # ys) (us @ vs)"
      by (simp add: used_list_append used_list_Cons [of s b])
  qed (use a z' in \<open>simp_all add: t_def\<close>)
  moreover have pt: "page_size t = page_size s" by (simp add: t_def)
  have "Heap_Block_allocate b a z s = (upd_stats (\<lambda>t. if min_free_size t > free_size t then t\<lparr>min_free_size := free_size t\<rparr> else t)
     (Heap_Block_split b (prev_free s b) (z + (a - (b + 8))) t), b)"
    unfolding Heap_Block_allocate_def Let_def Heap_Alloc_area_of_block_def t_def [symmetric]
    using free offp pt by (simp add: Heap_Block_allocate_from_begin_def)
  ultimately show ?thesis by auto
qed

lemma heap_inv_cut:
  assumes inv: "heap_inv_except {b} s (xs @ b # n # ys) (us @ vs)" and b: "b \<notin> set (us @ vs)" "n \<notin> set (us @ vs)"
    and prev: "size_and_flag s b AND 1 \<noteq> 0"
    and c: "unat b + unat (min_block_size s) \<le> unat c" "unat c + unat (min_block_size s) \<le> unat n" "unat (page_size s) dvd unat c + 8"
    and s': "s' = set_size_and_flag c (n - c) (set_prev_size c (c - b) (set_size_and_flag b ((c - b) OR 1) r))"
    and r: "size_and_flag r = size_and_flag s" "prev_size r = prev_size s" "free_ring r (us @ b # vs)" "page_size r = page_size s"
      "min_block_size r = min_block_size s" "first_block r = first_block s" "last_block r = last_block s" "free_list r = free_list s"
  shows "heap_inv_except {c} s' ((xs @ [b]) @ c # n # ys) (us @ b # vs)" "c \<notin> set (xs @ b # n # ys)" "c \<notin> set (us @ b # vs)"
proof -
  note P = heap_pairD [OF inv] and I = heap_inv_exceptD [OF inv]
  have mn: "0 < unat (min_block_size s)" using I(1) by (simp add: heap_control_ok_def)
  show new: "c \<notin> set (xs @ b # n # ys)" "c \<notin> set (us @ b # vs)" using between_new [OF inv, of c] c mn by auto
  have ne: "c \<noteq> b" "b \<noteq> c" "c \<noteq> n" "n \<noteq> c" using new by auto
  have ok: "block_ok s c" using c P(12) by (auto simp: block_ok_def)
  have even: "\<not> bit (c - b) 0" "\<not> bit (n - c) 0" using block_diff_even [OF I(1)] P(11,12) ok by blast+
  have inv': "heap_inv_except {b} s (xs @ [b, n] @ ys) (us @ vs)" using inv by simp
  have "heap_inv_except {c} s' (xs @ [b, c, n] @ ys) (us @ b # vs)"
  proof (rule heap_inv_surgery [OF inv'])
    show "layout (unat (min_block_size s)) (size_and_flag s') (prev_size s') {c} (set (us @ b # vs)) [b, c, n]"
      using P b c new ne even by (auto simp: s' r adj_def tags)
    show "free_ring s' (us @ b # vs)" using r by (simp add: s')
    show "set (us @ b # vs) \<subseteq> set (butlast (xs @ [b, c, n] @ ys))" using I(4) by (auto simp: butlast_append)
  qed (use P b prev new ne even ok in \<open>auto simp: s' r tags\<close>)
  then show "heap_inv_except {c} s' ((xs @ [b]) @ c # n # ys) (us @ b # vs)" by simp
qed

lemma Heap_Block_allocate_end:
  assumes inv: "heap_inv s (xs @ b # n # ys) (us @ b # vs)"
    and a: "unat (page_size s) dvd unat a" "unat b + 8 + unat (min_block_size s) \<le> unat a" "unat a + unat (min_block_size s) \<le> unat n + 8"
      "unat a + unat z \<le> unat n + 4"
  shows "\<exists>s'. Heap_Block_allocate b a z s = (s', a - 8) \<and> allocated s (xs @ b # n # ys) (us @ b # vs) a z s' (a - 8)"
proof -
  note P = heap_pairD [OF inv] and I = heap_inv_exceptD [OF inv] and R = ring_neighbours [OF heap_inv_exceptD(3) [OF inv]]
  have ctl: "0 < unat (page_size s)" "unat (page_size s) dvd unat (min_block_size s)" "16 \<le> unat (min_block_size s)"
    using I(1) by (simp_all add: heap_control_ok_def)
  have pm: "unat (page_size s) \<le> unat (min_block_size s)" using ctl by (intro dvd_imp_le) simp_all
  define c where "c = a - 8"
  have c8: "unat a = unat c + 8" unfolding c_def using a(2) by (subst unat_sub_no_wrap) simp_all
  define t where "t = upd_stats (\<lambda>t. t\<lparr>free_blocks := free_blocks t - 1, used_blocks := used_blocks t + 1,
     free_size := free_size t - Heap_Block_size (Heap_Free_list_remove b s) b\<rparr>) (Heap_Free_list_remove b s)"
  have t: "heap_inv_except {b} t (xs @ b # n # ys) (us @ vs)" using heap_inv_take [OF inv] by (simp add: t_def)
  have tc: "page_size t = page_size s" "min_block_size t = min_block_size s" "size_and_flag t = size_and_flag s"
    "prev_size t = prev_size s" "free_list t = free_list s" by (simp_all add: t_def)
  have free: "Heap_Is_free s b" using heap_is_used [OF inv] by (simp add: Heap_Is_free_def)
  have b8: "unat (b + 8) = unat b + 8" using P(11) by (subst unat_add_no_wrap) (simp_all add: block_ok_def)
  have off: "unat (a - (b + 8)) = unat a - (unat b + 8)" using a(2) by (subst unat_sub_no_wrap) (simp_all add: b8)
  have offp: "\<not> a - (b + 8) < page_size s" using off a(2) pm by (simp add: word_less_nat_alt)
  have blk: "Heap_Block_of_alloc_area a (page_size s) = c"
  proof -
    have "a mod page_size s = 0" using a(1) by (simp add: eq_word_nat unat_mod_word)
    then show ?thesis by (simp add: Heap_Block_of_alloc_area_def Heap_Align_down_def c_def)
  qed
  have size: "Heap_Block_size t b = n - b" using P(2) by (simp add: Heap_Block_size_def tc)
  have prev: "size_and_flag s b AND 1 \<noteq> 0"
  proof -
    have "last xs \<notin> set (us @ b # vs)" if "xs \<noteq> []"
    proof -
      obtain ps p where "xs = ps @ [p]" using \<open>xs \<noteq> []\<close> by (cases xs rule: rev_cases) auto
      then show ?thesis using heap_pairD(5) [of "{}" s ps p b "n # ys" "us @ b # vs"] inv by auto
    qed
    then show ?thesis using heap_prev_flag [OF inv] by auto
  qed
  define r where "r = upd_stats (\<lambda>t. t\<lparr>free_blocks := free_blocks t + 1\<rparr>) (Heap_Free_list_insert_after (prev_free s b) b
     (upd_stats (\<lambda>t. t\<lparr>free_size := free_size t + (c - b)\<rparr>) t))"
  define u where "u = set_size_and_flag c (n - c) (set_prev_size c (c - b) (set_size_and_flag b ((c - b) OR 1) r))"
  have n: "n \<notin> set (us @ b # vs)" using P(5) by simp
  have ring_t: "free_ring t (us @ vs)" by (rule heap_inv_exceptD(3) [OF t])
  have ring: "free_ring r (us @ b # vs)"
    using Heap_Free_list_insert_after_ring [of "t\<lparr>stats := g\<rparr>" us vs b "prev_free s b" for g] ring_t R P(13) by (simp add: r_def tc)
  have cut: "heap_inv_except {c} u ((xs @ [b]) @ c # n # ys) (us @ b # vs)" "c \<notin> set (xs @ b # n # ys)" "c \<notin> set (us @ b # vs)"
    by (rule heap_inv_cut [OF t _ _ _ _ _ _ u_def]; use R n prev a c8 ring in \<open>simp add: tc r_def\<close>)+
  have cn: "unat c + unat (n - c) = unat n" using a(3) c8 ctl(3) by (intro unat_distance [of c 0]) simp
  have fits: "unat z + 4 \<le> unat (n - c)" using a(4) c8 cn by simp
  have cut': "heap_inv_except {c} u ((xs @ [b]) @ c # n # ys) ((us @ [b]) @ vs)" using cut(1) by simp
  obtain n' ys' fs' where rs: "resized z u (xs @ [b]) c n ys ((us @ [b]) @ vs) (Heap_Block_split c b z u) n' ys' fs'"
    using Heap_Block_split_correct [OF cut' _ _ _ fits, of b] cut(3) by auto
  have uc: "page_size u = page_size s" "min_block_size u = min_block_size s" "free_list u = free_list s" by (simp_all add: u_def r_def tc)
  have "allocated s (xs @ b # n # ys) (us @ b # vs) a z (Heap_Block_split c b z u) c"
  proof (rule resized_allocated [OF rs])
    have "used_list u xs (us @ b # vs) = used_list s xs (us @ b # vs)" "used_list u (n # ys) (us @ b # vs) = used_list s (n # ys) (us @ b # vs)"
      using P(6-10) cut(2) by (auto intro!: used_list_same simp: u_def r_def tc)
    then show "used_list s (xs @ b # n # ys) (us @ b # vs) =
        used_list u (xs @ [b]) ((us @ [b]) @ vs) @ used_list u (n # ys) ((us @ [b]) @ vs)"
      by (simp add: used_list_append used_list_Cons [of _ b])
  qed (use uc c8 ctl(1) in simp_all)
  moreover have "Heap_Block_allocate b a z s = (upd_stats (\<lambda>t. if min_free_size t > free_size t then t\<lparr>min_free_size := free_size t\<rparr> else t)
     (Heap_Block_split c b z u), c)"
  proof -
    have pu: "Heap_Is_prev_used (upd_stats (\<lambda>t. t\<lparr>free_size := free_size t + (c - b)\<rparr>) t) b"
      using prev by (simp add: Heap_Is_prev_used_def tc)
    have cb: "b + (n - b) - c = n - c" by simp
    have "Heap_Block_allocate_from_end b (prev_free s b) a z t = (Heap_Block_split c b z u, c)"
      unfolding Heap_Block_allocate_from_end_def Let_def tc blk size cb if_P [OF pu] prod.case r_def [symmetric] u_def [symmetric] ..
    then show ?thesis
      unfolding Heap_Block_allocate_def Let_def Heap_Alloc_area_of_block_def t_def [symmetric]
      using free offp tc by simp
  qed
  ultimately show ?thesis by (simp add: c_def)
qed

subsection \<open>Choosing the area\<close>

text \<open>No multiple of \<open>bd\<close> lies strictly inside the area.\<close>

definition within_boundary :: "nat \<Rightarrow> nat \<Rightarrow> nat \<Rightarrow> bool" where
  "within_boundary bd a z \<longleftrightarrow> (\<forall>k. bd dvd k \<longrightarrow> \<not> (a < k \<and> k < a + z))"

lemma Heap_Check_block_boundary_correct:
  assumes al: "0 < unat al" and bd: "0 < unat bd" and z: "unat z \<le> unat floor" "unat z \<le> unat bd"
    and "unat al dvd unat a" "unat e = unat a + unat z" "unat line = unat (Heap_Align_down e bd)"
  shows "\<exists>r. Heap_Check_block_boundary z al bd floor a e line = Some r
    \<and> (\<forall>a'. r = Some a' \<longrightarrow> unat al dvd unat a' \<and> unat a' \<le> unat a \<and> within_boundary (unat bd) (unat a') (unat z))"
  using assms(5-7)
proof (induction "unat a" arbitrary: a e line rule: less_induct)
  case less
  note D = Heap_Align_down_correct [OF bd, where v = e]
  show ?case
  proof (cases "a < line \<and> line < e")
    case False
    have "\<not> (unat a < k \<and> k < unat a + unat z)" if k: "unat bd dvd k" for k
    proof (cases "line < e")
      case True
      then have "unat line \<le> unat a" using False by (simp add: word_less_nat_alt not_less)
      moreover have "k \<le> unat line" if "k \<le> unat e" using D(4) [OF k that] less.prems(3) by simp
      ultimately show ?thesis using less.prems(2) by linarith
    next
      case False
      then have "unat bd dvd unat e" using D(1,3) less.prems(3) by (simp add: word_less_nat_alt)
      then have "unat bd dvd unat e - k" using k by simp
      then have "unat bd \<le> unat e - k" if "k < unat e" using that by (intro dvd_imp_le) simp_all
      then show ?thesis using less.prems(2) z(2) by linarith
    qed
    then have "within_boundary (unat bd) (unat a) (unat z)" by (simp add: within_boundary_def)
    then show ?thesis using False less.prems by (subst Heap_Check_block_boundary.simps) auto
  next
    case True
    show ?thesis
    proof (cases "line < floor")
      case low: True
      then show ?thesis using True by (subst Heap_Check_block_boundary.simps) simp
    next
      case ok: False
      define a' where "a' = Heap_Align_down (line - z) al"
      have lz: "unat (line - z) = unat line - unat z"
        using ok z(1) by (subst unat_sub_no_wrap) (simp_all add: word_less_nat_alt)
      note A = Heap_Align_down_correct [OF al, where v = "line - z", folded a'_def]
      have "unat z \<le> unat line" using ok z(1) by (simp add: word_less_nat_alt)
      then have lt: "unat a' < unat a" using A(1) lz True less.prems(2) unfolding word_less_nat_alt by linarith
      have "unat e < 2 ^ 32" using unsigned_less [of e] by simp
      then have e': "unat (a' + z) = unat a' + unat z"
        using lt less.prems(2) by (subst unat_add_no_wrap) simp_all
      obtain r where "Heap_Check_block_boundary z al bd floor a' (a' + z) (Heap_Align_down (a' + z) bd) = Some r"
        "\<forall>a''. r = Some a'' \<longrightarrow> unat al dvd unat a'' \<and> unat a'' \<le> unat a' \<and> within_boundary (unat bd) (unat a'') (unat z)"
        using less.hyps [OF lt A(3) e' refl] by blast
      then show ?thesis
        using True ok lt by (subst Heap_Check_block_boundary.simps) (auto simp: Let_def a'_def [symmetric])
    qed
  qed
qed

lemma Heap_Check_block_correct:
  assumes inv: "heap_inv s (xs @ b # n # ys) fs" and al: "0 < unat al" and fits: "unat z + 4 \<le> unat (n - b)"
    and zb: "bd \<noteq> 0 \<Longrightarrow> unat z \<le> unat bd"
  shows "\<exists>a. Heap_Check_block s b z al bd = Some a \<and> (a \<noteq> 0 \<longrightarrow> unat al dvd unat a \<and> unat b + 8 \<le> unat a
    \<and> unat a + unat z \<le> unat n + 4 \<and> unat a + unat (min_block_size s) < unat n + 8 + unat (page_size s)
    \<and> (bd \<noteq> 0 \<longrightarrow> within_boundary (unat bd) (unat a) (unat z))
    \<and> (let c = Heap_Block_of_alloc_area a (page_size s) in c = b \<or> min_block_size s \<le> c - b))"
proof -
  note P = heap_pairD [OF inv] and I = heap_inv_exceptD [OF inv]
  have ctl: "0 < unat (page_size s)" "unat (page_size s) dvd unat (min_block_size s)" "16 \<le> unat (min_block_size s)"
    using I(1) by (simp_all add: heap_control_ok_def)
  have pm: "unat (page_size s) \<le> unat (min_block_size s)" using ctl by (intro dvd_imp_le) simp_all
  have n8: "unat n + 8 < 2 ^ 32" using P(12) by (simp add: block_ok_def)
  have bn: "unat b + unat (n - b) = unat n" by (rule unat_distance [OF P(1)])
  have size: "b + Heap_Block_size s b = n" using P(2) by (simp add: Heap_Block_size_def)
  define ceil where "ceil = n - min_block_size s + 8 + page_size s - 1"
  define end0 where "end0 = n + 4"
  define a0 where "a0 = Heap_Align_down (end0 - z) al"
  define a1 where "a1 = (if a0 > ceil then Heap_Align_down ceil al else a0)"
  have "unat (n - min_block_size s) = unat n - unat (min_block_size s)" using P(1) by (subst unat_sub_no_wrap) simp_all
  then have "unat (n - min_block_size s + 8) = unat n - unat (min_block_size s) + 8" using n8 by (subst unat_add_no_wrap) simp_all
  then have "unat (n - min_block_size s + 8 + page_size s) = unat n - unat (min_block_size s) + 8 + unat (page_size s)"
    using n8 pm P(1) by (subst unat_add_no_wrap) simp_all
  then have ceil: "unat ceil = unat n - unat (min_block_size s) + 8 + unat (page_size s) - 1"
    unfolding ceil_def by (subst unat_sub_no_wrap) simp_all
  have end0: "unat end0 = unat n + 4" unfolding end0_def using n8 by (subst unat_add_no_wrap) simp_all
  have ez: "unat (end0 - z) = unat n + 4 - unat z" using fits bn by (subst unat_sub_no_wrap) (simp_all add: end0)
  note A0 = Heap_Align_down_correct [OF al, where v = "end0 - z", folded a0_def] and C = Heap_Align_down_correct [OF al, where v = ceil]
  have a1: "unat al dvd unat a1" "unat a1 \<le> unat ceil" "unat a1 + unat z \<le> unat n + 4"
  proof -
    have "a1 = a0 \<and> unat a0 \<le> unat ceil \<or> a1 = Heap_Align_down ceil al \<and> unat ceil < unat a0"
      by (simp add: a1_def word_less_nat_alt not_less)
    then show "unat al dvd unat a1" "unat a1 \<le> unat ceil" "unat a1 + unat z \<le> unat n + 4"
      using A0(1,3) C(1,3) ez fits bn by (elim disjE conjE; simp)+
  qed
  have e1: "unat (a1 + z) = unat a1 + unat z" using a1(3) n8 by (subst unat_add_no_wrap) simp_all
  have b8: "unat (b + 8) = unat b + 8" using P(11) by (subst unat_add_no_wrap) (simp_all add: block_ok_def)
  have fl: "unat z \<le> unat (b + 8 + z)" using b8 fits bn n8 by (subst unat_add_no_wrap) simp_all
  define bounded where "bounded = (if bd \<noteq> 0 then Heap_Check_block_boundary z al bd (b + 8 + z) a1 (a1 + z) (Heap_Align_down (a1 + z) bd) else Some (Some a1))"
  obtain r where r: "bounded = Some r" and ra: "\<forall>a. r = Some a \<longrightarrow> unat al dvd unat a \<and> unat a \<le> unat a1 \<and> (bd \<noteq> 0 \<longrightarrow> within_boundary (unat bd) (unat a) (unat z))"
  proof (cases "bd = 0")
    case True
    then show thesis using that [of "Some a1"] a1 by (simp add: bounded_def)
  next
    case False
    then have "0 < unat bd" by (simp add: unat_gt_0)
    from Heap_Check_block_boundary_correct [OF al this fl zb [OF False] a1(1) e1 refl] False show thesis
      using that by (auto simp: bounded_def)
  qed
  have body: "Heap_Check_block s b z al bd = (case r of None \<Rightarrow> Some 0 | Some a \<Rightarrow>
      if a \<ge> b + 8 then let f = Heap_Block_of_alloc_area a (page_size s) - b in
        if f \<ge> min_block_size s \<or> f = 0 then Some a else Some 0 else Some 0)"
    unfolding Heap_Check_block_def Let_def Heap_Alloc_area_of_block_def size ceil_def [symmetric] end0_def [symmetric]
      a0_def [symmetric] a1_def [symmetric] bounded_def [symmetric] r option.case ..
  show ?thesis
  proof (cases r)
    case None
    then show ?thesis using body by simp
  next
    case (Some a)
    have "unat a \<le> unat a1" "unat al dvd unat a" "bd \<noteq> 0 \<longrightarrow> within_boundary (unat bd) (unat a) (unat z)" using ra Some by auto
    then have "unat a + unat z \<le> unat n + 4" "unat a + unat (min_block_size s) < unat n + 8 + unat (page_size s)"
      using a1 ceil P(1) ctl(1) by linarith+
    then show ?thesis
      using body Some \<open>unat al dvd unat a\<close> \<open>bd \<noteq> 0 \<longrightarrow> _\<close> b8
      by (auto simp: Let_def word_le_nat_alt)
  qed
qed

subsection \<open>Searching the free list\<close>

text \<open>What the search does at one block: the area it finds there, 0 when the block does not fit.\<close>

definition Heap_fit :: "Heap \<Rightarrow> uint32 \<Rightarrow> uint32 \<Rightarrow> uint32 \<Rightarrow> uint32 \<Rightarrow> addr \<Rightarrow> addr option" where
  "Heap_fit s z fl al bd b = (if size_and_flag s b > fl
     then if al = 0 then Some (Heap_Alloc_area_of_block b) else Heap_Check_block s b z al bd else Some 0)"

lemma Heap_Allocate_search_correct:
  assumes "flinked (next_free s) (prev_free s) (vs @ [free_list s])" "free_list s \<notin> set vs"
    and "\<forall>b \<in> set vs. \<exists>a. Heap_fit s z fl al bd b = Some a"
  shows "\<exists>b a k'. Heap_Allocate_search s z fl al bd (hd (vs @ [free_list s])) k = Some (b, a, k')
    \<and> (if a = 0 then \<forall>b \<in> set vs. Heap_fit s z fl al bd b = Some 0 else b \<in> set vs \<and> Heap_fit s z fl al bd b = Some a)"
  using assms
proof (induction vs arbitrary: k)
  case Nil
  then show ?case by (subst Heap_Allocate_search.simps) (simp add: Heap_Free_list_tail_def)
next
  case (Cons v vs)
  obtain a where a: "Heap_fit s z fl al bd v = Some a" using Cons.prems by auto
  have nx: "flinked (next_free s) (prev_free s) (vs @ [free_list s])" "next_free s v = hd (vs @ [free_list s])"
    using Cons.prems(1) by (cases vs; simp)+
  have v: "v \<noteq> free_list s" using Cons.prems(2) by auto
  have step: "Heap_Allocate_search s z fl al bd v k = (if a \<noteq> 0 then Some (v, a, k + 1)
      else Heap_Allocate_search s z fl al bd (hd (vs @ [free_list s])) (k + 1))"
    using a v by (subst Heap_Allocate_search.simps) (simp add: Heap_Free_list_tail_def nx(2) flip: Heap_fit_def)
  show ?case
  proof (cases "a = 0")
    case False
    then show ?thesis using step a by simp
  next
    case True
    from Cons.IH [OF nx(1), of "k + 1"] Cons.prems(2,3) True step a show ?thesis by fastforce
  qed
qed

lemma heap_free_prev_used:
  assumes inv: "heap_inv s (xs @ b # n # ys) fs" and b: "b \<in> set fs"
  shows "xs = [] \<or> last xs \<notin> set fs"
proof (cases xs rule: rev_cases)
  case (snoc zs p)
  then have "heap_inv s (zs @ p # b # n # ys) fs" using inv by simp
  from heap_pairD(5) [OF this] b snoc show ?thesis by auto
qed simp

text \<open>A free block is larger than the floor exactly if the area and its bookkeeping fit.\<close>

lemma Heap_fit_size:
  assumes inv: "heap_inv s (xs @ b # n # ys) fs" and b: "b \<in> set fs" and fl: "unat fl = unat z + 4"
  shows "size_and_flag s b > fl \<longleftrightarrow> unat z + 4 \<le> unat (n - b)"
proof -
  note P = heap_pairD [OF inv]
  have "xs = [] \<or> last xs \<notin> set fs" by (rule heap_free_prev_used [OF inv b])
  then have "size_and_flag s b AND 1 \<noteq> 0" using heap_prev_flag [OF inv] by simp
  then have "size_and_flag s b = (size_and_flag s b AND NOT 1) OR 1"
    by (auto intro!: bit_word_eqI simp: bit_simps and_one_eq bit_0 odd_iff_mod_2_eq_one split: if_splits)
  also have "\<dots> = (n - b) + 1" using P(2,3) by (simp add: or_one_eq bit_0)
  finally have "size_and_flag s b = (n - b) + 1" .
  moreover have "unat ((n - b) + 1) = unat (n - b) + 1"
    using unat_distance [OF P(1)] P(12) by (subst unat_add_no_wrap) (simp_all add: block_ok_def)
  ultimately show ?thesis using fl by (simp add: word_less_nat_alt) linarith
qed

lemma Heap_Block_of_aligned:
  assumes "heap_control_ok s" "unat (page_size s) dvd unat a" "8 \<le> unat a"
  shows "Heap_Block_of_alloc_area a (page_size s) = a - 8"
proof -
  have "block_ok s (a - 8)" "unat (a - 8) + 8 = unat a"
    using assms(2,3) unsigned_less [of a] by (simp_all add: block_ok_def unat_sub_no_wrap)
  then show ?thesis
    using assms(1) by (intro Heap_Block_of_alloc_area_eq) (simp_all add: heap_control_ok_def)
qed

text \<open>Allocation in a block that fits keeps the invariant and takes an area nobody has.\<close>

definition fits_area :: "Heap \<Rightarrow> addr list \<Rightarrow> addr list \<Rightarrow> addr \<Rightarrow> uint32 \<Rightarrow> uint32 \<Rightarrow> uint32 \<Rightarrow> Heap \<Rightarrow> addr \<Rightarrow> bool" where
  "fits_area s bs fs a z al bd s' blk \<longleftrightarrow> allocated s bs fs a z s' blk \<and> unat al dvd unat a \<and> unat (page_size s) dvd unat a
     \<and> (bd \<noteq> 0 \<longrightarrow> within_boundary (unat bd) (unat a) (unat z))"

lemma Heap_fit_begin:
  assumes inv: "heap_inv s (xs @ b # n # ys) (us @ b # vs)" and fits: "unat z + 4 \<le> unat (n - b)"
  shows "\<exists>s'. Heap_Block_allocate b (b + 8) z s = (s', b)
    \<and> allocated s (xs @ b # n # ys) (us @ b # vs) (b + 8) z s' b \<and> unat (page_size s) dvd unat (b + 8)"
proof -
  note P = heap_pairD [OF inv] and I = heap_inv_exceptD [OF inv]
  have b8: "unat (b + 8) = unat b + 8" using P(11) by (subst unat_add_no_wrap) (simp_all add: block_ok_def)
  have "unat (b + 8) + unat z \<le> unat n + 4" "0 < unat (page_size s)"
    using b8 fits unat_distance [OF P(1)] I(1) by (simp_all add: heap_control_ok_def)
  then show ?thesis using Heap_Block_allocate_begin [OF inv, of "b + 8" z] P(11) b8 by (auto simp: block_ok_def)
qed

lemma Heap_fit_check:
  assumes inv: "heap_inv s (xs @ b # n # ys) (us @ b # vs)" and fits: "unat z + 4 \<le> unat (n - b)"
    and al: "al \<noteq> 0" "unat (page_size s) dvd unat al" and zb: "bd \<noteq> 0 \<Longrightarrow> unat z \<le> unat bd"
    and fit: "Heap_Check_block s b z al bd = Some a" "a \<noteq> 0"
  shows "\<exists>s' blk. Heap_Block_allocate b a z s = (s', blk)
    \<and> fits_area s (xs @ b # n # ys) (us @ b # vs) a z al bd s' blk"
proof -
  note P = heap_pairD [OF inv] and I = heap_inv_exceptD [OF inv]
  let ?p = "unat (page_size s)" and ?m = "unat (min_block_size s)"
  have "0 < unat al" using al(1) by (simp add: unat_gt_0)
  from Heap_Check_block_correct [OF inv this fits zb] fit
  have C: "unat al dvd unat a" "unat b + 8 \<le> unat a" "unat a + unat z \<le> unat n + 4" "unat a + ?m < unat n + 8 + ?p"
    "bd \<noteq> 0 \<longrightarrow> within_boundary (unat bd) (unat a) (unat z)"
    "Heap_Block_of_alloc_area a (page_size s) = b \<or> min_block_size s \<le> Heap_Block_of_alloc_area a (page_size s) - b"
    by (auto simp: Let_def)
  have pa: "?p dvd unat a" using al(2) C(1) by (rule dvd_trans)
  have blk: "Heap_Block_of_alloc_area a (page_size s) = a - 8"
    using I(1) pa C(2) by (intro Heap_Block_of_aligned) simp_all
  have a8: "unat (a - 8) = unat a - 8" using C(2) by (subst unat_sub_no_wrap) simp_all
  have "\<exists>s' blk. Heap_Block_allocate b a z s = (s', blk) \<and> allocated s (xs @ b # n # ys) (us @ b # vs) a z s' blk"
  proof (cases "a - 8 = b")
    case True
    then have "a = b + 8" by (simp add: algebra_simps)
    then show ?thesis using Heap_fit_begin [OF inv fits] by auto
  next
    case False
    then have "min_block_size s \<le> a - 8 - b" using C(6) blk by simp
    moreover have "unat (a - 8 - b) = unat a - 8 - unat b" using a8 C(2) by (subst unat_sub_no_wrap) simp_all
    ultimately have 1: "unat b + 8 + ?m \<le> unat a" using C(2) by (simp add: word_le_nat_alt)
    have "?p dvd ?m" "?p dvd unat n + 8" using I(1) P(12) by (simp_all add: heap_control_ok_def block_ok_def)
    have 2: "unat a + ?m \<le> unat n + 8"
    proof (rule ccontr)
      assume gt: "\<not> ?thesis"
      then have "?p dvd (unat a + ?m) - (unat n + 8)" "0 < (unat a + ?m) - (unat n + 8)"
        using pa \<open>?p dvd ?m\<close> \<open>?p dvd unat n + 8\<close> by (auto intro!: dvd_diff_nat dvd_add)
      from dvd_imp_le [OF this] show False using C(4) gt by linarith
    qed
    show ?thesis using Heap_Block_allocate_end [OF inv pa 1 2 C(3)] by blast
  qed
  then show ?thesis using C(1,5) pa by (auto simp: fits_area_def)
qed

text \<open>Every block but the last has a successor.\<close>

lemma Heap_block_split:
  assumes "heap_inv s bs fs" "b \<in> set (butlast bs)"
  obtains xs n ys where "bs = xs @ b # n # ys"
proof -
  from assms(2) obtain xs zs where x: "butlast bs = xs @ b # zs" by (auto dest: split_list)
  then have "bs \<noteq> []" by auto
  then have "bs = xs @ b # zs @ [last bs]" using x by (metis append_butlast_last_id append_Cons append_assoc)
  moreover obtain n ys where "zs @ [last bs] = n # ys" by (cases zs) auto
  ultimately show thesis using that by metis
qed

lemma free_block_pair:
  assumes inv: "heap_inv s bs fs" and b: "b \<in> set fs"
  obtains xs n ys us vs where "bs = xs @ b # n # ys" "fs = us @ b # vs"
proof -
  have "b \<in> set (butlast bs)" using heap_inv_exceptD(4) [OF inv] b by auto
  with that show thesis using Heap_block_split [OF inv, of b] b by (metis split_list)
qed

text \<open>The search always ends, with a block that fits or with none.\<close>

lemma Heap_fit_total:
  assumes inv: "heap_inv s bs fs" and b: "b \<in> set fs" and fl: "unat fl = unat z + 4" and zb: "bd \<noteq> 0 \<Longrightarrow> unat z \<le> unat bd"
  shows "\<exists>a. Heap_fit s z fl al bd b = Some a"
proof -
  obtain xs n ys us vs where e: "bs = xs @ b # n # ys" "fs = us @ b # vs" using free_block_pair [OF inv b] .
  note inv' = inv [unfolded e]
  show ?thesis
  proof (cases "size_and_flag s b > fl \<and> al \<noteq> 0")
    case True
    then have "0 < unat al" "unat z + 4 \<le> unat (n - b)" using Heap_fit_size [OF inv' _ fl] by (simp_all add: unat_gt_0)
    from Heap_Check_block_correct [OF inv' this zb] True show ?thesis by (auto simp: Heap_fit_def)
  qed (auto simp: Heap_fit_def)
qed

lemma Heap_fit_allocate:
  assumes inv: "heap_inv s bs fs" and b: "b \<in> set fs" and fl: "unat fl = unat z + 4" and zb: "bd \<noteq> 0 \<Longrightarrow> unat z \<le> unat bd"
    and al: "al = 0 \<Longrightarrow> bd = 0" "unat (page_size s) dvd unat al"
    and fit: "Heap_fit s z fl al bd b = Some a" "a \<noteq> 0"
  shows "\<exists>s' blk. Heap_Block_allocate b a z s = (s', blk) \<and> allocated s bs fs a z s' blk \<and> (al \<noteq> 0 \<longrightarrow> unat al dvd unat a)
    \<and> unat (page_size s) dvd unat a \<and> (bd \<noteq> 0 \<longrightarrow> within_boundary (unat bd) (unat a) (unat z))"
proof -
  obtain xs n ys us vs where e: "bs = xs @ b # n # ys" "fs = us @ b # vs" using free_block_pair [OF inv b] .
  note inv' = inv [unfolded e]
  have fits: "unat z + 4 \<le> unat (n - b)"
    using fit Heap_fit_size [OF inv' _ fl] by (simp add: Heap_fit_def split: if_splits)
  show ?thesis
  proof (cases "al = 0")
    case True
    then have "a = b + 8" using fit by (simp add: Heap_fit_def Heap_Alloc_area_of_block_def split: if_splits)
    then show ?thesis using Heap_fit_begin [OF inv' fits] True al(1) e by auto
  next
    case False
    then have "Heap_Check_block s b z al bd = Some a" using fit by (simp add: Heap_fit_def split: if_splits)
    from Heap_fit_check [OF inv' fits False al(2) zb this fit(2)] show ?thesis by (auto simp: fits_area_def e)
  qed
qed

text \<open>The whole operation. With a request that fits nowhere it returns the null pointer and changes nothing but
  its statistics.\<close>

definition Heap_request_ok :: "uint32 \<Rightarrow> uint32 \<Rightarrow> bool" where
  "Heap_request_ok z bd \<longleftrightarrow> unat z + 4 < 2 ^ 32 \<and> (bd \<noteq> 0 \<longrightarrow> z \<le> bd)"

lemma Heap_request_floor: "z + 8 - 4 < z \<longleftrightarrow> \<not> unat z + 4 < 2 ^ 32" for z :: uint32
proof -
  have e: "z + 8 - 4 = z + 4" by simp
  show ?thesis
  proof (cases "unat z + 4 < 2 ^ 32")
    case True
    then have "unat (z + 4) = unat z + 4" by (subst unat_add_no_wrap) simp_all
    then show ?thesis unfolding e using True by (simp add: word_less_nat_alt)
  next
    case False
    have lt: "unat z < 2 ^ 32" using unsigned_less [of z] by simp
    have "unat (z + 4) = (unat z + 4) mod 2 ^ 32" by (simp add: unat_word_ariths)
    also have "\<dots> = unat z + 4 - 2 ^ 32" using False lt by (subst mod_if) simp
    finally show ?thesis unfolding e using False lt by (simp add: word_less_nat_alt)
  qed
qed

definition alloc_result :: "Heap \<Rightarrow> addr list \<Rightarrow> addr list \<Rightarrow> uint32 \<Rightarrow> uint32 \<Rightarrow> uint32 \<Rightarrow> Heap \<Rightarrow> addr \<Rightarrow> bool" where
  "alloc_result s bs fs z al bd s' a \<longleftrightarrow> (let al' = (if bd \<noteq> 0 \<and> al = 0 then page_size s else al) in
     if a = 0 then (\<exists>t. s' = s\<lparr>stats := t\<rparr>) \<and> (Heap_request_ok z bd \<longrightarrow> (\<forall>b \<in> set fs. Heap_fit s z (z + 4) al' bd b = Some 0))
     else (\<exists>blk. allocated s bs fs a z s' blk) \<and> Heap_request_ok z bd \<and> (\<exists>b \<in> set fs. Heap_fit s z (z + 4) al' bd b = Some a)
       \<and> (al \<noteq> 0 \<longrightarrow> unat al dvd unat a) \<and> unat (page_size s) dvd unat a
       \<and> (bd \<noteq> 0 \<longrightarrow> within_boundary (unat bd) (unat a) (unat z)))"

lemma Heap_Allocate_aligned_with_boundary_full:
  fixes bd al z :: uint32
  assumes inv: "heap_inv s bs fs" and al: "unat (page_size s) dvd unat al"
  shows "\<exists>s' a. Heap_Allocate_aligned_with_boundary s z al bd = Some (s', a) \<and> alloc_result s bs fs z al bd s' a"
proof (cases "Heap_request_ok z bd")
  case False
  then have "Heap_Allocate_aligned_with_boundary s z al bd = Some (s, 0)"
    unfolding Heap_Allocate_aligned_with_boundary_def Let_def Heap_request_floor Heap_request_ok_def by auto
  moreover have "\<exists>t. s = s\<lparr>stats := t\<rparr>" by (intro exI [of _ "stats s"]) simp
  ultimately show ?thesis using False by (auto simp: alloc_result_def)
next
  case True
  define al' where "al' = (if bd \<noteq> 0 \<and> al = 0 then page_size s else al)"
  have r: "\<not> z + 8 - 4 < z" "\<not> (bd \<noteq> 0 \<and> bd < z)" "unat (z + 4) = unat z + 4"
    unfolding Heap_request_floor using True by (auto simp: Heap_request_ok_def unat_add_no_wrap)
  have zb: "bd \<noteq> 0 \<Longrightarrow> unat z \<le> unat bd" using True by (simp add: Heap_request_ok_def word_le_nat_alt)
  have al': "al' = 0 \<Longrightarrow> bd = 0" "unat (page_size s) dvd unat al'"
    using al heap_inv_exceptD(1) [OF inv] by (auto simp: al'_def heap_control_ok_def split: if_splits)
  note I = heap_inv_exceptD [OF inv]
  have R: "flinked (next_free s) (prev_free s) (fs @ [free_list s])" "free_list s \<notin> set fs"
    "Heap_Free_list_first s = hd (fs @ [free_list s])"
    using I(3) by (cases fs; auto simp: ring_def Heap_Free_list_first_def)+
  have tot: "\<forall>b \<in> set fs. \<exists>a. Heap_fit s z (z + 4) al' bd b = Some a" using Heap_fit_total [OF inv _ r(3) zb] by blast
  from Heap_Allocate_search_correct [OF R(1,2) tot, of 0]
  obtain b a k where S: "Heap_Allocate_search s z (z + 4) al' bd (Heap_Free_list_first s) 0 = Some (b, a, k)"
    and A: "if a = 0 then \<forall>b \<in> set fs. Heap_fit s z (z + 4) al' bd b = Some 0 else b \<in> set fs \<and> Heap_fit s z (z + 4) al' bd b = Some a"
    unfolding R(3) by blast
  have e: "z + 8 - 4 = z + 4" by simp
  note body = Heap_Allocate_aligned_with_boundary_def [of s z al bd, unfolded Let_def, folded al'_def, unfolded if_not_P [OF r(1)] if_not_P [OF r(2)], unfolded e S]
  show ?thesis
  proof (cases "a = 0")
    case True
    obtain t where "Heap_Allocate_aligned_with_boundary s z al bd = Some (s\<lparr>stats := t\<rparr>, 0)"
      unfolding body using True by (auto simp: upd_stats_def)
    then show ?thesis using A True by (auto simp: alloc_result_def al'_def [symmetric])
  next
    case False
    then obtain s' blk where H: "Heap_Block_allocate b a z s = (s', blk)" "allocated s bs fs a z s' blk" "al' \<noteq> 0 \<longrightarrow> unat al' dvd unat a"
      "unat (page_size s) dvd unat a" "bd \<noteq> 0 \<longrightarrow> within_boundary (unat bd) (unat a) (unat z)"
      using Heap_fit_allocate [OF inv _ r(3) zb al', of b a] A by auto
    obtain t where t: "Heap_Allocate_aligned_with_boundary s z al bd = Some (s'\<lparr>stats := t\<rparr>, a)"
      unfolding body using False H(1) by (auto simp: upd_stats_def)
    moreover have "al \<noteq> 0 \<longrightarrow> unat al dvd unat a" using H(3) by (auto simp: al'_def)
    ultimately have "alloc_result s bs fs z al bd (s'\<lparr>stats := t\<rparr>) a"
      unfolding alloc_result_def al'_def [symmetric] Let_def if_not_P [OF False] allocated_stats
      using H(2,4,5) A \<open>Heap_request_ok z bd\<close> False by auto
    then show ?thesis using t by blast
  qed
qed

end
