(* ===== verification/Score_Heap_Props.thy ===== *)
theory Score_Heap_Props
  imports Score_Heap_Alloc
begin

text \<open>
  What the heap promises its clients: a fresh heap satisfies the invariant, an allocation returns an aligned
  area inside the boundary that no one else holds whenever a free block is large enough, releasing an
  area undoes its allocation, wrong addresses are refused, a block is resized in place, the reported sizes are
  those of the blocks, and the consistency check accepts every heap the operations produce.
\<close>

subsection \<open>A fresh heap\<close>

lemma Heap_Get_first_and_last_block_correct:
  assumes p: "8 dvd unat p" "0 < unat p" and get: "Heap_Get_first_and_last_block b z p mn = Some (f, l)"
  shows "unat b \<le> unat f" "unat p dvd unat f + 8" "unat p dvd unat l + 8" "unat f + unat mn \<le> unat l"
    "unat l + 8 \<le> unat b + unat z" "unat (b + z) = unat b + unat z" "unat b + unat z < 2 ^ 32"
proof -
  define r where "r = (b + 8) mod p"
  define t where "t = (if r \<noteq> 0 then p - r else 0)"
  define k where "k = Heap_Align_down (z - (8 + t)) p"
  have al: "Heap_Align_up (b + 8) p = b + 8 + t" by (simp add: Heap_Align_up_def t_def r_def Let_def)
  have fe: "b + 8 + t - 8 = b + t" and oe: "8 + (b + 8 + t - 8 - b) = 8 + t" by simp_all
  have g: "f = b + t" "l = b + t + k" "\<not> b + z < b" "8 + t < z" "mn \<le> k"
    using get unfolding Heap_Get_first_and_last_block_def Let_def al oe k_def [symmetric] unfolding fe
    by (auto simp: not_le split: if_splits)
  have bz: "unat (b + z) = unat b + unat z" "unat b + unat z < 2 ^ 32"
  proof -
    have "unat (b + z) = (unat b + unat z) mod 2 ^ 32" by (simp add: unat_word_ariths)
    moreover have "unat b \<le> unat (b + z)" using g(3) by (simp add: word_less_nat_alt)
    moreover have "unat b < 2 ^ 32" "unat z < 2 ^ 32" using unsigned_less [of b] unsigned_less [of z] by simp_all
    ultimately show "unat b + unat z < 2 ^ 32" by (subst (asm) mod_if) (auto split: if_splits)
    then show "unat (b + z) = unat b + unat z" by (subst unat_add_no_wrap) simp_all
  qed
  have rp: "unat r < unat p" using p(2) by (simp add: r_def unat_mod_word)
  have "unat p < 2 ^ 32" using unsigned_less [of p] by simp
  then have p8: "unat p + 8 \<le> 2 ^ 32" using p(1) by (auto elim!: dvdE)
  have ut: "unat t = (if r = 0 then 0 else unat p - unat r)"
    using rp by (auto simp: t_def intro!: unat_sub_no_wrap)
  moreover have "r \<noteq> 0 \<Longrightarrow> 0 < unat r" by (simp add: unat_gt_0)
  ultimately have "unat t < unat p" using rp p(2) by (cases "r = 0") simp_all
  then have t8: "unat (8 + t) = 8 + unat t" using p8 by (subst unat_add_no_wrap) simp_all
  then have tz: "8 + unat t < unat z" using g(4) by (simp add: word_less_nat_alt)
  have b8: "unat (b + 8) = unat b + 8" using tz bz by (subst unat_add_no_wrap) simp_all
  then have ur: "unat r = (unat b + 8) mod unat p" by (simp add: r_def unat_mod_word)
  have uf: "unat f = unat b + unat t" unfolding g(1) using tz bz by (subst unat_add_no_wrap) simp_all
  have uz: "unat (z - (8 + t)) = unat z - (8 + unat t)" using tz t8 by (subst unat_sub_no_wrap) simp_all
  note D = Heap_Align_down_correct [OF p(2), where v = "z - (8 + t)", folded k_def]
  have ul: "unat l = unat f + unat k"
    using D(1) uz tz uf bz unfolding g(2) g(1) [symmetric] by (subst unat_add_no_wrap) simp_all
  have "unat p dvd unat b + 8 + unat t"
  proof (cases "r = 0")
    case True
    then show ?thesis using ur ut by (simp add: mod_eq_0_iff_dvd)
  next
    case False
    then have "unat t = unat p - unat r" using ut by simp
    then have e: "unat b + 8 + unat t = (unat b + 8) div unat p * unat p + unat p"
      using rp ur div_mult_mod_eq [of "unat b + 8" "unat p"] by linarith
    show ?thesis unfolding e by simp
  qed
  then show "unat p dvd unat f + 8" using uf by (simp add: ac_simps)
  then have "unat p dvd (unat f + 8) + unat k" using D(3) by (rule dvd_add)
  then show "unat p dvd unat l + 8" using ul by (simp add: ac_simps)
  show "unat b \<le> unat f" using uf by simp
  show "unat f + unat mn \<le> unat l" using ul g(5) by (simp add: word_le_nat_alt)
  show "unat l + 8 \<le> unat b + unat z" using ul uf D(1) uz tz by linarith
  show "unat (b + z) = unat b + unat z" "unat b + unat z < 2 ^ 32" using bz by simp_all
qed

lemma Heap_page_size_correct:
  assumes "pg = (if p = 0 then 8 else Heap_Align_up p 8)" "\<not> (p \<noteq> 0 \<and> pg < 8)"
  shows "8 dvd unat pg" "0 < unat pg" "unat p \<le> unat pg"
    "unat pg dvd unat (Heap_Min_block_size pg)" "16 \<le> unat (Heap_Min_block_size pg)" "unat pg \<le> unat (Heap_Min_block_size pg)"
proof -
  have "8 dvd unat pg \<and> 0 < unat pg \<and> unat p \<le> unat pg"
  proof (cases "p = 0")
    case False
    define r where "r = p mod 8"
    have up: "unat p = 8 * (unat p div 8) + unat r" "unat r < 8" by (simp_all add: r_def unat_mod_word)
    have pr: "unat (p - r) = 8 * (unat p div 8)" using up by (subst unat_sub_no_wrap) simp_all
    have lt: "unat p < 2 ^ 32" using unsigned_less [of p] by simp
    have pg: "pg = (if r \<noteq> 0 then p - r + 8 else p)" using assms(1) False by (simp add: Heap_Align_up_def r_def Let_def)
    have g8: "8 \<le> unat pg" using assms(2) False by (simp add: word_less_nat_alt)
    show ?thesis
    proof (cases "r = 0")
      case True
      then have "unat p = 8 * (unat p div 8)" "pg = p" using up pg by simp_all
      then show ?thesis using g8 by (metis dvd_triv_left le_refl less_le_trans zero_less_numeral)
    next
      case False
      then have e: "pg = p - r + 8" using pg by simp
      have "8 * (unat p div 8) + 8 < 2 ^ 32"
      proof (rule ccontr)
        assume "\<not> ?thesis"
        moreover have "8 * (unat p div 8) + 8 \<le> 2 ^ 32" using lt by simp
        ultimately have "8 * (unat p div 8) + 8 = 2 ^ 32" by simp
        then have "unat pg = 0" unfolding e using pr by (simp add: unat_word_ariths)
        then show False using g8 by simp
      qed
      then have "unat pg = 8 * (unat p div 8) + 8" unfolding e using pr by (subst unat_add_no_wrap) simp_all
      then show ?thesis using up g8 by simp
    qed
  qed (use assms in simp)
  then show p: "8 dvd unat pg" "0 < unat pg" "unat p \<le> unat pg" by simp_all
  then have cases: "unat pg = 8 \<or> 16 \<le> unat pg" by (auto elim!: dvdE)
  have m: "unat (16 mod pg) = 16 mod unat pg" by (simp add: unat_mod_word)
  have "Heap_Min_block_size pg = (if unat pg = 8 then 16 else pg)"
  proof -
    have "16 mod pg = 0" if "unat pg = 8 \<or> unat pg = 16" using m that by (auto simp: unat_eq_zero)
    moreover have "pg = 16" if "unat pg = 16" using that by (simp add: word_unat_eq_iff)
    moreover have "16 mod pg = 16" if "16 < unat pg" using m that by (simp add: word_unat_eq_iff)
    moreover have "unat pg = 8 \<or> unat pg = 16 \<or> 16 < unat pg" using cases by linarith
    ultimately show ?thesis by (elim disjE) (simp_all add: Heap_Min_block_size_def Heap_Align_up_def Let_def)
  qed
  then show "unat pg dvd unat (Heap_Min_block_size pg)" "16 \<le> unat (Heap_Min_block_size pg)" "unat pg \<le> unat (Heap_Min_block_size pg)"
    using cases by auto
qed

lemma Heap_Initialize_inv:
  assumes ini: "Heap_Initialize s b z p = (s', n)" and n: "n \<noteq> 0" and out: "\<not> (b \<le> free_list s \<and> free_list s < b + z)"
  shows "\<exists>f. heap_inv s' [f, f + n] [f] \<and> Heap_Block_size s' f = n \<and> unat b \<le> unat f
    \<and> unat f + unat n + 8 \<le> unat b + unat z \<and> unat p \<le> unat (page_size s') \<and> free_list s' = free_list s"
proof -
  define pg where "pg = (if p = 0 then 8 else Heap_Align_up p 8)"
  define mn where "mn = Heap_Min_block_size pg"
  have pg8: "\<not> (p \<noteq> 0 \<and> pg < 8)" using ini n by (auto simp: Heap_Initialize_def pg_def [symmetric] Let_def)
  note P = Heap_page_size_correct [OF pg_def pg8, folded mn_def]
  obtain f l where get: "Heap_Get_first_and_last_block b z pg mn = Some (f, l)"
    using ini n pg8 unfolding Heap_Initialize_def Let_def pg_def [symmetric] mn_def [symmetric]
    by (auto split: option.splits if_splits)
  note G = Heap_Get_first_and_last_block_correct [OF P(1,2) get]
  define u where "u = Heap_clear_control s"
  have fl: "f \<noteq> l" "l \<noteq> f" using G(4) P(5) by auto
  have ufl: "unat f + unat (l - f) = unat l" by (rule unat_distance [OF G(4)])
  have even: "\<not> bit f 0" "\<not> bit l 0"
    using dvd_trans [OF P(1) G(2)] dvd_trans [OF P(1) G(3)] by (auto simp: even_unat elim!: dvdE)
  have d: "\<not> bit (l - f) 0" "\<not> bit (f - l) 0" using even by (simp_all add: even_diff)
  have F: "free_list s \<noteq> f" "free_list s \<noteq> l" "f \<noteq> free_list s" "l \<noteq> free_list s" "\<not> (f \<le> free_list s \<and> free_list s \<le> l)"
    using out G by (auto simp: word_le_nat_alt word_less_nat_alt)
  have s': "n = l - f" "page_size s' = pg" "min_block_size s' = mn" "first_block s' = f" "last_block s' = l" "free_list s' = free_list s"
    "size_and_flag s' f = (l - f) OR 1" "size_and_flag s' l = f - l" "prev_size s' l = l - f"
    "next_free s' f = free_list s" "prev_free s' f = free_list s" "next_free s' (free_list s) = f" "prev_free s' (free_list s) = f"
    using ini n pg8 fl F unfolding Heap_Initialize_def Let_def pg_def [symmetric] mn_def [symmetric] get option.case prod.case
    by (auto simp: Heap_clear_control_def Heap_Set_last_block_size_def Heap_Block_set_size_def Let_def)
  have "block_ok s' f" "block_ok s' l" using G s'(2) by (simp_all add: block_ok_def)
  moreover have "heap_control_ok s'" using P s'(2,3) by (simp add: heap_control_ok_def)
  moreover have "adj (unat mn) (size_and_flag s') (prev_size s') {} {f} f l"
    using s'(7-9) d fl G(4) by (simp add: adj_def tags)
  ultimately have "heap_inv s' [f, l] [f]"
    using s' d fl F by (simp add: heap_inv_except_def tags ring_def Heap_Is_block_in_heap_def)
  moreover have "f + n = l" "Heap_Block_size s' f = n" using s'(1,7) d by (simp_all add: Heap_Block_size_def tags)
  moreover have "unat f + unat n = unat l" using ufl s'(1) by simp
  ultimately show ?thesis using G(1,5) P(3) s'(2,6) by (intro exI [of _ f]) simp
qed

lemma Heap_Initialize_zero:
  assumes "Heap_Initialize s b z p = (s', 0)"
  shows "s' = s"
proof -
  define pg where "pg = (if p = 0 then 8 else Heap_Align_up p 8)"
  define mn where "mn = Heap_Min_block_size pg"
  show ?thesis
  proof (cases "(p \<noteq> 0 \<and> pg < 8) \<or> Heap_Get_first_and_last_block b z pg mn = None")
    case True
    then show ?thesis
      using assms unfolding Heap_Initialize_def Let_def pg_def [symmetric] mn_def [symmetric] by (auto split: if_splits)
  next
    case False
    then obtain f l where pg8: "\<not> (p \<noteq> 0 \<and> pg < 8)" and get: "Heap_Get_first_and_last_block b z pg mn = Some (f, l)" by auto
    note P = Heap_page_size_correct [OF pg_def pg8, folded mn_def]
    have "l - f = 0"
      using assms pg8 unfolding Heap_Initialize_def Let_def pg_def [symmetric] mn_def [symmetric] get option.case prod.case by auto
    then have "l = f" by simp
    then show ?thesis using Heap_Get_first_and_last_block_correct(4) [OF P(1,2) get] P(5) by simp
  qed
qed

text \<open>C16: initialization refuses an area that is too small or wraps around the address space and leaves
  the control as it is. Otherwise it makes a well-formed heap of one free block inside the area, whose
  size it returns, provided that the control lies outside the area.\<close>

theorem Heap_Initialize_correct:
  assumes "Heap_Initialize s heap_area_begin heap_area_size page = (s', n)"
    and "\<not> (heap_area_begin \<le> free_list s \<and> free_list s < heap_area_begin + heap_area_size)"
  shows "if n = 0 then s' = s
    else \<exists>f. heap_inv s' [f, f + n] [f] \<and> Heap_Block_size s' f = n \<and> unat heap_area_begin \<le> unat f
      \<and> unat f + unat n + 8 \<le> unat heap_area_begin + unat heap_area_size \<and> unat page \<le> unat (page_size s')"
proof (cases "n = 0")
  case True
  then show ?thesis using Heap_Initialize_zero [of s heap_area_begin heap_area_size page] assms(1) by simp
next
  case False
  then show ?thesis using Heap_Initialize_inv [OF assms(1) False assms(2)] by auto
qed

subsection \<open>Allocation\<close>

text \<open>The block \<open>u\<close> of size \<open>k\<close> provides the area from \<open>u + 8\<close> to \<open>u + k + 4\<close>: the allocation areas of
  different blocks are disjoint.\<close>

lemma heap_block_end:
  assumes inv: "heap_inv s (xs @ b # ys) fs" and v: "v \<in> set ys"
  shows "unat b + unat (Heap_Block_size s b) \<le> unat v"
proof -
  obtain n zs where ys: "ys = n # zs" using v by (cases ys) auto
  note inv' = inv [unfolded ys]
  have "unat b + unat (n - b) = unat n" by (rule unat_distance [OF heap_pairD(1) [OF inv']])
  moreover have "unat n \<le> unat v" using heap_inv_sorted [OF inv'] v by (auto simp: ys sorted_wrt_append)
  ultimately show ?thesis using heap_pairD(2) [OF inv'] by (simp add: Heap_Block_size_def)
qed

lemma used_list_distinct: "heap_inv s bs fs \<Longrightarrow> distinct (map fst (used_list s bs fs))"
  using heap_inv_distinct by (simp add: used_list_def comp_def)

lemma used_listD:
  assumes "(u, k) \<in> set (used_list s bs fs)"
  shows "u \<in> set bs" "u \<notin> set fs" "k = Heap_Block_size s u"
  using assms by (auto simp: used_list_def)

lemma allocated_disjoint:
  assumes al: "allocated s bs fs a z s' blk" and u: "(u, k) \<in> set (used_list s bs fs)"
  shows "unat a + unat z \<le> unat u + 8 \<or> unat u + unat k + 4 \<le> unat a"
proof -
  obtain ps n rs fs' U V where h: "heap_inv s' (ps @ blk # n # rs) fs'"
    and a: "unat blk + 8 \<le> unat a" "unat a + unat z \<le> unat n + 4"
    and us: "used_list s bs fs = U @ V" "used_list s' (ps @ blk # n # rs) fs' = U @ (blk, n - blk) # V"
    using al by (auto simp: allocated_def)
  have d: "distinct (map fst (used_list s' (ps @ blk # n # rs) fs'))"
    by (rule used_list_distinct [OF h])
  have u': "(u, k) \<in> set (U @ V)" using u us(1) by simp
  then have "u \<noteq> blk" using d unfolding us(2) by force
  moreover have "u \<in> set (ps @ blk # n # rs)" "k = Heap_Block_size s' u"
    using used_listD [of u k s' "ps @ blk # n # rs" fs'] u' unfolding us(2) by auto
  ultimately consider "u \<in> set ps" | "u \<in> set (n # rs)" by auto
  then show ?thesis
  proof cases
    case 1
    then obtain xs ys where ps: "ps = xs @ u # ys" by (auto dest: split_list)
    have "unat u + unat k \<le> unat blk"
      using heap_block_end [of s' xs u "ys @ blk # n # rs" fs' blk] h \<open>k = _\<close> by (simp add: ps)
    then show ?thesis using a(1) by linarith
  next
    case 2
    have "unat n \<le> unat u" using 2 heap_inv_sorted [OF h] by (auto simp: sorted_wrt_append)
    then show ?thesis using a(2) by linarith
  qed
qed


text \<open>C18: an allocation without alignment succeeds exactly if some free block can hold the size with its
  bookkeeping: the search of the free list misses no block and always ends.\<close>

theorem Heap_Allocate_complete:
  assumes "heap_inv s bs fs"
  shows "\<exists>s' a. Heap_Allocate s alloc_size = Some (s', a)
    \<and> (a \<noteq> NULL \<longleftrightarrow> (\<exists>f \<in> set fs. unat alloc_size + 4 \<le> unat (Heap_Block_size s f)))"
proof -
  have "unat (page_size s) dvd unat (0 :: uint32)" by simp
  from Heap_Allocate_aligned_with_boundary_full [OF assms this]
  obtain s' a where "Heap_Allocate s alloc_size = Some (s', a)" "alloc_result s bs fs alloc_size 0 0 s' a"
    unfolding Heap_Allocate_def by blast
  then have A: "Heap_Allocate s alloc_size = Some (s', a)"
    "if a = 0 then Heap_request_ok alloc_size 0 \<longrightarrow> (\<forall>b \<in> set fs. Heap_fit s alloc_size (alloc_size + 4) 0 0 b = Some 0)
     else Heap_request_ok alloc_size 0 \<and> (\<exists>b \<in> set fs. Heap_fit s alloc_size (alloc_size + 4) 0 0 b = Some a)"
    by (simp_all add: alloc_result_def split: if_splits)
  have fits: "(Heap_fit s alloc_size (alloc_size + 4) 0 0 f = Some 0) \<longleftrightarrow> \<not> unat alloc_size + 4 \<le> unat (Heap_Block_size s f)"
    if f: "f \<in> set fs" and ok: "Heap_request_ok alloc_size 0" for f
  proof -
    obtain xs n ys us vs where e: "bs = xs @ f # n # ys" "fs = us @ f # vs" using free_block_pair [OF assms f] .
    note inv = assms [unfolded e]
    have fl: "unat (alloc_size + 4) = unat alloc_size + 4" using ok by (simp add: Heap_request_ok_def unat_add_no_wrap)
    have "unat (f + 8) = unat f + 8" using heap_pairD(11) [OF inv] by (simp add: block_ok_def unat_add_no_wrap)
    then have "f + 8 \<noteq> 0" by (metis add_is_0 unat_0 zero_neq_numeral)
    then show ?thesis
      using Heap_fit_size [OF inv _ fl] heap_pairD(2) [OF inv] by (simp add: Heap_fit_def Heap_Block_size_def)
  qed
  have small: "unat alloc_size + 4 \<le> unat (Heap_Block_size s f) \<Longrightarrow> Heap_request_ok alloc_size 0" for f
    using unat_uint32_bound [of "Heap_Block_size s f"] by (simp add: Heap_request_ok_def)
  show ?thesis
  proof (cases "a = 0")
    case True
    then show ?thesis using A fits small by auto
  next
    case False
    then obtain f where "f \<in> set fs" "Heap_fit s alloc_size (alloc_size + 4) 0 0 f \<noteq> Some 0" "Heap_request_ok alloc_size 0"
      using A by auto
    then show ?thesis using fits False A(1) by auto
  qed
qed

subsection \<open>Release\<close>

text \<open>C19: releasing an address of the first page of a block in use succeeds: the block leaves the blocks in
  use, its area is part of one free block afterwards (merged with free neighbours), every other block in use
  keeps its address and size, and the heap stays well-formed.\<close>

theorem Heap_Free_releases:
  assumes "heap_inv s bs fs" "b \<in> set (butlast bs)" "b \<notin> set fs"
    and "unat b + 8 \<le> unat a" "unat a < unat b + 8 + unat (page_size s)"
  shows "\<exists>s' bs' fs'. Heap_Free s a = (s', True) \<and> heap_inv s' bs' fs'
    \<and> used_list s' bs' fs' = filter (\<lambda>(u, k). u \<noteq> b) (used_list s bs fs)
    \<and> (\<exists>f \<in> set fs'. unat f \<le> unat b \<and> unat b + unat (Heap_Block_size s b) \<le> unat f + unat (Heap_Block_size s' f))"
proof -
  obtain xs n ys where bs: "bs = xs @ b # n # ys" using Heap_block_split [OF assms(1,2)] .
  note inv = assms(1) [unfolded bs]
  have "unat b + unat (Heap_Block_size s b) = unat n"
    using unat_distance [OF heap_pairD(1) [OF inv]] heap_pairD(2) [OF inv] by (simp add: Heap_Block_size_def)
  then show ?thesis using Heap_Free_correct [OF inv assms(3-5)] unfolding bs freed_def by force
qed



subsection \<open>Resizing\<close>

lemma Heap_Block_allocate_used:
  assumes inv: "heap_inv s (xs @ b # n # ys) fs" and used: "b \<notin> set fs"
    and a: "unat b + 8 \<le> unat a" "unat a < unat b + 8 + unat (page_size s)" "unat a + unat z \<le> unat n + 4"
  shows "\<exists>s' n' ys' fs'. Heap_Block_allocate b a z s = (s', b) \<and> resized (z + (a - (b + 8))) s xs b n ys fs s' n' ys' fs'
    \<and> unat (z + (a - (b + 8))) = unat z + (unat a - (unat b + 8))"
proof -
  note P = heap_pairD [OF inv]
  have nfree: "\<not> Heap_Is_free s b" using heap_is_used [OF inv] used by (simp add: Heap_Is_free_def)
  have b8: "unat (b + 8) = unat b + 8" using P(11) by (subst unat_add_no_wrap) (simp_all add: block_ok_def)
  have off: "unat (a - (b + 8)) = unat a - (unat b + 8)" using a(1) by (subst unat_sub_no_wrap) (simp_all add: b8)
  have bn: "unat b + unat (n - b) = unat n" by (rule unat_distance [OF P(1)])
  have n8: "unat n + 8 < 2 ^ 32" using P(12) by (simp add: block_ok_def)
  have z': "unat (z + (a - (b + 8))) = unat z + (unat a - (unat b + 8))"
    using off a n8 by (subst unat_add_no_wrap) simp_all
  have fits: "unat (z + (a - (b + 8))) + 4 \<le> unat (n - b)" using z' a bn by simp
  have offp: "a - (b + 8) < page_size s" using off a by (simp add: word_less_nat_alt)
  have inv': "heap_inv s (xs @ b # n # ys) ([] @ fs)" using inv by simp
  obtain n' ys' fs' where r: "resized (z + (a - (b + 8))) s xs b n ys fs
      (Heap_Block_split b (free_list s) (z + (a - (b + 8))) s) n' ys' fs'"
    using Heap_Block_split_correct [OF inv' _ _ _ fits, of "free_list s"] used by auto
  moreover have "Heap_Block_allocate b a z s = (upd_stats (\<lambda>t. if min_free_size t > free_size t then t\<lparr>min_free_size := free_size t\<rparr> else t)
     (Heap_Block_split b (free_list s) (z + (a - (b + 8))) s), b)"
    unfolding Heap_Block_allocate_def Let_def Heap_Alloc_area_of_block_def
    using nfree offp by (simp add: Heap_Block_allocate_from_begin_def)
  ultimately show ?thesis using z' by auto
qed

text \<open>A free successor is merged into the block before it is split again.\<close>

lemma heap_inv_merge_next:
  assumes inv: "heap_inv s (xs @ b # n # q # ys) (us @ n # vs)" and used: "b \<notin> set (us @ n # vs)"
    and s': "s' = set_size_and_flag q (size_and_flag s q OR 1) (Heap_Free_list_remove n (Heap_Block_set_size b (q - b) s))"
  shows "heap_inv s' (xs @ b # q # ys) (us @ vs)"
    "used_list s' xs (us @ vs) = used_list s xs (us @ n # vs)" "used_list s' (q # ys) (us @ vs) = used_list s (n # q # ys) (us @ n # vs)"
proof -
  have inv': "heap_inv s (xs @ [b, n, q] @ ys) (us @ n # vs)" "heap_inv s ((xs @ [b]) @ n # q # ys) (us @ n # vs)"
    using inv by simp_all
  note P = heap_pairD [OF inv] and Q = heap_pairD [OF inv'(2)] and I = heap_inv_exceptD [OF inv]
  note T = ring_neighbours [OF I(3)]
  have even: "\<not> bit (q - b) 0" using P(11) Q(12) I(1) by (intro even_diff block_ok_even)
  have bq: "b \<noteq> q" "q \<noteq> b" using Q by auto
  have q: "q \<notin> set (us @ n # vs)" using Q(5) by simp
  have I3: "free_ring (Heap_Block_set_size b (q - b) s) (us @ n # vs)" using I(3) by (simp add: Heap_Block_set_size_def Let_def)
  have "heap_inv s' (xs @ [b, q] @ ys) (us @ vs)"
  proof (rule heap_inv_surgery [OF inv'(1)])
    show "layout (unat (min_block_size s)) (size_and_flag s') (prev_size s') {} (set (us @ vs)) [b, q]"
      using P Q used q bq even by (auto simp: s' adj_def tags Heap_Block_set_size_def Let_def)
    show "free_ring s' (us @ vs)" using Heap_Free_list_remove_ring [OF I3] by (simp add: s')
    show "set (us @ vs) \<subseteq> set (butlast (xs @ [b, q] @ ys))"
      using I(4) T used q by (auto simp: butlast_append split: if_splits)
  qed (use P Q T used q bq even in \<open>auto simp: s' tags Heap_Block_set_size_def Let_def\<close>)
  then show "heap_inv s' (xs @ b # q # ys) (us @ vs)" by simp
  show "used_list s' xs (us @ vs) = used_list s xs (us @ n # vs)"
    using P Q by (auto intro!: used_list_same simp: s' Heap_Block_set_size_def Let_def)
  have "used_list s' ys (us @ vs) = used_list s ys (us @ n # vs)"
    using P Q by (auto intro!: used_list_same simp: s' Heap_Block_set_size_def Let_def)
  moreover have "Heap_Block_size s' q = Heap_Block_size s q" using bq by (simp add: s' Heap_Block_size_def Heap_Block_set_size_def Let_def tags)
  ultimately show "used_list s' (q # ys) (us @ vs) = used_list s (n # q # ys) (us @ n # vs)"
    using q by (simp add: used_list_Cons)
qed

text \<open>What a resize leaves: the block stays in use at its address, every other block in use is unchanged.\<close>

definition resize_done :: "Heap \<Rightarrow> addr list \<Rightarrow> addr list \<Rightarrow> addr \<Rightarrow> Heap \<Rightarrow> bool" where
  "resize_done s bs fs b s' \<longleftrightarrow> (\<exists>bs' fs' U V. heap_inv s' bs' fs' \<and> used_list s bs fs = U @ (b, Heap_Block_size s b) # V
     \<and> used_list s' bs' fs' = U @ (b, Heap_Block_size s' b) # V)"

lemma resize_done_stats [simp]: "resize_done s bs fs b (s'\<lparr>stats := t\<rparr>) = resize_done s bs fs b s'"
  by (simp add: resize_done_def)

lemma Heap_Resize_block_finish:
  assumes inv: "heap_inv t (xs @ b # n # ys) gs" "b \<notin> set gs" "b \<notin> set fs"
    and a: "unat b + 8 \<le> unat a" "unat a < unat b + 8 + unat (page_size t)" "unat a + unat z \<le> unat n + 4"
    and u: "used_list t xs gs = used_list s xs fs" "used_list t (n # ys) gs = used_list s zs fs"
  shows "\<exists>s'. Heap_Block_allocate b a z t = (s', b) \<and> resize_done s (xs @ b # zs) fs b s'
    \<and> unat z \<le> unat (b + Heap_Block_size s' b - a + 4)
    \<and> unat (b + Heap_Block_size s' b - a + 4) = unat b + unat (Heap_Block_size s' b) + 4 - unat a"
proof -
  obtain s' n' ys' fs' where A: "Heap_Block_allocate b a z t = (s', b)" and r: "resized (z + (a - (b + 8))) t xs b n ys gs s' n' ys' fs'"
    and z: "unat (z + (a - (b + 8))) = unat z + (unat a - (unat b + 8))"
    using Heap_Block_allocate_used [OF inv(1,2) a] by blast
  have h: "heap_inv s' (xs @ b # n' # ys') fs'" "b \<notin> set fs'" "unat z + (unat a - (unat b + 8)) + 4 \<le> unat (n' - b)"
    "used_list s' xs fs' = used_list t xs gs" "used_list s' (n' # ys') fs' = used_list t (n # ys) gs"
    using r z by (simp_all add: resized_def)
  note P = heap_pairD [OF h(1)]
  have size: "Heap_Block_size s' b = n' - b" using P(2) by (simp add: Heap_Block_size_def)
  have bn: "unat b + unat (n' - b) = unat n'" by (rule unat_distance [OF P(1)])
  have n8: "unat n' + 8 < 2 ^ 32" using P(12) by (simp add: block_ok_def)
  have "resize_done s (xs @ b # zs) fs b s'"
    unfolding resize_done_def
    by (intro exI [of _ "xs @ b # n' # ys'"] exI [of _ fs'] exI [of _ "used_list s xs fs"] exI [of _ "used_list s zs fs"])
      (use h u inv(3) in \<open>simp add: used_list_append used_list_Cons [of _ b]\<close>)
  moreover have "unat a \<le> unat n' + 4" "unat a + unat z \<le> unat n' + 4" using h(3) bn a(1) by linarith+
  then have "unat (n' - a + 4) = unat n' + 4 - unat a"
  proof -
    have "n' - a + 4 = (n' + 4) - a" by simp
    moreover have "unat (n' + 4) = unat n' + 4" using n8 by (subst unat_add_no_wrap) simp_all
    ultimately show ?thesis using \<open>unat a \<le> unat n' + 4\<close> by (metis unat_sub_no_wrap)
  qed
  ultimately show ?thesis using A size bn \<open>unat a + unat z \<le> unat n' + 4\<close> by simp
qed

definition resize_result :: "Heap \<Rightarrow> addr list \<Rightarrow> addr list \<Rightarrow> addr \<Rightarrow> addr \<Rightarrow> uint32 \<Rightarrow> nat \<Rightarrow> Heap \<times> Heap_Resize_status \<times> uint32 \<times> uint32 \<Rightarrow> bool" where
  "resize_result s bs fs b a z avail r \<longleftrightarrow> (case r of (s', status, _, new_size) \<Rightarrow>
     if unat z \<le> avail
     then status = HEAP_RESIZE_SUCCESSFUL \<and> resize_done s bs fs b s' \<and> z \<le> new_size
       \<and> unat new_size = unat b + unat (Heap_Block_size s' b) + 4 - unat a
     else status = HEAP_RESIZE_UNSATISFIED \<and> s' = s)"

lemma unat_area_size:
  assumes "block_ok s n" "unat a \<le> unat n + 4"
  shows "unat (n - a + 4) = unat n + 4 - unat a"
proof -
  have "n - a + 4 = (n + 4) - a" by simp
  moreover have "unat (n + 4) = unat n + 4" using assms(1) by (subst unat_add_no_wrap) (simp_all add: block_ok_def)
  ultimately show ?thesis using assms(2) by (metis unat_sub_no_wrap)
qed

lemma Heap_Resize_next_used:
  assumes inv: "heap_inv s (xs @ b # n # ys) fs" and used: "b \<notin> set fs" "\<not> Heap_Is_free s n"
    and a: "unat b + 8 \<le> unat a" "unat a < unat b + 8 + unat (page_size s)" "unat a \<le> unat n + 4"
  shows "resize_result s (xs @ b # n # ys) fs b a z (unat n + 4 - unat a) (Heap_Resize_block_checked s b a z)"
proof -
  note P = heap_pairD [OF inv]
  have size: "Heap_Block_size s b = n - b" "b + (n - b) = n" using P(2) by (simp_all add: Heap_Block_size_def)
  have old: "unat (n - a + 4) = unat n + 4 - unat a" by (rule unat_area_size [OF P(12) a(3)])
  show ?thesis
  proof (cases "unat z \<le> unat n + 4 - unat a")
    case True
    then have fits: "unat a + unat z \<le> unat n + 4" "\<not> n - a + 4 < z" using a(3) old by (auto simp: word_less_nat_alt)
    then show ?thesis
      using Heap_Resize_block_finish [OF inv used(1,1) a(1,2) fits(1) refl refl] True used(2) size
      by (auto simp: resize_result_def Heap_Resize_block_checked_def Let_def word_le_nat_alt)
  next
    case False
    then have "n - a + 4 < z" using old by (simp add: word_less_nat_alt)
    then show ?thesis using False used(2) size by (simp add: resize_result_def Heap_Resize_block_checked_def Let_def)
  qed
qed

lemma Heap_Resize_next_free:
  assumes inv: "heap_inv s (xs @ b # n # q # ys) (us @ n # vs)" and used: "b \<notin> set (us @ n # vs)" and free: "Heap_Is_free s n"
    and a: "unat b + 8 \<le> unat a" "unat a < unat b + 8 + unat (page_size s)" "unat a \<le> unat n + 4"
  shows "resize_result s (xs @ b # n # q # ys) (us @ n # vs) b a z (unat q + 4 - unat a) (Heap_Resize_block_checked s b a z)"
proof -
  have invn: "heap_inv s ((xs @ [b]) @ n # q # ys) (us @ n # vs)" using inv by simp
  note P = heap_pairD [OF inv] and Q = heap_pairD [OF invn]
  have size: "Heap_Block_size s b = n - b" "Heap_Block_size s n = q - n" "b + (n - b) = n" "b + (q - b) = q" "n - b + (q - n) = q - b"
    using P(2) Q(2) by (simp_all add: Heap_Block_size_def)
  have aq: "unat a \<le> unat q + 4" using a(3) Q(1) by linarith
  have sum: "n - a + 4 + (q - n) = q - a + 4" by simp
  have old: "unat (q - a + 4) = unat q + 4 - unat a" by (rule unat_area_size [OF Q(12) aq])
  define t where "t = set_size_and_flag q (size_and_flag s q OR 1) (Heap_Free_list_remove n (Heap_Block_set_size b (q - b) s))"
  note T = heap_inv_merge_next [OF inv used t_def]
  have tp: "page_size t = page_size s" by (simp add: t_def Heap_Block_set_size_def Let_def)
  have bq: "b \<noteq> q" "q \<noteq> b" using Q by auto
  have te: "set_size_and_flag q (size_and_flag (Heap_Free_list_remove n (Heap_Block_set_size b (q - b) s)) q OR 1)
    (Heap_Free_list_remove n (Heap_Block_set_size b (q - b) s)) = t" using bq by (simp add: t_def Heap_Block_set_size_def Let_def)
  note body = Heap_Resize_block_checked_def [of s b a z, unfolded Let_def Heap_Block_at_def, unfolded size,
    unfolded if_P [OF free] prod.case, unfolded sum size, unfolded te]
  show ?thesis
  proof (cases "unat z \<le> unat q + 4 - unat a")
    case True
    then have fits: "unat a + unat z \<le> unat q + 4" "\<not> q - a + 4 < z" using aq old by (auto simp: word_less_nat_alt)
    define t' where "t' = upd_stats (\<lambda>u. u\<lparr>free_blocks := free_blocks u - 1, free_size := free_size u - (q - n)\<rparr>) t"
    have t': "heap_inv t' (xs @ b # q # ys) (us @ vs)" "page_size t' = page_size s"
      "used_list t' xs (us @ vs) = used_list s xs (us @ n # vs)" "used_list t' (q # ys) (us @ vs) = used_list s (n # q # ys) (us @ n # vs)"
      using T tp by (simp_all add: t'_def)
    have b: "b \<notin> set (us @ vs)" using used by simp
    obtain s' where F: "Heap_Block_allocate b a z t' = (s', b)" "resize_done s (xs @ b # n # q # ys) (us @ n # vs) b s'"
      "unat z \<le> unat (b + Heap_Block_size s' b - a + 4)"
      "unat (b + Heap_Block_size s' b - a + 4) = unat b + unat (Heap_Block_size s' b) + 4 - unat a"
      using Heap_Resize_block_finish [OF t'(1) b used a(1) _ fits(1) t'(3,4)] a(2) t'(2) by auto
    then show ?thesis unfolding body t'_def [symmetric]
      using True free fits(2) by (auto simp: resize_result_def word_le_nat_alt size)
  next
    case False
    then have "q - a + 4 < z" using old by (simp add: word_less_nat_alt)
    then show ?thesis unfolding body using False free by (simp add: resize_result_def size)
  qed
qed

lemma heap_is_free_next: "heap_inv s (xs @ n # ys) fs \<Longrightarrow> Heap_Is_free s n \<longleftrightarrow> n \<in> set fs"
  using heap_is_used [of "{}" s xs n ys fs] by (simp add: Heap_Is_free_def)

text \<open>C22: resizing the area at an address of the first page of a block in use reports its old size. It is
  refused, with the heap unchanged, exactly if the new size exceeds the area together with a free block right
  behind it. Otherwise the block grows or shrinks in place to the reported size, at least the requested one,
  all other blocks in use stay as they are, and the heap stays well-formed.\<close>

theorem Heap_Resize_block_correct:
  assumes "heap_inv s (xs @ b # n # ys) fs" "b \<notin> set fs"
    and "unat b + 8 \<le> unat a" "unat a < unat b + 8 + unat (page_size s)" "unat a \<le> unat n + 4"
  shows "\<exists>s' status old_size new_size. Heap_Resize_block s a z = (s', status, old_size, new_size)
    \<and> unat old_size = unat n + 4 - unat a
    \<and> (if unat z \<le> unat n + 4 - unat a + (if n \<in> set fs then unat (Heap_Block_size s n) else 0)
       then status = HEAP_RESIZE_SUCCESSFUL \<and> resize_done s (xs @ b # n # ys) fs b s' \<and> z \<le> new_size
         \<and> unat new_size = unat b + unat (Heap_Block_size s' b) + 4 - unat a
       else status = HEAP_RESIZE_UNSATISFIED \<and> s' = s)"
proof -
  note inv = assms(1) and P = heap_pairD [OF assms(1)] and I = heap_inv_exceptD [OF assms(1)]
  have invn: "heap_inv s ((xs @ [b]) @ n # ys) fs" using inv by simp
  have blk: "Heap_Block_of_alloc_area a (page_size s) = b" by (rule Heap_Block_of_alloc_area_eq [OF I(1) P(11) assms(3,4)])
  have B: "Heap_Resize_block s a z = Heap_Resize_block_checked s b a z"
    using heap_inv_in_heap [OF inv, of b] by (simp add: Heap_Resize_block_def blk)
  have size: "Heap_Block_size s b = n - b" "b + (n - b) = n" using P(2) by (simp_all add: Heap_Block_size_def)
  have old: "fst (snd (snd (Heap_Resize_block_checked s b a z))) = n - a + 4"
    unfolding Heap_Resize_block_checked_def Let_def size Heap_Block_at_def by (simp split: prod.split)
  have "resize_result s (xs @ b # n # ys) fs b a z (unat n + 4 - unat a + (if n \<in> set fs then unat (Heap_Block_size s n) else 0))
     (Heap_Resize_block_checked s b a z)"
  proof (cases "n \<in> set fs")
    case False
    then show ?thesis using Heap_Resize_next_used [OF inv assms(2) _ assms(3-5)] heap_is_free_next [OF invn] by simp
  next
    case True
    then obtain us vs where fs: "fs = us @ n # vs" by (auto dest: split_list)
    have "n \<noteq> last_block s" using heap_next_free [OF invn] True by simp
    then obtain q ys' where ys: "ys = q # ys'" using I(8) by (cases ys) auto
    have invq: "heap_inv s ((xs @ [b]) @ n # q # ys') fs" using inv ys by simp
    note Q = heap_pairD [OF invq]
    have "unat n + unat (Heap_Block_size s n) = unat q" using unat_distance [OF Q(1)] Q(2) by (simp add: Heap_Block_size_def)
    then have "unat n + 4 - unat a + unat (Heap_Block_size s n) = unat q + 4 - unat a" using assms(5) by linarith
    moreover have "Heap_Is_free s n" using heap_is_free_next [OF invn] True by simp
    ultimately show ?thesis
      using Heap_Resize_next_free [of s xs b n q ys' us vs a z] inv assms(2-5) True unfolding ys fs by simp
  qed
  then show ?thesis using old unat_area_size [OF P(12) assms(5)]
    unfolding B resize_result_def by (cases "Heap_Resize_block_checked s b a z") auto
qed

subsection \<open>The consistency check\<close>

lemma Heap_Is_aligned_nat: "Heap_Is_aligned v p \<longleftrightarrow> unat p dvd unat v"
  by (simp add: Heap_Is_aligned_def word_unat_eq_iff unat_mod_word mod_eq_0_iff_dvd)

lemma block_ok_aligned: "block_ok s b \<Longrightarrow> Heap_Is_aligned (Heap_Alloc_area_of_block b) (page_size s)"
  by (simp add: Heap_Is_aligned_nat block_ok_def unat_add_no_wrap)

lemma Heap_Walk_check_free_list_loop_ok:
  assumes "flinked (next_free s) (prev_free s) (p # vs @ [free_list s])" "free_list s \<notin> set vs"
    and "\<forall>v \<in> set vs. Heap_Is_block_in_heap s v \<and> block_ok s v \<and> \<not> Heap_Is_used s v"
  shows "Heap_Walk_check_free_list_loop s p (hd (vs @ [free_list s])) = Some True"
  using assms
proof (induction vs arbitrary: p)
  case Nil
  then show ?case by (subst Heap_Walk_check_free_list_loop.simps) simp
next
  case (Cons v vs)
  have "next_free s v = hd (vs @ [free_list s])" "prev_free s v = p" "flinked (next_free s) (prev_free s) (v # vs @ [free_list s])"
    using Cons.prems(1) by (cases vs; simp)+
  then show ?case
    using Cons.IH [of v] Cons.prems(2,3) block_ok_aligned [of s v]
    by (subst Heap_Walk_check_free_list_loop.simps) auto
qed

lemma Heap_Walk_is_in_free_list_loop_ok:
  assumes "flinked (next_free s) (prev_free s) (vs @ [free_list s])" "free_list s \<notin> set vs"
  shows "Heap_Walk_is_in_free_list_loop s b (hd (vs @ [free_list s])) = Some (b \<in> set vs)"
  using assms
proof (induction vs)
  case Nil
  then show ?case by (subst Heap_Walk_is_in_free_list_loop.simps) simp
next
  case (Cons v vs)
  have "next_free s v = hd (vs @ [free_list s])" "flinked (next_free s) (prev_free s) (vs @ [free_list s])"
    using Cons.prems(1) by (cases vs; simp)+
  then show ?case
    using Cons.IH Cons.prems(2) by (subst Heap_Walk_is_in_free_list_loop.simps) auto
qed

lemma heap_inv_free_list:
  assumes "heap_inv s bs fs"
  shows "flinked (next_free s) (prev_free s) (free_list s # fs @ [free_list s])" "free_list s \<notin> set fs"
    "flinked (next_free s) (prev_free s) (fs @ [free_list s])" "Heap_Free_list_first s = hd (fs @ [free_list s])"
proof -
  show "flinked (next_free s) (prev_free s) (free_list s # fs @ [free_list s])" "free_list s \<notin> set fs"
    using heap_inv_exceptD(3) [OF assms] by (simp_all add: ring_def)
  then show "flinked (next_free s) (prev_free s) (fs @ [free_list s])" "Heap_Free_list_first s = hd (fs @ [free_list s])"
    by (cases fs; simp)+
qed

lemma heap_last_used:
  assumes "heap_inv s bs fs"
  shows "last_block s + Heap_Block_size s (last_block s) = first_block s" "Heap_Is_prev_used s (first_block s)"
    "Heap_Is_free s (last_block s) = False"
  using heap_inv_exceptD(10,11) [OF assms]
  by (simp_all add: Heap_Block_size_def Heap_Is_prev_used_def Heap_Is_free_def Heap_Is_used_def)

lemma Heap_Walk_check_control_ok:
  assumes inv: "heap_inv s bs fs"
  shows "Heap_Walk_check_control s = Some True"
proof -
  note I = heap_inv_exceptD [OF inv] and L = heap_last_used [OF inv] and F = heap_inv_free_list [OF inv]
  have ctl: "page_size s \<noteq> 0" "page_size s mod 8 = 0" "Heap_Is_aligned (min_block_size s) (page_size s)"
    using I(1) by (auto simp: heap_control_ok_def Heap_Is_aligned_nat word_unat_eq_iff unat_mod_word)
  have "first_block s \<in> set bs" using I(7,9) by (cases bs) auto
  then have al: "Heap_Is_aligned (Heap_Alloc_area_of_block (first_block s)) (page_size s)" using I(6) by (intro block_ok_aligned) simp
  have "\<not> Heap_Is_used s v" if v: "v \<in> set fs" for v
  proof -
    obtain xs n ys us vs where e: "bs = xs @ v # n # ys" "fs = us @ v # vs" using free_block_pair [OF inv v] .
    then show ?thesis using heap_is_used [of "{}" s xs v "n # ys" fs] inv by simp
  qed
  moreover have "set fs \<subseteq> set bs" using I(4) by (auto dest: in_set_butlastD)
  ultimately have "\<forall>v \<in> set fs. Heap_Is_block_in_heap s v \<and> block_ok s v \<and> \<not> Heap_Is_used s v"
    using \<open>set fs \<subseteq> set bs\<close> I(6) heap_inv_in_heap [OF inv] by auto
  from Heap_Walk_check_free_list_loop_ok [OF F(1,2) this] show ?thesis
    unfolding Heap_Walk_check_control_def Heap_Walk_check_free_list_def F(4) using ctl al L by simp
qed

lemma Heap_Walk_loop_ok:
  assumes inv: "heap_inv s (xs @ b # ys) fs"
  shows "Heap_Walk_loop s b = Some True"
  using inv
proof (induction ys arbitrary: xs b)
  case Nil
  have "b = last_block s" using heap_inv_exceptD(8) [OF Nil] by simp
  moreover have "Heap_Is_block_in_heap s (first_block s)"
    using heap_inv_in_heap [OF Nil] heap_inv_exceptD(7,9) [OF Nil] by (metis hd_in_set append_is_Nil_conv list.distinct(1))
  ultimately show ?case
    using heap_last_used [OF Nil] by (subst Heap_Walk_loop.simps) (simp add: Let_def)
next
  case (Cons n ys)
  note P = heap_pairD [OF Cons.prems] and I = heap_inv_exceptD [OF Cons.prems] and F = heap_inv_free_list [OF Cons.prems]
  have bn: "unat b + unat (n - b) = unat n" by (rule unat_distance [OF P(1)])
  have size: "Heap_Block_size s b = n - b" "b + (n - b) = n" using P(2) by (simp_all add: Heap_Block_size_def)
  have "unat (page_size s) dvd (unat n + 8) - (unat b + 8)" using P(11,12) by (intro dvd_diff_nat) (simp_all add: block_ok_def)
  moreover have "(unat n + 8) - (unat b + 8) = unat (n - b)" using bn by linarith
  ultimately have al: "Heap_Is_aligned (n - b) (page_size s)" by (simp add: Heap_Is_aligned_nat)
  have mn: "\<not> n - b < min_block_size s" "\<not> n \<le> b" "Heap_Is_block_in_heap s n"
    using P(1) bn I(1) heap_inv_in_heap [OF Cons.prems, of n] by (auto simp: word_less_nat_alt word_le_nat_alt heap_control_ok_def)
  have nf: "n \<noteq> first_block s" using I(7) P(6,9) by (cases xs) auto
  have chk: "(if \<not> Heap_Is_prev_used s n then Heap_Walk_check_free_block s b else Some True) = Some True"
  proof (cases "b \<in> set fs")
    case True
    have "xs = [] \<or> last xs \<notin> set fs" by (rule heap_free_prev_used [OF Cons.prems True])
    then have "Heap_Is_prev_used s b" using heap_prev_flag [OF Cons.prems] by (simp add: Heap_Is_prev_used_def)
    moreover have "Heap_Walk_is_in_free_list s b = Some True"
      using Heap_Walk_is_in_free_list_loop_ok [OF F(3,2)] True unfolding Heap_Walk_is_in_free_list_def F(4) by simp
    ultimately show ?thesis using P(5) True size by (simp add: Heap_Walk_check_free_block_def Let_def)
  next
    case False
    then show ?thesis using P(4) by (simp add: Heap_Is_prev_used_def)
  qed
  have IH: "Heap_Walk_loop s n = Some True" using Cons.IH [of "xs @ [b]" n] Cons.prems by simp
  show ?case using size al mn nf chk IH by (subst Heap_Walk_loop.simps) (simp add: Let_def)
qed

text \<open>C23: the consistency check of the heap ends and accepts every well-formed heap.\<close>

theorem Heap_Walk_accepts:
  assumes "heap_inv s bs fs"
  shows "Heap_Walk system_state_is_up s = Some True"
proof -
  have "bs = first_block s # tl bs" using heap_inv_exceptD(7,9) [OF assms] by (cases bs) auto
  then have "heap_inv s ([] @ first_block s # tl bs) fs" using assms by simp
  from Heap_Walk_loop_ok [OF this] Heap_Walk_check_control_ok [OF assms] show ?thesis by (simp add: Heap_Walk_def)
qed

subsection \<open>A small heap\<close>

text \<open>A heap of 256 bytes at address 4096 whose control is at address 16, before its initialization and with an
  area of 40 bytes allocated.\<close>

definition heap_blank :: Heap where
  "heap_blank = \<lparr>prev_size = (\<lambda>_. 0), size_and_flag = (\<lambda>_. 0), next_free = (\<lambda>_. 0), prev_free = (\<lambda>_. 0), free_list = 16,
     page_size = 0, min_block_size = 0, area_begin = 0, area_end = 0, first_block = 0, last_block = 0, stats = zero_stats\<rparr>"

definition heap_one :: Heap where
  "heap_one = heap_blank\<lparr>prev_size := (\<lambda>_. 0)(4096 := 4352, 4344 := 200),
     size_and_flag := (\<lambda>_. 0)(4096 := 49, 4144 := 201, 4344 := 4096 - 4344),
     next_free := (\<lambda>_. 0)(16 := 4144, 4144 := 16), prev_free := (\<lambda>_. 0)(16 := 4144, 4144 := 16),
     page_size := 8, min_block_size := 16, area_begin := 4096, area_end := 4352, first_block := 4096, last_block := 4344\<rparr>"

lemma heap_small_size: "snd (Heap_Initialize heap_blank 4096 256 8) = 248"
  by code_simp

lemma heap_one_inv: "heap_inv heap_one [4096, 4144, 4344] [4144]"
  by (simp add: heap_one_def heap_blank_def heap_inv_except_def heap_control_ok_def block_ok_def adj_def ring_def
      Heap_Is_block_in_heap_def)

lemma heap_one_sizes: "unat (page_size heap_one) = 8" "unat (Heap_Block_size heap_one 4144) = 200"
  by (simp_all add: heap_one_def Heap_Block_size_def)

lemma heap_one_aligned:
  "unat (page_size heap_one) dvd unat (16 :: uint32)"
  "map_option snd (Heap_Allocate_aligned_with_boundary heap_one 24 16 64) = Some 4320"
  by (simp add: heap_one_sizes) code_simp

theorem Heap_Initialize_correct_witness:
  "\<exists>s' f. Heap_Initialize heap_blank 4096 256 8 = (s', 248) \<and> heap_inv s' [f, f + 248] [f]"
proof -
  obtain s' where s': "Heap_Initialize heap_blank 4096 256 8 = (s', 248)"
    using heap_small_size by (metis prod.collapse)
  have "\<not> (4096 \<le> free_list heap_blank \<and> free_list heap_blank < 4096 + 256)" by code_simp
  from Heap_Initialize_correct [OF s' this] s' show ?thesis by auto
qed


theorem Heap_Allocate_complete_witness:
  "\<exists>s' a. Heap_Allocate heap_one 196 = Some (s', a) \<and> a \<noteq> NULL"
proof -
  have "unat (196 :: uint32) + 4 \<le> unat (Heap_Block_size heap_one 4144)" by (simp add: heap_one_sizes)
  then show ?thesis using Heap_Allocate_complete [OF heap_one_inv, of 196] by auto
qed

theorem Heap_Free_releases_witness:
  "\<exists>s' bs' fs'. Heap_Free heap_one 4104 = (s', True) \<and> heap_inv s' bs' fs'"
  using Heap_Free_releases [OF heap_one_inv, of 4096 4104] heap_one_sizes by auto



theorem Heap_Resize_block_correct_witness:
  "\<exists>s' old_size new_size. Heap_Resize_block heap_one 4104 100 = (s', HEAP_RESIZE_SUCCESSFUL, old_size, new_size) \<and> 100 \<le> new_size"
proof -
  have inv: "heap_inv heap_one ([] @ 4096 # 4144 # [4344]) [4144]" using heap_one_inv by simp
  have "unat (100 :: uint32) \<le> unat (4144 :: addr) + 4 - unat (4104 :: addr) + unat (Heap_Block_size heap_one 4144)"
    by (simp add: heap_one_sizes)
  then show ?thesis using Heap_Resize_block_correct [OF inv, of 4104 100] heap_one_sizes by auto
qed

theorem Heap_Walk_accepts_witness: "Heap_Walk True heap_one = Some True"
  by (rule Heap_Walk_accepts [OF heap_one_inv])

subsection \<open>Alignments that are no multiple of the page size\<close>

text \<open>A heap with a page size of 32 bytes and one free block.\<close>

definition heap_32 :: Heap where
  "heap_32 = heap_blank\<lparr>prev_size := (\<lambda>_. 0)(4120 := 4320, 4312 := 192),
     size_and_flag := (\<lambda>_. 0)(4120 := 193, 4312 := 4120 - 4312),
     next_free := (\<lambda>_. 0)(16 := 4120, 4120 := 16), prev_free := (\<lambda>_. 0)(16 := 4120, 4120 := 16),
     page_size := 32, min_block_size := 32, area_begin := 4120, area_end := 4320, first_block := 4120, last_block := 4312\<rparr>"


end
