(* ===== verification/Score_Workspace.thy ===== *)
theory Score_Workspace
  imports Score_Heap_Props
begin

text \<open>
  The executive workspace (\<^verbatim>\<open>src/librtems/score/wkspace.c\<close>): the heap the kernel allocates its own objects
  from. The locale \<open>workspace\<close> states what its clients rely on: an allocation returns the null pointer
  or a piece of memory apart from all others, and releasing one returns it. The heap is shown to be
  such a workspace.
\<close>

subsection \<open>Operations\<close>

text \<open>What a kernel routine does: it returns, stops the system with an internal error code, or does not end.\<close>

datatype 'a outcome = Done 'a | Fatal uint32 | Diverge

primrec outcome_bind :: "'a outcome \<Rightarrow> ('a \<Rightarrow> 'b outcome) \<Rightarrow> 'b outcome" where
  "outcome_bind (Done x) f = f x"
| "outcome_bind (Fatal c) f = Fatal c"
| "outcome_bind Diverge f = Diverge"

abbreviation INTERNAL_ERROR_TOO_LITTLE_WORKSPACE :: uint32 where
  "INTERNAL_ERROR_TOO_LITTLE_WORKSPACE \<equiv> 2"

abbreviation INTERNAL_ERROR_WORKSPACE_ALLOCATION :: uint32 where
  "INTERNAL_ERROR_WORKSPACE_ALLOCATION \<equiv> 3"

definition Heap_Area_overhead :: "uint32 \<Rightarrow> uint32" where
  "Heap_Area_overhead page =
     (let page = (if page \<noteq> 0 then Heap_Align_up page CPU_ALIGNMENT else CPU_ALIGNMENT)
      in 2 * (page - 1) + HEAP_BLOCK_HEADER_SIZE)"

definition Heap_Size_with_overhead :: "uint32 \<Rightarrow> uint32 \<Rightarrow> uint32 \<Rightarrow> uint32" where
  "Heap_Size_with_overhead page sz alignment =
     (let page = (if page \<noteq> 0 then Heap_Align_up page CPU_ALIGNMENT else CPU_ALIGNMENT);
          page = (if page < alignment then alignment else page)
      in HEAP_BLOCK_HEADER_SIZE + page - 1 + sz)"

text \<open>An area given to the workspace, and the loop over the areas: the handler is \<open>_Heap_Initialize\<close> for the
  first usable area and the argument \<open>ext\<close> for the others. The result has the areas that are left.\<close>

record Heap_Area =
  area_start :: addr
  area_size :: uint32

type_synonym extend_handler = "Heap \<Rightarrow> addr \<Rightarrow> uint32 \<Rightarrow> (Heap \<times> uint32) option"

primrec Workspace_areas_loop ::
  "extend_handler \<Rightarrow> bool \<Rightarrow> Heap_Area list \<Rightarrow> extend_handler \<Rightarrow> uint32 \<Rightarrow> Heap \<Rightarrow> (Heap \<times> uint32 \<times> Heap_Area list) option" where
  "Workspace_areas_loop ext unified [] init_or_extend remaining ws = Some (ws, remaining, [])"
| "Workspace_areas_loop ext unified (area # areas) init_or_extend remaining ws =
     (let overhead = Heap_Area_overhead CPU_ALIGNMENT in
      if area_size area > overhead
      then let sz = (if unified then area_size area
                     else if remaining > 0
                     then if remaining < area_size area - overhead then remaining + overhead else area_size area
                     else 0)
           in case init_or_extend ws (area_start area) sz of
                None \<Rightarrow> None
              | Some (ws, space_available) \<Rightarrow>
                  let area = area\<lparr>area_start := area_start area + sz, area_size := area_size area - sz\<rparr>;
                      remaining = (if space_available < remaining then remaining - space_available else 0)
                  in (case Workspace_areas_loop ext unified areas ext remaining ws of
                        None \<Rightarrow> None
                      | Some (ws, remaining, areas) \<Rightarrow> Some (ws, remaining, area # areas))
      else case Workspace_areas_loop ext unified areas init_or_extend remaining ws of
             None \<Rightarrow> None
           | Some (ws, remaining, areas) \<Rightarrow> Some (ws, remaining, area # areas))"

definition Workspace_Handler_initialization ::
  "uint32 \<Rightarrow> bool \<Rightarrow> Heap_Area list \<Rightarrow> extend_handler \<Rightarrow> Heap \<Rightarrow> (Heap \<times> Heap_Area list) outcome" where
  "Workspace_Handler_initialization work_space_size unified areas ext ws =
     (case Workspace_areas_loop ext unified areas
             (\<lambda>ws b sz. Some (Heap_Initialize ws b sz CPU_ALIGNMENT)) work_space_size ws of
        None \<Rightarrow> Diverge
      | Some (ws, remaining, areas) \<Rightarrow>
          if remaining > 0 then Fatal INTERNAL_ERROR_TOO_LITTLE_WORKSPACE else Done (ws, areas))"

definition Workspace_Allocate :: "Heap \<Rightarrow> uint32 \<Rightarrow> (Heap \<times> addr) outcome" where
  "Workspace_Allocate ws sz = (case Heap_Allocate ws sz of None \<Rightarrow> Diverge | Some r \<Rightarrow> Done r)"

definition Workspace_Allocate_aligned :: "Heap \<Rightarrow> uint32 \<Rightarrow> uint32 \<Rightarrow> (Heap \<times> addr) outcome" where
  "Workspace_Allocate_aligned ws sz alignment =
     (case Heap_Allocate_aligned ws sz alignment of None \<Rightarrow> Diverge | Some r \<Rightarrow> Done r)"

definition Workspace_Free :: "Heap \<Rightarrow> addr \<Rightarrow> Heap" where
  "Workspace_Free ws block = fst (Heap_Free ws block)"

definition Workspace_Allocate_or_fatal_error :: "Heap \<Rightarrow> uint32 \<Rightarrow> (Heap \<times> addr) outcome" where
  "Workspace_Allocate_or_fatal_error ws sz =
     (case Heap_Allocate ws sz of
        None \<Rightarrow> Diverge
      | Some (ws, memory) \<Rightarrow>
          if memory = NULL then Fatal INTERNAL_ERROR_WORKSPACE_ALLOCATION else Done (ws, memory))"

subsection \<open>The interface\<close>

text \<open>\<open>rep h A\<close>: the pieces of memory handed out by \<open>h\<close> are those of \<open>A\<close>, each with its address and size.\<close>

locale workspace =
  fixes rep :: "'h \<Rightarrow> (addr \<times> uint32) set \<Rightarrow> bool"
    and alloc :: "'h \<Rightarrow> uint32 \<Rightarrow> ('h \<times> addr) outcome"
    and release :: "'h \<Rightarrow> addr \<Rightarrow> 'h"
  assumes alloc_done: "rep h A \<Longrightarrow> \<exists>h' a. alloc h z = Done (h', a)"
    and alloc_null: "rep h A \<Longrightarrow> alloc h z = Done (h', NULL) \<Longrightarrow> rep h' A"
    and alloc_some: "rep h A \<Longrightarrow> alloc h z = Done (h', a) \<Longrightarrow> a \<noteq> NULL \<Longrightarrow>
      \<exists>k. unat z \<le> unat k \<and> (a, k) \<notin> A \<and> rep h' (insert (a, k) A)"
    and release_null: "rep h A \<Longrightarrow> rep (release h NULL) A"
    and release_some: "rep h A \<Longrightarrow> (a, k) \<in> A \<Longrightarrow> rep (release h a) (A - {(a, k)})"
    and apart: "rep h A \<Longrightarrow> (a, k) \<in> A \<Longrightarrow> (a', k') \<in> A \<Longrightarrow> (a, k) \<noteq> (a', k') \<Longrightarrow>
      unat a + unat k \<le> unat a' \<or> unat a' + unat k' \<le> unat a"
    and inside: "rep h A \<Longrightarrow> (a, k) \<in> A \<Longrightarrow> a \<noteq> NULL \<and> 0 < unat k \<and> unat a + unat k < 2 ^ 32"
begin

lemma unique: "rep h A \<Longrightarrow> (a, k) \<in> A \<Longrightarrow> (a, k') \<in> A \<Longrightarrow> k = k'"
  using apart [of h A a k a k'] inside [of h A a k] inside [of h A a k'] by (cases "k = k'") auto

text \<open>An allocation never returns an address inside a piece in use.\<close>

lemma alloc_fresh:
  assumes "rep h A" "alloc h z = Done (h', a)" "a \<noteq> NULL" "(b, k) \<in> A" "x < unat z" "y < unat k"
  shows "unat a + x \<noteq> unat b + y"
proof -
  obtain l where "unat z \<le> unat l" "(a, l) \<notin> A" "rep h' (insert (a, l) A)" using alloc_some assms(1-3) by blast
  moreover have "(a, l) \<noteq> (b, k)" using calculation(2) assms(4) by auto
  ultimately show ?thesis using apart [of h' "insert (a, l) A" a l b k] assms(4-6) by auto
qed

text \<open>Allocating and releasing gives the workspace back.\<close>

lemma alloc_release:
  assumes "rep h A" "alloc h z = Done (h', a)" "a \<noteq> NULL"
  shows "rep (release h' a) A"
proof -
  obtain k where "(a, k) \<notin> A" "rep h' (insert (a, k) A)" using alloc_some assms by blast
  with release_some [of h' "insert (a, k) A" a k] show ?thesis by simp
qed

end

subsection \<open>The heap as workspace\<close>

text \<open>The used block \<open>b\<close> of size \<open>k\<close> hands out the area from \<open>b + 8\<close> to \<open>b + k + 4\<close>.\<close>

definition heap_areas :: "Heap \<Rightarrow> addr list \<Rightarrow> addr list \<Rightarrow> (addr \<times> uint32) set" where
  "heap_areas s bs fs = {(b + 8, k - 4) | b k. (b, k) \<in> set (used_list s bs fs) \<and> b \<noteq> last_block s}"

definition heap_rep :: "Heap \<Rightarrow> (addr \<times> uint32) set \<Rightarrow> bool" where
  "heap_rep s A \<longleftrightarrow> (\<exists>bs fs. heap_inv s bs fs \<and> A = heap_areas s bs fs)"

lemma used_list_last:
  assumes "heap_inv s bs fs"
  shows "used_list s bs fs \<noteq> []" "fst (last (used_list s bs fs)) = last_block s"
proof -
  have bs: "bs = butlast bs @ [last bs]" using heap_inv_exceptD(9) [OF assms] by (metis append_butlast_last_id list.size(3) not_numeral_le_zero)
  have l: "last bs = last_block s" by (rule heap_inv_exceptD(8) [OF assms])
  have "heap_inv s (butlast bs @ [last_block s]) fs" using assms bs l by simp
  from heap_last_not_free [OF this] have "used_list s bs fs = used_list s (butlast bs) fs @ [(last_block s, Heap_Block_size s (last_block s))]"
    using bs l used_list_append [of s "butlast bs" "[last_block s]" fs] by (simp add: used_list_Cons)
  then show "used_list s bs fs \<noteq> []" "fst (last (used_list s bs fs)) = last_block s" by simp_all
qed

lemma heap_used_inside:
  assumes inv: "heap_inv s bs fs" and b: "(b, k) \<in> set (used_list s bs fs)" "b \<noteq> last_block s"
  shows "unat (b + 8) = unat b + 8" "unat (k - 4) = unat k - 4" "16 \<le> unat k" "unat b + unat k + 8 < 2 ^ 32"
proof -
  note I = heap_inv_exceptD [OF inv] and U = used_listD [OF b(1)]
  have "bs \<noteq> []" using U(1) by auto
  then have "b \<in> set (butlast bs)" using U(1) b(2) I(8) by (metis append_butlast_last_id rotate1.simps(2) set_ConsD set_rotate1)
  then obtain xs n ys where e: "bs = xs @ b # n # ys" using Heap_block_split [OF inv] by blast
  note P = heap_pairD [OF inv [unfolded e]]
  have k: "k = n - b" using U(3) P(2) by (simp add: Heap_Block_size_def)
  have bn: "unat b + unat (n - b) = unat n" by (rule unat_distance [OF P(1)])
  have n8: "unat n + 8 < 2 ^ 32" using P(12) by (simp add: block_ok_def)
  show "unat (b + 8) = unat b + 8" using P(11) by (subst unat_add_no_wrap) (simp_all add: block_ok_def)
  show k16: "16 \<le> unat k" using P(1) bn I(1) k by (simp add: heap_control_ok_def)
  show "unat (k - 4) = unat k - 4" using k16 by (subst unat_sub_no_wrap) simp_all
  show "unat b + unat k + 8 < 2 ^ 32" using bn n8 k by simp
qed

lemma heap_used_apart:
  assumes inv: "heap_inv s bs fs" and b: "(b, k) \<in> set (used_list s bs fs)" "(b', k') \<in> set (used_list s bs fs)" "b \<noteq> b'"
  shows "unat b + unat k \<le> unat b' \<or> unat b' + unat k' \<le> unat b"
proof -
  note U = used_listD [OF b(1)] and V = used_listD [OF b(2)]
  obtain xs ys where e: "bs = xs @ b # ys" using U(1) by (auto dest: split_list)
  consider "b' \<in> set ys" | "b' \<in> set xs" using V(1) b(3) by (auto simp: e)
  then show ?thesis
  proof cases
    case 1
    then show ?thesis using heap_block_end [OF inv [unfolded e]] U(3) by blast
  next
    case 2
    then obtain us vs where x: "xs = us @ b' # vs" by (auto dest: split_list)
    have "heap_inv s (us @ b' # (vs @ b # ys)) fs" using inv by (simp add: e x)
    from heap_block_end [OF this, of b] V(3) show ?thesis by simp
  qed
qed

lemma heap_areas_apart:
  assumes inv: "heap_inv s bs fs" and "(a, k) \<in> heap_areas s bs fs" "(a', k') \<in> heap_areas s bs fs" "(a, k) \<noteq> (a', k')"
  shows "unat a + unat k \<le> unat a' \<or> unat a' + unat k' \<le> unat a"
proof -
  obtain b l b' l' where m: "(b, l) \<in> set (used_list s bs fs)" "(b', l') \<in> set (used_list s bs fs)" "b \<noteq> last_block s" "b' \<noteq> last_block s"
    and e: "a = b + 8" "k = l - 4" "a' = b' + 8" "k' = l' - 4"
    using assms(2,3) by (auto simp: heap_areas_def)
  have "b \<noteq> b'" using assms(4) e used_listD(3) [OF m(1)] used_listD(3) [OF m(2)] by auto
  then show ?thesis
    using heap_used_apart [OF inv m(1,2)] heap_used_inside [OF inv m(1,3)] heap_used_inside [OF inv m(2,4)] e by auto
qed

lemma heap_areas_inside:
  assumes inv: "heap_inv s bs fs" and "(a, k) \<in> heap_areas s bs fs"
  shows "a \<noteq> NULL \<and> 0 < unat k \<and> unat a + unat k < 2 ^ 32"
proof -
  obtain b l where b: "(b, l) \<in> set (used_list s bs fs)" "b \<noteq> last_block s" "a = b + 8" "k = l - 4"
    using assms(2) by (auto simp: heap_areas_def)
  note B = heap_used_inside [OF inv b(1,2)]
  have "unat a \<noteq> 0" "0 < unat k" "unat a + unat k < 2 ^ 32" using B b(3,4) by simp_all
  then show ?thesis by auto
qed

text \<open>The area an allocation of the heap hands out begins right behind the header of its block.\<close>

lemma heap_rep_alloc:
  assumes rep: "heap_rep s A" and alloc: "Heap_Allocate s z = Some (s', a)" "a \<noteq> NULL"
  shows "\<exists>k. unat z \<le> unat k \<and> (a, k) \<notin> A \<and> heap_rep s' (insert (a, k) A)"
proof -
  obtain bs fs where inv: "heap_inv s bs fs" and A: "A = heap_areas s bs fs" using rep by (auto simp: heap_rep_def)
  have "unat (page_size s) dvd unat (0 :: uint32)" by simp
  from Heap_Allocate_aligned_with_boundary_full [OF inv this, of z 0] alloc
  have r: "alloc_result s bs fs z 0 0 s' a" by (auto simp: Heap_Allocate_def)
  have pa: "unat (page_size s) dvd unat a" using r alloc(2) by (simp add: alloc_result_def)
  obtain blk where "allocated s bs fs a z s' blk" using r alloc(2) by (auto simp: alloc_result_def)
  then obtain ps n rs fs' U V where h: "heap_inv s' (ps @ blk # n # rs) fs'" "blk \<notin> set fs'"
    and a: "unat blk + 8 \<le> unat a" "unat a < unat blk + 8 + unat (page_size s')" "unat a + unat z \<le> unat n + 4"
    and us: "used_list s bs fs = U @ V" "used_list s' (ps @ blk # n # rs) fs' = U @ (blk, n - blk) # V" "page_size s' = page_size s"
    by (auto simp: allocated_def)
  note P = heap_pairD [OF h(1)]
  have "a = blk + 8"
  proof -
    have "unat (page_size s) dvd unat a - (unat blk + 8)" using pa P(11) us(3) by (intro dvd_diff_nat) (simp_all add: block_ok_def)
    moreover have "unat a - (unat blk + 8) < unat (page_size s)" using a us(3) by simp
    ultimately have "unat a = unat blk + 8" using a(1) dvd_imp_le [of "unat (page_size s)" "unat a - (unat blk + 8)"] by linarith
    then show ?thesis using P(11) by (simp add: word_unat_eq_iff block_ok_def unat_add_no_wrap)
  qed
  have nl: "blk \<noteq> last_block s'" using heap_inv_exceptD(8) [OF h(1)] P(6,8) by (metis last_ConsR last_append last_in_set list.distinct(1) set_ConsD)
  have last: "last_block s' = last_block s"
  proof -
    have "V \<noteq> []"
    proof
      assume "V = []"
      then have "last_block s' = blk" using used_list_last(2) [OF h(1)] us(2) by simp
      then show False using nl by simp
    qed
    then show ?thesis using used_list_last(2) [OF h(1)] used_list_last(2) [OF inv] us by simp
  qed
  have ar: "heap_areas s' (ps @ blk # n # rs) fs' = insert (a, n - blk - 4) A"
    unfolding A heap_areas_def us last using nl \<open>a = blk + 8\<close> last by auto
  have "(blk, n - blk) \<in> set (used_list s' (ps @ blk # n # rs) fs')" unfolding us by simp
  note B = heap_used_inside [OF h(1) this nl]
  have bn: "unat blk + unat (n - blk) = unat n" by (rule unat_distance [OF P(1)])
  have "unat z \<le> unat (n - blk - 4)" using B(2) a(3) bn \<open>a = blk + 8\<close> B(1) by simp
  moreover have "(a, n - blk - 4) \<notin> A"
  proof
    assume "(a, n - blk - 4) \<in> A"
    then obtain b k where b: "(b, k) \<in> set (U @ V)" "a = b + 8" by (auto simp: A heap_areas_def us)
    then have "blk \<in> fst ` set (U @ V)" using \<open>a = blk + 8\<close> by force
    moreover have "distinct (map fst (U @ (blk, n - blk) # V))" using used_list_distinct [OF h(1)] unfolding us .
    ultimately show False by auto
  qed
  ultimately show ?thesis using ar h(1) by (auto simp: heap_rep_def intro!: exI [of _ "n - blk - 4"])
qed

lemma heap_rep_release:
  assumes rep: "heap_rep s A" and a: "(a, k) \<in> A"
  shows "heap_rep (Workspace_Free s a) (A - {(a, k)})"
proof -
  obtain bs fs where inv: "heap_inv s bs fs" and A: "A = heap_areas s bs fs" using rep by (auto simp: heap_rep_def)
  obtain b l where b: "(b, l) \<in> set (used_list s bs fs)" "b \<noteq> last_block s" "a = b + 8" "k = l - 4"
    using a by (auto simp: A heap_areas_def)
  note U = used_listD [OF b(1)] and B = heap_used_inside [OF inv b(1,2)]
  have "bs \<noteq> []" using U(1) by auto
  then have "b \<in> set (butlast bs)"
    using U(1) b(2) heap_inv_exceptD(8) [OF inv] by (metis append_butlast_last_id rotate1.simps(2) set_ConsD set_rotate1)
  then obtain xs n ys where e: "bs = xs @ b # n # ys" using Heap_block_split [OF inv] by blast
  have "0 < unat (page_size s)" using heap_inv_exceptD(1) [OF inv] by (simp add: heap_control_ok_def)
  then have pa: "unat b + 8 \<le> unat a" "unat a < unat b + 8 + unat (page_size s)" using b(3) B(1) by simp_all
  from Heap_Free_correct [OF inv [unfolded e] U(2) pa]
  obtain s' bs' fs' where F: "Heap_Free s a = (s', True)" "heap_inv s' bs' fs'" "used_list s' bs' fs' = filter (\<lambda>(u, z). u \<noteq> b) (used_list s bs fs)"
    unfolding freed_def e by blast
  have last: "last_block s' = last_block s"
  proof -
    obtain l' where l': "last (used_list s bs fs) = (last_block s, l')"
      using used_list_last(2) [OF inv] by (cases "last (used_list s bs fs)") simp
    have "used_list s bs fs = butlast (used_list s bs fs) @ [(last_block s, l')]"
      using used_list_last(1) [OF inv] l' by (metis append_butlast_last_id)
    then have "used_list s' bs' fs' = filter (\<lambda>(u, z). u \<noteq> b) (butlast (used_list s bs fs)) @ [(last_block s, l')]"
      using F(3) b(2) filter_append [of "\<lambda>(u, z). u \<noteq> b" "butlast (used_list s bs fs)" "[(last_block s, l')]"] by simp
    then show ?thesis using used_list_last(2) [OF F(2)] by simp
  qed
  have "heap_areas s' bs' fs' = A - {(a, k)}"
  proof -
    have y: "y = l" if "(b, y) \<in> set (used_list s bs fs)" for y using used_listD(3) [OF that] U(3) by simp
    have mem: "(c, m) \<in> heap_areas s' bs' fs' \<longleftrightarrow> (\<exists>x y. c = x + 8 \<and> m = y - 4 \<and> (x, y) \<in> set (used_list s bs fs) \<and> x \<noteq> b \<and> x \<noteq> last_block s)"
      for c m unfolding heap_areas_def F(3) last by auto
    have mem': "(c, m) \<in> A \<longleftrightarrow> (\<exists>x y. c = x + 8 \<and> m = y - 4 \<and> (x, y) \<in> set (used_list s bs fs) \<and> x \<noteq> last_block s)"
      for c m unfolding heap_areas_def A by auto
    have "(c, m) \<in> heap_areas s' bs' fs' \<longleftrightarrow> (c, m) \<in> A - {(a, k)}" for c m
    proof (cases "c = a")
      case True
      then have "x = b" if "c = x + 8" for x using that b(3) by simp
      then show ?thesis using y b mem [of c m] mem' [of c m] by blast
    next
      case False
      then have "x \<noteq> b" if "c = x + 8" for x using that b(3) by auto
      then show ?thesis using False mem [of c m] mem' [of c m] by blast
    qed
    then show ?thesis by auto
  qed
  then show ?thesis using F(1,2) by (auto simp: heap_rep_def Workspace_Free_def)
qed

lemma heap_rep_stats: "heap_rep (s\<lparr>stats := t\<rparr>) A = heap_rep s A"
  by (simp add: heap_rep_def heap_areas_def)

lemma Heap_Allocate_total:
  assumes "heap_rep s A"
  shows "\<exists>s' a. Heap_Allocate s z = Some (s', a) \<and> (a = NULL \<longrightarrow> heap_rep s' A)"
proof -
  obtain bs fs where inv: "heap_inv s bs fs" and A: "A = heap_areas s bs fs" using assms by (auto simp: heap_rep_def)
  have "unat (page_size s) dvd unat (0 :: uint32)" by simp
  from Heap_Allocate_aligned_with_boundary_full [OF inv this, of z 0]
  obtain s' a where r: "Heap_Allocate s z = Some (s', a)" "alloc_result s bs fs z 0 0 s' a" by (auto simp: Heap_Allocate_def)
  moreover have "heap_rep s' A" if "a = NULL" using r(2) that assms by (auto simp: alloc_result_def heap_rep_stats)
  ultimately show ?thesis by blast
qed

interpretation heap_ws: workspace heap_rep Workspace_Allocate Workspace_Free
proof unfold_locales
  fix h A z h' a k a' k'
  show "\<exists>h' a. Workspace_Allocate h z = Done (h', a)" if "heap_rep h A"
    using Heap_Allocate_total [OF that, of z] by (auto simp: Workspace_Allocate_def)
  show "heap_rep h' A" if "heap_rep h A" "Workspace_Allocate h z = Done (h', NULL)"
    using Heap_Allocate_total [OF that(1), of z] that(2) by (auto simp: Workspace_Allocate_def)
  show "\<exists>k. unat z \<le> unat k \<and> (a, k) \<notin> A \<and> heap_rep h' (insert (a, k) A)"
    if "heap_rep h A" "Workspace_Allocate h z = Done (h', a)" "a \<noteq> NULL"
    using that heap_rep_alloc by (simp add: Workspace_Allocate_def split: option.splits)
  show "heap_rep (Workspace_Free h NULL) A" if "heap_rep h A" using that by (simp add: Workspace_Free_def Heap_Free_def)
  show "heap_rep (Workspace_Free h a) (A - {(a, k)})" if "heap_rep h A" "(a, k) \<in> A" using that by (rule heap_rep_release)
  show "unat a + unat k \<le> unat a' \<or> unat a' + unat k' \<le> unat a"
    if "heap_rep h A" "(a, k) \<in> A" "(a', k') \<in> A" "(a, k) \<noteq> (a', k')"
    using that heap_areas_apart unfolding heap_rep_def by blast
  show "a \<noteq> NULL \<and> 0 < unat k \<and> unat a + unat k < 2 ^ 32" if "heap_rep h A" "(a, k) \<in> A"
    using that heap_areas_inside unfolding heap_rep_def by blast
qed

end
