(* ===== verification/Score_Object.thy ===== *)
theory Score_Object
  imports Score_Workspace
begin

unbundle bit_operations_syntax

text \<open>
  The object handler of the SuperCore (\<^verbatim>\<open>src/librtems/score/object\<close>, \<^verbatim>\<open>src/include/rtems/score/object.h\<close>
  and \<^verbatim>\<open>objectimpl.h\<close>): object identifiers, and for every class of objects the information block that
  hands out the objects of the class, finds them by identifier or name, and grows and shrinks the class in
  blocks of objects taken from the workspace.

  An object is known by its address; its identifier and its 32-bit name are functions from addresses. The
  chain of inactive objects is the list of its nodes (Score_Chain shows that the chain routines implement
  the list operations). \<open>RTEMS_MULTIPROCESSING\<close> and the string names of \<open>RTEMS_POSIX_API\<close> are not
  configured.
\<close>

subsection \<open>Identifiers\<close>

type_synonym Objects_Id = uint32
type_synonym Objects_Maximum = uint16

abbreviation OBJECTS_ID_FINAL_INDEX :: uint32 where
  "OBJECTS_ID_FINAL_INDEX \<equiv> 0xffff"

abbreviation OBJECTS_UNLIMITED_OBJECTS :: uint32 where
  "OBJECTS_UNLIMITED_OBJECTS \<equiv> 0x80000000"

abbreviation OBJECTS_ID_FINAL :: Objects_Id where
  "OBJECTS_ID_FINAL \<equiv> - 1"

abbreviation Objects_Local_node :: uint8 where
  "Objects_Local_node \<equiv> 1"

definition Objects_Get_API :: "Objects_Id \<Rightarrow> uint32" where
  "Objects_Get_API ident = drop_bit 24 ident AND 7"

definition Objects_Get_class :: "Objects_Id \<Rightarrow> uint32" where
  "Objects_Get_class ident = drop_bit 27 ident AND 0x1f"

definition Objects_Get_node :: "Objects_Id \<Rightarrow> uint32" where
  "Objects_Get_node ident = drop_bit 16 ident AND 0xff"

definition Objects_Get_index :: "Objects_Id \<Rightarrow> Objects_Maximum" where
  "Objects_Get_index ident = ucast (drop_bit 0 ident AND 0xffff)"

definition Objects_Build_id :: "uint32 \<Rightarrow> uint16 \<Rightarrow> uint8 \<Rightarrow> uint16 \<Rightarrow> Objects_Id" where
  "Objects_Build_id the_api the_class node index =
     push_bit 24 the_api OR push_bit 27 (ucast the_class) OR push_bit 16 (ucast node) OR push_bit 0 (ucast index)"

definition Objects_Is_unlimited :: "uint32 \<Rightarrow> bool" where
  "Objects_Is_unlimited mx = (mx AND OBJECTS_UNLIMITED_OBJECTS \<noteq> 0)"

definition Objects_Maximum_per_allocation :: "uint32 \<Rightarrow> Objects_Maximum" where
  "Objects_Maximum_per_allocation mx = ucast (mx AND NOT OBJECTS_UNLIMITED_OBJECTS)"

definition Objects_Build_name :: "uint32 \<Rightarrow> uint32 \<Rightarrow> uint32 \<Rightarrow> uint32 \<Rightarrow> uint32" where
  "Objects_Build_name c1 c2 c3 c4 = push_bit 24 c1 OR push_bit 16 c2 OR push_bit 8 c3 OR c4"

definition Objects_Is_api_valid :: "uint32 \<Rightarrow> bool" where
  "Objects_Is_api_valid the_api = (\<not> (the_api = 0 \<or> the_api > 3))"

definition Objects_Is_local_node :: "uint32 \<Rightarrow> bool" where
  "Objects_Is_local_node node = (node = ucast Objects_Local_node)"

definition Objects_Are_ids_equal :: "Objects_Id \<Rightarrow> Objects_Id \<Rightarrow> bool" where
  "Objects_Are_ids_equal left right = (left = right)"

definition Objects_API_maximum_class :: "uint32 \<Rightarrow> uint32" where
  "Objects_API_maximum_class api = (if api = 1 then 2 else if api = 2 then 10 else if api = 3 then 12 else 0)"

subsection \<open>State\<close>

text \<open>The information block of a class. The three tables are functions from their indexes; \<open>object_blocks_at\<close>
  is the address of the memory that holds them, null before the first extension.\<close>

record Objects_Information =
  the_api :: uint32
  the_class :: uint16
  minimum_id :: Objects_Id
  maximum_id :: Objects_Id
  maximum :: Objects_Maximum
  auto_extend :: bool
  allocation_size :: Objects_Maximum
  obj_size :: uint32
  local_table :: "uint32 \<Rightarrow> addr"
  Inactive :: "addr list"
  inactive :: Objects_Maximum
  inactive_per_block :: "uint32 \<Rightarrow> uint32"
  object_blocks :: "uint32 \<Rightarrow> addr"
  object_blocks_at :: addr
  name_length :: uint16

text \<open>The information block with the memory it works on: the objects and the workspace.\<close>

record Objects_State =
  info :: Objects_Information
  object_id :: "addr \<Rightarrow> Objects_Id"
  object_name :: "addr \<Rightarrow> uint32"
  work :: Heap

definition upd_info :: "(Objects_Information \<Rightarrow> Objects_Information) \<Rightarrow> Objects_State \<Rightarrow> Objects_State" where
  [simp]: "upd_info f s = s\<lparr>info := f (info s)\<rparr>"

subsection \<open>Extending a class\<close>

text \<open>The search for a block of indexes without objects: \<open>k\<close> blocks are left. The result is the block, the index
  of its first object and whether the tables must grow.\<close>

primrec Objects_find_block :: "Objects_Information \<Rightarrow> nat \<Rightarrow> uint32 \<Rightarrow> uint32 \<Rightarrow> uint32 \<times> uint32 \<times> bool" where
  "Objects_find_block i 0 block index_base = (block, index_base, True)"
| "Objects_find_block i (Suc k) block index_base =
     (if object_blocks i block = NULL then (block, index_base, False)
      else Objects_find_block i k (block + 1) (index_base + ucast (allocation_size i)))"

text \<open>The loop that gives the objects of a new block their identifiers and makes them inactive.\<close>

primrec Objects_append_objects :: "nat \<Rightarrow> uint32 \<Rightarrow> addr \<Rightarrow> Objects_State \<Rightarrow> Objects_State" where
  "Objects_append_objects 0 index the_object s = s"
| "Objects_append_objects (Suc k) index the_object s =
     (let i = info s;
          s = s\<lparr>object_id := (object_id s)(the_object :=
                  Objects_Build_id (the_api i) (the_class i) Objects_Local_node (ucast index))\<rparr>;
          s = upd_info (\<lambda>i. i\<lparr>Inactive := Inactive i @ [the_object]\<rparr>) s
      in Objects_append_objects k (index + 1) (the_object + obj_size i) s)"

text \<open>The contents of freshly allocated tables, which the code sets in part.\<close>

record fresh_tables =
  fresh_blocks :: "uint32 \<Rightarrow> addr"
  fresh_per_block :: "uint32 \<Rightarrow> uint32"
  fresh_local :: "uint32 \<Rightarrow> addr"

definition Addresses_Align_up :: "uint32 \<Rightarrow> uint32 \<Rightarrow> uint32" where
  "Addresses_Align_up address alignment = (let mask = alignment - 1 in (address + mask) AND NOT mask)"

text \<open>The size of the new tables.\<close>

definition Objects_tables_size :: "uint32 \<Rightarrow> uint32 \<Rightarrow> uint32 \<Rightarrow> uint32" where
  "Objects_tables_size block_count mx minimum_index =
     Addresses_Align_up (block_count * 4) CPU_ALIGNMENT + Addresses_Align_up (block_count * 4) CPU_ALIGNMENT
       + (mx + minimum_index) * 4"

text \<open>Copying and initialising the grown tables, for \<open>block_count\<close> old blocks.\<close>

definition Objects_grow_tables ::
  "fresh_tables \<Rightarrow> uint32 \<Rightarrow> uint32 \<Rightarrow> uint32 \<Rightarrow> uint32 \<Rightarrow> uint32 \<Rightarrow> addr \<Rightarrow> Objects_Information \<Rightarrow> Objects_Information" where
  "Objects_grow_tables fresh block_count minimum_index index_base index_end mx tables i =
     (let (blocks, per_block, lt) =
            (if ucast (maximum i) > minimum_index
             then (\<lambda>j. if j < block_count then object_blocks i j else fresh_blocks fresh j,
                   \<lambda>j. if j < block_count then inactive_per_block i j else fresh_per_block fresh j,
                   \<lambda>j. if j < ucast (maximum i) + minimum_index then local_table i j else fresh_local fresh j)
             else (fresh_blocks fresh, fresh_per_block fresh,
                   \<lambda>j. if j < minimum_index then NULL else fresh_local fresh j));
          blocks = blocks(block_count := NULL);
          per_block = per_block(block_count := 0);
          lt = (\<lambda>j. if index_base \<le> j \<and> j < index_end then NULL else lt j);
          i = i\<lparr>object_blocks := blocks, object_blocks_at := tables, inactive_per_block := per_block,
               local_table := lt, maximum := ucast mx\<rparr>
      in i\<lparr>maximum_id := Objects_Build_id (the_api i) (the_class i) Objects_Local_node (maximum i)\<rparr>)"

definition Objects_Extend_information :: "fresh_tables \<Rightarrow> Objects_State \<Rightarrow> Objects_State outcome" where
  "Objects_Extend_information fresh s =
     (let i = info s;
          minimum_index = ucast (Objects_Get_index (minimum_id i));
          block_count = (if object_blocks_at i = NULL then 0 else ucast (maximum i) div ucast (allocation_size i));
          (block, index_base, do_extend) = Objects_find_block i (unat block_count) 0 minimum_index;
          index_end = index_base + ucast (allocation_size i);
          mx = ucast (maximum i) + ucast (allocation_size i);
          alloc = (if auto_extend i then Workspace_Allocate else Workspace_Allocate_or_fatal_error);
          finish = (\<lambda>new_object_block s.
            let s = upd_info (\<lambda>i. i\<lparr>object_blocks := (object_blocks i)(block := new_object_block)\<rparr>) s;
                s = Objects_append_objects (unat (allocation_size i)) index_base new_object_block s;
                s = upd_info (\<lambda>i. i\<lparr>inactive_per_block := (inactive_per_block i)(block := ucast (allocation_size i)),
                      inactive := inactive i + allocation_size i\<rparr>) s
            in Done s)
      in if mx > OBJECTS_ID_FINAL_INDEX then Done s
         else outcome_bind (alloc (work s) (ucast (allocation_size i) * obj_size i))
           (\<lambda>(ws, new_object_block).
              let s = s\<lparr>work := ws\<rparr> in
              if new_object_block = NULL then Done s
              else if do_extend
              then outcome_bind (alloc ws (Objects_tables_size (block_count + 1) mx minimum_index))
                     (\<lambda>(ws, tables).
                        if tables = NULL then Done (s\<lparr>work := Workspace_Free ws new_object_block\<rparr>)
                        else let s = upd_info (Objects_grow_tables fresh block_count minimum_index index_base index_end mx tables) s;
                                 s = s\<lparr>work := Workspace_Free ws (object_blocks_at i)\<rparr>
                             in finish new_object_block s)
              else finish new_object_block s))"

subsection \<open>Shrinking a class\<close>

text \<open>The inner loop takes the objects with an index of the block off the inactive chain; the outer loop looks for a
  block whose objects are all inactive, \<open>k\<close> blocks left.\<close>

definition Objects_extract_block :: "(addr \<Rightarrow> Objects_Id) \<Rightarrow> uint32 \<Rightarrow> uint32 \<Rightarrow> addr list \<Rightarrow> addr list" where
  "Objects_extract_block ids index_base index_end =
     filter (\<lambda>n. let index = ucast (Objects_Get_index (ids n)) in \<not> (index \<ge> index_base \<and> index < index_end))"

primrec Objects_shrink_loop :: "nat \<Rightarrow> uint32 \<Rightarrow> uint32 \<Rightarrow> Objects_State \<Rightarrow> Objects_State" where
  "Objects_shrink_loop 0 block index_base s = s"
| "Objects_shrink_loop (Suc k) block index_base s =
     (let i = info s in
      if inactive_per_block i block = ucast (allocation_size i)
      then let index_end = index_base + ucast (allocation_size i);
               s = upd_info (\<lambda>i. i\<lparr>Inactive := Objects_extract_block (object_id s) index_base index_end (Inactive i)\<rparr>) s;
               s = s\<lparr>work := Workspace_Free (work s) (object_blocks i block)\<rparr>
           in upd_info (\<lambda>i. i\<lparr>object_blocks := (object_blocks i)(block := NULL),
                inactive_per_block := (inactive_per_block i)(block := 0),
                inactive := inactive i - allocation_size i\<rparr>) s
      else Objects_shrink_loop k (block + 1) (index_base + ucast (allocation_size i)) s)"

definition Objects_Shrink_information :: "Objects_State \<Rightarrow> Objects_State" where
  "Objects_Shrink_information s =
     (let i = info s;
          index_base = ucast (Objects_Get_index (minimum_id i));
          block_count = (ucast (maximum i) - index_base) div ucast (allocation_size i)
      in Objects_shrink_loop (unat block_count) 0 index_base s)"

subsection \<open>Allocation and release\<close>

definition Objects_Get_inactive :: "Objects_State \<Rightarrow> Objects_State \<times> addr" where
  "Objects_Get_inactive s =
     (case Inactive (info s) of
        [] \<Rightarrow> (s, NULL)
      | n # ns \<Rightarrow> (upd_info (\<lambda>i. i\<lparr>Inactive := ns\<rparr>) s, n))"

definition Objects_block_of :: "Objects_State \<Rightarrow> addr \<Rightarrow> uint32" where
  "Objects_block_of s the_object =
     (ucast (Objects_Get_index (object_id s the_object)) - ucast (Objects_Get_index (minimum_id (info s))))
       div ucast (allocation_size (info s))"

definition Objects_Allocate_unprotected :: "fresh_tables \<Rightarrow> Objects_State \<Rightarrow> (Objects_State \<times> addr) outcome" where
  "Objects_Allocate_unprotected fresh s =
     (if obj_size (info s) = 0 then Done (s, NULL)
      else let (s, the_object) = Objects_Get_inactive s in
           if auto_extend (info s)
           then outcome_bind
                  (if the_object = NULL
                   then outcome_bind (Objects_Extend_information fresh s) (\<lambda>s. Done (Objects_Get_inactive s))
                   else Done (s, the_object))
                  (\<lambda>(s, the_object).
                     if the_object \<noteq> NULL
                     then let block = Objects_block_of s the_object
                          in Done (upd_info (\<lambda>i. i\<lparr>inactive_per_block := (inactive_per_block i)(block := inactive_per_block i block - 1),
                                     inactive := inactive i - 1\<rparr>) s, the_object)
                     else Done (s, the_object))
           else Done (s, the_object))"

definition Objects_Allocate :: "fresh_tables \<Rightarrow> Objects_State \<Rightarrow> (Objects_State \<times> addr) outcome" where
  "Objects_Allocate = Objects_Allocate_unprotected"

definition Objects_Free :: "addr \<Rightarrow> Objects_State \<Rightarrow> Objects_State" where
  "Objects_Free the_object s =
     (let size' = allocation_size (info s);
          s = upd_info (\<lambda>i. i\<lparr>Inactive := Inactive i @ [the_object]\<rparr>) s
      in if auto_extend (info s)
         then let block = Objects_block_of s the_object;
                  s = upd_info (\<lambda>i. i\<lparr>inactive_per_block := (inactive_per_block i)(block := inactive_per_block i block + 1),
                        inactive := inactive i + 1\<rparr>) s
              in if ucast (inactive (info s)) > (ucast size' + drop_bit 1 (ucast size') :: uint32)
                 then Objects_Shrink_information s else s
         else s)"

definition Objects_Active_count :: "Objects_State \<Rightarrow> Objects_Maximum" where
  "Objects_Active_count s =
     (let inact = of_nat (length (Inactive (info s))) :: uint32; mx = ucast (maximum (info s)) in ucast (mx - inact))"

subsection \<open>Initialization of a class\<close>

abbreviation INTERNAL_ERROR_UNLIMITED_AND_MAXIMUM_IS_0 :: uint32 where
  "INTERNAL_ERROR_UNLIMITED_AND_MAXIMUM_IS_0 \<equiv> 19"

definition Objects_Initialize_information ::
  "fresh_tables \<Rightarrow> uint32 \<Rightarrow> uint16 \<Rightarrow> uint32 \<Rightarrow> uint16 \<Rightarrow> uint32 \<Rightarrow> Objects_State \<Rightarrow> Objects_State outcome" where
  "Objects_Initialize_information fresh api cls mx sz maximum_name_length s =
     (let unlimited = Objects_Is_unlimited mx;
          per_allocation = Objects_Maximum_per_allocation mx;
          i = (info s)\<lparr>the_api := api, the_class := cls, obj_size := ucast sz, inactive_per_block := (\<lambda>_. 0), object_blocks := (\<lambda>_. NULL),
                object_blocks_at := NULL, inactive := 0, maximum := 0, auto_extend := unlimited\<rparr>
      in if unlimited \<and> per_allocation = 0 then Fatal INTERNAL_ERROR_UNLIMITED_AND_MAXIMUM_IS_0
         else let minimum_index = (if per_allocation = 0 then 0 else 1);
                  i = i\<lparr>allocation_size := per_allocation, local_table := (\<lambda>_. NULL),
                        minimum_id := Objects_Build_id api cls Objects_Local_node minimum_index,
                        name_length := ucast maximum_name_length, Inactive := []\<rparr>;
                  s = s\<lparr>info := i\<rparr>
              in if per_allocation \<noteq> 0 then Objects_Extend_information fresh s else Done s)"

subsection \<open>Opening, closing and finding objects\<close>

datatype Objects_Locations = OBJECTS_LOCAL | OBJECTS_ERROR

definition Objects_Get_local_object :: "Objects_Information \<Rightarrow> uint16 \<Rightarrow> addr" where
  "Objects_Get_local_object i index = local_table i (ucast index)"

definition Objects_Set_local_object :: "uint32 \<Rightarrow> addr \<Rightarrow> Objects_State \<Rightarrow> Objects_State" where
  "Objects_Set_local_object index the_object s =
     upd_info (\<lambda>i. i\<lparr>local_table := (local_table i)(index := the_object)\<rparr>) s"

definition Objects_Invalidate_Id :: "addr \<Rightarrow> Objects_State \<Rightarrow> Objects_State" where
  "Objects_Invalidate_Id the_object s = Objects_Set_local_object (ucast (Objects_Get_index (object_id s the_object))) NULL s"

definition Objects_Open :: "addr \<Rightarrow> uint32 \<Rightarrow> Objects_State \<Rightarrow> Objects_State" where
  "Objects_Open the_object name s =
     (let s = s\<lparr>object_name := (object_name s)(the_object := name)\<rparr>
      in Objects_Set_local_object (ucast (Objects_Get_index (object_id s the_object))) the_object s)"

definition Objects_Open_u32 :: "addr \<Rightarrow> uint32 \<Rightarrow> Objects_State \<Rightarrow> Objects_State" where
  "Objects_Open_u32 the_object name s =
     (let s = s\<lparr>object_name := (object_name s)(the_object := name)\<rparr>
      in Objects_Set_local_object (ucast (Objects_Get_index (object_id s the_object))) the_object s)"

definition Objects_Namespace_remove :: "addr \<Rightarrow> Objects_State \<Rightarrow> Objects_State" where
  "Objects_Namespace_remove the_object s = s\<lparr>object_name := (object_name s)(the_object := 0)\<rparr>"

definition Objects_Close :: "addr \<Rightarrow> Objects_State \<Rightarrow> Objects_State" where
  "Objects_Close the_object s = Objects_Namespace_remove the_object (Objects_Invalidate_Id the_object s)"

text \<open>The three lookups differ in what they leave disabled on success: thread dispatching, interrupts or nothing.
  The first component of the result is the object.\<close>

definition Objects_Get :: "Objects_Information \<Rightarrow> Objects_Id \<Rightarrow> addr \<times> Objects_Locations" where
  "Objects_Get i ident =
     (let index = ident - minimum_id i + 1 in
      if index \<le> ucast (maximum i)
      then let the_object = local_table i index
           in if the_object \<noteq> NULL then (the_object, OBJECTS_LOCAL) else (NULL, OBJECTS_ERROR)
      else (NULL, OBJECTS_ERROR))"

definition Objects_Get_isr_disable :: "Objects_Information \<Rightarrow> Objects_Id \<Rightarrow> addr \<times> Objects_Locations" where
  "Objects_Get_isr_disable i ident =
     (let index = ident - minimum_id i + 1 in
      if ucast (maximum i) \<ge> index
      then let the_object = local_table i index
           in if the_object \<noteq> NULL then (the_object, OBJECTS_LOCAL) else (NULL, OBJECTS_ERROR)
      else (NULL, OBJECTS_ERROR))"

definition Objects_Get_no_protection :: "Objects_Information \<Rightarrow> Objects_Id \<Rightarrow> addr \<times> Objects_Locations" where
  "Objects_Get_no_protection i ident =
     (let index = ident - minimum_id i + 1 in
      if ucast (maximum i) \<ge> index \<and> local_table i index \<noteq> NULL
      then (local_table i index, OBJECTS_LOCAL) else (NULL, OBJECTS_ERROR))"

text \<open>The next object from the identifier \<open>hint\<close> on: the object, the location and the identifier to go on with.\<close>

partial_function (option) Objects_Get_next_loop ::
  "Objects_Information \<Rightarrow> Objects_Id \<Rightarrow> (addr \<times> Objects_Locations \<times> Objects_Id) option" where
  "Objects_Get_next_loop i next_id =
     (if Objects_Get_index next_id > maximum i then Some (NULL, OBJECTS_ERROR, OBJECTS_ID_FINAL)
      else let (object, location) = Objects_Get i next_id;
               next_id = next_id + 1
           in if location \<noteq> OBJECTS_LOCAL then Objects_Get_next_loop i next_id else Some (object, location, next_id))"

definition Objects_Get_next :: "Objects_Information \<Rightarrow> Objects_Id \<Rightarrow> (addr \<times> Objects_Locations \<times> Objects_Id) option" where
  "Objects_Get_next i ident =
     Objects_Get_next_loop i (if Objects_Get_index ident = 0 then minimum_id i else ident)"

subsection \<open>The information table\<close>

text \<open>The table of all classes: by API (null when the API is not configured), then by class.\<close>

type_synonym Objects_Information_table = "uint32 \<Rightarrow> (uint32 \<Rightarrow> Objects_Information option) option"

abbreviation OBJECTS_ID_OF_SELF :: Objects_Id where
  "OBJECTS_ID_OF_SELF \<equiv> 0"

definition Objects_Get_information :: "Objects_Information_table \<Rightarrow> uint32 \<Rightarrow> uint16 \<Rightarrow> Objects_Information option" where
  "Objects_Get_information table api cls =
     (if cls = 0 then None
      else let the_class_api_maximum = Objects_API_maximum_class api in
      if the_class_api_maximum = 0 then None
      else if ucast cls > the_class_api_maximum then None
      else case table api of
             None \<Rightarrow> None
           | Some classes \<Rightarrow>
               (case classes (ucast cls) of
                  None \<Rightarrow> None
                | Some i \<Rightarrow> if maximum i = 0 then None else Some i))"

definition Objects_Get_information_id :: "Objects_Information_table \<Rightarrow> Objects_Id \<Rightarrow> Objects_Information option" where
  "Objects_Get_information_id table ident =
     Objects_Get_information table (Objects_Get_API ident) (ucast (Objects_Get_class ident))"

subsection \<open>Names\<close>

datatype Objects_Name_or_id_lookup_errors = OBJECTS_NAME_OR_ID_LOOKUP_SUCCESSFUL | OBJECTS_INVALID_NAME |
  OBJECTS_INVALID_ADDRESS | OBJECTS_INVALID_ID | OBJECTS_INVALID_NODE

text \<open>The search over the local table, \<open>k\<close> indexes left; \<open>None\<close> when no object has the name.\<close>

primrec Objects_Name_to_id_loop :: "Objects_State \<Rightarrow> uint32 \<Rightarrow> nat \<Rightarrow> uint32 \<Rightarrow> Objects_Id option" where
  "Objects_Name_to_id_loop s name 0 index = None"
| "Objects_Name_to_id_loop s name (Suc k) index =
     (let the_object = local_table (info s) index in
      if the_object \<noteq> NULL \<and> name = object_name s the_object then Some (object_id s the_object)
      else Objects_Name_to_id_loop s name k (index + 1))"

text \<open>\<open>id_given\<close>: the pointer for the result is not null.\<close>

definition Objects_Name_to_id_u32 ::
  "Objects_State \<Rightarrow> uint32 \<Rightarrow> uint32 \<Rightarrow> bool \<Rightarrow> Objects_Name_or_id_lookup_errors \<times> Objects_Id option" where
  "Objects_Name_to_id_u32 s name node id_given =
     (if \<not> id_given then (OBJECTS_INVALID_ADDRESS, None)
      else if name = 0 then (OBJECTS_INVALID_NAME, None)
      else if maximum (info s) \<noteq> 0 \<and> (node = 0 \<or> node = 0x7fffffff \<or> Objects_Is_local_node node)
      then case Objects_Name_to_id_loop s name (unat (maximum (info s))) 1 of
             Some ident \<Rightarrow> (OBJECTS_NAME_OR_ID_LOOKUP_SUCCESSFUL, Some ident)
           | None \<Rightarrow> (OBJECTS_INVALID_NAME, None)
      else (OBJECTS_INVALID_NAME, None))"

text \<open>The characters of a name are signed \<open>char\<close>s: conversion to \<open>uint32_t\<close> extends the sign.\<close>

definition char_u32 :: "uint8 \<Rightarrow> uint32" where
  "char_u32 c = scast c"

text \<open>\<open>strnlen\<close> of a string given by its characters before the terminator.\<close>

definition Objects_Set_name :: "addr \<Rightarrow> uint8 list \<Rightarrow> Objects_State \<Rightarrow> Objects_State \<times> bool" where
  "Objects_Set_name the_object name s =
     (let len = min (length name) (unat (name_length (info s)));
          ch = (\<lambda>k. char_u32 (if k < len then name ! k else 0x20))
      in (s\<lparr>object_name := (object_name s)(the_object := Objects_Build_name (ch 0) (ch 1) (ch 2) (ch 3))\<rparr>, True))"

definition isprint :: "uint8 \<Rightarrow> bool" where
  "isprint c = (0x20 \<le> c \<and> c \<le> 0x7e)"

text \<open>The name of an object as text for a buffer of \<open>len\<close> bytes, without the terminator; then the routine, where
  \<open>None\<close> is the null pointer.\<close>

definition Objects_name_text :: "uint32 \<Rightarrow> nat \<Rightarrow> uint8 list" where
  "Objects_name_text u32_name len =
     (let lname = [ucast (drop_bit 24 u32_name), ucast (drop_bit 16 u32_name), ucast (drop_bit 8 u32_name), ucast u32_name]
      in map (\<lambda>c. if isprint c then c else 0x2a) (take (len - 1) (takeWhile (\<lambda>c. c \<noteq> 0) lname)))"

definition Objects_Get_name_as_string ::
  "Objects_Information_table \<Rightarrow> Objects_Id \<Rightarrow> Objects_State \<Rightarrow> Objects_Id \<Rightarrow> nat \<Rightarrow> uint8 list option" where
  "Objects_Get_name_as_string table executing_id s ident len =
     (if len = 0 then None
      else let tmpId = (if ident = OBJECTS_ID_OF_SELF then executing_id else ident) in
           case Objects_Get_information_id table tmpId of
             None \<Rightarrow> None
           | Some i \<Rightarrow>
               (case Objects_Get i tmpId of
                  (the_object, OBJECTS_LOCAL) \<Rightarrow> Some (Objects_name_text (object_name s the_object) len)
                | (_, OBJECTS_ERROR) \<Rightarrow> None))"

definition Objects_Id_to_name ::
  "Objects_Information_table \<Rightarrow> Objects_Id \<Rightarrow> Objects_State \<Rightarrow> Objects_Id \<Rightarrow> Objects_Name_or_id_lookup_errors \<times> uint32 option" where
  "Objects_Id_to_name table executing_id s ident =
     (let tmpId = (if ident = OBJECTS_ID_OF_SELF then executing_id else ident);
          api = Objects_Get_API tmpId in
      if \<not> Objects_Is_api_valid api then (OBJECTS_INVALID_ID, None)
      else case table api of
             None \<Rightarrow> (OBJECTS_INVALID_ID, None)
           | Some classes \<Rightarrow>
               (case classes (Objects_Get_class tmpId) of
                  None \<Rightarrow> (OBJECTS_INVALID_ID, None)
                | Some i \<Rightarrow>
                    (case Objects_Get_isr_disable i tmpId of
                       (the_object, OBJECTS_LOCAL) \<Rightarrow> (OBJECTS_NAME_OR_ID_LOOKUP_SUCCESSFUL, Some (object_name s the_object))
                     | (_, OBJECTS_ERROR) \<Rightarrow> (OBJECTS_INVALID_ID, None))))"

declare Objects_Get_next_loop.simps [code]

end
