(* ===== verification/Score_Object_Props.thy ===== *)
theory Score_Object_Props
  imports Score_Object
begin

unbundle bit_operations_syntax

text \<open>
  The object handler is correct: identifiers are built from and split into their fields, the tables of a class
  keep exactly its open objects, allocation and release keep the inactive chain, names are found and printed
  as they were set, and the class grows and shrinks without losing an object.
\<close>

subsection \<open>Identifiers\<close>

lemma bit_bound:
  assumes "bit (w :: 'a :: len word) k" "unat w < 2 ^ n"
  shows "k < n"
proof (rule ccontr)
  assume "\<not> k < n"
  then have "(2 :: nat) ^ n \<le> 2 ^ k" by simp
  then have "unat w div 2 ^ k = 0" using assms(2) by (intro div_less) linarith
  moreover have "bit (unat w) k" using assms(1) by (simp add: bit_simps)
  then have "odd (unat w div 2 ^ k)" by (simp add: bit_iff_odd)
  ultimately show False by simp
qed

lemma bit16: "bit (w :: uint16) k \<Longrightarrow> k < 16" and bit8: "bit (v :: uint8) k \<Longrightarrow> k < 8"
  using bit_imp_le_length [of w k] bit_imp_le_length [of v k] by simp_all

lemma field_masks: "(7 :: uint32) = mask 3" "(0x1f :: uint32) = mask 5" "(0xff :: uint32) = mask 8" "(0xffff :: uint32) = mask 16"
  by (simp_all add: mask_eq_exp_minus_1)

lemma unat_16_bound: "unat (x :: uint16) < 65536"
  using unsigned_less [where ?'a = nat, of x] by simp

lemma unat_ucast_16 [simp]: "unat (ucast (x :: uint16) :: uint32) = unat x"
  using unat_16_bound [of x] by (simp add: unsigned_ucast_eq take_bit_nat_eq_self_iff)

lemma Objects_Build_id_bit:
  "bit (Objects_Build_id a c n i) k \<longleftrightarrow> k < 32 \<and> ((24 \<le> k \<and> bit a (k - 24)) \<or> (27 \<le> k \<and> bit c (k - 27)) \<or> (16 \<le> k \<and> bit n (k - 16)) \<or> bit i k)"
  by (auto simp: Objects_Build_id_def bit_simps)

text \<open>An identifier is its base, the identifier with index zero, plus the index.\<close>

lemma Objects_Build_id_plus: "Objects_Build_id a c n i = Objects_Build_id a c n 0 + ucast i"
proof -
  have "Objects_Build_id a c n 0 AND ucast i = 0"
    by (auto intro!: bit_word_eqI simp: Objects_Build_id_bit bit_simps dest!: bit16)
  then have "Objects_Build_id a c n 0 + ucast i = Objects_Build_id a c n 0 OR ucast i" by (rule disjunctive_add_eq_or)
  also have "\<dots> = Objects_Build_id a c n i"
    by (auto intro!: bit_word_eqI simp: Objects_Build_id_bit bit_simps)
  finally show ?thesis by simp
qed

lemma Objects_Get_index_Build_id [simp]: "Objects_Get_index (Objects_Build_id a c n i) = i"
  unfolding Objects_Get_index_def field_masks
  by (auto intro!: bit_word_eqI simp: Objects_Build_id_bit bit_simps)

text \<open>an identifier built from an API, a class, a node and an index has exactly these fields, when the API fits
  its three bits and the class its five, and every 32-bit value is the identifier built from its
  fields: the encoding of object identifiers is a bijection.\<close>

theorem Objects_Build_id_fields:
  "(unat api < 8 \<and> unat cls < 32 \<longrightarrow>
      (let ident = Objects_Build_id api cls node index in
       Objects_Get_API ident = api \<and> Objects_Get_class ident = ucast cls \<and> Objects_Get_node ident = ucast node
         \<and> Objects_Get_index ident = index))
   \<and> Objects_Build_id (Objects_Get_API x) (ucast (Objects_Get_class x)) (ucast (Objects_Get_node x)) (Objects_Get_index x) = x"
proof (intro conjI impI)
  assume f: "unat api < 8 \<and> unat cls < 32"
  have a: "k < 3" "k < 8" if "bit api k" for k using bit_bound [OF that, of 3] f by simp_all
  have c: "k < 5" if "bit cls k" for k using bit_bound [OF that, of 5] f by simp
  have n: "\<not> bit api (3 + k)" "\<not> bit node (11 + k)" "\<not> bit index (27 + k)" for k
    using a [of "3 + k"] bit8 [of node "11 + k"] bit16 [of index "27 + k"] by auto
  have "Objects_Get_API (Objects_Build_id api cls node index) = api"
    unfolding Objects_Get_API_def field_masks
    by (auto intro!: bit_word_eqI simp: Objects_Build_id_bit bit_simps intro: a dest!: bit16 bit8)
  moreover have "Objects_Get_class (Objects_Build_id api cls node index) = ucast cls"
    unfolding Objects_Get_class_def field_masks
    by (auto intro!: bit_word_eqI simp: Objects_Build_id_bit bit_simps n intro: c dest: bit16)
  moreover have "Objects_Get_node (Objects_Build_id api cls node index) = ucast node"
    unfolding Objects_Get_node_def field_masks
    by (auto intro!: bit_word_eqI simp: Objects_Build_id_bit bit_simps dest: c dest!: a bit16 bit8)
  ultimately show "let ident = Objects_Build_id api cls node index in
       Objects_Get_API ident = api \<and> Objects_Get_class ident = ucast cls \<and> Objects_Get_node ident = ucast node
         \<and> Objects_Get_index ident = index" by simp
next
  show "Objects_Build_id (Objects_Get_API x) (ucast (Objects_Get_class x)) (ucast (Objects_Get_node x)) (Objects_Get_index x) = x"
    unfolding Objects_Get_API_def Objects_Get_class_def Objects_Get_node_def Objects_Get_index_def field_masks
  proof (rule bit_word_eqI)
    fix k assume k: "k < LENGTH(32)"
    consider "k < 16" | "16 \<le> k" "k < 24" | "24 \<le> k" "k < 27" | "27 \<le> k" by linarith
    then show "bit (Objects_Build_id (drop_bit 24 x AND mask 3) (ucast (drop_bit 27 x AND mask 5)) (ucast (drop_bit 16 x AND mask 8))
        (ucast (drop_bit 0 x AND mask 16))) k = bit x k"
      using k by cases (auto simp: Objects_Build_id_bit bit_simps less_diff_conv2)
  qed
qed

subsection \<open>A well-formed class\<close>

text \<open>The objects of a class by their indexes, which start with 1.\<close>

definition per_block :: "Objects_Information \<Rightarrow> nat" where
  "per_block i = unat (allocation_size i)"

definition blocks_of :: "Objects_Information \<Rightarrow> nat" where
  "blocks_of i = unat (maximum i) div per_block i"

definition blk :: "Objects_Information \<Rightarrow> nat \<Rightarrow> addr" where
  "blk i b = object_blocks i (of_nat b)"

definition present :: "Objects_Information \<Rightarrow> nat \<Rightarrow> bool" where
  "present i n \<longleftrightarrow> 1 \<le> n \<and> n \<le> unat (maximum i) \<and> blk i ((n - 1) div per_block i) \<noteq> NULL"

definition slot :: "Objects_Information \<Rightarrow> nat \<Rightarrow> addr" where
  "slot i n = blk i ((n - 1) div per_block i) + of_nat ((n - 1) mod per_block i) * obj_size i"

definition oid :: "Objects_Information \<Rightarrow> nat \<Rightarrow> Objects_Id" where
  "oid i n = Objects_Build_id (the_api i) (the_class i) 1 (of_nat n)"

text \<open>The class is set up; its blocks and tables are different pieces \<open>A\<close> of the workspace.\<close>

definition class_ok :: "Objects_Information \<Rightarrow> (addr \<times> uint32) set \<Rightarrow> bool" where
  "class_ok i A \<longleftrightarrow> 0 < per_block i \<and> per_block i dvd unat (maximum i) \<and> obj_size i \<noteq> 0
     \<and> per_block i * unat (obj_size i) < 2 ^ 32 \<and> minimum_id i = oid i 1
     \<and> (object_blocks_at i = NULL \<longleftrightarrow> maximum i = 0)
     \<and> (\<forall>b < blocks_of i. blk i b \<noteq> NULL \<longrightarrow> (\<exists>k. (blk i b, k) \<in> A \<and> per_block i * unat (obj_size i) \<le> unat k))
     \<and> (\<forall>b < blocks_of i. \<forall>c < blocks_of i. blk i b \<noteq> NULL \<and> blk i b = blk i c \<longrightarrow> b = c)
     \<and> (object_blocks_at i \<noteq> NULL \<longrightarrow> (\<exists>k. (object_blocks_at i, k) \<in> A) \<and> (\<forall>b < blocks_of i. blk i b \<noteq> object_blocks_at i))"

text \<open>The indexes in \<open>T\<close> belong to allocated objects, those in \<open>O\<close> to open ones, which the local table has.\<close>

definition objects_inv :: "Objects_State \<Rightarrow> (addr \<times> uint32) set \<Rightarrow> nat set \<Rightarrow> nat set \<Rightarrow> bool" where
  "objects_inv s A T O' \<longleftrightarrow> heap_rep (work s) A \<and> class_ok (info s) A
     \<and> T \<subseteq> {n. present (info s) n} \<and> O' \<subseteq> T
     \<and> (\<forall>n. present (info s) n \<longrightarrow> object_id s (slot (info s) n) = oid (info s) n)
     \<and> (\<forall>n \<le> unat (maximum (info s)). local_table (info s) (of_nat n) = (if n \<in> O' then slot (info s) n else NULL))
     \<and> distinct (Inactive (info s)) \<and> set (Inactive (info s)) = slot (info s) ` {n. present (info s) n \<and> n \<notin> T}
     \<and> (auto_extend (info s) \<longrightarrow> unat (inactive (info s)) = length (Inactive (info s))
         \<and> (\<forall>b < blocks_of (info s). unat (inactive_per_block (info s) (of_nat b))
              = card {n. present (info s) n \<and> n \<notin> T \<and> (n - 1) div per_block (info s) = b}))"

lemma objects_invD:
  assumes "objects_inv s A T O'"
  shows "heap_rep (work s) A" "class_ok (info s) A" "T \<subseteq> {n. present (info s) n}" "O' \<subseteq> T"
    "\<And>n. present (info s) n \<Longrightarrow> object_id s (slot (info s) n) = oid (info s) n"
    "\<And>n. n \<le> unat (maximum (info s)) \<Longrightarrow> local_table (info s) (of_nat n) = (if n \<in> O' then slot (info s) n else NULL)"
    "distinct (Inactive (info s))" "set (Inactive (info s)) = slot (info s) ` {n. present (info s) n \<and> n \<notin> T}"
    "auto_extend (info s) \<Longrightarrow> unat (inactive (info s)) = length (Inactive (info s))"
    "\<And>b. auto_extend (info s) \<Longrightarrow> b < blocks_of (info s) \<Longrightarrow> unat (inactive_per_block (info s) (of_nat b))
       = card {n. present (info s) n \<and> n \<notin> T \<and> (n - 1) div per_block (info s) = b}"
  using assms unfolding objects_inv_def by blast+

lemma class_okD:
  assumes "class_ok i A"
  shows "0 < per_block i" "per_block i dvd unat (maximum i)" "obj_size i \<noteq> 0" "per_block i * unat (obj_size i) < 2 ^ 32"
    "minimum_id i = oid i 1" "object_blocks_at i = NULL \<longleftrightarrow> maximum i = 0"
    "\<And>b. b < blocks_of i \<Longrightarrow> blk i b \<noteq> NULL \<Longrightarrow> \<exists>k. (blk i b, k) \<in> A \<and> per_block i * unat (obj_size i) \<le> unat k"
    "\<And>b c. b < blocks_of i \<Longrightarrow> c < blocks_of i \<Longrightarrow> blk i b \<noteq> NULL \<Longrightarrow> blk i b = blk i c \<Longrightarrow> b = c"
    "object_blocks_at i \<noteq> NULL \<Longrightarrow> \<exists>k. (object_blocks_at i, k) \<in> A"
    "\<And>b. object_blocks_at i \<noteq> NULL \<Longrightarrow> b < blocks_of i \<Longrightarrow> blk i b \<noteq> object_blocks_at i"
  using assms unfolding class_ok_def by blast+

lemma present_block:
  assumes "class_ok i A" "present i n"
  shows "(n - 1) div per_block i < blocks_of i"
proof -
  have "n - 1 < blocks_of i * per_block i"
    using assms class_okD(1,2) [OF assms(1)] by (auto simp: present_def blocks_of_def)
  then show ?thesis by (rule less_mult_imp_div_less)
qed

text \<open>The address of an object as a number; objects of different indexes have different addresses.\<close>

lemma slot_number:
  assumes h: "heap_rep h A" and c: "class_ok i A" and p: "present i n"
  shows "unat (slot i n) = unat (blk i ((n - 1) div per_block i)) + (n - 1) mod per_block i * unat (obj_size i)"
    "(n - 1) mod per_block i * unat (obj_size i) + unat (obj_size i) \<le> per_block i * unat (obj_size i)" "slot i n \<noteq> NULL"
proof -
  note C = class_okD [OF c]
  let ?b = "blk i ((n - 1) div per_block i)" and ?r = "(n - 1) mod per_block i"
  have r: "?r < per_block i" using C(1) by simp
  then have "(?r + 1) * unat (obj_size i) \<le> per_block i * unat (obj_size i)" by (intro mult_le_mono1) simp
  then show le: "?r * unat (obj_size i) + unat (obj_size i) \<le> per_block i * unat (obj_size i)" by simp
  have nz: "?b \<noteq> NULL" using p by (simp add: present_def)
  obtain k where k: "(?b, k) \<in> A" "per_block i * unat (obj_size i) \<le> unat k" using C(7) [OF present_block [OF c p] nz] by blast
  have in32: "unat ?b + unat k < 2 ^ 32" using heap_ws.inside [OF h k(1)] by simp
  have r32: "unat (of_nat ?r :: uint32) = ?r"
  proof -
    have "per_block i < 65536" using unat_16_bound by (simp add: per_block_def)
    then show ?thesis using r by (simp add: unat_of_nat take_bit_nat_eq_self_iff)
  qed
  have m: "unat (of_nat ?r * obj_size i) = ?r * unat (obj_size i)"
    using le C(4) r32 by (subst unat_mult_no_wrap) simp_all
  then show e: "unat (slot i n) = unat ?b + ?r * unat (obj_size i)"
    unfolding slot_def using le k(2) in32 by (subst unat_add_no_wrap) simp_all
  have "0 < unat ?b" using nz by (simp add: unat_gt_0)
  then show "slot i n \<noteq> NULL" using e by (metis add_is_0 less_numeral_extra(3) unat_0)
qed

lemma slot_inj:
  assumes h: "heap_rep h A" and c: "class_ok i A" and p: "present i n" "present i m" and e: "slot i n = slot i m"
  shows "n = m"
proof -
  note C = class_okD [OF c] and N = slot_number [OF h c p(1)] and M = slot_number [OF h c p(2)]
  let ?b = "(n - 1) div per_block i" and ?c = "(m - 1) div per_block i"
  have z: "0 < unat (obj_size i)" using C(3) by (simp add: unat_gt_0)
  have nz: "blk i ?b \<noteq> NULL" "blk i ?c \<noteq> NULL" using p by (simp_all add: present_def)
  obtain k l where k: "(blk i ?b, k) \<in> A" "per_block i * unat (obj_size i) \<le> unat k"
    and l: "(blk i ?c, l) \<in> A" "per_block i * unat (obj_size i) \<le> unat l"
    using C(7) [OF present_block [OF c p(1)] nz(1)] C(7) [OF present_block [OF c p(2)] nz(2)] by blast
  have "?b = ?c"
  proof (rule ccontr)
    assume "?b \<noteq> ?c"
    then have "(blk i ?b, k) \<noteq> (blk i ?c, l)"
      using C(8) [OF present_block [OF c p(1)] present_block [OF c p(2)] nz(1)] by auto
    from heap_ws.apart [OF h k(1) l(1) this] show False using N(1,2) M(1,2) e k(2) l(2) z by auto
  qed
  moreover have "(n - 1) mod per_block i = (m - 1) mod per_block i" using N(1) M(1) e calculation z by simp
  ultimately have "n - 1 = m - 1" by (metis div_mult_mod_eq)
  then show ?thesis using p unfolding present_def by linarith
qed

subsection \<open>Lookup\<close>

lemma of_nat_16_32: "n < 65536 \<Longrightarrow> (ucast (of_nat n :: uint16) :: uint32) = of_nat n"
  by (simp add: word_unat_eq_iff unat_of_nat take_bit_nat_eq_self_iff)

lemma of_nat_32_16: "(ucast (of_nat n :: uint32) :: uint16) = of_nat n"
  by (simp add: word_unat_eq_iff unat_of_nat unsigned_ucast_eq take_bit_eq_mod mod_mod_cancel)

lemma oid_base: "n < 65536 \<Longrightarrow> oid i n = Objects_Build_id (the_api i) (the_class i) 1 0 + of_nat n"
  using Objects_Build_id_plus [of "the_api i" "the_class i" 1 "of_nat n"] of_nat_16_32 [of n] by (simp add: oid_def)

lemma oid_index:
  assumes "n < 65536" "minimum_id i = oid i 1"
  shows "oid i n - minimum_id i + 1 = of_nat n" "Objects_Get_index (oid i n) = of_nat n"
proof -
  show "oid i n - minimum_id i + 1 = of_nat n" using assms oid_base [of n i] oid_base [of 1 i] by simp
  show "Objects_Get_index (oid i n) = of_nat n" by (simp add: oid_def)
qed

lemma index_oid:
  assumes "minimum_id i = oid i 1" "ident - minimum_id i + 1 = of_nat n" "n < 65536"
  shows "ident = oid i n"
proof -
  have "ident = of_nat n + minimum_id i - 1" using assms(2) by (metis add_diff_cancel diff_add_cancel diff_add_eq)
  then show ?thesis using assms(1,3) oid_base [of n i] oid_base [of 1 i] by simp
qed

lemma present_small: "present i n \<Longrightarrow> n < 65536"
  using unat_16_bound [of "maximum i"] by (simp add: present_def)

lemma Objects_Get_open:
  assumes inv: "objects_inv s A T O'" and n: "n \<in> O'"
  shows "Objects_Get (info s) (oid (info s) n) = (slot (info s) n, OBJECTS_LOCAL)"
proof -
  note I = objects_invD [OF inv] and C = class_okD [OF objects_invD(2) [OF inv]]
  have p: "present (info s) n" using I(3,4) n by auto
  have nm: "n \<le> unat (maximum (info s))" "n < 65536" using p present_small by (auto simp: present_def)
  have "of_nat n \<le> (ucast (maximum (info s)) :: uint32)"
    using nm by (simp add: word_le_nat_alt unat_of_nat take_bit_nat_eq_self_iff)
  moreover have "slot (info s) n \<noteq> NULL" using slot_number(3) [OF I(1,2) p] .
  ultimately show ?thesis
    using I(6) [OF nm(1)] n oid_index(1) [OF nm(2) C(5)] by (simp add: Objects_Get_def Let_def)
qed

lemma Objects_Get_not_open:
  assumes inv: "objects_inv s A T O'" and n: "\<And>n. n \<in> O' \<Longrightarrow> ident \<noteq> oid (info s) n"
  shows "Objects_Get (info s) ident = (NULL, OBJECTS_ERROR)"
proof -
  note I = objects_invD [OF inv] and C = class_okD [OF objects_invD(2) [OF inv]]
  define index where "index = ident - minimum_id (info s) + 1"
  have "local_table (info s) index = NULL" if "index \<le> ucast (maximum (info s))"
  proof -
    have le: "unat index \<le> unat (maximum (info s))" using that by (simp add: word_le_nat_alt)
    have "ident = oid (info s) (unat index)"
      using index_oid [OF C(5), of ident "unat index"] le unat_16_bound [of "maximum (info s)"] by (simp add: index_def)
    then have "unat index \<notin> O'" using n by blast
    then show ?thesis using I(6) [OF le] by simp
  qed
  then show ?thesis by (simp add: Objects_Get_def Let_def index_def [symmetric])
qed

text \<open>The three lookups agree.\<close>

lemma Objects_Get_variants:
  "Objects_Get_isr_disable i ident = Objects_Get i ident" "Objects_Get_no_protection i ident = Objects_Get i ident"
  by (simp_all add: Objects_Get_isr_disable_def Objects_Get_no_protection_def Objects_Get_def Let_def)

subsection \<open>Opening and closing\<close>

lemma class_ok_local [simp]: "class_ok (i\<lparr>local_table := t\<rparr>) A = class_ok i A" "present (i\<lparr>local_table := t\<rparr>) = present i"
  "slot (i\<lparr>local_table := t\<rparr>) = slot i" "oid (i\<lparr>local_table := t\<rparr>) = oid i" "per_block (i\<lparr>local_table := t\<rparr>) = per_block i"
  "blocks_of (i\<lparr>local_table := t\<rparr>) = blocks_of i"
  by (simp_all add: class_ok_def present_def slot_def oid_def per_block_def blocks_of_def blk_def fun_eq_iff)

lemma of_nat_eq_16: "n < 65536 \<Longrightarrow> m < 65536 \<Longrightarrow> (of_nat n :: uint32) = of_nat m \<longleftrightarrow> n = m"
  by (simp add: word_unat_eq_iff unat_of_nat take_bit_nat_eq_self_iff)

lemma Objects_Set_local_object_inv:
  assumes inv: "objects_inv s A T O'" and n: "n \<in> T"
  shows "objects_inv (Objects_Set_local_object (of_nat n) (slot (info s) n) s) A T (insert n O')"
    "objects_inv (Objects_Set_local_object (of_nat n) NULL s) A T (O' - {n})"
proof -
  note I = objects_invD [OF inv]
  have ns: "n < 65536" using I(3) n present_small by auto
  have small: "m < 65536" if "m \<le> unat (maximum (info s))" for m using that unat_16_bound [of "maximum (info s)"] by simp
  show "objects_inv (Objects_Set_local_object (of_nat n) (slot (info s) n) s) A T (insert n O')"
    using I n ns small unfolding objects_inv_def Objects_Set_local_object_def upd_info_def by (auto simp: of_nat_eq_16)
  show "objects_inv (Objects_Set_local_object (of_nat n) NULL s) A T (O' - {n})"
    using I n ns small unfolding objects_inv_def Objects_Set_local_object_def upd_info_def by (auto simp: of_nat_eq_16)
qed

lemma objects_inv_name [simp]: "objects_inv (s\<lparr>object_name := f\<rparr>) A T O' = objects_inv s A T O'"
  by (simp add: objects_inv_def)

lemma Objects_Open_inv:
  assumes inv: "objects_inv s A T O'" and n: "n \<in> T"
  shows "objects_inv (Objects_Open_u32 (slot (info s) n) name s) A T (insert n O')"
    "objects_inv (Objects_Close (slot (info s) n) s) A T (O' - {n})"
proof -
  note I = objects_invD [OF inv] and C = class_okD [OF objects_invD(2) [OF inv]]
  have p: "present (info s) n" using I(3) n by auto
  have e: "ucast (Objects_Get_index (object_id s (slot (info s) n))) = (of_nat n :: uint32)"
    using I(5) [OF p] oid_index(2) [OF present_small [OF p] C(5)] of_nat_16_32 [OF present_small [OF p]] by simp
  have "objects_inv (s\<lparr>object_name := (object_name s)(slot (info s) n := name)\<rparr>) A T O'" using inv by simp
  from Objects_Set_local_object_inv(1) [OF this n]
  show "objects_inv (Objects_Open_u32 (slot (info s) n) name s) A T (insert n O')"
    using e by (simp add: Objects_Open_u32_def Let_def)
  show "objects_inv (Objects_Close (slot (info s) n) s) A T (O' - {n})"
    using Objects_Set_local_object_inv(2) [OF inv n] e
    by (simp add: Objects_Close_def Objects_Invalidate_Id_def Objects_Namespace_remove_def)
qed

lemma Objects_Open_same [simp]:
  "oid (info (Objects_Open_u32 x name s)) = oid (info s)" "slot (info (Objects_Open_u32 x name s)) = slot (info s)"
  "oid (info (Objects_Close x s)) = oid (info s)" "slot (info (Objects_Close x s)) = slot (info s)"
  by (simp_all add: Objects_Open_u32_def Objects_Close_def Objects_Set_local_object_def Objects_Invalidate_Id_def
      Objects_Namespace_remove_def Let_def)

text \<open>Two states of a class with the same objects, which agree on whether \<open>ident\<close> is open.\<close>

lemma Objects_Get_same:
  assumes "objects_inv s A T O'" "objects_inv s' A' T' P" "oid (info s') = oid (info s)" "slot (info s') = slot (info s)"
    and "\<And>m. ident = oid (info s) m \<Longrightarrow> m \<in> O' \<longleftrightarrow> m \<in> P"
  shows "Objects_Get (info s') ident = Objects_Get (info s) ident"
proof (cases "\<exists>m \<in> O'. ident = oid (info s) m")
  case True
  then obtain m where m: "m \<in> O'" "ident = oid (info s) m" by blast
  then have "m \<in> P" using assms(5) by blast
  then show ?thesis using Objects_Get_open [OF assms(1) m(1)] Objects_Get_open [OF assms(2)] assms(3,4) m(2) by metis
next
  case False
  then have "ident \<noteq> oid (info s') m" if "m \<in> P" for m using that assms(3,5) by metis
  moreover have "ident \<noteq> oid (info s) m" if "m \<in> O'" for m using False that by blast
  ultimately show ?thesis using Objects_Get_not_open [OF assms(1)] Objects_Get_not_open [OF assms(2)] by metis
qed

text \<open>C28: in a well-formed class the identifier of an allocated object becomes valid, for that object, when the object is
  opened and invalid again when it is closed; no other identifier changes its meaning, and an identifier that
  is not that of an open object is refused.\<close>

theorem Objects_Open_Close_Get:
  assumes "objects_inv s A T O'" "n \<in> T"
  shows "let obj = slot (info s) n; s1 = Objects_Open_u32 obj name s; s2 = Objects_Close obj s1 in
      Objects_Get (info s1) (oid (info s) n) = (obj, OBJECTS_LOCAL)
    \<and> Objects_Get (info s2) (oid (info s) n) = (NULL, OBJECTS_ERROR)
    \<and> (ident \<noteq> oid (info s) n \<longrightarrow> Objects_Get (info s1) ident = Objects_Get (info s) ident
         \<and> Objects_Get (info s2) ident = Objects_Get (info s) ident)
    \<and> ((\<forall>m \<in> O'. ident \<noteq> oid (info s) m) \<longrightarrow> Objects_Get (info s) ident = (NULL, OBJECTS_ERROR))"
proof -
  define s1 where "s1 = Objects_Open_u32 (slot (info s) n) name s"
  define s2 where "s2 = Objects_Close (slot (info s) n) s1"
  note I = objects_invD [OF assms(1)]
  have same: "oid (info s1) = oid (info s)" "slot (info s1) = slot (info s)" "oid (info s2) = oid (info s)" "slot (info s2) = slot (info s)"
    by (simp_all add: s1_def s2_def)
  have i1: "objects_inv s1 A T (insert n O')" unfolding s1_def by (rule Objects_Open_inv(1) [OF assms])
  have i2: "objects_inv s2 A T (insert n O' - {n})" using Objects_Open_inv(2) [OF i1 assms(2)] same by (simp add: s2_def)
  have inj: "m = n" if "m \<in> T" "oid (info s) m = oid (info s) n" for m
  proof -
    have "present (info s) m" "present (info s) n" using I(3) that(1) assms(2) by auto
    then show ?thesis
      using oid_index(1) [OF present_small class_okD(5) [OF I(2)]] that(2) of_nat_eq_16 [OF present_small present_small] by metis
  qed
  have "Objects_Get (info s1) (oid (info s) n) = (slot (info s) n, OBJECTS_LOCAL)" using Objects_Get_open [OF i1, of n] same by simp
  moreover have "Objects_Get (info s2) (oid (info s) n) = (NULL, OBJECTS_ERROR)"
    using Objects_Get_not_open [OF i2, of "oid (info s) n"] same inj I(4) by force
  moreover have "Objects_Get (info s1) ident = Objects_Get (info s) ident \<and> Objects_Get (info s2) ident = Objects_Get (info s) ident"
    if "ident \<noteq> oid (info s) n"
    using Objects_Get_same [OF assms(1) i1 same(1,2), of ident] Objects_Get_same [OF assms(1) i2 same(3,4), of ident] that by auto
  moreover have "Objects_Get (info s) ident = (NULL, OBJECTS_ERROR)" if "\<forall>m \<in> O'. ident \<noteq> oid (info s) m"
    using Objects_Get_not_open [OF assms(1)] that by blast
  ultimately show ?thesis unfolding Let_def s1_def [symmetric] s2_def [symmetric] by blast
qed

subsection \<open>Allocation and release of an object\<close>

lemma class_ok_lists [simp]:
  "class_ok (i\<lparr>Inactive := t\<rparr>) A = class_ok i A" "present (i\<lparr>Inactive := t\<rparr>) = present i"
  "slot (i\<lparr>Inactive := t\<rparr>) = slot i" "oid (i\<lparr>Inactive := t\<rparr>) = oid i" "per_block (i\<lparr>Inactive := t\<rparr>) = per_block i"
  "blocks_of (i\<lparr>Inactive := t\<rparr>) = blocks_of i"
  "class_ok (i\<lparr>inactive := v\<rparr>) A = class_ok i A" "present (i\<lparr>inactive := v\<rparr>) = present i"
  "slot (i\<lparr>inactive := v\<rparr>) = slot i" "oid (i\<lparr>inactive := v\<rparr>) = oid i" "per_block (i\<lparr>inactive := v\<rparr>) = per_block i"
  "blocks_of (i\<lparr>inactive := v\<rparr>) = blocks_of i"
  "class_ok (i\<lparr>inactive_per_block := w\<rparr>) A = class_ok i A" "present (i\<lparr>inactive_per_block := w\<rparr>) = present i"
  "slot (i\<lparr>inactive_per_block := w\<rparr>) = slot i" "oid (i\<lparr>inactive_per_block := w\<rparr>) = oid i"
  "per_block (i\<lparr>inactive_per_block := w\<rparr>) = per_block i" "blocks_of (i\<lparr>inactive_per_block := w\<rparr>) = blocks_of i"
  by (simp_all add: class_ok_def present_def slot_def oid_def per_block_def blocks_of_def blk_def fun_eq_iff)

text \<open>The index and the block of an object.\<close>

lemma object_block_number:
  assumes inv: "objects_inv s A T O'" and p: "present (info s) n"
  shows "Objects_block_of s (slot (info s) n) = of_nat ((n - 1) div per_block (info s))"
    "(n - 1) div per_block (info s) < 65536"
proof -
  note I = objects_invD [OF inv] and C = class_okD [OF objects_invD(2) [OF inv]]
  have n: "1 \<le> n" "n < 65536" using p present_small by (auto simp: present_def)
  have one: "ucast (Objects_Get_index (minimum_id (info s))) = (1 :: uint32)" using C(5) by (simp add: oid_def)
  have idx: "ucast (Objects_Get_index (object_id s (slot (info s) n))) = (of_nat n :: uint32)"
    using I(5) [OF p] oid_index(2) [OF n(2) C(5)] of_nat_16_32 [OF n(2)] by simp
  show lt: "(n - 1) div per_block (info s) < 65536" using n div_le_dividend [of "n - 1" "per_block (info s)"] by linarith
  have "unat ((of_nat n :: uint32) - 1) = n - 1"
    using n by (subst unat_sub_no_wrap) (simp_all add: unat_of_nat take_bit_nat_eq_self_iff)
  then show "Objects_block_of s (slot (info s) n) = of_nat ((n - 1) div per_block (info s))"
    unfolding Objects_block_of_def one idx using lt
    by (simp add: word_unat_eq_iff unat_div_word per_block_def unat_of_nat take_bit_nat_eq_self_iff)
qed

lemma blocks_small: "b < blocks_of i \<Longrightarrow> b < 65536"
  using unat_16_bound [of "maximum i"] div_le_dividend [of "unat (maximum i)" "per_block i"] unfolding blocks_of_def by linarith

lemma finite_present: "finite {n. present i n \<and> P n}"
  by (rule finite_subset [of _ "{..unat (maximum i)}"]) (auto simp: present_def)

text \<open>The bookkeeping of one object leaving (\<open>k = -1\<close>) or entering the inactive objects.\<close>

definition count_inactive :: "uint32 \<Rightarrow> bool \<Rightarrow> Objects_Information \<Rightarrow> Objects_Information" where
  "count_inactive block up i = i\<lparr>inactive_per_block := (inactive_per_block i)(block := (if up then inactive_per_block i block + 1 else inactive_per_block i block - 1)),
     inactive := (if up then inactive i + 1 else inactive i - 1)\<rparr>"

lemma objects_inv_take:
  assumes inv: "objects_inv s A T O'" and hd: "Inactive (info s) = slot (info s) n # ns" and n: "present (info s) n" "n \<notin> T"
    and s': "s' = s\<lparr>info := (if auto_extend (info s) then count_inactive (of_nat ((n - 1) div per_block (info s))) False else (\<lambda>i. i))
        (info s\<lparr>Inactive := ns\<rparr>)\<rparr>"
  shows "objects_inv s' A (insert n T) O'"
proof -
  note I = objects_invD [OF inv]
  let ?i = "info s" and ?b = "(n - 1) div per_block (info s)"
  have i': "class_ok (info s') A" "present (info s') = present ?i" "slot (info s') = slot ?i" "oid (info s') = oid ?i"
    "per_block (info s') = per_block ?i" "blocks_of (info s') = blocks_of ?i" "local_table (info s') = local_table ?i"
    "Inactive (info s') = ns" "maximum (info s') = maximum ?i" "auto_extend (info s') = auto_extend ?i" "object_id s' = object_id s" "work s' = work s"
    using I(2) by (auto simp: s' count_inactive_def)
  have set: "set ns = slot ?i ` {m. present ?i m \<and> m \<notin> insert n T}"
  proof -
    have "slot ?i n \<notin> set ns" using I(7) hd by simp
    moreover have "insert (slot ?i n) (set ns) = slot ?i ` {m. present ?i m \<and> m \<notin> T}" using I(8) hd by simp
    moreover have "slot ?i m \<noteq> slot ?i n" if "present ?i m" "m \<noteq> n" for m using slot_inj [OF I(1,2) that(1) n(1)] that(2) by auto
    ultimately show ?thesis using n by auto
  qed
  have count: "unat (inactive (info s')) = length ns" if ae: "auto_extend ?i"
    using ae I(9) [OF ae] hd by (simp add: s' count_inactive_def) (subst unat_sub_no_wrap; simp)
  have counts: "unat (inactive_per_block (info s') (of_nat b)) = card {m. present ?i m \<and> m \<notin> insert n T \<and> (m - 1) div per_block ?i = b}"
    if ae: "auto_extend ?i" and b: "b < blocks_of ?i" for b
  proof -
    let ?S = "{m. present ?i m \<and> m \<notin> T \<and> (m - 1) div per_block ?i = b}"
    have c: "unat (inactive_per_block ?i (of_nat b)) = card ?S" by (rule I(10) [OF ae b])
    show "unat (inactive_per_block (info s') (of_nat b)) = card {m. present ?i m \<and> m \<notin> insert n T \<and> (m - 1) div per_block ?i = b}"
    proof (cases "b = ?b")
      case True
      then have "n \<in> ?S" using n by simp
      moreover have "{m. present ?i m \<and> m \<notin> insert n T \<and> (m - 1) div per_block ?i = b} = ?S - {n}" by auto
      ultimately have "card ?S = card {m. present ?i m \<and> m \<notin> insert n T \<and> (m - 1) div per_block ?i = b} + 1"
        using card_Suc_Diff1 [OF finite_present, of n ?i "\<lambda>m. m \<notin> T \<and> (m - 1) div per_block ?i = b"] by simp
      then show ?thesis using ae c True by (simp add: s' count_inactive_def) (subst unat_sub_no_wrap; simp)
    next
      case False
      moreover have "(of_nat b :: uint32) \<noteq> of_nat ?b"
        using False of_nat_eq_16 [OF blocks_small [OF b] object_block_number(2) [OF inv n(1)]] by simp
      moreover have "{m. present ?i m \<and> m \<notin> insert n T \<and> (m - 1) div per_block ?i = b} = ?S" using False by auto
      ultimately show ?thesis using ae c by (simp add: s' count_inactive_def)
    qed
  qed
  show ?thesis
    unfolding objects_inv_def i'
    using I n set count counts hd by (auto simp: i')
qed

lemma inactive_card:
  assumes inv: "objects_inv s A T O'"
  shows "length (Inactive (info s)) = card {n. present (info s) n \<and> n \<notin> T}"
proof -
  note I = objects_invD [OF inv]
  have "inj_on (slot (info s)) {n. present (info s) n \<and> n \<notin> T}" using slot_inj [OF I(1,2)] by (auto intro: inj_onI)
  then show ?thesis using distinct_card [OF I(7)] I(8) by (simp add: card_image)
qed

lemma card_present: "card {n. present i n \<and> P n} \<le> unat (maximum i)"
proof -
  have "{n. present i n \<and> P n} \<subseteq> {1..unat (maximum i)}" by (auto simp: present_def)
  from card_mono [OF _ this] show ?thesis by simp
qed

lemma objects_inv_put:
  assumes inv: "objects_inv s A T O'" and n: "n \<in> T" "n \<notin> O'"
    and s': "s' = s\<lparr>info := (if auto_extend (info s) then count_inactive (of_nat ((n - 1) div per_block (info s))) True else (\<lambda>i. i))
        (info s\<lparr>Inactive := Inactive (info s) @ [slot (info s) n]\<rparr>)\<rparr>"
  shows "objects_inv s' A (T - {n}) O'"
proof -
  note I = objects_invD [OF inv]
  let ?i = "info s" and ?b = "(n - 1) div per_block (info s)"
  have pn: "present ?i n" using I(3) n by auto
  have i': "class_ok (info s') A" "present (info s') = present ?i" "slot (info s') = slot ?i" "oid (info s') = oid ?i"
    "per_block (info s') = per_block ?i" "blocks_of (info s') = blocks_of ?i" "local_table (info s') = local_table ?i"
    "Inactive (info s') = Inactive ?i @ [slot ?i n]" "maximum (info s') = maximum ?i" "auto_extend (info s') = auto_extend ?i"
    "object_id s' = object_id s" "work s' = work s"
    using I(2) by (auto simp: s' count_inactive_def)
  have new: "slot ?i n \<notin> set (Inactive ?i)" using I(8) n slot_inj [OF I(1,2) pn] by auto
  have set: "insert (slot ?i n) (set (Inactive ?i)) = slot ?i ` {m. present ?i m \<and> m \<notin> T - {n}}" using I(8) pn by auto
  have le: "card {m. present ?i m \<and> m \<notin> T - {n} \<and> P m} \<le> unat (maximum ?i)" for P by (rule card_present)
  have one: "card {m. present ?i m \<and> m \<notin> T - {n} \<and> P m} = card {m. present ?i m \<and> m \<notin> T \<and> P m} + 1" if "P n" for P
  proof -
    have "{m. present ?i m \<and> m \<notin> T - {n} \<and> P m} = insert n {m. present ?i m \<and> m \<notin> T \<and> P m}" using pn that by auto
    then show ?thesis using n(1) by (simp add: finite_present)
  qed
  have count: "unat (inactive (info s')) = length (Inactive ?i) + 1" if ae: "auto_extend ?i"
  proof -
    have "length (Inactive ?i) + 1 \<le> unat (maximum ?i)"
      using one [of "\<lambda>_. True"] le [of "\<lambda>_. True"] inactive_card [OF inv] by simp
    then show ?thesis
      using ae I(9) [OF ae] unat_16_bound [of "maximum ?i"] by (simp add: s' count_inactive_def) (subst unat_add_no_wrap; simp)
  qed
  have counts: "unat (inactive_per_block (info s') (of_nat b)) = card {m. present ?i m \<and> m \<notin> T - {n} \<and> (m - 1) div per_block ?i = b}"
    if ae: "auto_extend ?i" and b: "b < blocks_of ?i" for b
  proof (cases "b = ?b")
    case True
    then have "card {m. present ?i m \<and> m \<notin> T \<and> (m - 1) div per_block ?i = b} + 1 \<le> unat (maximum ?i)"
      using one [of "\<lambda>m. (m - 1) div per_block ?i = b"] le [of "\<lambda>m. (m - 1) div per_block ?i = b"] by simp
    then show ?thesis
      using ae I(10) [OF ae b] True one [of "\<lambda>m. (m - 1) div per_block ?i = b"] unat_16_bound [of "maximum ?i"]
      by (simp add: s' count_inactive_def) (subst unat_add_no_wrap; simp)
  next
    case False
    moreover have "(of_nat b :: uint32) \<noteq> of_nat ?b"
      using False of_nat_eq_16 [OF blocks_small [OF b] object_block_number(2) [OF inv pn]] by simp
    moreover have "{m. present ?i m \<and> m \<notin> T - {n} \<and> (m - 1) div per_block ?i = b} = {m. present ?i m \<and> m \<notin> T \<and> (m - 1) div per_block ?i = b}"
      using False by auto
    ultimately show ?thesis using ae I(10) [OF ae b] by (simp add: s' count_inactive_def)
  qed
  show ?thesis
    unfolding objects_inv_def i'
    using I n new set count counts by (auto simp: i')
qed

subsection \<open>Shrinking\<close>

text \<open>The first \<open>K\<close> blocks are examined in order; the first one without allocated objects is released.\<close>

definition shrink_block :: "nat \<Rightarrow> Objects_State \<Rightarrow> Objects_State" where
  "shrink_block b s = (let i = info s; base = of_nat (1 + b * per_block i); top = of_nat (1 + (b + 1) * per_block i) in
     s\<lparr>info := i\<lparr>Inactive := Objects_extract_block (object_id s) base top (Inactive i),
         object_blocks := (object_blocks i)(of_nat b := NULL), inactive_per_block := (inactive_per_block i)(of_nat b := 0),
         inactive := inactive i - allocation_size i\<rparr>, work := Workspace_Free (work s) (blk i b)\<rparr>)"

lemma ucast_of_nat: "(ucast (x :: uint16) :: uint32) = of_nat (unat x)"
  using unat_16_bound [of x] by (simp add: word_unat_eq_iff unat_of_nat take_bit_nat_eq_self_iff)

lemma Objects_shrink_loop_cases:
  "Objects_shrink_loop k (of_nat b) (of_nat (1 + b * per_block (info s))) s = s
   \<or> (\<exists>c. b \<le> c \<and> c < b + k \<and> inactive_per_block (info s) (of_nat c) = ucast (allocation_size (info s))
        \<and> Objects_shrink_loop k (of_nat b) (of_nat (1 + b * per_block (info s))) s = shrink_block c s)"
proof (induction k arbitrary: b)
  case (Suc k)
  have step: "of_nat (1 + b * per_block (info s)) + (ucast (allocation_size (info s)) :: uint32) = of_nat (1 + (b + 1) * per_block (info s))"
  proof -
    have "1 + (b + 1) * per_block (info s) = (1 + b * per_block (info s)) + per_block (info s)" by simp
    then show ?thesis unfolding per_block_def ucast_of_nat by (simp only: of_nat_add)
  qed
  show ?case
  proof (cases "inactive_per_block (info s) (of_nat b) = ucast (allocation_size (info s))")
    case True
    then have "Objects_shrink_loop (Suc k) (of_nat b) (of_nat (1 + b * per_block (info s))) s = shrink_block b s"
      using step by (simp add: Let_def shrink_block_def blk_def algebra_simps)
    then show ?thesis using True by (intro disjI2 exI [of _ b]) simp
  next
    case False
    then have "Objects_shrink_loop (Suc k) (of_nat b) (of_nat (1 + b * per_block (info s))) s
        = Objects_shrink_loop k (of_nat (b + 1)) (of_nat (1 + (b + 1) * per_block (info s))) s"
      using step by (simp add: Let_def algebra_simps)
    then show ?thesis using Suc.IH [of "b + 1"] by fastforce
  qed
qed simp

lemma block_index:
  assumes "0 < p" "1 \<le> (n :: nat)"
  shows "(n - 1) div p = b \<longleftrightarrow> 1 + b * p \<le> n \<and> n < 1 + (b + 1) * p"
proof
  assume "(n - 1) div p = b"
  then have "b * p + (n - 1) mod p = n - 1" using div_mult_mod_eq [of "n - 1" p] by simp
  moreover have "(n - 1) mod p < p" using assms(1) by simp
  moreover have "(b + 1) * p = b * p + p" by simp
  ultimately show "1 + b * p \<le> n \<and> n < 1 + (b + 1) * p" using assms(2) by linarith
next
  assume a: "1 + b * p \<le> n \<and> n < 1 + (b + 1) * p"
  have "p * b = b * p" "p * Suc b = (b + 1) * p" by simp_all
  then have "p * b \<le> n - 1" "n - 1 < p * Suc b" using a assms(2) by linarith+
  then show "(n - 1) div p = b" by (rule div_nat_eqI)
qed

text \<open>Giving a block \<open>b\<close> of indexes other memory \<open>x\<close>, or none.\<close>

definition block_replaced :: "nat \<Rightarrow> addr \<Rightarrow> Objects_Information \<Rightarrow> Objects_Information \<Rightarrow> bool" where
  "block_replaced b x i i' \<longleftrightarrow> the_api i' = the_api i \<and> the_class i' = the_class i \<and> minimum_id i' = minimum_id i \<and> maximum i' = maximum i
     \<and> auto_extend i' = auto_extend i \<and> allocation_size i' = allocation_size i \<and> obj_size i' = obj_size i \<and> local_table i' = local_table i
     \<and> object_blocks_at i' = object_blocks_at i \<and> object_blocks i' = (object_blocks i)(of_nat b := x)"

lemma block_replaced_same:
  assumes "block_replaced b x i i'"
  shows "per_block i' = per_block i" "blocks_of i' = blocks_of i" "maximum i' = maximum i" "oid i' = oid i" "obj_size i' = obj_size i"
    "local_table i' = local_table i" "minimum_id i' = minimum_id i" "auto_extend i' = auto_extend i" "object_blocks_at i' = object_blocks_at i"
    "\<And>c. c < 65536 \<Longrightarrow> b < 65536 \<Longrightarrow> blk i' c = (if c = b then x else blk i c)"
  using assms by (simp_all add: block_replaced_def per_block_def blocks_of_def oid_def fun_eq_iff blk_def of_nat_eq_16)

lemma class_ok_replaced:
  assumes c: "class_ok i A" and r: "block_replaced b x i i'" and b: "b < blocks_of i"
    and x: "x \<noteq> NULL \<Longrightarrow> \<exists>k. (x, k) \<in> A \<and> per_block i * unat (obj_size i) \<le> unat k"
      "\<And>d. x \<noteq> NULL \<Longrightarrow> d < blocks_of i \<Longrightarrow> blk i d \<noteq> x" "x \<noteq> NULL \<Longrightarrow> object_blocks_at i \<noteq> x"
  shows "class_ok i' A"
proof -
  note C = class_okD [OF c] and S = block_replaced_same(1-9) [OF r]
  have B: "blk i' d = (if d = b then x else blk i d)" if "d < blocks_of i" for d
    using block_replaced_same(10) [OF r blocks_small [OF that] blocks_small [OF b]] .
  show ?thesis
    unfolding class_ok_def S
  proof (intro conjI allI impI)
    fix c assume c: "c < blocks_of i"
    show "\<exists>k'. (blk i' c, k') \<in> A \<and> per_block i * unat (obj_size i) \<le> unat k'" if "blk i' c \<noteq> NULL"
      using that C(7) [OF c] x(1) B [OF c] by (auto split: if_splits)
    show "c = d" if "d < blocks_of i" "blk i' c \<noteq> NULL \<and> blk i' c = blk i' d" for d
      using that(2) C(8) [OF c that(1)] x(2) [OF _ c] x(2) [OF _ that(1)] B [OF c] B [OF that(1)] by (auto split: if_splits)
    show "blk i' c \<noteq> object_blocks_at i" if t: "object_blocks_at i \<noteq> NULL"
      using C(10) [OF t c] x(3) t B [OF c] by (auto split: if_splits)
  qed (use C in simp_all)
qed

lemma present_replaced:
  assumes c: "class_ok i A" and r: "block_replaced b x i i'" and b: "b < blocks_of i"
  shows "present i' n \<longleftrightarrow> (if (n - 1) div per_block i = b then x \<noteq> NULL \<and> 1 \<le> n \<and> n \<le> unat (maximum i) else present i n)"
    "(n - 1) div per_block i \<noteq> b \<Longrightarrow> present i n \<Longrightarrow> slot i' n = slot i n"
proof -
  note C = class_okD [OF c] and S = block_replaced_same(1-9) [OF r]
  have bl: "(n - 1) div per_block i < blocks_of i" if "1 \<le> n \<and> n \<le> unat (maximum i)"
  proof -
    have "n - 1 < blocks_of i * per_block i" using that C(1,2) by (auto simp: blocks_of_def)
    then show ?thesis by (rule less_mult_imp_div_less)
  qed
  have B: "blk i' d = (if d = b then x else blk i d)" if "d < blocks_of i" for d
    using block_replaced_same(10) [OF r blocks_small [OF that] blocks_small [OF b]] .
  show "present i' n \<longleftrightarrow> (if (n - 1) div per_block i = b then x \<noteq> NULL \<and> 1 \<le> n \<and> n \<le> unat (maximum i) else present i n)"
  proof (cases "1 \<le> n \<and> n \<le> unat (maximum i)")
    case True
    then show ?thesis using B [OF bl] by (auto simp: present_def S)
  qed (auto simp: present_def S)
  show "slot i' n = slot i n" if "(n - 1) div per_block i \<noteq> b" "present i n"
    using that B [OF present_block [OF c that(2)]] by (simp add: slot_def S)
qed

lemma block_indexes:
  assumes c: "class_ok i A" and b: "b < blocks_of i"
  shows "{n. 1 \<le> n \<and> n \<le> unat (maximum i) \<and> (n - 1) div per_block i = b} = {1 + b * per_block i..<1 + (b + 1) * per_block i}"
    "1 + (b + 1) * per_block i \<le> unat (maximum i) + 1"
proof -
  note C = class_okD [OF c]
  show top: "1 + (b + 1) * per_block i \<le> unat (maximum i) + 1"
    using b C(2) mult_le_mono1 [of "b + 1" "blocks_of i" "per_block i"] by (auto simp: blocks_of_def)
  show "{n. 1 \<le> n \<and> n \<le> unat (maximum i) \<and> (n - 1) div per_block i = b} = {1 + b * per_block i..<1 + (b + 1) * per_block i}"
  proof (rule set_eqI)
    fix n
    show "n \<in> {n. 1 \<le> n \<and> n \<le> unat (maximum i) \<and> (n - 1) div per_block i = b} \<longleftrightarrow> n \<in> {1 + b * per_block i..<1 + (b + 1) * per_block i}"
    proof (cases "1 \<le> n")
      case True
      then show ?thesis using block_index [OF C(1) True, of b] top unfolding mem_Collect_eq atLeastLessThan_iff by linarith
    qed simp
  qed
qed

text \<open>A piece of the workspace the class does not use can be released.\<close>

lemma objects_inv_release:
  assumes inv: "objects_inv s A T O'" and a: "(a, k) \<in> A" and out: "\<And>b. b < blocks_of (info s) \<Longrightarrow> blk (info s) b \<noteq> a" "object_blocks_at (info s) \<noteq> a"
  shows "objects_inv (s\<lparr>work := Workspace_Free (work s) a\<rparr>) (A - {(a, k)}) T O'"
proof -
  note I = objects_invD [OF inv] and C = class_okD [OF objects_invD(2) [OF inv]]
  have "class_ok (info s) (A - {(a, k)})"
    unfolding class_ok_def using C(1-6) C(8,10) C(7,9) out by fastforce
  then show ?thesis using inv heap_ws.release_some [OF I(1) a] by (simp add: objects_inv_def)
qed

lemma objects_inv_work:
  assumes "objects_inv s A T O'" "heap_rep h B" "A \<subseteq> B"
  shows "objects_inv (s\<lparr>work := h\<rparr>) B T O'"
proof -
  note C = class_okD [OF objects_invD(2) [OF assms(1)]]
  have "class_ok (info s) B" unfolding class_ok_def using C assms(3) by blast
  then show ?thesis using assms by (simp add: objects_inv_def)
qed

text \<open>What remains to be shown after replacing a block without allocated objects.\<close>

lemma objects_inv_replaced:
  assumes inv: "objects_inv s A T O'" and r: "block_replaced b x (info s) (info s')" and b: "b < blocks_of (info s)"
    and ok: "class_ok (info s') A" "heap_rep (work s') A" and T: "\<And>n. n \<in> T \<Longrightarrow> (n - 1) div per_block (info s) \<noteq> b"
    and ids: "\<And>n. present (info s') n \<Longrightarrow> object_id s' (slot (info s') n) = oid (info s) n"
    and lst: "distinct (Inactive (info s'))" "set (Inactive (info s')) = slot (info s') ` {n. present (info s') n \<and> n \<notin> T}"
    and counts: "auto_extend (info s) \<Longrightarrow> unat (inactive (info s')) = card {n. present (info s') n \<and> n \<notin> T}"
      "auto_extend (info s) \<Longrightarrow> inactive_per_block (info s') = (inactive_per_block (info s))(of_nat b := (if x = NULL then 0 else ucast (allocation_size (info s))))"
  shows "objects_inv s' A T O'"
proof -
  note I = objects_invD [OF inv] and C = class_okD [OF objects_invD(2) [OF inv]] and S = block_replaced_same(1-9) [OF r]
  note P = present_replaced [OF I(2) r b] and N = block_indexes [OF I(2) b]
  have pT: "present (info s') n" "slot (info s') n = slot (info s) n" if "n \<in> T" for n
    using I(3) T [OF that] P that by auto
  have inj: "inj_on (slot (info s')) {n. present (info s') n \<and> n \<notin> T}"
    using slot_inj [OF ok(2,1)] by (auto intro!: inj_onI)
  have per: "unat (inactive_per_block (info s') (of_nat c)) = card {n. present (info s') n \<and> n \<notin> T \<and> (n - 1) div per_block (info s) = c}"
    if ae: "auto_extend (info s)" and c: "c < blocks_of (info s)" for c
  proof (cases "c = b")
    case True
    have "{n. present (info s') n \<and> n \<notin> T \<and> (n - 1) div per_block (info s) = b}
        = (if x = NULL then {} else {n. 1 \<le> n \<and> n \<le> unat (maximum (info s)) \<and> (n - 1) div per_block (info s) = b})"
      using P(1) T by auto
    then have "card {n. present (info s') n \<and> n \<notin> T \<and> (n - 1) div per_block (info s) = b} = (if x = NULL then 0 else per_block (info s))"
      unfolding N(1) by simp
    then show ?thesis using True counts(2) [OF ae] by (simp add: per_block_def)
  next
    case False
    then have "{n. present (info s') n \<and> n \<notin> T \<and> (n - 1) div per_block (info s) = c}
        = {n. present (info s) n \<and> n \<notin> T \<and> (n - 1) div per_block (info s) = c}" using P(1) by auto
    then show ?thesis
      using I(10) [OF ae c] counts(2) [OF ae] False of_nat_eq_16 [OF blocks_small [OF c] blocks_small [OF b]] by simp
  qed
  show ?thesis
    unfolding objects_inv_def S
  proof (intro conjI allI impI)
    show "local_table (info s) (of_nat n) = (if n \<in> O' then slot (info s') n else NULL)" if "n \<le> unat (maximum (info s))" for n
      using I(4) I(6) [OF that] pT(2) by auto
    show "unat (inactive (info s')) = length (Inactive (info s'))" if "auto_extend (info s)"
      using counts(1) [OF that] distinct_card [OF lst(1)] lst(2) inj by (simp add: card_image)
  qed (use I(4) pT(1) ok ids lst per in auto)
qed

text \<open>Splitting the inactive objects at a block.\<close>

lemma inactive_split:
  assumes c: "class_ok i A" and r: "block_replaced b x i i'" and b: "b < blocks_of i"
    and T: "\<And>n. n \<in> T \<Longrightarrow> (n - 1) div per_block i \<noteq> b" and e: "x = NULL \<longleftrightarrow> blk i b \<noteq> NULL"
  shows "x \<noteq> NULL \<Longrightarrow> {n. present i' n \<and> n \<notin> T} = {n. present i n \<and> n \<notin> T} \<union> {1 + b * per_block i..<1 + (b + 1) * per_block i}"
    "x \<noteq> NULL \<Longrightarrow> card {n. present i' n \<and> n \<notin> T} = card {n. present i n \<and> n \<notin> T} + per_block i"
    "x = NULL \<Longrightarrow> card {n. present i n \<and> n \<notin> T} = card {n. present i' n \<and> n \<notin> T} + per_block i"
proof -
  note P = present_replaced(1) [OF c r b] and N = block_indexes(1) [OF c b]
  define J where "J = {1 + b * per_block i..<1 + (b + 1) * per_block i}"
  have J: "n \<in> J \<longleftrightarrow> 1 \<le> n \<and> n \<le> unat (maximum i) \<and> (n - 1) div per_block i = b" for n
    using N unfolding J_def by blast
  have card: "card J = per_block i" "finite J" by (simp_all add: J_def)
  show up: "{n. present i' n \<and> n \<notin> T} = {n. present i n \<and> n \<notin> T} \<union> {1 + b * per_block i..<1 + (b + 1) * per_block i}" if "x \<noteq> NULL"
  proof -
    have "{n. present i' n \<and> n \<notin> T} = {n. present i n \<and> n \<notin> T} \<union> J"
      using P J T e that by (auto simp: present_def)
    then show ?thesis unfolding J_def .
  qed
  show "card {n. present i' n \<and> n \<notin> T} = card {n. present i n \<and> n \<notin> T} + per_block i" if "x \<noteq> NULL"
  proof -
    have "{n. present i n \<and> n \<notin> T} \<inter> J = {}" using J e that by (auto simp: present_def)
    from card_Un_disjoint [OF finite_present card(2) this] show ?thesis using card(1) unfolding up [OF that] J_def [symmetric] by simp
  qed
  show "card {n. present i n \<and> n \<notin> T} = card {n. present i' n \<and> n \<notin> T} + per_block i" if "x = NULL"
  proof -
    have u: "{n. present i n \<and> n \<notin> T} = {n. present i' n \<and> n \<notin> T} \<union> J" and d: "{n. present i' n \<and> n \<notin> T} \<inter> J = {}"
      using P J T e that by (auto simp: present_def)
    show ?thesis using card(1) card_Un_disjoint [OF finite_present card(2) d] unfolding u by simp
  qed
qed

lemma object_index:
  assumes inv: "objects_inv s A T O'" and p: "present (info s) n"
  shows "ucast (Objects_Get_index (object_id s (slot (info s) n))) = (of_nat n :: uint32)"
  using objects_invD(5) [OF inv p] oid_index(2) [OF present_small [OF p] class_okD(5) [OF objects_invD(2) [OF inv]]]
    of_nat_16_32 [OF present_small [OF p]] by simp

lemma unat_of_nat_32: "m < 2 ^ 32 \<Longrightarrow> unat (of_nat m :: uint32) = m"
  by (simp add: unat_of_nat take_bit_nat_eq_self_iff)

lemma Objects_extract_block_set:
  assumes inv: "objects_inv s A T O'" and b: "b < blocks_of (info s)"
  defines "p \<equiv> per_block (info s)"
  shows "set (Objects_extract_block (object_id s) (of_nat (1 + b * p)) (of_nat (1 + (b + 1) * p)) (Inactive (info s)))
    = slot (info s) ` {n. present (info s) n \<and> n \<notin> T \<and> (n - 1) div p \<noteq> b}"
proof -
  note I = objects_invD [OF inv] and C = class_okD [OF objects_invD(2) [OF inv]]
  have "(let index = ucast (Objects_Get_index (object_id s (slot (info s) n))) in
      \<not> (index \<ge> of_nat (1 + b * p) \<and> index < (of_nat (1 + (b + 1) * p) :: uint32))) \<longleftrightarrow> (n - 1) div p \<noteq> b"
    if n: "present (info s) n" for n
  proof -
    have "1 + (b + 1) * p \<le> unat (maximum (info s)) + 1" using block_indexes(2) [OF I(2) b] by (simp add: p_def)
    then have small: "1 + b * p < 2 ^ 32" "1 + (b + 1) * p < 2 ^ 32" "n < 2 ^ 32" "1 \<le> n"
      using unat_16_bound [of "maximum (info s)"] n present_small by (auto simp: present_def)
    show ?thesis
      unfolding object_index [OF inv n] Let_def word_le_nat_alt word_less_nat_alt
      using block_index [OF C(1) small(4), of b] small by (simp only: unat_of_nat_32 p_def)
  qed
  then show ?thesis unfolding Objects_extract_block_def set_filter I(8) by auto
qed

lemma shrink_block_inv:
  assumes inv: "objects_inv s A T O'" and ae: "auto_extend (info s)" and b: "b < blocks_of (info s)"
    and full: "inactive_per_block (info s) (of_nat b) = ucast (allocation_size (info s))"
  shows "\<exists>A'. objects_inv (shrink_block b s) A' T O'"
proof -
  note I = objects_invD [OF inv] and C = class_okD [OF objects_invD(2) [OF inv]]
  let ?i = "info s" and ?p = "per_block (info s)"
  define s1 where "s1 = (shrink_block b s)\<lparr>work := work s\<rparr>"
  let ?S = "{n. present ?i n \<and> n \<notin> T \<and> (n - 1) div ?p = b}"
  have cardS: "card ?S = ?p" using I(10) [OF ae b] full by (simp add: per_block_def)
  have nz: "blk ?i b \<noteq> NULL"
  proof
    assume "blk ?i b = NULL"
    then have "?S = {}" by (auto simp: present_def)
    then have "card ?S = 0" by (simp only: card.empty)
    then show False using cardS C(1) by linarith
  qed
  have "?S = {n. 1 \<le> n \<and> n \<le> unat (maximum ?i) \<and> (n - 1) div ?p = b}"
    using block_indexes(1) [OF I(2) b] cardS by (intro card_subset_eq) (auto simp: present_def)
  then have T: "(n - 1) div ?p \<noteq> b" if "n \<in> T" for n using that I(3) by (auto simp: present_def)
  have r: "block_replaced b NULL ?i (info s1)" by (simp add: s1_def shrink_block_def Let_def block_replaced_def)
  note P = present_replaced [OF I(2) r b]
  have cok: "class_ok (info s1) A" by (rule class_ok_replaced [OF I(2) r b]) simp_all
  have "objects_inv s1 A T O'"
  proof (rule objects_inv_replaced [OF inv r b cok _ T])
    show "object_id s1 (slot (info s1) n) = oid ?i n" if "present (info s1) n" for n
      using that P I(5) by (auto simp: s1_def shrink_block_def Let_def split: if_splits)
    show "distinct (Inactive (info s1))" using I(7) by (simp add: s1_def shrink_block_def Let_def Objects_extract_block_def)
    have "set (Inactive (info s1)) = slot ?i ` {n. present ?i n \<and> n \<notin> T \<and> (n - 1) div ?p \<noteq> b}"
      using Objects_extract_block_set [OF inv b] by (simp add: s1_def shrink_block_def Let_def)
    also have "\<dots> = slot (info s1) ` {n. present (info s1) n \<and> n \<notin> T}"
      using P by (intro image_cong) (auto split: if_splits)
    finally show "set (Inactive (info s1)) = slot (info s1) ` {n. present (info s1) n \<and> n \<notin> T}" .
    have "unat (inactive ?i) = card {n. present (info s1) n \<and> n \<notin> T} + ?p"
      using I(9) [OF ae] inactive_card [OF inv] inactive_split(3) [OF I(2) r b T] nz by simp
    then show "unat (inactive (info s1)) = card {n. present (info s1) n \<and> n \<notin> T}"
      by (simp add: s1_def shrink_block_def Let_def per_block_def unat_sub_no_wrap)
  qed (use I(1) in \<open>simp_all add: s1_def shrink_block_def Let_def\<close>)
  moreover obtain k where "(blk ?i b, k) \<in> A" using C(7) [OF b nz] by blast
  moreover have "blk (info s1) c \<noteq> blk ?i b" if "c < blocks_of (info s1)" for c
  proof -
    have c: "c < blocks_of ?i" using that block_replaced_same(2) [OF r] by simp
    then have "blk (info s1) c = (if c = b then NULL else blk ?i c)"
      using block_replaced_same(10) [OF r blocks_small [OF c] blocks_small [OF b]] by simp
    then show ?thesis using C(8) [OF b c nz] nz by (cases "c = b") metis+
  qed
  moreover have "object_blocks_at (info s1) \<noteq> blk ?i b"
    using block_replaced_same(9) [OF r] C(10) [OF _ b] nz by (cases "object_blocks_at ?i = NULL") auto
  ultimately have "objects_inv (s1\<lparr>work := Workspace_Free (work s1) (blk ?i b)\<rparr>) (A - {(blk ?i b, k)}) T O'" by (intro objects_inv_release)
  moreover have "s1\<lparr>work := Workspace_Free (work s1) (blk ?i b)\<rparr> = shrink_block b s" by (simp add: s1_def shrink_block_def Let_def)
  ultimately show ?thesis by auto
qed

lemma Objects_Shrink_information_inv:
  assumes inv: "objects_inv s A T O'" and ae: "auto_extend (info s)" and mx: "maximum (info s) \<noteq> 0"
  shows "\<exists>A'. objects_inv (Objects_Shrink_information s) A' T O' \<and> oid (info (Objects_Shrink_information s)) = oid (info s)
    \<and> (\<forall>n \<in> T. slot (info (Objects_Shrink_information s)) n = slot (info s) n)"
proof -
  note C = class_okD [OF objects_invD(2) [OF inv]]
  have one: "ucast (Objects_Get_index (minimum_id (info s))) = (1 :: uint32)" using C(5) by (simp add: oid_def)
  define K where "K = unat ((ucast (maximum (info s)) - 1 :: uint32) div ucast (allocation_size (info s)))"
  have "Objects_Shrink_information s = Objects_shrink_loop K (of_nat 0) (of_nat (1 + 0 * per_block (info s))) s"
    unfolding Objects_Shrink_information_def Let_def one K_def by simp
  then consider "Objects_Shrink_information s = s"
    | c where "c < K" "inactive_per_block (info s) (of_nat c) = ucast (allocation_size (info s))" "Objects_Shrink_information s = shrink_block c s"
    using Objects_shrink_loop_cases [of K 0 s] by auto
  then show ?thesis
  proof cases
    case 1
    then show ?thesis using inv by auto
  next
    case 2
    have "0 < unat (maximum (info s))" using mx by (simp add: unat_gt_0)
    then have "unat ((ucast (maximum (info s)) :: uint32) - 1) = unat (maximum (info s)) - 1" by (subst unat_sub_no_wrap) simp_all
    then have "K \<le> blocks_of (info s)" unfolding K_def blocks_of_def per_block_def by (simp add: unat_div_word div_le_mono)
    then have c: "c < blocks_of (info s)" using 2(1) by simp
    obtain A' where A': "objects_inv (shrink_block c s) A' T O'" using shrink_block_inv [OF inv ae c 2(2)] by blast
    have r: "block_replaced c NULL (info s) (info (shrink_block c s))" by (simp add: shrink_block_def Let_def block_replaced_def)
    note P = present_replaced [OF objects_invD(2) [OF inv] r c]
    have "slot (info (shrink_block c s)) n = slot (info s) n" if n: "n \<in> T" for n
    proof -
      have pn: "present (info s) n" "present (info (shrink_block c s)) n" using n objects_invD(3) [OF inv] objects_invD(3) [OF A'] by auto
      then have "(n - 1) div per_block (info s) \<noteq> c" using P(1) by metis
      then show ?thesis using P(2) pn(1) by blast
    qed
    then show ?thesis using A' block_replaced_same(4) [OF r] unfolding 2(3) by blast
  qed
qed

subsection \<open>Filling a block with objects\<close>

lemma Objects_append_objects_state:
  "Objects_append_objects k index x s =
    s\<lparr>object_id := (\<lambda>a. object_id (Objects_append_objects k index x s) a),
      info := info s\<lparr>Inactive := Inactive (info s) @ map (\<lambda>j. x + of_nat j * obj_size (info s)) [0..<k]\<rparr>\<rparr>"
proof (induction k arbitrary: index x s)
  case (Suc k)
  let ?z = "obj_size (info s)"
  have m: "map (\<lambda>j. x + ?z + of_nat j * ?z) [0..<k] = map (\<lambda>j. x + of_nat j * ?z) [1..<Suc k]"
    by (simp add: map_Suc_upt [symmetric] comp_def algebra_simps del: upt_Suc)
  show ?case
    by (subst Objects_append_objects.simps, subst Let_def, subst Let_def, subst Let_def, subst Suc.IH)
      (simp add: Let_def m upt_conv_Cons del: upt_Suc)
qed simp

lemma Objects_append_objects_other:
  assumes "\<And>j. j < k \<Longrightarrow> a \<noteq> x + of_nat j * obj_size (info s)"
  shows "object_id (Objects_append_objects k index x s) a = object_id s a"
  using assms
proof (induction k arbitrary: index x s)
  case (Suc k)
  have "a \<noteq> x" using Suc.prems [of 0] by simp
  moreover have "a \<noteq> x + obj_size (info s) + of_nat j * obj_size (info s)" if "j < k" for j
    using Suc.prems [of "Suc j"] that by (simp add: algebra_simps)
  ultimately show ?case by (simp add: Let_def Suc.IH)
qed simp

lemma Objects_append_objects_ids:
  assumes "\<And>i j. i < k \<Longrightarrow> j < k \<Longrightarrow> x + of_nat i * obj_size (info s) = x + of_nat j * obj_size (info s) \<Longrightarrow> i = j" and "j < k"
  shows "object_id (Objects_append_objects k index x s) (x + of_nat j * obj_size (info s))
    = Objects_Build_id (the_api (info s)) (the_class (info s)) 1 (ucast (index + of_nat j))"
  using assms
proof (induction k arbitrary: index x s j)
  case (Suc k)
  let ?z = "obj_size (info s)"
  show ?case
  proof (cases j)
    case 0
    have "x \<noteq> x + ?z + of_nat j * ?z" if "j < k" for j
      using Suc.prems(1) [of 0 "Suc j"] that by (auto simp: algebra_simps)
    then show ?thesis using 0 by (simp add: Let_def Objects_append_objects_other)
  next
    case (Suc j')
    have "i = j" if "i < k" "j < k" "x + ?z + of_nat i * ?z = x + ?z + of_nat j * ?z" for i j
      using Suc.prems(1) [of "Suc i" "Suc j"] that by (simp add: algebra_simps)
    moreover define s1 where "s1 = upd_info (\<lambda>i. i\<lparr>Inactive := Inactive i @ [x]\<rparr>) (s\<lparr>object_id := (object_id s)(x :=
      Objects_Build_id (the_api (info s)) (the_class (info s)) 1 (ucast index))\<rparr>)"
    moreover have "obj_size (info s1) = ?z" "the_api (info s1) = the_api (info s)" "the_class (info s1) = the_class (info s)"
      by (simp_all add: s1_def)
    ultimately have "object_id (Objects_append_objects k (index + 1) (x + ?z) s1) (x + ?z + of_nat j' * ?z)
        = Objects_Build_id (the_api (info s)) (the_class (info s)) 1 (ucast (index + 1 + of_nat j'))"
      using Suc.IH [where x = "x + ?z" and s = s1 and index = "index + 1" and j = j'] Suc.prems(2) Suc by simp
    then show ?thesis using Suc by (simp add: Let_def s1_def algebra_simps)
  qed
qed simp

definition fill_block :: "nat \<Rightarrow> addr \<Rightarrow> Objects_State \<Rightarrow> Objects_State" where
  "fill_block b x s =
     (let p = allocation_size (info s);
          s = upd_info (\<lambda>i. i\<lparr>object_blocks := (object_blocks i)(of_nat b := x)\<rparr>) s;
          s = Objects_append_objects (unat p) (of_nat (1 + b * unat p)) x s
      in upd_info (\<lambda>i. i\<lparr>inactive_per_block := (inactive_per_block i)(of_nat b := ucast p), inactive := inactive i + p\<rparr>) s)"

lemma new_slots:
  assumes r: "block_replaced b x i i'" and p: "0 < per_block i" and b: "b < 65536" and j: "j < per_block i"
  shows "slot i' (1 + b * per_block i + j) = x + of_nat j * obj_size i"
proof -
  have d: "(1 + b * per_block i + j - 1) div per_block i = b" "(1 + b * per_block i + j - 1) mod per_block i = j" using j by simp_all
  show ?thesis unfolding slot_def block_replaced_same(1,5) [OF r] d using block_replaced_same(10) [OF r b b] by simp
qed

lemma fill_block_inv:
  assumes inv: "objects_inv s A T O'" and b: "b < blocks_of (info s)" "blk (info s) b = NULL"
    and x: "(x, k) \<in> A" "per_block (info s) * unat (obj_size (info s)) \<le> unat k" "\<And>c. c < blocks_of (info s) \<Longrightarrow> blk (info s) c \<noteq> x"
      "object_blocks_at (info s) \<noteq> x"
  shows "objects_inv (fill_block b x s) A T O'"
proof -
  note I = objects_invD [OF inv] and C = class_okD [OF objects_invD(2) [OF inv]]
  let ?i = "info s" and ?p = "per_block (info s)"
  define s' where "s' = fill_block b x s"
  let ?i' = "info s'"
  have x0: "x \<noteq> NULL" using heap_ws.inside [OF I(1) x(1)] by simp
  define u where "u = upd_info (\<lambda>i. i\<lparr>object_blocks := (object_blocks i)(of_nat b := x)\<rparr>) s"
  have u: "obj_size (info u) = obj_size ?i" "Inactive (info u) = Inactive ?i" "the_api (info u) = the_api ?i" "the_class (info u) = the_class ?i"
    "object_id u = object_id s" by (simp_all add: u_def)
  define w where "w = Objects_append_objects ?p (of_nat (1 + b * ?p)) x u"
  have w: "w = u\<lparr>object_id := object_id w, info := info u\<lparr>Inactive := Inactive ?i @ map (\<lambda>j. x + of_nat j * obj_size ?i) [0..<?p]\<rparr>\<rparr>"
    using Objects_append_objects_state [of ?p "of_nat (1 + b * ?p)" x u] unfolding w_def [symmetric] u by simp
  have s'w: "s' = upd_info (\<lambda>i. i\<lparr>inactive_per_block := (inactive_per_block i)(of_nat b := ucast (allocation_size ?i)),
      inactive := inactive i + allocation_size ?i\<rparr>) w"
    unfolding s'_def fill_block_def Let_def u_def [symmetric] by (simp add: w_def per_block_def)
  have r: "block_replaced b x ?i ?i'" unfolding s'w by (subst w) (simp add: block_replaced_def u_def)
  note S = block_replaced_same [OF r] and P = present_replaced [OF I(2) r b(1)] and N = block_indexes [OF I(2) b(1)]
  have cok: "class_ok ?i' A" using class_ok_replaced [OF I(2) r b(1)] x by blast
  have nT: "(n - 1) div ?p \<noteq> b" if "n \<in> T" for n using I(3) that b(2) by (auto simp: present_def)
  have new: "present ?i' (1 + b * ?p + j)" "slot ?i' (1 + b * ?p + j) = x + of_nat j * obj_size ?i" if "j < ?p" for j
  proof -
    have "1 + b * ?p + j \<in> {1 + b * ?p..<1 + (b + 1) * ?p}" using that by simp
    then show "present ?i' (1 + b * ?p + j)" unfolding N(1) [symmetric] using P(1) x0 by simp
    show "slot ?i' (1 + b * ?p + j) = x + of_nat j * obj_size ?i" by (rule new_slots [OF r C(1) blocks_small [OF b(1)] that])
  qed
  have work: "work s' = work s" unfolding s'w by (subst w) (simp add: u_def)
  have inj: "n = m" if "present ?i' n" "present ?i' m" "slot ?i' n = slot ?i' m" for n m
    using slot_inj [OF _ cok that] I(1) by blast
  have lst: "Inactive ?i' = Inactive ?i @ map (slot ?i') [1 + b * ?p..<1 + (b + 1) * ?p]"
  proof -
    have "[1 + b * ?p..<1 + (b + 1) * ?p] = map (\<lambda>j. j + (1 + b * ?p)) [0..<?p]" by (subst map_add_upt) (simp add: algebra_simps)
    then have "map (slot ?i') [1 + b * ?p..<1 + (b + 1) * ?p] = map (\<lambda>j. x + of_nat j * obj_size ?i) [0..<?p]"
      using new(2) by (auto simp: add.commute)
    then show ?thesis unfolding s'w by (subst w) (simp add: u_def)
  qed
  have offs: "i = j" if "i < ?p" "j < ?p" "x + of_nat i * obj_size ?i = x + of_nat j * obj_size ?i" for i j
    using inj [OF new(1) [OF that(1)] new(1) [OF that(2)]] new(2) [OF that(1)] new(2) [OF that(2)] that(3) by simp
  have id': "object_id s' = object_id w" unfolding s'w by simp
  have ids: "object_id s' (slot ?i' n) = oid ?i n" if n: "present ?i' n" for n
  proof (cases "(n - 1) div ?p = b")
    case True
    define j where "j = (n - 1) mod ?p"
    have j: "j < ?p" "n = 1 + b * ?p + j"
      using True n C(1) div_mult_mod_eq [of "n - 1" ?p] by (auto simp: j_def present_def)
    have "object_id w (x + of_nat j * obj_size ?i) = Objects_Build_id (the_api ?i) (the_class ?i) 1 (ucast (of_nat (1 + b * ?p) + of_nat j :: uint32))"
      using Objects_append_objects_ids [of ?p x u j "of_nat (1 + b * ?p)"] offs j(1) unfolding u w_def by blast
    moreover have "ucast (of_nat (1 + b * ?p) + of_nat j :: uint32) = (of_nat n :: uint16)"
      unfolding of_nat_add [symmetric] j(2) [symmetric] by (rule of_nat_32_16)
    ultimately show ?thesis using new(2) [OF j(1)] j(2) id' by (simp add: oid_def)
  next
    case False
    then have pn: "present ?i n" "slot ?i' n = slot ?i n" using P n by (auto split: if_splits)
    have "slot ?i' n \<noteq> x + of_nat j * obj_size ?i" if j: "j < ?p" for j
    proof
      assume "slot ?i' n = x + of_nat j * obj_size ?i"
      then have "n = 1 + b * ?p + j" using inj [OF n new(1) [OF j]] new(2) [OF j] by simp
      then show False using False j by simp
    qed
    then have "object_id w (slot ?i' n) = object_id s (slot ?i' n)"
      using Objects_append_objects_other [of ?p "slot ?i' n" x u] unfolding u w_def by blast
    then show ?thesis using id' pn I(5) by simp
  qed
  have dis: "slot ?i' m \<noteq> slot ?i n" if "m \<in> {1 + b * ?p..<1 + (b + 1) * ?p}" "present ?i n" for m n
  proof -
    have nb: "(n - 1) div ?p \<noteq> b" using that(2) b(2) by (auto simp: present_def)
    then have "present ?i' n" "slot ?i' n = slot ?i n" using P that(2) by auto
    moreover have "(m - 1) div ?p = b" "present ?i' m" using that(1) P(1) x0 unfolding N(1) [symmetric] by auto
    ultimately show ?thesis using inj nb by metis
  qed
  have un: "{n. present ?i' n \<and> n \<notin> T} = {n. present ?i n \<and> n \<notin> T} \<union> {1 + b * ?p..<1 + (b + 1) * ?p}"
    and card: "card {n. present ?i' n \<and> n \<notin> T} = card {n. present ?i n \<and> n \<notin> T} + ?p"
    using inactive_split(1,2) [OF I(2) r b(1) nT] x0 b(2) by auto
  show ?thesis
    unfolding s'_def [symmetric]
  proof (rule objects_inv_replaced [OF inv r b(1) cok _ nT ids])
    have "inj_on (slot ?i') {1 + b * ?p..<1 + (b + 1) * ?p}"
    proof (rule inj_onI)
      fix n m
      assume "n \<in> {1 + b * ?p..<1 + (b + 1) * ?p}" "m \<in> {1 + b * ?p..<1 + (b + 1) * ?p}" and e: "slot ?i' n = slot ?i' m"
      then have "present ?i' n" "present ?i' m" using P(1) x0 unfolding N(1) [symmetric] by simp_all
      from inj [OF this e] show "n = m" .
    qed
    moreover have "slot ?i' m \<notin> set (Inactive ?i)" if "m \<in> {1 + b * ?p..<1 + (b + 1) * ?p}" for m
      using dis [OF that] unfolding I(8) by blast
    ultimately show "distinct (Inactive ?i')"
      unfolding lst distinct_append distinct_map set_map set_upt using I(7) distinct_upt by blast
    have "slot ?i' ` {n. present ?i n \<and> n \<notin> T} = slot ?i ` {n. present ?i n \<and> n \<notin> T}"
    proof (rule image_cong [OF refl])
      fix n assume "n \<in> {n. present ?i n \<and> n \<notin> T}"
      then have pn: "present ?i n" by simp
      then have "(n - 1) div ?p \<noteq> b" using b(2) by (auto simp: present_def)
      then show "slot ?i' n = slot ?i n" using P(2) pn by blast
    qed
    then show "set (Inactive ?i') = slot ?i' ` {n. present ?i' n \<and> n \<notin> T}" unfolding lst un image_Un set_append set_map set_upt I(8) by (simp only:)
    have "inactive ?i' = inactive ?i + allocation_size ?i" unfolding s'w by (subst w) (simp add: u_def)
    moreover have "card {n. present ?i' n \<and> n \<notin> T} \<le> unat (maximum ?i)" using card_present [of ?i' "\<lambda>n. n \<notin> T"] S(3) by simp
    ultimately show "unat (inactive ?i') = card {n. present ?i' n \<and> n \<notin> T}" if "auto_extend ?i"
      using I(9) [OF that] inactive_card [OF inv] card unat_16_bound [of "maximum ?i"] by (simp add: per_block_def unat_add_no_wrap)
    show "inactive_per_block ?i' = (inactive_per_block ?i)(of_nat b := (if x = NULL then 0 else ucast (allocation_size ?i)))"
      unfolding s'w by (subst w) (simp add: u_def x0)
  qed (use I(1) work in simp_all)
qed

end
