(* ===== verification/Score_Object_Extend.thy ===== *)
theory Score_Object_Extend
  imports Score_Object_Props
begin

text \<open>
  Growing a class of objects, and the operations that allocate and release objects: a class that is extended keeps
  its objects, and the invariant of a class holds after every operation.
\<close>

subsection \<open>Finding room\<close>

lemma Objects_find_block_cases:
  "\<exists>b. c \<le> b \<and> b \<le> c + k \<and> (b < c + k \<longrightarrow> blk i b = NULL)
     \<and> Objects_find_block i k (of_nat c) (of_nat (1 + c * per_block i)) = (of_nat b, of_nat (1 + b * per_block i), b = c + k)"
proof (induction k arbitrary: c)
  case (Suc k)
  show ?case
  proof (cases "blk i c = NULL")
    case True
    then show ?thesis by (intro exI [of _ c]) (simp add: blk_def)
  next
    case False
    have "(of_nat (1 + Suc c * per_block i) :: uint32) = of_nat (1 + c * per_block i) + ucast (allocation_size i)"
      unfolding ucast_of_nat per_block_def of_nat_add [symmetric] by (rule arg_cong [where f = of_nat]) simp
    moreover have "(of_nat (Suc c) :: uint32) = of_nat c + 1" by simp
    ultimately have step: "Objects_find_block i (Suc k) (of_nat c) (of_nat (1 + c * per_block i))
        = Objects_find_block i k (of_nat (Suc c)) (of_nat (1 + Suc c * per_block i))"
      using False by (simp only: Objects_find_block.simps blk_def if_False)
    obtain b where "Suc c \<le> b" "b \<le> Suc c + k" "b < Suc c + k \<longrightarrow> blk i b = NULL"
      "Objects_find_block i k (of_nat (Suc c)) (of_nat (1 + Suc c * per_block i)) = (of_nat b, of_nat (1 + b * per_block i), b = Suc c + k)"
      using Suc.IH [of "Suc c"] by blast
    then show ?thesis unfolding step by (intro exI [of _ b]) simp
  qed
qed simp

subsection \<open>Growing the tables\<close>

definition grown :: "fresh_tables \<Rightarrow> addr \<Rightarrow> Objects_Information \<Rightarrow> Objects_Information" where
  "grown fresh tables i =
     (let N = unat (maximum i); p = per_block i
      in Objects_grow_tables fresh (of_nat (blocks_of i)) 1 (of_nat (1 + N)) (of_nat (1 + N + p)) (of_nat (N + p)) tables i)"

lemma of_nat_less_16: "n < 2 ^ 32 \<Longrightarrow> m < 2 ^ 32 \<Longrightarrow> (of_nat n :: uint32) < of_nat m \<longleftrightarrow> n < m"
  by (simp add: word_less_nat_alt unat_of_nat_32)

lemma grown_maximum: "maximum (grown fresh t i) = of_nat (unat (maximum i) + per_block i)"
  by (simp add: grown_def Objects_grow_tables_def Let_def of_nat_32_16 del: of_nat_add)

lemma grown_same:
  "per_block (grown fresh t i) = per_block i" "obj_size (grown fresh t i) = obj_size i" "oid (grown fresh t i) = oid i"
  "minimum_id (grown fresh t i) = minimum_id i" "auto_extend (grown fresh t i) = auto_extend i" "Inactive (grown fresh t i) = Inactive i"
  "inactive (grown fresh t i) = inactive i" "object_blocks_at (grown fresh t i) = t"
  "allocation_size (grown fresh t i) = allocation_size i" "the_api (grown fresh t i) = the_api i" "the_class (grown fresh t i) = the_class i"
  by (simp_all add: grown_def Objects_grow_tables_def Let_def per_block_def oid_def fun_eq_iff)

lemma grown_tables:
  assumes c: "class_ok i A" and m: "unat (maximum i) \<noteq> 1" and top: "unat (maximum i) + per_block i \<le> 65535"
  shows "unat (maximum (grown fresh t i)) = unat (maximum i) + per_block i" "blocks_of (grown fresh t i) = blocks_of i + 1"
    "b \<le> blocks_of i \<Longrightarrow> blk (grown fresh t i) b = (if b = blocks_of i then NULL else blk i b)"
    "b \<le> blocks_of i \<Longrightarrow> inactive_per_block (grown fresh t i) (of_nat b) = (if b = blocks_of i then 0 else inactive_per_block i (of_nat b))"
    "n \<le> unat (maximum i) + per_block i \<Longrightarrow> local_table i 0 = NULL \<Longrightarrow>
       local_table (grown fresh t i) (of_nat n) = (if n \<le> unat (maximum i) then local_table i (of_nat n) else NULL)"
proof -
  note C = class_okD [OF c]
  let ?N = "unat (maximum i)" and ?B = "blocks_of i"
  have NB: "?N = ?B * per_block i" using C(2) by (simp add: blocks_of_def)
  have B16: "?B \<le> 65535" using NB C(1) top by (metis le_trans le_add1 mult_le_mono2 nat_mult_1_right Suc_leI One_nat_def)
  have mx: "ucast (maximum i) = (of_nat ?N :: uint32)" by (rule ucast_of_nat)
  show M: "unat (maximum (grown fresh t i)) = ?N + per_block i"
    using top by (simp add: grown_maximum unat_of_nat take_bit_nat_eq_self_iff del: of_nat_add)
  show "blocks_of (grown fresh t i) = ?B + 1" unfolding blocks_of_def grown_same(1) M using C(1) by (simp add: div_add_self2)
  have gt: "(1 :: uint32) < ucast (maximum i) \<longleftrightarrow> 0 < ?N" using m by (auto simp: word_less_nat_alt)
  have zero: "?N = 0 \<Longrightarrow> ?B = 0" by (simp add: blocks_of_def)
  show "blk (grown fresh t i) b = (if b = ?B then NULL else blk i b)" if "b \<le> ?B"
    using that B16 gt zero of_nat_eq_16 [of b ?B] of_nat_less_16 [of b ?B]
    by (auto simp: blk_def grown_def Objects_grow_tables_def Let_def split: if_splits)
  show "inactive_per_block (grown fresh t i) (of_nat b) = (if b = ?B then 0 else inactive_per_block i (of_nat b))" if "b \<le> ?B"
    using that B16 gt zero of_nat_eq_16 [of b ?B] of_nat_less_16 [of b ?B]
    by (auto simp: grown_def Objects_grow_tables_def Let_def split: if_splits)
  show "local_table (grown fresh t i) (of_nat n) = (if n \<le> ?N then local_table i (of_nat n) else NULL)"
    if n: "n \<le> ?N + per_block i" and z: "local_table i 0 = NULL"
  proof -
    have lo: "(of_nat (1 + ?N) :: uint32) \<le> of_nat n \<longleftrightarrow> ?N < n"
      using of_nat_less_16 [of n "1 + ?N"] n top by (simp add: not_less [symmetric] del: of_nat_add of_nat_Suc) linarith
    have hi: "(of_nat n :: uint32) < of_nat (1 + ?N + per_block i)"
      using of_nat_less_16 [of n "1 + ?N + per_block i"] n top by simp
    have old: "(of_nat n :: uint32) < ucast (maximum i) + 1 \<longleftrightarrow> n \<le> ?N"
      using of_nat_less_16 [of n "?N + 1"] n top unfolding mx by (simp add: less_Suc_eq_le add.commute)
    have one: "(of_nat n :: uint32) < 1 \<longleftrightarrow> n = 0" using of_nat_less_16 [of n 1] n top by simp
    show ?thesis
      using lo hi old one gt z unfolding grown_def Objects_grow_tables_def Let_def by (auto split: if_splits)
  qed
qed

lemma grown_present:
  assumes c: "class_ok i A" and m: "unat (maximum i) \<noteq> 1" and top: "unat (maximum i) + per_block i \<le> 65535"
  shows "present (grown fresh t i) = present i" "present i n \<Longrightarrow> slot (grown fresh t i) n = slot i n"
proof -
  note C = class_okD [OF c] and G = grown_tables [OF c m top, where fresh = fresh and t = t]
  have NB: "unat (maximum i) = blocks_of i * per_block i" using C(2) by (simp add: blocks_of_def)
  have lt: "(n - 1) div per_block i < blocks_of i" if "1 \<le> n" "n \<le> unat (maximum i)" for n
    using that NB by (intro less_mult_imp_div_less) simp
  have eq: "(n - 1) div per_block i = blocks_of i" if "unat (maximum i) < n" "n \<le> unat (maximum i) + per_block i" for n
    using that NB C(1) by (intro div_nat_eqI) (simp_all add: algebra_simps)
  have "present (grown fresh t i) n \<longleftrightarrow> present i n" for n
  proof (cases "n \<le> unat (maximum i)")
    case True
    then show ?thesis using lt [of n] G(3) [of "(n - 1) div per_block i"] unfolding present_def G(1) grown_same by auto
  next
    case False
    then show ?thesis using eq [of n] G(3) [of "blocks_of i"] unfolding present_def G(1) grown_same by auto
  qed
  then show "present (grown fresh t i) = present i" by blast
  show "slot (grown fresh t i) n = slot i n" if p: "present i n"
    using G(3) present_block [OF c p] by (simp add: slot_def grown_same)
qed

lemma grown_inv:
  assumes inv: "objects_inv s A T O'" and m: "unat (maximum (info s)) \<noteq> 1" and top: "unat (maximum (info s)) + per_block (info s) \<le> 65535"
    and t: "(t, k) \<in> A" "\<And>b. b < blocks_of (info s) \<Longrightarrow> blk (info s) b \<noteq> t"
  shows "objects_inv (s\<lparr>info := grown fresh t (info s)\<rparr>) A T O'"
proof -
  note I = objects_invD [OF inv] and C = class_okD [OF objects_invD(2) [OF inv]]
  let ?i = "info s" and ?g = "grown fresh t (info s)"
  note G = grown_tables [OF I(2) m top, where fresh = fresh and t = t] and P = grown_present [OF I(2) m top, where fresh = fresh and t = t] and S = grown_same [of fresh t ?i]
  have t0: "t \<noteq> NULL" using heap_ws.inside [OF I(1) t(1)] by simp
  have tab0: "local_table ?i 0 = NULL" using I(6) [of 0] I(3,4) by (auto simp: present_def)
  have "class_ok ?g A"
    unfolding class_ok_def G(1,2) S
  proof (intro conjI allI impI)
    show "per_block ?i dvd unat (maximum ?i) + per_block ?i" using C(2) by simp
    show "t = NULL \<longleftrightarrow> maximum ?g = 0"
      using t0 G(1) C(1) by (metis add_is_0 less_numeral_extra(3) unat_0)
    fix b assume b: "b < blocks_of ?i + 1"
    show "\<exists>k. (blk ?g b, k) \<in> A \<and> per_block ?i * unat (obj_size ?i) \<le> unat k" if "blk ?g b \<noteq> NULL"
      using that C(7) [of b] G(3) [of b] b by (auto split: if_splits)
    show "b = c" if "c < blocks_of ?i + 1" "blk ?g b \<noteq> NULL \<and> blk ?g b = blk ?g c" for c
      using that C(8) [of b c] G(3) [of b] G(3) [of c] b by (auto split: if_splits)
    show "blk ?g b \<noteq> t" if "t \<noteq> NULL" using t(2) [of b] G(3) [of b] b that by (auto split: if_splits)
  qed (use C t in auto)
  moreover have "unat (inactive_per_block ?g (of_nat b)) = card {n. present ?i n \<and> n \<notin> T \<and> (n - 1) div per_block ?i = b}"
    if "auto_extend ?i" "b < blocks_of ?i + 1" for b
  proof (cases "b = blocks_of ?i")
    case True
    then have none: "{n. present ?i n \<and> n \<notin> T \<and> (n - 1) div per_block ?i = b} = {}"
      using present_block [OF I(2)] by (metis (mono_tags, lifting) empty_Collect_eq less_irrefl)
    show ?thesis unfolding none using True G(4) [of b] by simp
  next
    case False
    then show ?thesis using that I(10) [of b] G(4) [of b] by simp
  qed
  moreover have "local_table ?g (of_nat n) = (if n \<in> O' then slot ?g n else NULL)" if "n \<le> unat (maximum ?i) + per_block ?i" for n
  proof -
    have "n \<le> unat (maximum ?i)" "slot ?g n = slot ?i n" if "n \<in> O'" using that I(3,4) P(2) by (auto simp: present_def)
    then show ?thesis using G(5) [OF that tab0] I(6) [of n] by auto
  qed
  moreover have "slot ?g ` {n. present ?i n \<and> n \<notin> T} = slot ?i ` {n. present ?i n \<and> n \<notin> T}" using P(2) by (intro image_cong) auto
  ultimately show ?thesis using I P(2) by (simp add: objects_inv_def G(1,2) S P(1))
qed

subsection \<open>Extending a class\<close>

text \<open>The routine with its indexes as numbers: \<open>b\<close> is the first block without objects.\<close>

definition extend_with :: "fresh_tables \<Rightarrow> nat \<Rightarrow> Objects_State \<Rightarrow> Objects_State outcome" where
  "extend_with fresh b s =
     (let i = info s; alloc = (if auto_extend i then Workspace_Allocate else Workspace_Allocate_or_fatal_error)
      in if unat (maximum i) + per_block i > 65535 then Done s
         else outcome_bind (alloc (work s) (ucast (allocation_size i) * obj_size i))
           (\<lambda>(ws, x). if x = NULL then Done (s\<lparr>work := ws\<rparr>)
              else if b = blocks_of i
              then outcome_bind (alloc ws (Objects_tables_size (of_nat (blocks_of i) + 1) (ucast (maximum i) + ucast (allocation_size i)) 1))
                (\<lambda>(ws, t). if t = NULL then Done (s\<lparr>work := Workspace_Free ws x\<rparr>)
                    else Done (fill_block b x (s\<lparr>info := grown fresh t i, work := Workspace_Free ws (object_blocks_at i)\<rparr>)))
              else Done (fill_block b x (s\<lparr>work := ws\<rparr>))))"

lemma extend_limit: "(ucast (m :: uint16) + ucast (a :: uint16) > (0xffff :: uint32)) \<longleftrightarrow> unat m + unat a > 65535"
proof -
  have "unat (ucast m + ucast a :: uint32) = unat m + unat a"
    using unat_16_bound [of m] unat_16_bound [of a] by (subst unat_add_no_wrap) simp_all
  then show ?thesis by (simp add: word_less_nat_alt)
qed

lemma Objects_Extend_information_form:
  assumes c: "class_ok (info s) A"
  obtains b where "b \<le> blocks_of (info s)" "b < blocks_of (info s) \<Longrightarrow> blk (info s) b = NULL"
    "Objects_Extend_information fresh s = extend_with fresh b s"
proof -
  note C = class_okD [OF c]
  let ?i = "info s" and ?B = "blocks_of (info s)" and ?p = "per_block (info s)"
  have one: "ucast (Objects_Get_index (minimum_id ?i)) = (1 :: uint32)" using C(5) by (simp add: oid_def)
  have bc: "(if object_blocks_at ?i = NULL then 0 else ucast (maximum ?i) div ucast (allocation_size ?i)) = (of_nat ?B :: uint32)"
  proof (cases "object_blocks_at ?i = NULL")
    case True
    then show ?thesis using C(6) by (simp add: blocks_of_def)
  next
    case False
    have "(ucast (maximum ?i) div ucast (allocation_size ?i) :: uint32) = of_nat (unat (ucast (maximum ?i) div ucast (allocation_size ?i) :: uint32))"
      by simp
    then show ?thesis using False unfolding blocks_of_def per_block_def unat_div_word unat_ucast_16 by simp
  qed
  have "?B \<le> unat (maximum ?i)" by (simp add: blocks_of_def)
  then have B: "unat (of_nat ?B :: uint32) = ?B" using unat_16_bound [of "maximum ?i"] by (intro unat_of_nat_32) simp
  obtain b where b: "b \<le> ?B" "b < ?B \<longrightarrow> blk ?i b = NULL"
    "Objects_find_block ?i ?B 0 1 = (of_nat b, of_nat (1 + b * ?p), b = ?B)"
    using Objects_find_block_cases [of 0 ?B ?i] by auto
  have NB: "unat (maximum ?i) = ?B * ?p" using C(2) by (simp add: blocks_of_def)
  have p: "ucast (allocation_size ?i) = (of_nat ?p :: uint32)" "ucast (maximum ?i) = (of_nat (unat (maximum ?i)) :: uint32)"
    unfolding per_block_def by (rule ucast_of_nat)+
  have g: "Objects_grow_tables fresh (of_nat ?B) 1 (of_nat (1 + ?B * ?p)) (of_nat (1 + ?B * ?p) + ucast (allocation_size ?i))
      (ucast (maximum ?i) + ucast (allocation_size ?i)) t ?i = grown fresh t ?i" for t
    unfolding grown_def Let_def NB [symmetric] p of_nat_add [symmetric] by simp
  have gs: "(upd_info (Objects_grow_tables fresh (of_nat ?B) 1 (of_nat (1 + ?B * ?p)) (of_nat (1 + ?B * ?p) + ucast (allocation_size ?i))
      (ucast (maximum ?i) + ucast (allocation_size ?i)) t) (s\<lparr>work := w\<rparr>))\<lparr>work := w'\<rparr> = s\<lparr>info := grown fresh t ?i, work := w'\<rparr>" for t w w'
    using g [of t] by (simp del: of_nat_add of_nat_mult of_nat_Suc One_nat_def)
  have fin: "upd_info (\<lambda>i. i\<lparr>inactive_per_block := (inactive_per_block i)(of_nat b := ucast (allocation_size i)), inactive := inactive i + allocation_size i\<rparr>)
      (Objects_append_objects ?p (of_nat (1 + b * ?p)) x (upd_info (\<lambda>i. i\<lparr>object_blocks := (object_blocks i)(of_nat b := x)\<rparr>) s1)) = fill_block b x s1"
    if "allocation_size (info s1) = allocation_size ?i" for b x s1
  proof -
    have "allocation_size (info (Objects_append_objects k y x u)) = allocation_size (info u)" for k y u
      by (subst Objects_append_objects_state) simp
    then show ?thesis unfolding fill_block_def Let_def per_block_def that by (simp add: that)
  qed
  have double: "s\<lparr>work := w, work := w'\<rparr> = s\<lparr>work := w'\<rparr>" for w w' by simp
  have al: "allocation_size (info (s\<lparr>info := grown fresh t ?i, work := w\<rparr>)) = allocation_size ?i" "allocation_size (info (s\<lparr>work := w\<rparr>)) = allocation_size ?i" for t w
    by (simp_all add: grown_same)
  have "Objects_Extend_information fresh s = extend_with fresh b s"
  proof (cases "b = ?B")
    case True
    show ?thesis
      unfolding Objects_Extend_information_def extend_with_def Let_def one bc B b(3) prod.case extend_limit True
      unfolding per_block_def [symmetric] gs by (simp only: if_True simp_thms fin al double)
  next
    case False
    show ?thesis
      unfolding Objects_Extend_information_def extend_with_def Let_def one bc B b(3) prod.case extend_limit
      unfolding per_block_def [symmetric] by (simp only: if_False simp_thms False fin al)
  qed
  then show ?thesis using that b by blast
qed

text \<open>What an extension may change: nothing but the workspace, or one more block of inactive objects.\<close>

definition extended :: "Objects_State \<Rightarrow> Objects_State \<Rightarrow> nat set \<Rightarrow> bool" where
  "extended s s' T \<longleftrightarrow> info s' = info s \<and> object_id s' = object_id s
     \<or> length (Inactive (info s')) = length (Inactive (info s)) + per_block (info s) \<and> auto_extend (info s') = auto_extend (info s)
       \<and> obj_size (info s') = obj_size (info s) \<and> per_block (info s') = per_block (info s) \<and> oid (info s') = oid (info s)
       \<and> (\<forall>n \<in> T. slot (info s') n = slot (info s) n)"

lemma fill_block_info:
  "info (fill_block b x s) = (info s)\<lparr>object_blocks := (object_blocks (info s))(of_nat b := x),
     Inactive := Inactive (info s) @ map (\<lambda>j. x + of_nat j * obj_size (info s)) [0..<per_block (info s)],
     inactive_per_block := (inactive_per_block (info s))(of_nat b := ucast (allocation_size (info s))),
     inactive := inactive (info s) + allocation_size (info s)\<rparr>"
  unfolding fill_block_def Let_def by (subst Objects_append_objects_state) (simp add: per_block_def)

lemma fill_block_extended:
  assumes "objects_inv s A T O'" "b < blocks_of (info s)" "blk (info s) b = NULL"
  shows "extended s (fill_block b x s) T"
proof -
  note I = objects_invD [OF assms(1)]
  have r: "block_replaced b x (info s) (info (fill_block b x s))" by (simp add: block_replaced_def fill_block_info)
  have "slot (info (fill_block b x s)) n = slot (info s) n" if "n \<in> T" for n
  proof -
    have "present (info s) n" using I(3) that by blast
    moreover have "(n - 1) div per_block (info s) \<noteq> b" using calculation assms(3) by (auto simp: present_def)
    ultimately show ?thesis using present_replaced(2) [OF I(2) r assms(2)] by blast
  qed
  moreover have "length (Inactive (info (fill_block b x s))) = length (Inactive (info s)) + per_block (info s)"
    by (simp add: fill_block_info)
  ultimately show ?thesis using block_replaced_same(1,4,5,8) [OF r] unfolding extended_def by blast
qed

lemma Workspace_Allocate_cases:
  assumes "heap_rep h A"
  obtains (fatal) "\<not> c" "(if c then Workspace_Allocate else Workspace_Allocate_or_fatal_error) h z = Fatal INTERNAL_ERROR_WORKSPACE_ALLOCATION"
    | (null) h' where "(if c then Workspace_Allocate else Workspace_Allocate_or_fatal_error) h z = Done (h', NULL)" "heap_rep h' A"
    | (mem) h' a k where "(if c then Workspace_Allocate else Workspace_Allocate_or_fatal_error) h z = Done (h', a)" "a \<noteq> NULL"
        "unat z \<le> unat k" "(a, k) \<notin> A" "heap_rep h' (insert (a, k) A)"
proof -
  obtain h' a where h: "Workspace_Allocate h z = Done (h', a)" using heap_ws.alloc_done [OF assms] by blast
  have f: "Workspace_Allocate_or_fatal_error h z = (if a = NULL then Fatal INTERNAL_ERROR_WORKSPACE_ALLOCATION else Done (h', a))"
    using h by (simp add: Workspace_Allocate_def Workspace_Allocate_or_fatal_error_def split: option.splits)
  show ?thesis
  proof (cases "a = NULL")
    case True
    then show ?thesis using fatal null heap_ws.alloc_null [OF assms] h f by (cases c) simp_all
  next
    case False
    obtain k where "unat z \<le> unat k" "(a, k) \<notin> A" "heap_rep h' (insert (a, k) A)" using heap_ws.alloc_some [OF assms h False] by blast
    then show ?thesis using mem False h f by (cases c) simp_all
  qed
qed

lemma extend_size:
  assumes "class_ok i A"
  shows "unat (ucast (allocation_size i) * obj_size i) = per_block i * unat (obj_size i)"
  using class_okD(4) [OF assms] by (subst unat_mult_no_wrap) (simp_all add: per_block_def)

text \<open>A block of memory that is not one of the class is none of its blocks and not its tables.\<close>

lemma class_ok_fresh:
  assumes "class_ok i A" "\<And>k. (x, k) \<notin> A"
  shows "\<And>b. b < blocks_of i \<Longrightarrow> x \<noteq> NULL \<Longrightarrow> blk i b \<noteq> x" "x \<noteq> NULL \<Longrightarrow> object_blocks_at i \<noteq> x"
  using class_okD(7,9) [OF assms(1)] assms(2) by blast+

lemma heap_fresh:
  assumes "heap_rep h (insert (x, k) A)" "(x, k) \<notin> A"
  shows "(x, k') \<notin> A"
  using heap_ws.unique [OF assms(1), of x k k'] assms(2) by auto

text \<open>Extension with new tables \<open>t\<close>: the old tables are released and the new block \<open>x\<close> becomes the last one.\<close>

lemma extend_grown:
  assumes inv: "objects_inv s A T O'" and m: "unat (maximum (info s)) \<noteq> 1" and top: "unat (maximum (info s)) + per_block (info s) \<le> 65535"
    and t: "t \<noteq> NULL" "heap_rep h (insert (t, l) (insert (x, k) A))" "(t, l) \<notin> insert (x, k) A"
    and x: "(x, k) \<notin> A" "per_block (info s) * unat (obj_size (info s)) \<le> unat k"
    and s'_def: "s' = s\<lparr>info := grown fresh t (info s), work := Workspace_Free h (object_blocks_at (info s))\<rparr>"
  shows "\<exists>A'. objects_inv (fill_block (blocks_of (info s)) x s') A' T O' \<and> extended s (fill_block (blocks_of (info s)) x s') T"
proof -
  note I = objects_invD [OF inv] and C = class_okD [OF objects_invD(2) [OF inv]]
  let ?i = "info s" and ?g = "grown fresh t (info s)" and ?at = "object_blocks_at (info s)" and ?B = "insert (t, l) (insert (x, k) A)"
  note G = grown_tables [OF I(2) m top, where fresh = fresh and t = t] and P = grown_present [OF I(2) m top, where fresh = fresh and t = t]
  have x0: "x \<noteq> NULL" using heap_ws.inside [OF t(2), of x k] by simp
  have tx: "t \<noteq> x" using heap_ws.unique [OF t(2), of x k l] t(3) by auto
  have tA: "(t, k') \<notin> A" for k' using heap_fresh [OF t(2) t(3), of k'] by simp
  have xA: "(x, k') \<notin> A" for k' using heap_ws.unique [OF t(2), of x k k'] x(1) by auto
  have out: "blk ?i b \<noteq> t" "blk ?i b \<noteq> x" if "b < blocks_of ?i" for b
    using class_ok_fresh(1) [OF I(2) tA that t(1)] class_ok_fresh(1) [OF I(2) xA that x0] by simp_all
  have at: "?at \<noteq> t" "?at \<noteq> x" using class_ok_fresh(2) [OF I(2) tA t(1)] class_ok_fresh(2) [OF I(2) xA x0] by simp_all
  define s3 where "s3 = s\<lparr>work := h, info := ?g\<rparr>"
  have i2: "objects_inv (s\<lparr>work := h\<rparr>) ?B T O'" by (rule objects_inv_work [OF inv t(2)]) blast
  have i3: "objects_inv s3 ?B T O'"
    using grown_inv [OF i2, of t l fresh] m top out(1) by (simp add: s3_def)
  obtain A' where i4: "objects_inv s' A' T O'" "(x, k) \<in> A'"
  proof (cases "?at = NULL")
    case True
    have "heap_rep (Workspace_Free h NULL) ?B" by (rule heap_ws.release_null [OF t(2)])
    then have "objects_inv s' ?B T O'" using objects_inv_work [OF i3 _ order_refl] True by (simp add: s3_def s'_def)
    then show ?thesis using that by blast
  next
    case False
    obtain k0 where k0: "(?at, k0) \<in> A" using C(9) [OF False] by blast
    have "blk ?g b \<noteq> ?at" if "b < blocks_of ?i + 1" for b
      using G(3) [of b] C(10) [OF False, of b] False that by (auto split: if_splits)
    then have "objects_inv (s3\<lparr>work := Workspace_Free (work s3) ?at\<rparr>) (?B - {(?at, k0)}) T O'"
      using objects_inv_release [OF i3, of ?at k0] k0 at(1) G(2) by (simp add: s3_def grown_same)
    moreover have "s3\<lparr>work := Workspace_Free (work s3) ?at\<rparr> = s'" by (simp add: s3_def s'_def)
    ultimately show ?thesis using that [of "?B - {(?at, k0)}"] at(2) by simp
  qed
  have last: "blocks_of ?i < blocks_of (info s')" "blk (info s') (blocks_of ?i) = NULL" using G(2) G(3) [of "blocks_of ?i"] by (simp_all add: s'_def)
  have "objects_inv (fill_block (blocks_of ?i) x s') A' T O'"
  proof (rule fill_block_inv [OF i4(1) last i4(2)])
    show "per_block (info s') * unat (obj_size (info s')) \<le> unat k" using x(2) by (simp add: s'_def grown_same)
    show "blk (info s') c \<noteq> x" if "c < blocks_of (info s')" for c
      using that G(2) G(3) [of c] out(2) [of c] x0 by (auto simp: s'_def split: if_splits)
    show "object_blocks_at (info s') \<noteq> x" using tx by (simp add: s'_def grown_same)
  qed
  moreover have "extended s (fill_block (blocks_of ?i) x s') T"
  proof -
    define F where "F = fill_block (blocks_of ?i) x s'"
    have q: "Inactive (info s') = Inactive ?i" "auto_extend (info s') = auto_extend ?i" "obj_size (info s') = obj_size ?i"
      "per_block (info s') = per_block ?i" "oid (info s') = oid ?i" by (simp_all add: s'_def grown_same)
    have "length (Inactive (info F)) = length (Inactive ?i) + per_block ?i" using q by (simp add: F_def fill_block_info)
    moreover have "extended s' F T" unfolding F_def by (rule fill_block_extended [OF i4(1) last])
    moreover have "slot (info s') n = slot ?i n" if "n \<in> T" for n using P(2) I(3) that by (auto simp: s'_def)
    ultimately show ?thesis using q C(1) unfolding F_def [symmetric] extended_def by auto
  qed
  ultimately show ?thesis by blast
qed

lemma Objects_Extend_information_inv:
  assumes inv: "objects_inv s A T O'" and m: "unat (maximum (info s)) \<noteq> 1"
  shows "(\<exists>s' A'. Objects_Extend_information fresh s = Done s' \<and> objects_inv s' A' T O' \<and> extended s s' T)
    \<or> \<not> auto_extend (info s) \<and> Objects_Extend_information fresh s = Fatal INTERNAL_ERROR_WORKSPACE_ALLOCATION"
proof -
  note I = objects_invD [OF inv] and C = class_okD [OF objects_invD(2) [OF inv]]
  let ?i = "info s" and ?al = "if auto_extend (info s) then Workspace_Allocate else Workspace_Allocate_or_fatal_error"
  obtain b where b: "b \<le> blocks_of ?i" "b < blocks_of ?i \<Longrightarrow> blk ?i b = NULL" and e: "Objects_Extend_information fresh s = extend_with fresh b s"
    using Objects_Extend_information_form [OF I(2)] by blast
  have same: "objects_inv (s\<lparr>work := h\<rparr>) B T O' \<and> extended s (s\<lparr>work := h\<rparr>) T" if "heap_rep h B" "A \<subseteq> B" for h B
    using objects_inv_work [OF inv that] by (simp add: extended_def)
  show ?thesis
  proof (cases "unat (maximum ?i) + per_block ?i > 65535")
    case True
    then show ?thesis using inv unfolding e extend_with_def by (auto simp: extended_def)
  next
    case top: False
    define sz where "sz = ucast (allocation_size ?i) * obj_size ?i"
    show ?thesis
    using I(1) proof (cases rule: Workspace_Allocate_cases [where c = "auto_extend ?i" and z = sz])
      case fatal
      then show ?thesis using top unfolding e extend_with_def by (simp add: Let_def sz_def)
    next
      case (null h)
      have "Objects_Extend_information fresh s = Done (s\<lparr>work := h\<rparr>)"
        using null(1) top unfolding e extend_with_def by (simp add: Let_def sz_def)
      then show ?thesis using same [OF null(2)] by blast
    next
      case (mem h x k)
      have x: "(x, k') \<notin> A" for k' by (rule heap_fresh [OF mem(5,4)])
      have k: "per_block ?i * unat (obj_size ?i) \<le> unat k" using mem(3) extend_size [OF I(2)] by (simp add: sz_def)
      note fresh_x = class_ok_fresh [OF I(2) x] mem(2)
      show ?thesis
      proof (cases "b = blocks_of ?i")
        case False
        define s1 where "s1 = s\<lparr>work := h\<rparr>"
        have "Objects_Extend_information fresh s = Done (fill_block b x s1)"
          using mem(1,2) top False unfolding e extend_with_def s1_def by (simp add: Let_def sz_def)
        moreover have i1: "objects_inv s1 (insert (x, k) A) T O'" unfolding s1_def using same [OF mem(5)] by blast
        moreover have bb: "b < blocks_of (info s1)" "blk (info s1) b = NULL" using b False by (simp_all add: s1_def)
        moreover have "objects_inv (fill_block b x s1) (insert (x, k) A) T O'"
          by (rule fill_block_inv [OF i1 bb, of x k]) (use k fresh_x in \<open>auto simp: s1_def\<close>)
        moreover have "extended s (fill_block b x s1) T" using fill_block_extended [OF i1 bb, of x] by (simp add: extended_def s1_def)
        ultimately show ?thesis by blast
      next
        case True
        define sz' where "sz' = Objects_tables_size (of_nat (blocks_of ?i) + 1) (ucast (maximum ?i) + ucast (allocation_size ?i)) 1"
        show ?thesis
        using mem(5) proof (cases rule: Workspace_Allocate_cases [where c = "auto_extend ?i" and z = sz'])
          case fatal
          then show ?thesis using mem(1,2) top True unfolding e extend_with_def by (simp add: Let_def sz_def sz'_def)
        next
          case null': (null h')
          have "Objects_Extend_information fresh s = Done (s\<lparr>work := Workspace_Free h' x\<rparr>)"
            using mem(1,2) null'(1) top True unfolding e extend_with_def by (simp add: Let_def sz_def sz'_def)
          moreover have "heap_rep (Workspace_Free h' x) A" using heap_ws.release_some [OF null'(2), of x k] mem(4) by simp
          ultimately show ?thesis using same by blast
        next
          case mem': (mem h' t l)
          define s4 where "s4 = s\<lparr>info := grown fresh t ?i, work := Workspace_Free h' (object_blocks_at ?i)\<rparr>"
          have "Objects_Extend_information fresh s = Done (fill_block b x s4)"
            using mem(1,2) mem'(1,2) top True unfolding e extend_with_def s4_def by (simp add: Let_def sz_def sz'_def)
          moreover have "\<exists>A'. objects_inv (fill_block b x s4) A' T O' \<and> extended s (fill_block b x s4) T"
            unfolding True by (rule extend_grown [OF inv m _ mem'(2,5,4) mem(4) k s4_def]) (use top in simp)
          ultimately show ?thesis by blast
        qed
      qed
    qed
  qed
qed

subsection \<open>Allocation and release\<close>

lemma Objects_take:
  assumes inv: "objects_inv s A T O'" and hd: "Inactive (info s) = x # xs"
  obtains n where "n \<notin> T" "present (info s) n" "x = slot (info s) n" "x \<noteq> NULL" "object_id s x = oid (info s) n"
    "Objects_block_of (upd_info (\<lambda>i. i\<lparr>Inactive := xs\<rparr>) s) x = of_nat ((n - 1) div per_block (info s))"
proof -
  note I = objects_invD [OF inv]
  have "x \<in> slot (info s) ` {n. present (info s) n \<and> n \<notin> T}" using I(8) hd by auto
  then obtain n where n: "present (info s) n" "n \<notin> T" "x = slot (info s) n" by auto
  have "Objects_block_of (upd_info (\<lambda>i. i\<lparr>Inactive := xs\<rparr>) s) x = Objects_block_of s x" by (simp add: Objects_block_of_def)
  then show ?thesis
    using that n I(5) [OF n(1)] slot_number(3) [OF I(1,2) n(1)] object_block_number(1) [OF inv n(1)] by metis
qed

text \<open>Allocation once the inactive chain of the class has been looked at.\<close>

definition take_inactive :: "Objects_State \<Rightarrow> Objects_State \<times> addr" where
  "take_inactive s = (let (s, x) = Objects_Get_inactive s in
     (if auto_extend (info s) \<and> x \<noteq> NULL then upd_info (count_inactive (Objects_block_of s x) False) s else s, x))"

lemma take_inactive_inv:
  assumes inv: "objects_inv s A T O'"
  shows "case take_inactive s of (s', x) \<Rightarrow> (if x = NULL then s' = s \<and> Inactive (info s) = []
      else (\<exists>n. n \<notin> T \<and> x = slot (info s) n \<and> object_id s' x = oid (info s) n \<and> objects_inv s' A (insert n T) O'
        \<and> slot (info s') = slot (info s) \<and> oid (info s') = oid (info s)))"
proof (cases "Inactive (info s)")
  case Nil
  then show ?thesis by (simp add: take_inactive_def Objects_Get_inactive_def)
next
  case (Cons x xs)
  obtain n where n: "n \<notin> T" "present (info s) n" "x = slot (info s) n" "x \<noteq> NULL" "object_id s x = oid (info s) n"
    and b: "Objects_block_of (upd_info (\<lambda>i. i\<lparr>Inactive := xs\<rparr>) s) x = of_nat ((n - 1) div per_block (info s))"
    by (rule Objects_take [OF inv Cons])
  define s' where "s' = s\<lparr>info := (if auto_extend (info s) then count_inactive (of_nat ((n - 1) div per_block (info s))) False else (\<lambda>i. i))
        (info s\<lparr>Inactive := xs\<rparr>)\<rparr>"
  have e: "take_inactive s = (s', x)"
    using Cons n(4) b by (simp add: take_inactive_def Objects_Get_inactive_def s'_def)
  have "objects_inv s' A (insert n T) O'" by (rule objects_inv_take [OF inv _ n(2,1) s'_def]) (use Cons n(3) in simp)
  moreover have "slot (info s') = slot (info s)" "oid (info s') = oid (info s)" "object_id s' = object_id s"
    by (simp_all add: s'_def count_inactive_def)
  ultimately show ?thesis unfolding e using n by auto
qed

lemma Objects_Allocate_form:
  "Objects_Allocate fresh s = (if obj_size (info s) = 0 then Done (s, NULL)
     else if auto_extend (info s) \<and> (Inactive (info s) = [] \<or> hd (Inactive (info s)) = NULL)
     then outcome_bind (Objects_Extend_information fresh (fst (Objects_Get_inactive s)))
       (\<lambda>s'. Done (case Objects_Get_inactive s' of (s', x) \<Rightarrow> (if x \<noteq> NULL then upd_info (count_inactive (Objects_block_of s' x) False) s' else s', x)))
     else Done (take_inactive s))"
  by (cases "Inactive (info s)"; cases "Objects_Extend_information fresh (fst (Objects_Get_inactive s))")
    (auto simp: Objects_Allocate_def Objects_Allocate_unprotected_def take_inactive_def Objects_Get_inactive_def count_inactive_def Let_def
      split: prod.splits list.splits)


text \<open>C26: releasing an allocated object that is not open keeps the class well formed and every other allocated object
  where it is, with its identifier, also when the class shrinks because of it; the released object is no longer allocated.\<close>

theorem Objects_Free_correct:
  assumes "objects_inv s A T O'" "n \<in> T" "n \<notin> O'"
  shows "\<exists>A'. objects_inv (Objects_Free (slot (info s) n) s) A' (T - {n}) O'
    \<and> (\<forall>m \<in> T - {n}. slot (info (Objects_Free (slot (info s) n) s)) m = slot (info s) m
        \<and> object_id (Objects_Free (slot (info s) n) s) (slot (info s) m) = oid (info s) m)"
proof -
  note I = objects_invD [OF assms(1)]
  let ?x = "slot (info s) n"
  have pn: "present (info s) n" using I(3) assms(2) by blast
  define s1 where "s1 = s\<lparr>info := (if auto_extend (info s) then count_inactive (of_nat ((n - 1) div per_block (info s))) True else (\<lambda>i. i))
        (info s\<lparr>Inactive := Inactive (info s) @ [?x]\<rparr>)\<rparr>"
  have inv1: "objects_inv s1 A (T - {n}) O'" by (rule objects_inv_put [OF assms s1_def])
  have same: "slot (info s1) = slot (info s)" "oid (info s1) = oid (info s)" "maximum (info s1) = maximum (info s)" "auto_extend (info s1) = auto_extend (info s)"
    by (simp_all add: s1_def count_inactive_def)
  have b: "Objects_block_of (upd_info (\<lambda>i. i\<lparr>Inactive := Inactive i @ [?x]\<rparr>) s) ?x = of_nat ((n - 1) div per_block (info s))"
    using object_block_number(1) [OF assms(1) pn] by (simp add: Objects_block_of_def)
  have F: "Objects_Free ?x s = s1 \<or> auto_extend (info s) \<and> Objects_Free ?x s = Objects_Shrink_information s1"
    using b by (auto simp: Objects_Free_def Let_def s1_def count_inactive_def)
  have "\<exists>A'. objects_inv (Objects_Free ?x s) A' (T - {n}) O' \<and> oid (info (Objects_Free ?x s)) = oid (info s)
      \<and> (\<forall>m \<in> T - {n}. slot (info (Objects_Free ?x s)) m = slot (info s) m)"
  proof (cases "Objects_Free ?x s = s1")
    case True
    then show ?thesis using inv1 same by auto
  next
    case False
    have "maximum (info s1) \<noteq> 0" using pn same(3) by (auto simp: present_def)
    then show ?thesis using Objects_Shrink_information_inv [OF inv1] F False same by auto
  qed
  then obtain A' where A': "objects_inv (Objects_Free ?x s) A' (T - {n}) O'" "oid (info (Objects_Free ?x s)) = oid (info s)"
    "\<forall>m \<in> T - {n}. slot (info (Objects_Free ?x s)) m = slot (info s) m" by blast
  note J = objects_invD(3,5) [OF A'(1)]
  have "object_id (Objects_Free ?x s) (slot (info s) m) = oid (info s) m" if "m \<in> T - {n}" for m
    using J(1) J(2) [of m] A'(2,3) that by (metis (no_types, lifting) mem_Collect_eq subsetD)
  then show ?thesis using A' by blast
qed

subsection \<open>Initialization\<close>


subsection \<open>A class of allocation size one\<close>

lemma outcome_bind_Done: "outcome_bind r f = Done y \<longleftrightarrow> (\<exists>x. r = Done x \<and> f x = Done y)"
  by (cases r) simp_all

text \<open>C31: an unlimited class with allocation size 1 loses its tables when it grows from one object to two: the entries of its first
  object in the new tables are never written, so that the identifier of an open object denotes
  whatever the new memory happens to hold.\<close>

theorem Objects_Extend_information_single:
  assumes "objects_inv s A T O'" "maximum (info s) = 1" "allocation_size (info s) = 1" "blk (info s) 0 \<noteq> NULL"
    "Objects_Extend_information fresh s = Done s'" "maximum (info s') \<noteq> 1"
  shows "maximum (info s') = 2 \<and> blk (info s') 0 = fresh_blocks fresh 0 \<and> inactive_per_block (info s') 0 = fresh_per_block fresh 0
    \<and> Objects_Get (info s') (oid (info s) 1)
        = (if fresh_local fresh 1 = NULL then (NULL, OBJECTS_ERROR) else (fresh_local fresh 1, OBJECTS_LOCAL))"
proof -
  note I = objects_invD [OF assms(1)] and C = class_okD [OF objects_invD(2) [OF assms(1)]]
  let ?i = "info s"
  have B: "blocks_of ?i = 1" using assms(2,3) by (simp add: blocks_of_def per_block_def)
  obtain b where b: "b \<le> blocks_of ?i" "b < blocks_of ?i \<Longrightarrow> blk ?i b = NULL" and e: "Objects_Extend_information fresh s = extend_with fresh b s"
    using Objects_Extend_information_form [OF I(2)] by blast
  have "b = 1" using b B assms(4) by (cases "b = 0") auto
  then obtain x t w where s': "s' = fill_block 1 x (s\<lparr>info := grown fresh t ?i, work := w\<rparr>)"
    using assms(2,5,6) B unfolding e extend_with_def
    by (auto simp: Let_def outcome_bind_Done split: if_splits)
  show ?thesis
    using assms(2,3) C(5) unfolding s'
    by (simp add: fill_block_info grown_def Objects_grow_tables_def Let_def B per_block_def blk_def Objects_Get_def oid_def word_le_nat_alt)
qed

subsection \<open>A small class\<close>

text \<open>A workspace with two areas in use, and classes of one and two objects in it.\<close>

definition heap_two :: Heap where
  "heap_two = heap_blank\<lparr>prev_size := (\<lambda>_. 0)(4096 := 4352, 4344 := 152),
     size_and_flag := (\<lambda>_. 0)(4096 := 49, 4144 := 49, 4192 := 153, 4344 := 4096 - 4344),
     next_free := (\<lambda>_. 0)(16 := 4192, 4192 := 16), prev_free := (\<lambda>_. 0)(16 := 4192, 4192 := 16),
     page_size := 8, min_block_size := 16, area_begin := 4096, area_end := 4352, first_block := 4096, last_block := 4344\<rparr>"

lemma heap_two_rep: "heap_rep heap_two {(4104, 44), (4152, 44)}"
proof -
  have "heap_inv heap_two [4096, 4144, 4192, 4344] [4192]"
    by (simp add: heap_two_def heap_blank_def heap_inv_except_def heap_control_ok_def block_ok_def adj_def ring_def
        Heap_Is_block_in_heap_def)
  moreover have "heap_areas heap_two [4096, 4144, 4192, 4344] [4192] = {(4104, 44), (4152, 44)}"
    by (auto simp: heap_areas_def used_list_def heap_two_def heap_blank_def Heap_Block_size_def)
  ultimately show ?thesis unfolding heap_rep_def by metis
qed

definition class_two :: Objects_State where
  "class_two = \<lparr>info = \<lparr>the_api = 2, the_class = 3, minimum_id = Objects_Build_id 2 3 1 1, maximum_id = Objects_Build_id 2 3 1 2, maximum = 2,
      auto_extend = True, allocation_size = 2, obj_size = 16, local_table = (\<lambda>_. NULL), Inactive = [4120], inactive = 1,
      inactive_per_block = (\<lambda>_. 1), object_blocks = (\<lambda>_. 4104), object_blocks_at = 4152, name_length = 4\<rparr>,
    object_id = (\<lambda>a. Objects_Build_id 2 3 1 (if a = 4104 then 1 else 2)), object_name = (\<lambda>_. 0), work = heap_two\<rparr>"

definition class_one :: Objects_State where
  "class_one = class_two\<lparr>info := (info class_two)\<lparr>maximum := 1, maximum_id := Objects_Build_id 2 3 1 1, allocation_size := 1, local_table := (\<lambda>_. NULL)(1 := 4104),
      Inactive := [], inactive := 0, inactive_per_block := (\<lambda>_. 0)\<rparr>\<rparr>"

definition fresh_zero :: fresh_tables where
  "fresh_zero = \<lparr>fresh_blocks = (\<lambda>_. 0), fresh_per_block = (\<lambda>_. 0), fresh_local = (\<lambda>_. 0)\<rparr>"

lemma class_two_inv: "objects_inv class_two {(4104, 44), (4152, 44)} {1} {}"
proof -
  let ?i = "info class_two"
  have i: "per_block ?i = 2" "blocks_of ?i = 1" "\<And>b. blk ?i b = 4104" "maximum ?i = 2" "obj_size ?i = 16" "minimum_id ?i = oid ?i 1"
    "object_blocks_at ?i = 4152" "Inactive ?i = [4120]" "inactive ?i = 1" "inactive_per_block ?i = (\<lambda>_. 1)" "local_table ?i = (\<lambda>_. NULL)"
    by (simp_all add: class_two_def per_block_def blocks_of_def blk_def oid_def)
  have p: "present ?i n \<longleftrightarrow> n = 1 \<or> n = 2" for n by (auto simp: present_def i)
  have sl: "slot ?i 1 = 4104" "slot ?i 2 = 4120" by (simp_all add: slot_def i)
  have c: "class_ok ?i {(4104, 44), (4152, 44)}" by (simp add: class_ok_def i)
  have t: "{n. present ?i n \<and> n \<notin> {1}} = {2}" "{n. present ?i n \<and> n \<notin> {1} \<and> (n - 1) div 2 = 0} = {2}" by (auto simp: p)
  have o: "object_id class_two (slot ?i n) = oid ?i n" if "present ?i n" for n
  proof -
    have "object_id class_two 4104 = oid ?i 1" "object_id class_two 4120 = oid ?i 2" by (simp_all add: class_two_def oid_def)
    then show ?thesis using that sl p by auto
  qed
  show ?thesis
    unfolding objects_inv_def i t(1) using c o t(2) heap_two_rep sl p by (auto simp: class_two_def)
qed

lemma class_one_inv: "objects_inv class_one {(4104, 44), (4152, 44)} {1} {1}"
proof -
  let ?i = "info class_one"
  have i: "per_block ?i = 1" "blocks_of ?i = 1" "\<And>b. blk ?i b = 4104" "maximum ?i = 1" "obj_size ?i = 16" "minimum_id ?i = oid ?i 1"
    "object_blocks_at ?i = 4152" "Inactive ?i = []" "inactive ?i = 0" "inactive_per_block ?i = (\<lambda>_. 0)" "local_table ?i = (\<lambda>_. NULL)(1 := 4104)"
    by (simp_all add: class_one_def class_two_def per_block_def blocks_of_def blk_def oid_def)
  have p: "present ?i n \<longleftrightarrow> n = 1" for n by (auto simp: present_def i)
  have sl: "slot ?i 1 = 4104" by (simp add: slot_def i)
  have c: "class_ok ?i {(4104, 44), (4152, 44)}" by (simp add: class_ok_def i)
  have o: "object_id class_one 4104 = oid ?i 1" by (simp add: class_one_def class_two_def oid_def)
  have l: "local_table ?i (of_nat n) = (if n \<in> {1} then slot ?i n else NULL)" if "n \<le> unat (maximum ?i)" for n
  proof -
    have "n = 0 \<or> n = 1" using that by (auto simp: i)
    then show ?thesis using sl by (auto simp: i)
  qed
  have none: "{n. present ?i n \<and> n \<notin> {1}} = {}" "{n. present ?i n \<and> n \<notin> {1} \<and> Q n} = {}" for Q by (auto simp: p)
  show ?thesis
    unfolding objects_inv_def none using c o l heap_two_rep sl p by (auto simp: i class_one_def class_two_def)
qed


theorem Objects_Free_correct_witness: "\<exists>A'. objects_inv (Objects_Free 4104 class_two) A' {} {}"
proof -
  have "slot (info class_two) 1 = 4104" by (simp add: class_two_def slot_def blk_def)
  then show ?thesis using Objects_Free_correct [OF class_two_inv, of 1] by auto
qed


lemma class_one_extend: "\<exists>s'. Objects_Extend_information fresh_zero class_one = Done s' \<and> maximum (info s') = 2"
proof -
  have "(case Objects_Extend_information fresh_zero class_one of Done s' \<Rightarrow> maximum (info s') = 2 | _ \<Rightarrow> False)" by code_simp
  then show ?thesis by (auto split: outcome.splits)
qed

theorem Objects_Extend_information_single_witness:
  "Objects_Get (info class_one) (oid (info class_one) 1) = (4104, OBJECTS_LOCAL)
   \<and> (\<exists>s'. Objects_Extend_information fresh_zero class_one = Done s' \<and> Objects_Get (info s') (oid (info class_one) 1) = (NULL, OBJECTS_ERROR))"
proof -
  obtain s' where s': "Objects_Extend_information fresh_zero class_one = Done s'" "maximum (info s') = 2" using class_one_extend by blast
  have c: "maximum (info class_one) = 1" "allocation_size (info class_one) = 1" "blk (info class_one) 0 \<noteq> NULL"
    by (simp_all add: class_one_def class_two_def blk_def)
  have "Objects_Get (info class_one) (oid (info class_one) 1) = (4104, OBJECTS_LOCAL)"
    by (simp add: Objects_Get_def class_one_def class_two_def oid_def)
  then show ?thesis using Objects_Extend_information_single [OF class_one_inv c s'(1)] s' by (simp add: fresh_zero_def)
qed

theorem Objects_Open_Close_Get_witness:
  "Objects_Get (info (Objects_Open_u32 4104 0x41424344 class_two)) (oid (info class_two) 1) = (4104, OBJECTS_LOCAL)"
proof -
  have "slot (info class_two) 1 = 4104" by (simp add: class_two_def slot_def blk_def)
  then show ?thesis using Objects_Open_Close_Get [OF class_two_inv, of 1 "0x41424344"] by (simp add: Let_def)
qed

theorem Objects_Build_id_fields_witness: "Objects_Get_class (Objects_Build_id 2 7 1 42) = 7"
  using Objects_Build_id_fields [of 2 7 1 42 0] by (simp add: Let_def)

end
