(* ===== verification/Score_Object_Names.thy ===== *)
theory Score_Object_Names
  imports Score_Object_Extend
begin

unbundle bit_operations_syntax

text \<open>
  Names of objects and iteration over a class: the name of an object is the text it was given, a name denotes the open
  object with the lowest index that has it, and the iteration visits the open objects in the order of
  their indexes.
\<close>

subsection \<open>Names as text\<close>

lemma char_u32_ascii: "c < 0x80 \<Longrightarrow> char_u32 c = ucast c"
proof -
  assume "c < 0x80"
  then have "unat c < 2 ^ 7" by (simp add: word_less_nat_alt)
  then have s: "\<not> bit c 7" using bit_bound [of c 7 7] by auto
  show ?thesis
    unfolding char_u32_def
  proof (rule bit_word_eqI)
    fix k assume "k < LENGTH(32)"
    then show "bit (scast c :: uint32) k = bit (ucast c :: uint32) k"
      using s bit8 [of c k] by (cases "k < 7"; cases "k = 7") (auto simp: bit_simps)
  qed
qed

lemma Objects_Build_name_bytes:
  fixes a b c d :: uint8
  defines "w \<equiv> Objects_Build_name (ucast a) (ucast b) (ucast c) (ucast d)"
  shows "ucast (drop_bit 24 w) = a" "ucast (drop_bit 16 w) = b" "ucast (drop_bit 8 w) = c" "ucast w = d"
  unfolding w_def Objects_Build_name_def
  by (rule bit_word_eqI, auto simp: bit_simps dest: bit8)+

text \<open>For a name of printable characters in a class whose names have at least four characters, the text read back from
  an object is the first four characters of the name it was given, filled up with spaces.\<close>

theorem Objects_Set_name_text:
  assumes "\<forall>c \<in> set name. isprint c" "4 \<le> name_length (info s)" "5 \<le> len"
  shows "Objects_name_text (object_name (fst (Objects_Set_name x name s)) x) len = take 4 (name @ replicate 4 0x20)"
proof -
  define ch where "ch k = (if k < min (length name) (unat (name_length (info s))) then name ! k else 0x20)" for k
  have l4: "4 \<le> unat (name_length (info s))" using assms(2) by (simp add: word_le_nat_alt)
  have p: "isprint (ch k)" for k using assms(1) by (auto simp: ch_def isprint_def)
  then have lt: "ch k < 0x80" "ch k \<noteq> 0" for k
  proof -
    have "0x20 \<le> ch k" "ch k \<le> 0x7e" using p [of k] by (simp_all add: isprint_def)
    then show "ch k < 0x80" "ch k \<noteq> 0" by (auto simp: word_le_nat_alt word_less_nat_alt)
  qed
  have n: "object_name (fst (Objects_Set_name x name s)) x = Objects_Build_name (ucast (ch 0)) (ucast (ch 1)) (ucast (ch 2)) (ucast (ch 3))"
  proof -
    have e: "char_u32 (if k < min (length name) (unat (name_length (info s))) then name ! k else 0x20) = ucast (ch k)" for k
      using char_u32_ascii [OF lt(1)] unfolding ch_def .
    show ?thesis unfolding Objects_Set_name_def Let_def e by simp
  qed
  have "Objects_name_text (object_name (fst (Objects_Set_name x name s)) x) len = [ch 0, ch 1, ch 2, ch 3]"
    unfolding n Objects_name_text_def Let_def Objects_Build_name_bytes using lt(2) p assms(3) by simp
  also have "\<dots> = take 4 (name @ replicate 4 0x20)"
  proof -
    have "ch k = (name @ replicate 4 0x20) ! k" if "k < 4" for k using that l4 by (auto simp: ch_def nth_append)
    then have "[ch 0, ch 1, ch 2, ch 3] = map (\<lambda>k. (name @ replicate 4 0x20) ! k) [0..<4]" by (simp add: numeral_eq_Suc upt_rec)
    also have "\<dots> = take 4 (name @ replicate 4 0x20)" by (rule nth_equalityI) (simp_all del: take_append)
    finally show ?thesis .
  qed
  finally show ?thesis .
qed

text \<open>a character with its high bit set overwrites the characters before it: the conversion of the signed character to the
  32-bit name extends its sign.\<close>

theorem Objects_Set_name_sign_extension:
  assumes "0x80 \<le> c" "4 \<le> name_length (info s)"
  shows "object_name (fst (Objects_Set_name x [a, b, c] s)) x = Objects_Build_name 0xff 0xff (char_u32 c) 0x20"
proof -
  have l4: "4 \<le> unat (name_length (info s))" using assms(2) by (simp add: word_le_nat_alt)
  have "128 \<le> unat c" "unat c < 256" using assms(1) unsigned_less [where ?'a = nat, of c] by (simp_all add: word_le_nat_alt)
  then have "unat c div 2 ^ 7 = 1" by simp
  then have "bit (unat c) 7" unfolding bit_iff_odd by simp
  then have s: "bit c 7" by (simp add: bit_simps)
  have k: "8 \<le> k \<Longrightarrow> k < 32 \<Longrightarrow> bit (char_u32 c) k" for k using s by (auto simp: char_u32_def bit_simps min_def)
  have "object_name (fst (Objects_Set_name x [a, b, c] s)) x = Objects_Build_name (char_u32 a) (char_u32 b) (char_u32 c) 0x20"
    using l4 by (simp add: Objects_Set_name_def Let_def min_def char_u32_def)
  also have "\<dots> = Objects_Build_name 0xff 0xff (char_u32 c) 0x20"
    unfolding Objects_Build_name_def field_masks
    by (rule bit_word_eqI) (use k in \<open>auto simp: bit_simps\<close>)
  finally show ?thesis .
qed

subsection \<open>Objects by name\<close>

text \<open>The first of the indexes \<open>c\<close>, \<dots>, \<open>c + k - 1\<close> with a property.\<close>

definition least_from :: "(nat \<Rightarrow> bool) \<Rightarrow> nat \<Rightarrow> nat \<Rightarrow> bool" where
  "least_from P c n \<longleftrightarrow> c \<le> n \<and> P n \<and> (\<forall>m. c \<le> m \<and> m < n \<longrightarrow> \<not> P m)"

lemma Objects_Name_to_id_loop_cases:
  assumes inv: "objects_inv s A T O'" and top: "c + k \<le> unat (maximum (info s)) + 1"
  shows "case Objects_Name_to_id_loop s name k (of_nat c) of
      None \<Rightarrow> \<forall>n. c \<le> n \<and> n < c + k \<longrightarrow> \<not> (n \<in> O' \<and> object_name s (slot (info s) n) = name)
    | Some ident \<Rightarrow> \<exists>n. n < c + k \<and> least_from (\<lambda>n. n \<in> O' \<and> object_name s (slot (info s) n) = name) c n \<and> ident = oid (info s) n"
  using top
proof (induction k arbitrary: c)
  case (Suc k)
  note I = objects_invD [OF inv]
  let ?P = "\<lambda>n. n \<in> O' \<and> object_name s (slot (info s) n) = name"
  have t: "local_table (info s) (of_nat c) = (if c \<in> O' then slot (info s) c else NULL)" using I(6) [of c] Suc.prems by simp
  have p: "present (info s) c" if "c \<in> O'" using that I(3,4) by blast
  show ?case
  proof (cases "?P c")
    case True
    then have "Objects_Name_to_id_loop s name (Suc k) (of_nat c) = Some (oid (info s) c)"
      using t p slot_number(3) [OF I(1,2)] I(5) by (simp add: Let_def)
    moreover have "least_from ?P c c" using True by (auto simp: least_from_def)
    ultimately show ?thesis by (auto intro!: exI [of _ c])
  next
    case False
    then have e: "Objects_Name_to_id_loop s name (Suc k) (of_nat c) = Objects_Name_to_id_loop s name k (of_nat (Suc c))"
      using t by (auto simp: Let_def add.commute)
    have step: "least_from ?P (Suc c) n \<Longrightarrow> least_from ?P c n" for n
      using False unfolding least_from_def by (metis Suc_leD Suc_leI le_neq_implies_less)
    have none: "\<forall>n. c \<le> n \<and> n < c + Suc k \<longrightarrow> \<not> ?P n" if "\<forall>n. Suc c \<le> n \<and> n < Suc c + k \<longrightarrow> \<not> ?P n"
      using that False by (metis Suc_leI add_Suc_shift le_neq_implies_less)
    have "Suc c + k \<le> unat (maximum (info s)) + 1" using Suc.prems by simp
    note IH = Suc.IH [OF this]
    show ?thesis
    proof (cases "Objects_Name_to_id_loop s name k (of_nat (Suc c))")
      case None
      then show ?thesis using IH none unfolding e by simp
    next
      case (Some ident)
      then obtain n where "n < Suc c + k" "least_from ?P (Suc c) n" "ident = oid (info s) n" using IH by auto
      then show ?thesis using Some step unfolding e by (auto intro!: exI [of _ n])
    qed
  qed
qed (auto simp: least_from_def)

text \<open>C30: looking for a name among the local objects of a well-formed class gives the identifier of the open object with the lowest
  index that has the name, and reports an invalid name exactly when no open object has it.\<close>

theorem Objects_Name_to_id_u32_correct:
  assumes "objects_inv s A T O'" "name \<noteq> 0" "node = 0 \<or> node = 0x7fffffff \<or> node = 1"
  shows "case Objects_Name_to_id_u32 s name node True of
      (status, result) \<Rightarrow> (if \<exists>n \<in> O'. object_name s (slot (info s) n) = name
        then status = OBJECTS_NAME_OR_ID_LOOKUP_SUCCESSFUL
          \<and> (\<exists>n. least_from (\<lambda>n. n \<in> O' \<and> object_name s (slot (info s) n) = name) 1 n \<and> result = Some (oid (info s) n))
        else status = OBJECTS_INVALID_NAME \<and> result = None)"
proof -
  note I = objects_invD [OF assms(1)]
  let ?P = "\<lambda>n. n \<in> O' \<and> object_name s (slot (info s) n) = name"
  have idx: "1 \<le> n \<and> n \<le> unat (maximum (info s))" if "n \<in> O'" for n using that I(3,4) by (auto simp: present_def)
  have node: "node = 0 \<or> node = 0x7fffffff \<or> Objects_Is_local_node node" using assms(3) by (auto simp: Objects_Is_local_node_def)
  have L: "case Objects_Name_to_id_loop s name (unat (maximum (info s))) 1 of
      None \<Rightarrow> \<forall>n. 1 \<le> n \<and> n < 1 + unat (maximum (info s)) \<longrightarrow> \<not> ?P n
    | Some ident \<Rightarrow> \<exists>n. n < 1 + unat (maximum (info s)) \<and> least_from ?P 1 n \<and> ident = oid (info s) n"
    using Objects_Name_to_id_loop_cases [OF assms(1), of 1 "unat (maximum (info s))" name] by simp
  show ?thesis
  proof (cases "maximum (info s) = 0")
    case True
    then have "O' = {}" using idx by fastforce
    then show ?thesis using True assms(2) by (simp add: Objects_Name_to_id_u32_def)
  next
    case False
    then have e: "Objects_Name_to_id_u32 s name node True = (case Objects_Name_to_id_loop s name (unat (maximum (info s))) 1 of
             Some ident \<Rightarrow> (OBJECTS_NAME_OR_ID_LOOKUP_SUCCESSFUL, Some ident) | None \<Rightarrow> (OBJECTS_INVALID_NAME, None))"
      using assms(2) node by (simp add: Objects_Name_to_id_u32_def)
    show ?thesis
    proof (cases "Objects_Name_to_id_loop s name (unat (maximum (info s))) 1")
      case None
      then have "\<not> ?P n" for n using L idx [of n] by (auto simp: less_Suc_eq_le)
      then show ?thesis using None unfolding e by auto
    next
      case (Some ident)
      then obtain n where n: "least_from ?P 1 n" "ident = oid (info s) n" using L by auto
      then have "\<exists>n \<in> O'. object_name s (slot (info s) n) = name" by (auto simp: least_from_def)
      then show ?thesis using Some n unfolding e by auto
    qed
  qed
qed

subsection \<open>Iteration\<close>

lemma Objects_Get_next_loop_cases:
  assumes inv: "objects_inv s A T O'" and mx: "unat (maximum (info s)) < 65535" and c: "1 \<le> c" "c + k = unat (maximum (info s)) + 1"
  shows "(\<exists>n. least_from (\<lambda>n. n \<in> O') c n \<and> Objects_Get_next_loop (info s) (oid (info s) c)
        = Some (slot (info s) n, OBJECTS_LOCAL, oid (info s) (n + 1)))
    \<or> (\<forall>n. c \<le> n \<longrightarrow> n \<notin> O') \<and> Objects_Get_next_loop (info s) (oid (info s) c) = Some (NULL, OBJECTS_ERROR, OBJECTS_ID_FINAL)"
  using c
proof (induction k arbitrary: c)
  case 0
  note C = class_okD [OF objects_invD(2) [OF inv]]
  have "c < 65536" using 0 mx by simp
  then have "unat (of_nat c :: uint16) = c" by (simp add: unat_of_nat take_bit_nat_eq_self_iff)
  then have "Objects_Get_index (oid (info s) c) > maximum (info s)"
    using oid_index(2) [OF _ C(5), of c] 0 mx by (simp add: word_less_nat_alt)
  then have "Objects_Get_next_loop (info s) (oid (info s) c) = Some (NULL, OBJECTS_ERROR, OBJECTS_ID_FINAL)"
    by (subst Objects_Get_next_loop.simps) simp
  moreover have "n \<notin> O'" if "c \<le> n" for n using that 0 objects_invD(3,4) [OF inv] by (auto simp: present_def)
  ultimately show ?case by blast
next
  case (Suc k)
  note I = objects_invD [OF inv] and C = class_okD [OF objects_invD(2) [OF inv]]
  have c16: "c < 65535" using Suc.prems mx by simp
  have "unat (of_nat c :: uint16) = c" using c16 by (simp add: unat_of_nat take_bit_nat_eq_self_iff)
  then have lt: "\<not> Objects_Get_index (oid (info s) c) > maximum (info s)"
    using oid_index(2) [OF _ C(5), of c] Suc.prems c16 by (simp add: word_less_nat_alt)
  have nxt: "oid (info s) c + 1 = oid (info s) (c + 1)" using oid_base [of c "info s"] oid_base [of "c + 1" "info s"] c16 by simp
  show ?case
  proof (cases "c \<in> O'")
    case True
    then have "Objects_Get_next_loop (info s) (oid (info s) c) = Some (slot (info s) c, OBJECTS_LOCAL, oid (info s) (c + 1))"
      using Objects_Get_open [OF inv True] lt nxt by (subst Objects_Get_next_loop.simps) simp
    moreover have "least_from (\<lambda>n. n \<in> O') c c" using True by (auto simp: least_from_def)
    ultimately show ?thesis by blast
  next
    case False
    have "Objects_Get (info s) (oid (info s) c) = (NULL, OBJECTS_ERROR)"
    proof (rule Objects_Get_not_open [OF inv])
      fix n assume n: "n \<in> O'"
      have "n < 65536" using n I(3,4) present_small by blast
      then show "oid (info s) c \<noteq> oid (info s) n"
        using n False c16 oid_base [of c "info s"] oid_base [of n "info s"] of_nat_eq_16 [of c n] by auto
    qed
    then have e: "Objects_Get_next_loop (info s) (oid (info s) c) = Objects_Get_next_loop (info s) (oid (info s) (Suc c))"
      using lt nxt by (subst Objects_Get_next_loop.simps) simp
    have step: "least_from (\<lambda>n. n \<in> O') (Suc c) n \<Longrightarrow> least_from (\<lambda>n. n \<in> O') c n" for n
      using False unfolding least_from_def by (metis Suc_leD Suc_leI le_neq_implies_less)
    have none: "\<forall>n. c \<le> n \<longrightarrow> n \<notin> O'" if "\<forall>n. Suc c \<le> n \<longrightarrow> n \<notin> O'"
      using that False by (metis Suc_leI le_neq_implies_less)
    have "1 \<le> Suc c" "Suc c + k = unat (maximum (info s)) + 1" using Suc.prems by simp_all
    from Suc.IH [OF this] show ?thesis unfolding e using step none by blast
  qed
qed


subsection \<open>Examples\<close>

theorem Objects_Set_name_text_witness:
  "Objects_name_text (object_name (fst (Objects_Set_name 4104 [0x41, 0x42] class_two)) 4104) 5 = [0x41, 0x42, 0x20, 0x20]"
proof -
  have "4 \<le> name_length (info class_two)" by (simp add: class_two_def)
  moreover have "replicate 2 (0x20 :: uint8) = [0x20, 0x20]" by (simp add: numeral_2_eq_2)
  ultimately show ?thesis using Objects_Set_name_text [of "[0x41, 0x42]" class_two 5 4104] by (simp add: isprint_def)
qed

theorem Objects_Set_name_sign_extension_witness:
  "object_name (fst (Objects_Set_name 4104 [0x41, 0x42, 0xe9] class_two)) 4104 = Objects_Build_name 0xff 0xff (char_u32 0xe9) 0x20"
  by (rule Objects_Set_name_sign_extension) (simp_all add: class_two_def)

theorem Objects_Name_to_id_u32_correct_witness:
  "fst (Objects_Name_to_id_u32 class_one 0x41 0 True) = OBJECTS_INVALID_NAME"
proof -
  have "slot (info class_one) 1 = 4104" "object_name class_one 4104 = 0" by (simp_all add: class_one_def class_two_def slot_def blk_def)
  then show ?thesis
    using Objects_Name_to_id_u32_correct [OF class_one_inv, of "0x41" 0] by (simp split: prod.splits)
qed


end
