(* ===== verification/Score_Chain_Set.thy ===== *)
theory Score_Chain_Set
  imports Score_Chain
begin

text \<open>
  Many chains in one memory, as the scheduler and the thread queues have them: a set \<open>C\<close> of chain controls and a set \<open>T\<close> of nodes
  whose cells are pairwise apart, and the list of the nodes of every chain. Every chain routine changes the list of
  one chain and leaves the others as they are.
\<close>

definition control_cells :: "addr \<Rightarrow> addr set" where
  "control_cells c = {c, c + 4, c + 8}"

definition node_cells :: "addr \<Rightarrow> addr set" where
  "node_cells n = {n, n + 4}"

definition apart :: "addr set \<Rightarrow> addr set \<Rightarrow> bool" where
  "apart C T \<longleftrightarrow> NULL \<notin> T \<and> (\<forall>c \<in> C. \<forall>d \<in> C. c \<noteq> d \<longrightarrow> control_cells c \<inter> control_cells d = {})
     \<and> (\<forall>c \<in> C. \<forall>t \<in> T. control_cells c \<inter> node_cells t = {}) \<and> (\<forall>t \<in> T. \<forall>u \<in> T. t \<noteq> u \<longrightarrow> node_cells t \<inter> node_cells u = {})"

definition chains_rep :: "mem \<Rightarrow> addr set \<Rightarrow> addr set \<Rightarrow> (addr \<Rightarrow> addr list) \<Rightarrow> bool" where
  "chains_rep m C T q \<longleftrightarrow> apart C T \<and> (\<forall>c \<in> C. chain_rep m c (q c) \<and> set (q c) \<subseteq> T)
     \<and> (\<forall>c \<in> C. \<forall>d \<in> C. c \<noteq> d \<longrightarrow> set (q c) \<inter> set (q d) = {})"

lemma set_chain_cells: "set (chain_cells c ns) = control_cells c \<union> (\<Union>n \<in> set ns. node_cells n)"
  by (auto simp: chain_cells_def control_cells_def node_cells_def add.commute)

lemma chains_repD:
  assumes "chains_rep m C T q"
  shows "apart C T" "c \<in> C \<Longrightarrow> chain_rep m c (q c)" "c \<in> C \<Longrightarrow> set (q c) \<subseteq> T" "c \<in> C \<Longrightarrow> distinct (q c)" "NULL \<notin> T"
    "c \<in> C \<Longrightarrow> d \<in> C \<Longrightarrow> t \<in> set (q c) \<Longrightarrow> t \<in> set (q d) \<Longrightarrow> c = d"
proof -
  show "c \<in> C \<Longrightarrow> d \<in> C \<Longrightarrow> t \<in> set (q c) \<Longrightarrow> t \<in> set (q d) \<Longrightarrow> c = d" using assms unfolding chains_rep_def by blast
qed (use assms in \<open>auto simp: chains_rep_def apart_def chain_rep_def chain_cells_def\<close>)

lemma cells_apart:
  assumes "apart C T" "c \<in> C" "d \<in> C" "c \<noteq> d" "set ns \<subseteq> T" "set ks \<subseteq> T" "set ns \<inter> set ks = {}"
  shows "set (chain_cells c ns) \<inter> set (chain_cells d ks) = {}"
proof -
  have "control_cells c \<inter> control_cells d = {}" using assms(1-4) unfolding apart_def by blast
  moreover have "control_cells c \<inter> node_cells k = {}" if "k \<in> set ks" for k using assms(1,2,6) that unfolding apart_def by blast
  moreover have "node_cells n \<inter> control_cells d = {}" if "n \<in> set ns" for n using assms(1,3,5) that unfolding apart_def by blast
  moreover have "node_cells n \<inter> node_cells k = {}" if "n \<in> set ns" "k \<in> set ks" for n k
  proof -
    have "n \<in> T" "k \<in> T" "n \<noteq> k" using assms that by auto
    then show ?thesis using assms(1) by (simp add: apart_def)
  qed
  ultimately show ?thesis unfolding set_chain_cells by blast
qed

text \<open>A change inside the cells of one chain.\<close>

lemma chains_rep_update:
  assumes rep: "chains_rep m C T q" and c: "c \<in> C" and new: "chain_rep m' c ns" "set ns \<subseteq> T"
    and others: "\<And>d. d \<in> C \<Longrightarrow> d \<noteq> c \<Longrightarrow> set (q d) \<inter> set ns = {}"
    and frame: "\<And>x. x \<notin> set (chain_cells c (q c)) \<Longrightarrow> x \<notin> set (chain_cells c ns) \<Longrightarrow> m' x = m x"
  shows "chains_rep m' C T (q(c := ns))"
proof -
  have "chain_rep m' d (q d)" if "d \<in> C" "d \<noteq> c" for d
  proof -
    note D = chains_repD [OF rep]
    have "set (q d) \<inter> set (q c) = {}" using D(6) [OF that(1) c] that(2) by blast
    then have "set (chain_cells d (q d)) \<inter> set (chain_cells c (q c)) = {}" by (rule cells_apart [OF D(1) that(1) c that(2) D(3) [OF that(1)] D(3) [OF c]])
    moreover have "set (chain_cells d (q d)) \<inter> set (chain_cells c ns) = {}"
      by (rule cells_apart [OF D(1) that(1) c that(2) D(3) [OF that(1)] new(2) others [OF that]])
    ultimately have "\<forall>x \<in> set (chain_cells d (q d)). m x = m' x" using frame by (auto simp: disjoint_iff)
    then have "chain_rep m d (q d) = chain_rep m' d (q d)" by (rule chain_rep_cong)
    then show ?thesis using chains_repD(2) [OF rep] that by blast
  qed
  moreover have "set ((q(c := ns)) d) \<inter> set ((q(c := ns)) e) = {}" if "d \<in> C" "e \<in> C" "d \<noteq> e" for d e
    using that others [of d] others [of e] rep unfolding chains_rep_def by (cases "d = c"; cases "e = c") (simp_all, blast)
  ultimately show ?thesis using rep new unfolding chains_rep_def by simp
qed

lemma chains_fresh:
  assumes "chains_rep m C T q" "c \<in> C" "t \<in> T" "t \<notin> set (q c)"
  shows "fresh_node c (q c) t"
proof -
  note D = chains_repD [OF assms(1)]
  have "node_cells t \<inter> control_cells c = {}" using D(1) assms(2,3) unfolding apart_def by blast
  moreover have "node_cells t \<inter> node_cells n = {}" if "n \<in> set (q c)" for n
  proof -
    have "n \<in> T" "n \<noteq> t" using D(3) [OF assms(2)] that assms(4) by auto
    then show ?thesis using D(1) assms(3) by (simp add: apart_def)
  qed
  ultimately have "node_cells t \<inter> set (chain_cells c (q c)) = {}" unfolding set_chain_cells by blast
  then show ?thesis using D(5) assms(3) by (auto simp: fresh_node_def node_cells_def)
qed

lemma chain_cells_memI:
  "last (c # ns) \<in> set (chain_cells c ns)" "hd (ns @ [c + 4]) + 4 \<in> set (chain_cells c ns)" "hd (ns @ [c + 4]) \<in> set (chain_cells c ns)"
  by (cases ns rule: rev_cases; simp add: chain_cells_def) (cases ns; simp add: chain_cells_def add.commute)+

lemma Chain_Prepend_frame:
  assumes "chain_rep m c ns" "x \<notin> set (chain_cells c (n # ns))" "x \<notin> set (chain_cells c ns)"
  shows "Chain_Prepend m c n x = m x"
proof -
  have "m c = hd (ns @ [c + 4])" using Chain_First_rep [OF assms(1)] by (simp add: Chain_First_def Chain_Next_def Chain_Head_def)
  moreover have "x \<noteq> hd (ns @ [c + 4]) + 4" using assms(3) chain_cells_memI(2) by metis
  ultimately show ?thesis using assms(2)
    by (auto simp: Chain_Prepend_def Chain_Insert_def score_defs Let_def chain_cells_def add.commute)
qed

lemma Chain_Extract_frame:
  assumes "chain_rep m c (xs @ n # ys)" "x \<notin> set (chain_cells c (xs @ n # ys))"
  shows "Chain_Extract m n x = m x"
proof -
  have "x \<noteq> hd (ys @ [c + 4]) + 4" using assms(2) by (cases ys) (auto simp: chain_cells_def add.commute)
  moreover have "x \<noteq> last (c # xs)" using assms(2) by (cases xs rule: rev_cases) (auto simp: chain_cells_def)
  ultimately show ?thesis using chain_rep_neighbours [OF assms(1)] by (simp add: Chain_Extract_def score_defs Let_def)
qed

lemma chains_rep_append:
  assumes "chains_rep m C T q" "c \<in> C" "t \<in> T" "\<forall>d \<in> C. t \<notin> set (q d)"
  shows "chains_rep (Chain_Append m c t) C T (q(c := q c @ [t]))"
proof (rule chains_rep_update [OF assms(1,2)])
  note D = chains_repD [OF assms(1)]
  show "chain_rep (Chain_Append m c t) c (q c @ [t])" by (rule Chain_Append_rep [OF D(2) [OF assms(2)] chains_fresh [OF assms(1-3)]]) (use assms in blast)
  show "set (q c @ [t]) \<subseteq> T" using D(3) assms by auto
  show "set (q d) \<inter> set (q c @ [t]) = {}" if "d \<in> C" "d \<noteq> c" for d using D(6) that assms(2,4) by fastforce
  show "Chain_Append m c t x = m x" if "x \<notin> set (chain_cells c (q c @ [t]))" for x
    using Chain_Append_frame [OF D(2) that] assms(2) by blast
qed

lemma chains_rep_prepend:
  assumes "chains_rep m C T q" "c \<in> C" "t \<in> T" "\<forall>d \<in> C. t \<notin> set (q d)"
  shows "chains_rep (Chain_Prepend m c t) C T (q(c := t # q c))"
proof (rule chains_rep_update [OF assms(1,2)])
  note D = chains_repD [OF assms(1)]
  show "chain_rep (Chain_Prepend m c t) c (t # q c)" by (rule Chain_Prepend_rep [OF D(2) [OF assms(2)] chains_fresh [OF assms(1-3)]]) (use assms in blast)
  show "set (t # q c) \<subseteq> T" using D(3) assms by auto
  show "set (q d) \<inter> set (t # q c) = {}" if "d \<in> C" "d \<noteq> c" for d using D(6) that assms(2,4) by fastforce
  show "Chain_Prepend m c t x = m x" if "x \<notin> set (chain_cells c (q c))" "x \<notin> set (chain_cells c (t # q c))" for x
    using Chain_Prepend_frame [OF D(2) that(2,1)] assms(2) by blast
qed

lemma chains_rep_extract:
  assumes "chains_rep m C T q" "c \<in> C" "t \<in> set (q c)"
  shows "chains_rep (Chain_Extract m t) C T (q(c := remove1 t (q c)))"
proof (rule chains_rep_update [OF assms(1,2)])
  note D = chains_repD [OF assms(1)]
  show "chain_rep (Chain_Extract m t) c (remove1 t (q c))" using chain_extract_rep [OF D(2)] assms by blast
  show "set (remove1 t (q c)) \<subseteq> T" using D(3) [OF assms(2)] set_remove1_subset by fastforce
  show "set (q d) \<inter> set (remove1 t (q c)) = {}" if "d \<in> C" "d \<noteq> c" for d
    using D(6) that assms(2) set_remove1_subset [of t "q c"] by fastforce
  obtain xs ys where "q c = xs @ t # ys" using assms(3) split_list by metis
  then show "Chain_Extract m t x = m x" if "x \<notin> set (chain_cells c (q c))" for x
    using Chain_Extract_frame [of m c xs t ys x] D(2) [OF assms(2)] that by simp
qed

lemma chains_rep_empty:
  assumes "chains_rep m C T q" "c \<in> C"
  shows "chains_rep (Chain_Initialize_empty m c) C T (q(c := []))"
proof (rule chains_rep_update [OF assms(1,2)])
  show "chain_rep (Chain_Initialize_empty m c) c []" by (rule Chain_Initialize_empty_rep)
  show "Chain_Initialize_empty m c x = m x" if "x \<notin> set (chain_cells c (q c))" for x
    using that by (auto simp: Chain_Initialize_empty_def chain_cells_def score_defs Let_def add.commute)
qed simp_all

lemma Chain_Has_only_one_node_rep:
  assumes "chain_rep m c ns"
  shows "Chain_Has_only_one_node m c \<longleftrightarrow> length ns = 1"
proof -
  have "distinct (c # (c + 4) # ns)" using assms by (auto simp: chain_rep_def chain_cells_def)
  moreover have "Chain_Has_only_one_node m c \<longleftrightarrow> hd (ns @ [c + 4]) = last (c # ns)"
    using Chain_First_rep [OF assms] Chain_Last_rep [OF assms] by (simp add: Chain_Has_only_one_node_def)
  ultimately show ?thesis by (cases ns; cases "tl ns" rule: rev_cases) auto
qed

lemma chains_rep_cong: "(\<And>c. c \<in> C \<Longrightarrow> q c = q' c) \<Longrightarrow> chains_rep m C T q = chains_rep m C T q'"
  by (simp add: chains_rep_def)

end
