(* ===== verification/Score_Priority.thy ===== *)
theory Score_Priority
  imports Score_Chain
begin

text \<open>
  The priority bit map (\<^verbatim>\<open>src/include/rtems/score/prioritybitmapimpl.h\<close>, \<^verbatim>\<open>prioritybitmap.h\<close> and the table of
  \<^verbatim>\<open>src/librtems/score/log2table.c\<close>): a set of priorities from 0 to 255 as sixteen words of sixteen bits and one word that tells
  which of them are not zero. The generic bit field code is configured for this processor. The least
  priority of the set, the most important one, is found with two lookups in a table.
\<close>

type_synonym Priority_bit_map_Word = uint16
type_synonym Priority_Control = uint32

record Priority_bit_map_Control =
  major_bit_map :: Priority_bit_map_Word
  bit_map :: "nat \<Rightarrow> Priority_bit_map_Word"

text \<open>The pointer \<open>minor\<close> into the words of the bit map is the index of the word.\<close>

record Priority_bit_map_Information =
  minor :: nat
  ready_major :: Priority_bit_map_Word
  ready_minor :: Priority_bit_map_Word
  block_major :: Priority_bit_map_Word
  block_minor :: Priority_bit_map_Word

definition log2table :: "nat list" where
  "log2table =
    [7, 7, 6, 6, 5, 5, 5, 5, 4, 4, 4, 4, 4, 4, 4, 4, 3, 3, 3, 3, 3, 3, 3, 3, 3, 3, 3, 3, 3, 3, 3, 3,
     2, 2, 2, 2, 2, 2, 2, 2, 2, 2, 2, 2, 2, 2, 2, 2, 2, 2, 2, 2, 2, 2, 2, 2, 2, 2, 2, 2, 2, 2, 2, 2,
     1, 1, 1, 1, 1, 1, 1, 1, 1, 1, 1, 1, 1, 1, 1, 1, 1, 1, 1, 1, 1, 1, 1, 1, 1, 1, 1, 1, 1, 1, 1, 1,
     1, 1, 1, 1, 1, 1, 1, 1, 1, 1, 1, 1, 1, 1, 1, 1, 1, 1, 1, 1, 1, 1, 1, 1, 1, 1, 1, 1, 1, 1, 1, 1,
     0, 0, 0, 0, 0, 0, 0, 0, 0, 0, 0, 0, 0, 0, 0, 0, 0, 0, 0, 0, 0, 0, 0, 0, 0, 0, 0, 0, 0, 0, 0, 0,
     0, 0, 0, 0, 0, 0, 0, 0, 0, 0, 0, 0, 0, 0, 0, 0, 0, 0, 0, 0, 0, 0, 0, 0, 0, 0, 0, 0, 0, 0, 0, 0,
     0, 0, 0, 0, 0, 0, 0, 0, 0, 0, 0, 0, 0, 0, 0, 0, 0, 0, 0, 0, 0, 0, 0, 0, 0, 0, 0, 0, 0, 0, 0, 0,
     0, 0, 0, 0, 0, 0, 0, 0, 0, 0, 0, 0, 0, 0, 0, 0, 0, 0, 0, 0, 0, 0, 0, 0, 0, 0, 0, 0, 0, 0, 0, 0]"

definition Bitfield_Find_first_bit :: "Priority_bit_map_Word \<Rightarrow> Priority_bit_map_Word" where
  "Bitfield_Find_first_bit value =
     (if value < 0x100 then of_nat (log2table ! unat value + 8) else of_nat (log2table ! unat (drop_bit 8 value)))"

definition Priority_Major :: "Priority_Control \<Rightarrow> Priority_bit_map_Word" where
  "Priority_Major the_priority = ucast (the_priority div 16)"

definition Priority_Minor :: "Priority_Control \<Rightarrow> Priority_bit_map_Word" where
  "Priority_Minor the_priority = ucast (the_priority mod 16)"

definition Priority_Mask :: "uint32 \<Rightarrow> Priority_bit_map_Word" where
  "Priority_Mask bit_number = ucast (drop_bit (unat bit_number) (0x8000 :: uint32))"

definition Priority_Bits_index :: "uint32 \<Rightarrow> uint32" where
  "Priority_Bits_index bit_number = bit_number"

definition Priority_bit_map_Initialize :: "Priority_bit_map_Control" where
  "Priority_bit_map_Initialize = \<lparr>major_bit_map = 0, bit_map = (\<lambda>_. 0)\<rparr>"

definition Priority_bit_map_Add :: "Priority_bit_map_Information \<Rightarrow> Priority_bit_map_Control \<Rightarrow> Priority_bit_map_Control" where
  "Priority_bit_map_Add i b =
     (let b = b\<lparr>bit_map := (bit_map b)(minor i := or (bit_map b (minor i)) (ready_minor i))\<rparr>
      in b\<lparr>major_bit_map := or (major_bit_map b) (ready_major i)\<rparr>)"

definition Priority_bit_map_Remove :: "Priority_bit_map_Information \<Rightarrow> Priority_bit_map_Control \<Rightarrow> Priority_bit_map_Control" where
  "Priority_bit_map_Remove i b =
     (let b = b\<lparr>bit_map := (bit_map b)(minor i := and (bit_map b (minor i)) (block_minor i))\<rparr>
      in if bit_map b (minor i) = 0 then b\<lparr>major_bit_map := and (major_bit_map b) (block_major i)\<rparr> else b)"

definition Priority_bit_map_Get_highest :: "Priority_bit_map_Control \<Rightarrow> Priority_Control" where
  "Priority_bit_map_Get_highest b =
     (let major = Bitfield_Find_first_bit (major_bit_map b);
          minor = Bitfield_Find_first_bit (bit_map b (unat major))
      in push_bit 4 (Priority_Bits_index (ucast major)) + Priority_Bits_index (ucast minor))"

definition Priority_bit_map_Is_empty :: "Priority_bit_map_Control \<Rightarrow> bool" where
  "Priority_bit_map_Is_empty b = (major_bit_map b = 0)"

definition Priority_bit_map_Initialize_information :: "Priority_Control \<Rightarrow> Priority_bit_map_Information" where
  "Priority_bit_map_Initialize_information new_priority =
     (let major = Priority_Major new_priority;
          minor = Priority_Minor new_priority;
          mask = Priority_Mask (ucast major);
          mask' = Priority_Mask (ucast minor)
      in \<lparr>minor = unat (Priority_Bits_index (ucast major)), ready_major = mask, ready_minor = mask',
          block_major = ucast (not (ucast mask :: uint32)), block_minor = ucast (not (ucast mask' :: uint32))\<rparr>)"

subsection \<open>The first bit\<close>

lemma log2table_runs:
  "log2table = replicate 2 7 @ replicate 2 6 @ replicate 4 5 @ replicate 8 4 @ replicate 16 3 @ replicate 32 2 @ replicate 64 1 @ replicate 128 0"
  by code_simp

lemma log2table_ok:
  assumes "0 < n" "n < 256"
  shows "log2table ! n \<le> 7 \<and> 2 ^ (7 - log2table ! n) \<le> n \<and> n < 2 ^ (8 - log2table ! n)"
proof -
  consider "n < 2" | "2 \<le> n \<and> n < 4" | "4 \<le> n \<and> n < 8" | "8 \<le> n \<and> n < 16" | "16 \<le> n \<and> n < 32" | "32 \<le> n \<and> n < 64"
    | "64 \<le> n \<and> n < 128" | "128 \<le> n" by linarith
  then show ?thesis using assms by cases (simp_all add: log2table_runs nth_append, arith+)
qed

lemma bit_unat: "bit (unat (v :: 'a :: len word)) k \<longleftrightarrow> bit v k"
  by (simp add: bit_unsigned_iff)

lemma top_bit:
  assumes "2 ^ k \<le> unat (v :: 'a :: len word)" "unat v < 2 ^ Suc k"
  shows "bit v k" "\<And>j. k < j \<Longrightarrow> \<not> bit v j"
proof -
  have "unat v div 2 ^ k = 1" using assms by (intro div_nat_eqI) simp_all
  then show "bit v k" unfolding bit_unat [symmetric] by (simp add: bit_iff_odd)
  show "\<not> bit v j" if "k < j" for j
  proof -
    have "(2 :: nat) ^ Suc k \<le> 2 ^ j" using that by (intro power_increasing) simp_all
    then have "unat v div 2 ^ j = 0" using assms(2) by simp
    then show ?thesis unfolding bit_unat [symmetric] by (simp add: bit_iff_odd)
  qed
qed

text \<open>The first bit from the left is the one with the least index; index \<open>i\<close> is the bit \<open>15 - i\<close> of the word.\<close>

lemma Bitfield_Find_first_bit_correct:
  assumes "v \<noteq> 0"
  shows "\<exists>i \<le> 15. Bitfield_Find_first_bit v = of_nat i \<and> bit v (15 - i) \<and> (\<forall>j < i. \<not> bit v (15 - j))"
proof (cases "v < 0x100")
  case True
  define t where "t = log2table ! unat v"
  have "0 < unat v" "unat v < 256" using assms True by (simp_all add: word_less_nat_alt unat_gt_0)
  from log2table_ok [OF this] have t: "t \<le> 7" "2 ^ (7 - t) \<le> unat v" "unat v < 2 ^ (8 - t)" by (simp_all add: t_def)
  have "8 - t = Suc (7 - t)" using t(1) by simp
  then have b: "bit v (7 - t)" "\<And>j. 7 - t < j \<Longrightarrow> \<not> bit v j" using top_bit [of "7 - t" v] t(2,3) by auto
  show ?thesis
  proof (intro exI conjI allI impI)
    show "Bitfield_Find_first_bit v = of_nat (t + 8)" using True by (simp add: Bitfield_Find_first_bit_def t_def)
    show "t + 8 \<le> 15" using t(1) by simp
    show "bit v (15 - (t + 8))" using b(1) by simp
    show "\<not> bit v (15 - j)" if "j < t + 8" for j using b(2) [of "15 - j"] that t(1) by simp
  qed
next
  case False
  define w where "w = drop_bit 8 v"
  define t where "t = log2table ! unat w"
  have w: "unat w = unat v div 256" by (simp add: w_def drop_bit_eq_div unat_div)
  have "256 \<le> unat v" "unat v < 65536" using False unsigned_less [where ?'a = nat, of v] by (simp_all add: word_less_nat_alt)
  then have "0 < unat w" "unat w < 256" unfolding w by simp_all
  from log2table_ok [OF this] have t: "t \<le> 7" "2 ^ (7 - t) \<le> unat w" "unat w < 2 ^ (8 - t)" by (simp_all add: t_def)
  have "8 - t = Suc (7 - t)" using t(1) by simp
  then have "bit w (7 - t)" "\<And>j. 7 - t < j \<Longrightarrow> \<not> bit w j" using top_bit [of "7 - t" w] t(2,3) by auto
  then have b: "bit v (15 - t)" "\<And>j. 7 - t < j \<Longrightarrow> \<not> bit v (8 + j)" using t(1) by (simp_all add: w_def bit_drop_bit_eq)
  show ?thesis
  proof (intro exI conjI allI impI)
    show "Bitfield_Find_first_bit v = of_nat t" using False by (simp add: Bitfield_Find_first_bit_def t_def w_def)
    show "t \<le> 15" using t(1) by simp
    show "bit v (15 - t)" by (rule b(1))
    show "\<not> bit v (15 - j)" if "j < t" for j using b(2) [of "7 - j"] that t(1) by simp
  qed
qed

subsection \<open>Sets of priorities\<close>

definition bit_map_rep :: "Priority_bit_map_Control \<Rightarrow> nat set \<Rightarrow> bool" where
  "bit_map_rep b S \<longleftrightarrow> (\<forall>p \<in> S. p < 256) \<and> (\<forall>i < 16. \<forall>j < 16. bit (bit_map b i) (15 - j) \<longleftrightarrow> 16 * i + j \<in> S)
     \<and> (\<forall>i < 16. bit (major_bit_map b) (15 - i) \<longleftrightarrow> (\<exists>j < 16. 16 * i + j \<in> S))"

lemma word16_zero: "v = 0 \<longleftrightarrow> (\<forall>j < 16. \<not> bit (v :: uint16) (15 - j))"
proof
  assume *: "\<forall>j < 16. \<not> bit v (15 - j)"
  show "v = 0"
  proof (rule bit_word_eqI)
    fix n assume "n < LENGTH(16)"
    then have "n = 15 - (15 - n)" "15 - n < 16" by simp_all
    then show "bit v n = bit (0 :: uint16) n" using * by (metis bit_0_eq bot_apply bot_bool_def)
  qed
qed simp

lemma mask_bit:
  assumes "i < 16" "j < 16"
  shows "bit (Priority_Mask (of_nat i)) (15 - j) \<longleftrightarrow> i = j" "bit (ucast (not (ucast (Priority_Mask (of_nat i)) :: uint32)) :: uint16) (15 - j) \<longleftrightarrow> i \<noteq> j"
proof -
  have *: "bit (0x8000 :: uint32) k \<longleftrightarrow> k = 15" for k
  proof -
    have "bit (2 ^ 15 :: uint32) k \<longleftrightarrow> k = 15" by (subst bit_exp_iff) auto
    then show ?thesis by simp
  qed
  have "unat (of_nat i :: uint32) = i" using assms(1) by (simp add: unat_of_nat)
  then show 1: "bit (Priority_Mask (of_nat i)) (15 - j) \<longleftrightarrow> i = j"
    using assms * [of "i + (15 - j)"] by (auto simp: Priority_Mask_def bit_ucast_iff bit_drop_bit_eq)
  show "bit (ucast (not (ucast (Priority_Mask (of_nat i)) :: uint32)) :: uint16) (15 - j) \<longleftrightarrow> i \<noteq> j"
    using 1 assms by (auto simp: bit_ucast_iff bit_not_iff)
qed

lemma Initialize_information_fields:
  assumes "unat p < 256"
  shows "minor (Priority_bit_map_Initialize_information p) = unat p div 16"
    "ready_major (Priority_bit_map_Initialize_information p) = Priority_Mask (of_nat (unat p div 16))"
    "ready_minor (Priority_bit_map_Initialize_information p) = Priority_Mask (of_nat (unat p mod 16))"
    "block_major (Priority_bit_map_Initialize_information p) = ucast (not (ucast (Priority_Mask (of_nat (unat p div 16))) :: uint32))"
    "block_minor (Priority_bit_map_Initialize_information p) = ucast (not (ucast (Priority_Mask (of_nat (unat p mod 16))) :: uint32))"
proof -
  have "unat (p div 16) = unat p div 16" "unat (p mod 16) = unat p mod 16" by (simp_all add: unat_div unat_mod)
  moreover have "unat p div 16 < 16" using assms by simp
  ultimately have "ucast (Priority_Major p) = (of_nat (unat p div 16) :: uint32)" "ucast (Priority_Minor p) = (of_nat (unat p mod 16) :: uint32)"
    by (simp_all add: Priority_Major_def Priority_Minor_def word_unat_eq_iff unsigned_ucast_eq take_bit_eq_mod unat_of_nat unat_mod)
  then show "minor (Priority_bit_map_Initialize_information p) = unat p div 16"
    "ready_major (Priority_bit_map_Initialize_information p) = Priority_Mask (of_nat (unat p div 16))"
    "ready_minor (Priority_bit_map_Initialize_information p) = Priority_Mask (of_nat (unat p mod 16))"
    "block_major (Priority_bit_map_Initialize_information p) = ucast (not (ucast (Priority_Mask (of_nat (unat p div 16))) :: uint32))"
    "block_minor (Priority_bit_map_Initialize_information p) = ucast (not (ucast (Priority_Mask (of_nat (unat p mod 16))) :: uint32))"
    using assms by (simp_all add: Priority_bit_map_Initialize_information_def Priority_Bits_index_def Let_def unat_of_nat)
qed

lemma bit_map_rep_empty: "bit_map_rep Priority_bit_map_Initialize {}"
  by (simp add: bit_map_rep_def Priority_bit_map_Initialize_def)

lemma digit16: "i < 16 \<Longrightarrow> j < 16 \<Longrightarrow> 16 * i + j = n \<longleftrightarrow> i = n div 16 \<and> j = n mod (16 :: nat)"
  by auto

lemma bit_map_rep_Add:
  assumes "bit_map_rep b S" "unat p < 256"
  shows "bit_map_rep (Priority_bit_map_Add (Priority_bit_map_Initialize_information p) b) (insert (unat p) S)"
proof -
  define b' where "b' = Priority_bit_map_Add (Priority_bit_map_Initialize_information p) b"
  have lim: "unat p div 16 < 16" "unat p mod 16 < 16" using assms(2) by simp_all
  have "bit (bit_map b' i) (15 - j) \<longleftrightarrow> 16 * i + j \<in> insert (unat p) S" if "i < 16" "j < 16" for i j
    using assms(1) that lim digit16 [OF that, of "unat p"] mask_bit(1) [OF lim(2) that(2)]
    by (auto simp: b'_def Priority_bit_map_Add_def Initialize_information_fields [OF assms(2)] Let_def bit_or_iff bit_map_rep_def)
  moreover have "bit (major_bit_map b') (15 - i) \<longleftrightarrow> (\<exists>j < 16. 16 * i + j \<in> insert (unat p) S)" if "i < 16" for i
  proof -
    have "(\<exists>j < 16. 16 * i + j = unat p) \<longleftrightarrow> i = unat p div 16" using lim digit16 [OF that, of _ "unat p"] by blast
    then show ?thesis using assms(1) that mask_bit(1) [OF lim(1) that]
      by (auto simp: b'_def Priority_bit_map_Add_def Initialize_information_fields [OF assms(2)] Let_def bit_or_iff bit_map_rep_def)
  qed
  ultimately show ?thesis using assms unfolding bit_map_rep_def b'_def by simp
qed

lemma bit_map_rep_Remove:
  assumes "bit_map_rep b S" "unat p < 256"
  shows "bit_map_rep (Priority_bit_map_Remove (Priority_bit_map_Initialize_information p) b) (S - {unat p})"
proof -
  define b' where "b' = Priority_bit_map_Remove (Priority_bit_map_Initialize_information p) b"
  define k where "k = unat p div 16"
  have lim: "k < 16" "unat p mod 16 < 16" using assms(2) by (simp_all add: k_def)
  note B' = b'_def Priority_bit_map_Remove_def Initialize_information_fields [OF assms(2)] Let_def k_def [symmetric]
  have map': "bit_map b' = (bit_map b)(k := and (bit_map b k) (ucast (not (ucast (Priority_Mask (of_nat (unat p mod 16))) :: uint32))))"
    by (simp add: B')
  have bits: "bit (bit_map b' i) (15 - j) \<longleftrightarrow> 16 * i + j \<in> S - {unat p}" if "i < 16" "j < 16" for i j
    using assms(1) that lim digit16 [OF that, of "unat p"] mask_bit(2) [OF lim(2) that(2)]
    by (auto simp: map' k_def [symmetric] bit_and_iff bit_map_rep_def)
  then have zero: "bit_map b' i = 0 \<longleftrightarrow> (\<forall>j < 16. 16 * i + j \<notin> S - {unat p})" if "i < 16" for i
    using that unfolding word16_zero by blast
  have maj: "major_bit_map b' = (if bit_map b' k = 0 then and (major_bit_map b) (ucast (not (ucast (Priority_Mask (of_nat k)) :: uint32))) else major_bit_map b)"
    by (simp add: B')
  have "bit (major_bit_map b') (15 - i) \<longleftrightarrow> (\<exists>j < 16. 16 * i + j \<in> S - {unat p})" if "i < 16" for i
  proof (cases "i = k")
    case True
    have "bit (major_bit_map b) (15 - k) \<longleftrightarrow> (\<exists>j < 16. 16 * k + j \<in> S)" using assms(1) lim by (simp add: bit_map_rep_def)
    then show ?thesis using zero [OF lim(1)] mask_bit(2) [OF lim(1) lim(1)] by (auto simp: maj True bit_and_iff)
  next
    case False
    then have "16 * i + j \<noteq> unat p" if "j < 16" for j using digit16 [OF \<open>i < 16\<close> that, of "unat p"] by (simp add: k_def)
    moreover have "bit (major_bit_map b) (15 - i) \<longleftrightarrow> (\<exists>j < 16. 16 * i + j \<in> S)" using assms(1) that by (simp add: bit_map_rep_def)
    ultimately show ?thesis using mask_bit(2) [OF lim(1) that] False by (auto simp: maj bit_and_iff)
  qed
  then show ?thesis using assms bits unfolding bit_map_rep_def b'_def by simp
qed

lemma bit_map_Is_empty: "bit_map_rep b S \<Longrightarrow> Priority_bit_map_Is_empty b \<longleftrightarrow> S = {}"
proof -
  assume rep: "bit_map_rep b S"
  have "p \<in> S \<longleftrightarrow> p < 256 \<and> 16 * (p div 16) + p mod 16 \<in> S" for p using rep by (auto simp: bit_map_rep_def)
  moreover have "p div 16 < 16" "p mod 16 < 16" if "p < 256" for p :: nat using that by simp_all
  ultimately have "S = {} \<longleftrightarrow> (\<forall>i < 16. \<forall>j < 16. 16 * i + j \<notin> S)" by blast
  then show ?thesis using rep unfolding Priority_bit_map_Is_empty_def word16_zero bit_map_rep_def by auto
qed

lemma bit_map_Get_highest:
  assumes "bit_map_rep b S" "S \<noteq> {}"
  shows "unat (Priority_bit_map_Get_highest b) = Min S"
proof -
  have "major_bit_map b \<noteq> 0" using bit_map_Is_empty [OF assms(1)] assms(2) by (simp add: Priority_bit_map_Is_empty_def)
  then obtain i where i: "i \<le> 15" "Bitfield_Find_first_bit (major_bit_map b) = of_nat i" "bit (major_bit_map b) (15 - i)"
    "\<forall>j < i. \<not> bit (major_bit_map b) (15 - j)" using Bitfield_Find_first_bit_correct by blast
  then obtain j0 where "j0 < 16" "16 * i + j0 \<in> S" using assms(1) by (auto simp: bit_map_rep_def)
  then have "bit (bit_map b i) (15 - j0)" using assms(1) i(1) by (simp add: bit_map_rep_def)
  then have "bit_map b i \<noteq> 0" by auto
  then obtain j where j: "j \<le> 15" "Bitfield_Find_first_bit (bit_map b i) = of_nat j" "bit (bit_map b i) (15 - j)"
    "\<forall>k < j. \<not> bit (bit_map b i) (15 - k)" using Bitfield_Find_first_bit_correct by blast
  have "16 * i + j \<in> S" using assms(1) i(1) j(1,3) by (simp add: bit_map_rep_def)
  moreover have "16 * i + j \<le> p" if "p \<in> S" for p
  proof (rule ccontr)
    assume less: "\<not> 16 * i + j \<le> p"
    have "p < 256" using assms(1) that by (simp add: bit_map_rep_def)
    then have p: "p div 16 < 16" "p mod 16 < 16" "16 * (p div 16) + p mod 16 \<in> S" using that by simp_all
    then have b: "bit (major_bit_map b) (15 - p div 16)" "bit (bit_map b (p div 16)) (15 - p mod 16)"
      using assms(1) unfolding bit_map_rep_def by blast+
    have "i \<le> p div 16" using b(1) i(4) by (meson not_le)
    then have "i = p div 16" using less j(1) by simp
    moreover have "p mod 16 < j" using less calculation mult_div_mod_eq [of 16 p] by linarith
    ultimately show False using b(2) j(4) by simp
  qed
  ultimately have "Min S = 16 * i + j" using assms(1) by (intro Min_eqI) (auto intro: finite_subset [of S "{..<256}"] simp: bit_map_rep_def)
  moreover have "unat (Priority_bit_map_Get_highest b) = 16 * i + j"
    using i(1,2) j(1,2) by (simp add: Priority_bit_map_Get_highest_def Priority_Bits_index_def Let_def push_bit_eq_mult unat_word_ariths unsigned_ucast_eq take_bit_eq_mod unat_of_nat)
  ultimately show ?thesis by simp
qed

text \<open>The bit map and the set of priorities after a sequence of additions (\<open>True\<close>) and removals (\<open>False\<close>).\<close>

abbreviation bit_map_after :: "(bool \<times> Priority_Control) list \<Rightarrow> Priority_bit_map_Control" where
  "bit_map_after changes \<equiv> fold (\<lambda>(add, p). (if add then Priority_bit_map_Add else Priority_bit_map_Remove)
     (Priority_bit_map_Initialize_information p)) changes Priority_bit_map_Initialize"

abbreviation priorities_after :: "(bool \<times> Priority_Control) list \<Rightarrow> nat set" where
  "priorities_after changes \<equiv> fold (\<lambda>(add, p) S. if add then insert (unat p) S else S - {unat p}) changes {}"

lemma bit_map_rep_changes:
  assumes "\<forall>(add, p) \<in> set changes. unat p < 256"
  shows "bit_map_rep (bit_map_after changes) (priorities_after changes)"
  using assms
proof (induction changes rule: rev_induct)
  case (snoc c changes)
  then show ?case by (cases c) (auto simp: bit_map_rep_Add bit_map_rep_Remove)
qed (simp add: bit_map_rep_empty)

text \<open>C32: The bit map is a set of priorities: after any sequence of additions and removals of priorities up to 255 it is empty
  exactly if the set is, and otherwise the two table lookups give the least priority of the set, which is the most important one.\<close>

theorem Priority_bit_map_Get_highest_correct:
  assumes "\<forall>(add, p) \<in> set changes. unat p < 256"
  shows "(Priority_bit_map_Is_empty (bit_map_after changes) \<longleftrightarrow> priorities_after changes = {})
    \<and> (priorities_after changes \<noteq> {} \<longrightarrow> unat (Priority_bit_map_Get_highest (bit_map_after changes)) = Min (priorities_after changes))"
  using bit_map_Is_empty bit_map_Get_highest bit_map_rep_changes [OF assms] by blast

theorem Priority_bit_map_Get_highest_correct_witness:
  "unat (Priority_bit_map_Get_highest (bit_map_after [(True, 3), (True, 255), (True, 200), (False, 3)])) = 200"
proof -
  have "priorities_after [(True, 3), (True, 255), (True, 200), (False, 3)] = {200, 255}" by auto
  moreover have "Min {200, 255 :: nat} = 200" by simp
  ultimately show ?thesis using Priority_bit_map_Get_highest_correct [of "[(True, 3), (True, 255), (True, 200), (False, 3)]"]
    by (simp del: fold_simps)
qed

end
