(* ===== verification/Score_RBTree.thy ===== *)
theory Score_RBTree
  imports Score_Chain
begin

text \<open>
  The red-black trees of the SuperCore (\<^verbatim>\<open>src/librtems/score/rbtree\<close>, \<^verbatim>\<open>src/include/rtems/score/rbtree.h\<close> and
  \<^verbatim>\<open>rbtreeimpl.h\<close>), which order the threads of a priority queue. The nodes are in memory: each field of
  a node is a function from its address. A tree control is also a node: its \<open>permanent_null\<close> is the parent field of
  that node and its \<open>root\<close> is the left child field, which is how rotations and extractions reach the
  root. The remaining overlap, of \<open>first\<close> with the right child and the color of that node, is never used by the code.

  The first part is the model; \<^verbatim>\<open>Score_RBTree_Props\<close> relates the nodes to coloured trees.
\<close>

subsection \<open>Nodes\<close>

datatype RBTree_Color = RBT_BLACK | RBT_RED

datatype RBTree_Direction = RBT_LEFT | RBT_RIGHT

record RBTree =
  rb_parent :: "addr \<Rightarrow> addr"
  rb_child :: "addr \<Rightarrow> RBTree_Direction \<Rightarrow> addr"
  rb_color :: "addr \<Rightarrow> RBTree_Color"
  rb_first :: "addr \<Rightarrow> RBTree_Direction \<Rightarrow> addr"

definition set_parent :: "addr \<Rightarrow> addr \<Rightarrow> RBTree \<Rightarrow> RBTree" where
  [score_defs]: "set_parent n v s = s\<lparr>rb_parent := (rb_parent s)(n := v)\<rparr>"

definition set_child :: "addr \<Rightarrow> RBTree_Direction \<Rightarrow> addr \<Rightarrow> RBTree \<Rightarrow> RBTree" where
  [score_defs]: "set_child n d v s = s\<lparr>rb_child := (rb_child s)(n := (rb_child s n)(d := v))\<rparr>"

definition set_color :: "addr \<Rightarrow> RBTree_Color \<Rightarrow> RBTree \<Rightarrow> RBTree" where
  [score_defs]: "set_color n c s = s\<lparr>rb_color := (rb_color s)(n := c)\<rparr>"

definition set_first :: "addr \<Rightarrow> RBTree_Direction \<Rightarrow> addr \<Rightarrow> RBTree \<Rightarrow> RBTree" where
  [score_defs]: "set_first t d v s = s\<lparr>rb_first := (rb_first s)(t := (rb_first s t)(d := v))\<rparr>"

definition RBTree_Root :: "RBTree \<Rightarrow> addr \<Rightarrow> addr" where
  [score_defs]: "RBTree_Root s the_rbtree = rb_child s the_rbtree RBT_LEFT"

definition RBTree_First :: "RBTree \<Rightarrow> addr \<Rightarrow> RBTree_Direction \<Rightarrow> addr" where
  [score_defs]: "RBTree_First s the_rbtree dir = rb_first s the_rbtree dir"

definition RBTree_Parent :: "RBTree \<Rightarrow> addr \<Rightarrow> addr" where
  [score_defs]: "RBTree_Parent s the_node = rb_parent s the_node"

definition RBTree_Is_empty :: "RBTree \<Rightarrow> addr \<Rightarrow> bool" where
  "RBTree_Is_empty s the_rbtree = (RBTree_Root s the_rbtree = NULL)"

definition RBTree_Is_root :: "RBTree \<Rightarrow> addr \<Rightarrow> bool" where
  "RBTree_Is_root s the_node = (RBTree_Parent s (RBTree_Parent s the_node) = NULL)"

definition RBTree_Set_off_tree :: "addr \<Rightarrow> RBTree \<Rightarrow> RBTree" where
  "RBTree_Set_off_tree the_node s = set_parent the_node NULL s"

definition RBTree_Is_node_off_tree :: "RBTree \<Rightarrow> addr \<Rightarrow> bool" where
  "RBTree_Is_node_off_tree s the_node = (rb_parent s the_node = NULL)"

definition RBTree_Initialize_empty :: "addr \<Rightarrow> RBTree \<Rightarrow> RBTree" where
  "RBTree_Initialize_empty the_rbtree s =
     set_first the_rbtree RBT_RIGHT NULL (set_first the_rbtree RBT_LEFT NULL
       (set_child the_rbtree RBT_LEFT NULL (set_parent the_rbtree NULL s)))"

fun RBTree_Opposite_direction :: "RBTree_Direction \<Rightarrow> RBTree_Direction" where
  "RBTree_Opposite_direction RBT_LEFT = RBT_RIGHT"
| "RBTree_Opposite_direction RBT_RIGHT = RBT_LEFT"

definition RBTree_Direction_of :: "RBTree \<Rightarrow> addr \<Rightarrow> addr \<Rightarrow> RBTree_Direction" where
  "RBTree_Direction_of s the_node parent = (if the_node \<noteq> rb_child s parent RBT_LEFT then RBT_RIGHT else RBT_LEFT)"

definition RBTree_Is_red :: "RBTree \<Rightarrow> addr \<Rightarrow> bool" where
  "RBTree_Is_red s the_node = (the_node \<noteq> NULL \<and> rb_color s the_node = RBT_RED)"

definition RBTree_Sibling :: "RBTree \<Rightarrow> addr \<Rightarrow> addr \<Rightarrow> addr" where
  "RBTree_Sibling s the_node parent =
     (let left_child = rb_child s parent RBT_LEFT
      in if the_node = left_child then rb_child s parent RBT_RIGHT else left_child)"

definition RBTree_Rotate :: "addr \<Rightarrow> RBTree_Direction \<Rightarrow> RBTree \<Rightarrow> RBTree" where
  "RBTree_Rotate the_node dir s =
     (let opp_dir = RBTree_Opposite_direction dir;
          child = rb_child s the_node opp_dir
      in if child = NULL then s
         else let grandchild = rb_child s child dir;
                  s = set_child the_node opp_dir grandchild s;
                  s = (if grandchild \<noteq> NULL then set_parent grandchild the_node s else s);
                  s = set_child child dir the_node s;
                  parent = RBTree_Parent s the_node;
                  s = set_child parent (RBTree_Direction_of s the_node parent) child s;
                  s = set_parent child parent s
              in set_parent the_node child s)"

subsection \<open>Insertion\<close>

text \<open>The loop over the red parents of the new node; its result is the node and the grandparent it ends with.\<close>

partial_function (option) RBTree_Validate_insert_loop :: "addr \<Rightarrow> addr \<Rightarrow> addr \<Rightarrow> RBTree \<Rightarrow> (addr \<times> addr \<times> RBTree) option" where
  "RBTree_Validate_insert_loop the_node parent grandparent s =
     (if rb_color s parent = RBT_RED
      then let uncle = RBTree_Sibling s parent grandparent in
           if uncle \<noteq> NULL \<and> rb_color s uncle = RBT_RED
           then let s = set_color parent RBT_BLACK s;
                    s = set_color uncle RBT_BLACK s;
                    s = set_color grandparent RBT_RED s;
                    the_node = grandparent;
                    parent = RBTree_Parent s the_node;
                    grandparent = RBTree_Parent s parent
                in if grandparent = NULL then Some (the_node, grandparent, s)
                   else RBTree_Validate_insert_loop the_node parent grandparent s
           else let dir = RBTree_Direction_of s the_node parent;
                    parentdir = RBTree_Direction_of s parent grandparent;
                    (the_node, parent, s) =
                      (if dir \<noteq> parentdir then (parent, the_node, RBTree_Rotate parent parentdir s) else (the_node, parent, s));
                    s = set_color parent RBT_BLACK s;
                    s = set_color grandparent RBT_RED s;
                    s = RBTree_Rotate grandparent (RBTree_Opposite_direction parentdir) s
                in Some (the_node, RBTree_Parent s parent, s)
      else Some (the_node, grandparent, s))"

definition RBTree_Validate_insert :: "addr \<Rightarrow> RBTree \<Rightarrow> RBTree option" where
  "RBTree_Validate_insert the_node s =
     (let parent = RBTree_Parent s the_node in
      case RBTree_Validate_insert_loop the_node parent (RBTree_Parent s parent) s of
        None \<Rightarrow> None
      | Some (the_node, grandparent, s) \<Rightarrow> Some (if grandparent = NULL then set_color the_node RBT_BLACK s else s))"

type_synonym RBTree_Compare = "addr \<Rightarrow> addr \<Rightarrow> int"

text \<open>The descent to the place of the new node. The result is the node that is equal to it, or null with the node linked.\<close>

partial_function (option) RBTree_Insert_loop ::
  "addr \<Rightarrow> addr \<Rightarrow> RBTree_Compare \<Rightarrow> bool \<Rightarrow> addr \<Rightarrow> RBTree \<Rightarrow> (RBTree \<times> addr) option" where
  "RBTree_Insert_loop the_rbtree the_node compare is_unique iter_node s =
     (if iter_node = NULL then Some (s, NULL)
      else let compare_result = compare the_node iter_node in
           if is_unique \<and> compare_result = 0 then Some (s, iter_node)
           else let dir = (if compare_result < 0 then RBT_LEFT else RBT_RIGHT) in
                if rb_child s iter_node dir = NULL
                then let s = set_child the_node RBT_RIGHT NULL s;
                         s = set_child the_node RBT_LEFT NULL s;
                         s = set_color the_node RBT_RED s;
                         s = set_child iter_node dir the_node s;
                         s = set_parent the_node iter_node s;
                         compare_result = compare the_node (RBTree_First s the_rbtree dir);
                         s = (if dir = RBT_LEFT \<and> compare_result < 0 \<or> dir = RBT_RIGHT \<and> \<not> compare_result < 0
                              then set_first the_rbtree dir the_node s else s)
                     in Some (s, NULL)
                else RBTree_Insert_loop the_rbtree the_node compare is_unique (rb_child s iter_node dir) s)"

definition RBTree_Insert :: "addr \<Rightarrow> addr \<Rightarrow> RBTree_Compare \<Rightarrow> bool \<Rightarrow> RBTree \<Rightarrow> (RBTree \<times> addr) option" where
  "RBTree_Insert the_rbtree the_node compare is_unique s =
     (let iter_node = RBTree_Root s the_rbtree in
      if iter_node = NULL
      then let s = set_color the_node RBT_BLACK s;
               s = set_child the_rbtree RBT_LEFT the_node s;
               s = set_first the_rbtree RBT_RIGHT the_node s;
               s = set_first the_rbtree RBT_LEFT the_node s;
               s = set_parent the_node the_rbtree s;
               s = set_child the_node RBT_RIGHT NULL s;
               s = set_child the_node RBT_LEFT NULL s
           in Some (s, NULL)
      else case RBTree_Insert_loop the_rbtree the_node compare is_unique iter_node s of
             None \<Rightarrow> None
           | Some (s, found) \<Rightarrow>
               if found \<noteq> NULL then Some (s, found)
               else (case RBTree_Validate_insert the_node s of None \<Rightarrow> None | Some s \<Rightarrow> Some (s, NULL)))"

primrec RBTree_Initialize_loop :: "nat \<Rightarrow> addr \<Rightarrow> RBTree_Compare \<Rightarrow> addr \<Rightarrow> uint32 \<Rightarrow> bool \<Rightarrow> RBTree \<Rightarrow> RBTree option" where
  "RBTree_Initialize_loop 0 the_rbtree compare next_node node_size is_unique s = Some s"
| "RBTree_Initialize_loop (Suc k) the_rbtree compare next_node node_size is_unique s =
     (case RBTree_Insert the_rbtree next_node compare is_unique s of
        None \<Rightarrow> None
      | Some (s, _) \<Rightarrow> RBTree_Initialize_loop k the_rbtree compare (next_node + node_size) node_size is_unique s)"

definition RBTree_Initialize :: "addr \<Rightarrow> RBTree_Compare \<Rightarrow> addr \<Rightarrow> uint32 \<Rightarrow> uint32 \<Rightarrow> bool \<Rightarrow> RBTree \<Rightarrow> RBTree option" where
  "RBTree_Initialize the_rbtree compare starting_address number_nodes node_size is_unique s =
     RBTree_Initialize_loop (unat number_nodes) the_rbtree compare starting_address node_size is_unique (RBTree_Initialize_empty the_rbtree s)"

subsection \<open>Lookup and iteration\<close>

partial_function (option) RBTree_Find_loop :: "addr \<Rightarrow> RBTree_Compare \<Rightarrow> bool \<Rightarrow> addr \<Rightarrow> addr \<Rightarrow> RBTree \<Rightarrow> addr option" where
  "RBTree_Find_loop the_node compare is_unique iter_node found s =
     (if iter_node \<noteq> NULL
      then let compare_result = compare the_node iter_node;
               found = (if compare_result = 0 then iter_node else found)
           in if compare_result = 0 \<and> is_unique then Some found
              else RBTree_Find_loop the_node compare is_unique
                     (rb_child s iter_node (if compare_result > 0 then RBT_RIGHT else RBT_LEFT)) found s
      else Some found)"

definition RBTree_Find :: "RBTree \<Rightarrow> addr \<Rightarrow> addr \<Rightarrow> RBTree_Compare \<Rightarrow> bool \<Rightarrow> addr option" where
  "RBTree_Find s the_rbtree the_node compare is_unique =
     RBTree_Find_loop the_node compare is_unique (RBTree_Root s the_rbtree) NULL s"

partial_function (option) RBTree_Next_down :: "RBTree \<Rightarrow> RBTree_Direction \<Rightarrow> addr \<Rightarrow> addr \<Rightarrow> addr option" where
  "RBTree_Next_down s opp_dir current next_node =
     (let current = rb_child s current opp_dir in
      if current \<noteq> NULL then RBTree_Next_down s opp_dir current current else Some next_node)"

partial_function (option) RBTree_Next_up :: "RBTree \<Rightarrow> RBTree_Direction \<Rightarrow> addr \<Rightarrow> addr \<Rightarrow> addr option" where
  "RBTree_Next_up s dir node parent =
     (if rb_parent s parent \<noteq> NULL \<and> node = rb_child s parent dir
      then RBTree_Next_up s dir parent (rb_parent s parent)
      else Some parent)"

definition RBTree_Next :: "RBTree \<Rightarrow> addr \<Rightarrow> RBTree_Direction \<Rightarrow> addr option" where
  "RBTree_Next s node dir =
     (let opp_dir = RBTree_Opposite_direction dir;
          current = rb_child s node dir
      in if current \<noteq> NULL then RBTree_Next_down s opp_dir current current
         else let parent = rb_parent s node in
              if rb_parent s parent \<noteq> NULL \<and> node = rb_child s parent opp_dir then Some parent
              else (case RBTree_Next_up s dir node parent of
                      None \<Rightarrow> None
                    | Some parent \<Rightarrow> Some (if rb_parent s parent \<noteq> NULL then parent else NULL)))"

text \<open>The visitor is a function of the node, the direction and its own state that tells whether to stop.\<close>

partial_function (option) RBTree_Iterate_loop ::
  "RBTree \<Rightarrow> RBTree_Direction \<Rightarrow> (addr \<Rightarrow> RBTree_Direction \<Rightarrow> 'v \<Rightarrow> bool \<times> 'v) \<Rightarrow> bool \<Rightarrow> addr \<Rightarrow> 'v \<Rightarrow> 'v option" where
  "RBTree_Iterate_loop s dir visitor stop current arg =
     (if \<not> stop \<and> current \<noteq> NULL
      then let (stop, arg) = visitor current dir arg in
           (case RBTree_Next s current dir of
              None \<Rightarrow> None
            | Some current \<Rightarrow> RBTree_Iterate_loop s dir visitor stop current arg)
      else Some arg)"

definition RBTree_Iterate ::
  "RBTree \<Rightarrow> addr \<Rightarrow> RBTree_Direction \<Rightarrow> (addr \<Rightarrow> RBTree_Direction \<Rightarrow> 'v \<Rightarrow> bool \<times> 'v) \<Rightarrow> 'v \<Rightarrow> 'v option" where
  "RBTree_Iterate s the_rbtree dir visitor arg =
     RBTree_Iterate_loop s dir visitor False (RBTree_First s the_rbtree (RBTree_Opposite_direction dir)) arg"

subsection \<open>Extraction\<close>

partial_function (option) RBTree_Extract_validate_loop :: "addr \<Rightarrow> addr \<Rightarrow> RBTree \<Rightarrow> (addr \<times> RBTree) option" where
  "RBTree_Extract_validate_loop the_node parent s =
     (if \<not> RBTree_Is_red s the_node \<and> rb_parent s parent \<noteq> NULL
      then let sibling = RBTree_Sibling s the_node parent;
               (s, sibling) =
                 (if RBTree_Is_red s sibling
                  then let dir = RBTree_Direction_of s the_node parent;
                           opp_dir = RBTree_Opposite_direction dir;
                           s = set_color parent RBT_RED s;
                           s = set_color sibling RBT_BLACK s;
                           s = RBTree_Rotate parent dir s
                       in (s, rb_child s parent opp_dir)
                  else (s, sibling))
           in if \<not> RBTree_Is_red s (rb_child s sibling RBT_RIGHT) \<and> \<not> RBTree_Is_red s (rb_child s sibling RBT_LEFT)
              then let s = set_color sibling RBT_RED s in
                   if RBTree_Is_red s parent then Some (the_node, set_color parent RBT_BLACK s)
                   else RBTree_Extract_validate_loop parent (rb_parent s parent) s
              else let dir = RBTree_Direction_of s the_node parent;
                       opp_dir = RBTree_Opposite_direction dir;
                       (s, sibling) =
                         (if \<not> RBTree_Is_red s (rb_child s sibling opp_dir)
                          then let s = set_color sibling RBT_RED s;
                                   s = set_color (rb_child s sibling dir) RBT_BLACK s;
                                   s = RBTree_Rotate sibling opp_dir s
                               in (s, rb_child s parent opp_dir)
                          else (s, sibling));
                       s = set_color sibling (rb_color s parent) s;
                       s = set_color parent RBT_BLACK s;
                       s = set_color (rb_child s sibling opp_dir) RBT_BLACK s
                   in Some (the_node, RBTree_Rotate parent dir s)
      else Some (the_node, s))"

definition RBTree_Extract_validate :: "addr \<Rightarrow> RBTree \<Rightarrow> RBTree option" where
  "RBTree_Extract_validate the_node s =
     (let parent = rb_parent s the_node in
      if rb_parent s parent = NULL then Some s
      else case RBTree_Extract_validate_loop the_node parent s of
             None \<Rightarrow> None
           | Some (the_node, s) \<Rightarrow> Some (if rb_parent s (rb_parent s the_node) = NULL then set_color the_node RBT_BLACK s else s))"

partial_function (option) RBTree_Extract_target :: "RBTree \<Rightarrow> addr \<Rightarrow> addr option" where
  "RBTree_Extract_target s target =
     (if rb_child s target RBT_RIGHT \<noteq> NULL then RBTree_Extract_target s (rb_child s target RBT_RIGHT) else Some target)"

text \<open>Taking a node with at most one child, \<open>leaf\<close>, out of its place; the color of the node and the memory are the result.\<close>

definition RBTree_Extract_lift :: "addr \<Rightarrow> addr \<Rightarrow> RBTree \<Rightarrow> (RBTree_Color \<times> RBTree) option" where
  "RBTree_Extract_lift target leaf s =
     (case (if leaf \<noteq> NULL then Some (set_parent leaf (rb_parent s target) s) else RBTree_Extract_validate target s) of
        None \<Rightarrow> None
      | Some s \<Rightarrow>
          let victim_color = rb_color s target;
              dir = (if target \<noteq> rb_child s (rb_parent s target) RBT_LEFT then RBT_RIGHT else RBT_LEFT)
          in Some (victim_color, set_child (rb_parent s target) dir leaf s))"

text \<open>Putting the node \<open>target\<close> into the place of another one.\<close>

definition RBTree_Extract_replace :: "addr \<Rightarrow> addr \<Rightarrow> RBTree \<Rightarrow> RBTree" where
  "RBTree_Extract_replace the_node target s =
     (let dir = (if the_node \<noteq> rb_child s (rb_parent s the_node) RBT_LEFT then RBT_RIGHT else RBT_LEFT);
          s = set_child (rb_parent s the_node) dir target s;
          s = set_child target RBT_RIGHT (rb_child s the_node RBT_RIGHT) s;
          s = (if rb_child s the_node RBT_RIGHT \<noteq> NULL then set_parent (rb_child s the_node RBT_RIGHT) target s else s);
          s = set_child target RBT_LEFT (rb_child s the_node RBT_LEFT) s;
          s = (if rb_child s the_node RBT_LEFT \<noteq> NULL then set_parent (rb_child s the_node RBT_LEFT) target s else s);
          s = set_parent target (rb_parent s the_node) s
      in set_color target (rb_color s the_node) s)"

text \<open>The two ends of the order when the node is one of them.\<close>

definition RBTree_Extract_ends :: "addr \<Rightarrow> addr \<Rightarrow> RBTree \<Rightarrow> RBTree option" where
  "RBTree_Extract_ends the_rbtree the_node s =
     (case (if the_node = rb_first s the_rbtree RBT_LEFT
            then map_option (\<lambda>n. set_first the_rbtree RBT_LEFT n s) (RBTree_Next s the_node RBT_RIGHT) else Some s) of
        None \<Rightarrow> None
      | Some s \<Rightarrow>
          if the_node = rb_first s the_rbtree RBT_RIGHT
          then map_option (\<lambda>n. set_first the_rbtree RBT_RIGHT n s) (RBTree_Next s the_node RBT_LEFT) else Some s)"

definition RBTree_Extract :: "addr \<Rightarrow> addr \<Rightarrow> RBTree \<Rightarrow> RBTree option" where
  "RBTree_Extract the_rbtree the_node s =
     (case RBTree_Extract_ends the_rbtree the_node s of
        None \<Rightarrow> None
      | Some s \<Rightarrow>
          (let lch = rb_child s the_node RBT_LEFT; rch = rb_child s the_node RBT_RIGHT;
               r = (if lch \<noteq> NULL \<and> rch \<noteq> NULL
                    then (case RBTree_Extract_target s lch of
                            None \<Rightarrow> None
                          | Some target \<Rightarrow>
                              let leaf = rb_child s target RBT_LEFT in
                              (case RBTree_Extract_lift target leaf s of
                                 None \<Rightarrow> None
                               | Some (victim_color, s) \<Rightarrow> Some (leaf, victim_color, RBTree_Extract_replace the_node target s)))
                    else let leaf = (if lch \<noteq> NULL then lch else rch) in
                         (case RBTree_Extract_lift the_node leaf s of
                            None \<Rightarrow> None
                          | Some (victim_color, s) \<Rightarrow> Some (leaf, victim_color, s)))
           in case r of
                None \<Rightarrow> None
              | Some (leaf, victim_color, s) \<Rightarrow>
                  let s = (if victim_color = RBT_BLACK \<and> leaf \<noteq> NULL then set_color leaf RBT_BLACK s else s);
                      root = RBTree_Root s the_rbtree
                  in Some (if root \<noteq> NULL then set_color root RBT_BLACK s else s)))"

definition RBTree_Get :: "addr \<Rightarrow> RBTree_Direction \<Rightarrow> RBTree \<Rightarrow> (RBTree \<times> addr) option" where
  "RBTree_Get the_rbtree dir s =
     (let the_node = rb_first s the_rbtree dir in
      if the_node \<noteq> NULL then map_option (\<lambda>s. (s, the_node)) (RBTree_Extract the_rbtree the_node s) else Some (s, the_node))"

declare RBTree_Validate_insert_loop.simps [code] RBTree_Insert_loop.simps [code] RBTree_Find_loop.simps [code]
  RBTree_Next_down.simps [code] RBTree_Next_up.simps [code] RBTree_Iterate_loop.simps [code]
  RBTree_Extract_validate_loop.simps [code] RBTree_Extract_target.simps [code]

end
