(* ===== verification/Score_RBTree_Props.thy ===== *)
theory Score_RBTree_Props
  imports Score_RBTree
begin

text \<open>
  Red-black trees in memory as coloured trees. A place in a tree is a context, the list of the steps from the place up to
  the root; \<open>rb_at s H fs t\<close> says that the tree with control \<open>H\<close> has the subtree \<open>t\<close> at the place \<open>fs\<close>. Moving
  the place up or down is rewriting, so that the loops of the code are followed step by step.
\<close>

subsection \<open>Trees and places\<close>

datatype rtree = Tip | Bin rtree RBTree_Color addr rtree

abbreviation opp :: "RBTree_Direction \<Rightarrow> RBTree_Direction" where
  "opp \<equiv> RBTree_Opposite_direction"

lemma opp_simps [simp]: "opp (opp d) = d" "opp d \<noteq> d" "d \<noteq> opp d"
  by (cases d; simp)+

lemma dir_cases: "d' = d \<or> d' = opp d"
  by (cases d; cases d') simp_all

text \<open>A node with the subtree \<open>x\<close> in direction \<open>d\<close> and \<open>y\<close> in the other one.\<close>

fun bin :: "RBTree_Direction \<Rightarrow> RBTree_Color \<Rightarrow> addr \<Rightarrow> rtree \<Rightarrow> rtree \<Rightarrow> rtree" where
  "bin RBT_LEFT c a x y = Bin x c a y"
| "bin RBT_RIGHT c a x y = Bin y c a x"

lemma bin_opp: "bin (opp d) c a x y = bin d c a y x"
  by (cases d) simp_all

lemma bin_inject [simp]: "bin d c a x y = bin d c' a' x' y' \<longleftrightarrow> c = c' \<and> a = a' \<and> x = x' \<and> y = y'"
  by (cases d) auto

lemma bin_not_Tip [simp]: "bin d c a x y \<noteq> Tip" "Tip \<noteq> bin d c a x y"
  by (cases d; simp)+

lemma bin_exhaust: "t = Tip \<or> (\<exists>c a x y. t = bin d c a x y)"
  by (cases t; cases d) auto

primrec io :: "rtree \<Rightarrow> addr list" where
  "io Tip = []"
| "io (Bin l c a r) = io l @ a # io r"

lemma io_bin: "io (bin d c a x y) = (if d = RBT_LEFT then io x @ a # io y else io y @ a # io x)"
  by (cases d) simp_all

lemma set_io_bin [simp]: "set (io (bin d c a x y)) = insert a (set (io x) \<union> set (io y))"
  by (cases d) auto

type_synonym ctx = "(RBTree_Direction \<times> RBTree_Color \<times> addr \<times> rtree) list"

fun plug :: "ctx \<Rightarrow> rtree \<Rightarrow> rtree" where
  "plug [] t = t"
| "plug ((d, c, a, u) # fs) t = plug fs (bin d c a t u)"

fun before :: "ctx \<Rightarrow> addr list" where
  "before [] = []"
| "before ((d, c, a, u) # fs) = (if d = RBT_LEFT then before fs else before fs @ io u @ [a])"

fun after :: "ctx \<Rightarrow> addr list" where
  "after [] = []"
| "after ((d, c, a, u) # fs) = (if d = RBT_LEFT then a # io u @ after fs else after fs)"

lemma io_plug: "io (plug fs t) = before fs @ io t @ after fs"
  by (induction fs t rule: plug.induct) (auto simp: io_bin)

lemma plug_append: "plug (fs @ gs) t = plug gs (plug fs t)"
  by (induction fs t rule: plug.induct) simp_all

fun hpar :: "addr \<Rightarrow> ctx \<Rightarrow> addr" where
  "hpar H [] = H"
| "hpar H ((d, c, a, u) # fs) = a"

fun hdir :: "ctx \<Rightarrow> RBTree_Direction" where
  "hdir [] = RBT_LEFT"
| "hdir ((d, c, a, u) # fs) = d"

primrec tree_at :: "RBTree \<Rightarrow> addr \<Rightarrow> addr \<Rightarrow> rtree \<Rightarrow> bool" where
  "tree_at s q p Tip \<longleftrightarrow> p = NULL"
| "tree_at s q p (Bin l c a r) \<longleftrightarrow> p = a \<and> a \<noteq> NULL \<and> rb_parent s a = q \<and> rb_color s a = c
     \<and> tree_at s a (rb_child s a RBT_LEFT) l \<and> tree_at s a (rb_child s a RBT_RIGHT) r"

lemma tree_at_bin: "tree_at s q p (bin d c a x y) \<longleftrightarrow> p = a \<and> a \<noteq> NULL \<and> rb_parent s a = q \<and> rb_color s a = c
     \<and> tree_at s a (rb_child s a d) x \<and> tree_at s a (rb_child s a (opp d)) y"
  by (cases d) auto

fun ctx_at :: "RBTree \<Rightarrow> addr \<Rightarrow> ctx \<Rightarrow> bool" where
  "ctx_at s H [] = True"
| "ctx_at s H ((d, c, a, u) # fs) \<longleftrightarrow> a \<noteq> NULL \<and> rb_parent s a = hpar H fs \<and> rb_color s a = c
     \<and> rb_child s (hpar H fs) (hdir fs) = a \<and> tree_at s a (rb_child s a (opp d)) u \<and> ctx_at s H fs"

definition rb_at :: "RBTree \<Rightarrow> addr \<Rightarrow> ctx \<Rightarrow> rtree \<Rightarrow> bool" where
  "rb_at s H fs t \<longleftrightarrow> H \<noteq> NULL \<and> rb_parent s H = NULL \<and> distinct (H # io (plug fs t)) \<and> NULL \<notin> set (io (plug fs t))
     \<and> ctx_at s H fs \<and> tree_at s (hpar H fs) (rb_child s (hpar H fs) (hdir fs)) t"

text \<open>Moving the place.\<close>

lemma rb_at_zoom: "rb_at s H fs (bin d c a x y) \<longleftrightarrow> rb_at s H ((d, c, a, y) # fs) x"
  by (auto simp: rb_at_def tree_at_bin)

lemma rb_at_plug: "rb_at s H fs t \<longleftrightarrow> rb_at s H [] (plug fs t)"
  by (induction fs t rule: plug.induct) (simp_all add: rb_at_zoom)

lemma rb_at_zoom_opp: "rb_at s H ((d, c, a, y) # fs) x \<longleftrightarrow> rb_at s H ((opp d, c, a, x) # fs) y"
  unfolding rb_at_zoom [symmetric] bin_opp by (rule refl)

lemma rb_at_append: "rb_at s H (fs @ gs) t \<longleftrightarrow> rb_at s H gs (plug fs t)"
  using rb_at_plug [of s H "fs @ gs" t] rb_at_plug [of s H gs "plug fs t"] by (simp add: plug_append)

subsection \<open>Frames\<close>

lemma tree_at_frame:
  assumes "\<And>a. a \<in> set (io t) \<Longrightarrow> rb_parent s' a = rb_parent s a \<and> rb_child s' a = rb_child s a \<and> rb_color s' a = rb_color s a"
  shows "tree_at s' q p t = tree_at s q p t"
  using assms by (induction t arbitrary: q p) auto

lemma hpar_in: "hpar H fs \<in> insert H (set (before fs) \<union> set (after fs))"
  by (cases fs; cases "hd fs") auto

lemma ctx_at_frame:
  assumes "\<And>a. a \<in> set (before fs) \<union> set (after fs) \<Longrightarrow> rb_parent s' a = rb_parent s a \<and> rb_color s' a = rb_color s a"
    "\<And>a d. a \<in> insert H (set (before fs) \<union> set (after fs)) \<Longrightarrow> a \<noteq> hpar H fs \<or> d \<noteq> hdir fs \<Longrightarrow> rb_child s' a d = rb_child s a d"
    "distinct (H # before fs @ after fs)"
  shows "ctx_at s' H fs = ctx_at s H fs"
  using assms
proof (induction s H fs rule: ctx_at.induct)
  case (2 s H d c a u fs)
  let ?N = "set (before fs) \<union> set (after fs)"
  have N: "set (before ((d, c, a, u) # fs)) \<union> set (after ((d, c, a, u) # fs)) = insert a (set (io u) \<union> ?N)" by auto
  have dis: "distinct (H # before fs @ after fs)" "a \<noteq> H" "a \<notin> ?N" "a \<notin> set (io u)" "set (io u) \<inter> insert H ?N = {}"
    using "2.prems"(3) by (auto split: if_splits)
  have p: "rb_parent s' b = rb_parent s b \<and> rb_color s' b = rb_color s b" if "b \<in> insert a (set (io u) \<union> ?N)" for b
    using "2.prems"(1) that unfolding N by blast
  have c: "rb_child s' b e = rb_child s b e" if "b \<in> insert H (insert a (set (io u) \<union> ?N))" "b \<noteq> a \<or> e \<noteq> d" for b e
    using "2.prems"(2) that unfolding N by simp
  have "hpar H fs \<in> insert H ?N" by (rule hpar_in)
  then have hole: "rb_child s' (hpar H fs) (hdir fs) = rb_child s (hpar H fs) (hdir fs)" using c dis(2,3) by blast
  have u: "tree_at s' a q u = tree_at s a q u" for q
  proof (rule tree_at_frame)
    fix b assume b: "b \<in> set (io u)"
    then have "b \<noteq> a" using dis(4) by auto
    then have "rb_child s' b e = rb_child s b e" for e using c b by blast
    then show "rb_parent s' b = rb_parent s b \<and> rb_child s' b = rb_child s b \<and> rb_color s' b = rb_color s b" using p [of b] b by auto
  qed
  have "ctx_at s' H fs = ctx_at s H fs"
  proof (rule "2.IH")
    show "rb_child s' b e = rb_child s b e" if "b \<in> insert H ?N" for b e using c that dis(2,3) by blast
  qed (use p dis in auto)
  then show ?case using p [of a] c [of a "opp d"] hole u by simp
qed simp

lemma rb_atD:
  assumes "rb_at s H fs t"
  shows "H \<noteq> NULL" "rb_parent s H = NULL" "distinct (H # before fs @ io t @ after fs)" "NULL \<notin> set (before fs @ io t @ after fs)"
    "ctx_at s H fs" "tree_at s (hpar H fs) (rb_child s (hpar H fs) (hdir fs)) t"
    "hpar H fs \<noteq> NULL" "hpar H fs \<notin> set (io t)"
proof -
  show *: "H \<noteq> NULL" "rb_parent s H = NULL" "distinct (H # before fs @ io t @ after fs)" "NULL \<notin> set (before fs @ io t @ after fs)"
    "ctx_at s H fs" "tree_at s (hpar H fs) (rb_child s (hpar H fs) (hdir fs)) t"
    using assms by (auto simp: rb_at_def io_plug)
  show "hpar H fs \<noteq> NULL" using hpar_in [of H fs] *(1,4) by auto
  show "hpar H fs \<notin> set (io t)" using hpar_in [of H fs] *(3) by auto
qed

lemma rb_atI:
  assumes "H \<noteq> NULL" "rb_parent s H = NULL" "distinct (H # before fs @ io t @ after fs)" "NULL \<notin> set (before fs @ io t @ after fs)"
    "ctx_at s H fs" "tree_at s (hpar H fs) (rb_child s (hpar H fs) (hdir fs)) t"
  shows "rb_at s H fs t"
  using assms by (simp add: rb_at_def io_plug)

text \<open>Replacing the subtree at a place.\<close>

lemma rb_at_replace:
  assumes at: "rb_at s H fs t"
    and new: "distinct (H # before fs @ io t' @ after fs)" "NULL \<notin> set (io t')"
    and same: "\<And>a. a \<in> insert H (set (before fs @ after fs)) \<Longrightarrow> rb_parent s' a = rb_parent s a \<and> rb_color s' a = rb_color s a"
      "\<And>a d. a \<in> insert H (set (before fs @ after fs)) \<Longrightarrow> a \<noteq> hpar H fs \<or> d \<noteq> hdir fs \<Longrightarrow> rb_child s' a d = rb_child s a d"
    and tree: "tree_at s' (hpar H fs) (rb_child s' (hpar H fs) (hdir fs)) t'"
  shows "rb_at s' H fs t'"
proof (rule rb_atI)
  note A = rb_atD [OF at]
  have "ctx_at s' H fs = ctx_at s H fs"
    by (rule ctx_at_frame) (use same A(3) in auto)
  then show "ctx_at s' H fs" using A(5) by simp
  show "rb_parent s' H = NULL" using same(1) [of H] A(2) by simp
  show "NULL \<notin> set (before fs @ io t' @ after fs)" using A(4) new(2) by auto
qed (use rb_atD [OF at] new tree in auto)

subsection \<open>Colors, directions and rotation\<close>

lemma set_fields [simp]:
  "rb_parent (set_color a c s) = rb_parent s" "rb_child (set_color a c s) = rb_child s" "rb_color (set_color a c s) = (rb_color s)(a := c)"
  "rb_first (set_color a c s) = rb_first s"
  "rb_parent (set_parent a p s) = (rb_parent s)(a := p)" "rb_child (set_parent a p s) = rb_child s" "rb_color (set_parent a p s) = rb_color s"
  "rb_first (set_parent a p s) = rb_first s"
  "rb_parent (set_child a d p s) = rb_parent s" "rb_child (set_child a d p s) = (rb_child s)(a := (rb_child s a)(d := p))"
  "rb_color (set_child a d p s) = rb_color s" "rb_first (set_child a d p s) = rb_first s"
  "rb_parent (set_first t d p s) = rb_parent s" "rb_child (set_first t d p s) = rb_child s" "rb_color (set_first t d p s) = rb_color s"
  "rb_first (set_first t d p s) = (rb_first s)(t := (rb_first s t)(d := p))"
  by (simp_all add: score_defs)

lemma rb_at_color:
  assumes "rb_at s H fs (bin d c a x y)"
  shows "rb_at (set_color a c' s) H fs (bin d c' a x y)"
proof (rule rb_at_replace [OF assms])
  note A = rb_atD [OF assms]
  have out: "a \<notin> insert H (set (before fs @ after fs))" "a \<notin> set (io x)" "a \<notin> set (io y)" using A(3) by (auto simp: io_bin split: if_splits)
  show "distinct (H # before fs @ io (bin d c' a x y) @ after fs)" using A(3) by (simp add: io_bin)
  show "NULL \<notin> set (io (bin d c' a x y))" using A(4) by simp
  have f: "tree_at (set_color a c' s) q p t = tree_at s q p t" if "a \<notin> set (io t)" for q p t
    by (rule tree_at_frame) (use that in auto)
  show "tree_at (set_color a c' s) (hpar H fs) (rb_child (set_color a c' s) (hpar H fs) (hdir fs)) (bin d c' a x y)"
    using A(6) out(2,3) f by (simp add: tree_at_bin)
  show "rb_parent (set_color a c' s) b = rb_parent s b \<and> rb_color (set_color a c' s) b = rb_color s b"
    if "b \<in> insert H (set (before fs @ after fs))" for b using out(1) that by auto
qed simp

text \<open>What the code reads at a place.\<close>

lemma tree_at_NULL: "tree_at s q p t \<Longrightarrow> p = NULL \<longleftrightarrow> t = Tip"
  by (cases t) auto

fun is_red :: "rtree \<Rightarrow> bool" where
  "is_red (Bin l RBT_RED a r) = True"
| "is_red t = False"

lemma is_red_bin [simp]: "is_red (bin d c a x y) \<longleftrightarrow> c = RBT_RED"
  by (cases d; cases c) simp_all

lemma rb_at_node:
  assumes "rb_at s H fs (bin d c a x y)"
  shows "a \<noteq> NULL" "rb_parent s a = hpar H fs" "rb_color s a = c" "rb_child s (hpar H fs) (hdir fs) = a"
    "rb_child s a d = NULL \<longleftrightarrow> x = Tip" "rb_child s a (opp d) = NULL \<longleftrightarrow> y = Tip"
  using rb_atD(6) [OF assms] tree_at_NULL [of s a "rb_child s a d" x] tree_at_NULL [of s a "rb_child s a (opp d)" y]
  by (simp_all add: tree_at_bin)

lemma rb_at_root:
  assumes "rb_at s H fs t"
  shows "rb_child s (hpar H fs) (hdir fs) = NULL \<longleftrightarrow> t = Tip"
  using rb_atD(6) [OF assms] by (cases t) auto

lemma rb_at_red:
  assumes "rb_at s H fs t"
  shows "RBTree_Is_red s (rb_child s (hpar H fs) (hdir fs)) \<longleftrightarrow> is_red t"
proof (cases t)
  case (Bin l c a r)
  then show ?thesis using rb_at_node [of s H fs RBT_LEFT c a l r] assms by (cases c) (simp_all add: RBTree_Is_red_def)
qed (use rb_at_root [OF assms] in \<open>simp add: RBTree_Is_red_def\<close>)

lemma rb_at_other_child:
  assumes at: "rb_at s H ((e, k, b, u) # gs) (bin d c a x y)"
  shows "rb_child s b e = a" "rb_child s b (opp e) \<noteq> a"
proof -
  note A = rb_atD [OF at]
  show "rb_child s b e = a" using rb_at_node(4) [OF at] by simp
  have "tree_at s b (rb_child s b (opp e)) u" using A(5) by simp
  then have "rb_child s b (opp e) = NULL \<or> rb_child s b (opp e) \<in> set (io u)" by (cases u) auto
  moreover have "a \<noteq> NULL" "a \<notin> set (io u)" using A(3,4) by (auto simp: io_bin split: if_splits)
  ultimately show "rb_child s b (opp e) \<noteq> a" by auto
qed

lemma rb_at_direction:
  assumes at: "rb_at s H fs (bin d c a x y)"
  shows "RBTree_Direction_of s a (hpar H fs) = hdir fs"
proof (cases fs)
  case Nil
  then show ?thesis using rb_at_node(4) [OF at] by (simp add: RBTree_Direction_of_def)
next
  case (Cons f gs)
  obtain e k b u where f: "f = (e, k, b, u)" by (cases f)
  have "rb_child s b e = a" "rb_child s b (opp e) \<noteq> a" using rb_at_other_child [of s H e k b u gs d c a x y] at by (simp_all add: Cons f)
  then show ?thesis by (cases e) (auto simp: RBTree_Direction_of_def Cons f)
qed

lemma rb_at_sibling:
  assumes "rb_at s H ((e, k, b, u) # gs) (bin d c a x y)"
  shows "RBTree_Sibling s a b = rb_child s b (opp e)"
  using rb_at_node(4) [OF assms] rb_at_direction [OF assms]
  by (cases e) (auto simp: RBTree_Sibling_def RBTree_Direction_of_def split: if_splits)

lemma tree_at_reparent:
  assumes "tree_at s q p t" "distinct (io t)" "p \<noteq> NULL \<Longrightarrow> s' = set_parent p q' s" "p = NULL \<Longrightarrow> s' = s"
  shows "tree_at s' q' p t"
proof (cases t)
  case (Bin l c a r)
  then have p: "p = a" "a \<noteq> NULL" using assms(1) by auto
  then have s': "s' = set_parent a q' s" using assms(3) by simp
  have "a \<notin> set (io l)" "a \<notin> set (io r)" using assms(2) Bin by auto
  then have "tree_at s' a q t = tree_at s a q t" if "t = l \<or> t = r" for q t using that s' by (intro tree_at_frame) auto
  then show ?thesis using assms(1) Bin p s' by simp
qed (use assms in simp)

lemma rb_at_rotate:
  assumes at: "rb_at s H fs (bin d c n x (bin d c' b y z))"
  shows "rb_at (RBTree_Rotate n d s) H fs (bin d c' b (bin d c n x y) z)"
    "rb_first (RBTree_Rotate n d s) = rb_first s"
proof -
  note A = rb_atD [OF at] and N = rb_at_node [OF at]
  let ?P = "hpar H fs" and ?D = "hdir fs"
  define g where "g = rb_child s b d"
  have tb: "b \<noteq> NULL" "rb_child s n (opp d) = b" "rb_parent s b = n" "rb_color s b = c'" "tree_at s b g y"
    "tree_at s b (rb_child s b (opp d)) z" "tree_at s n (rb_child s n d) x"
    using A(6) by (simp_all add: tree_at_bin g_def)
  have dis: "n \<noteq> b" "n \<notin> set (io x)" "n \<notin> set (io y)" "n \<notin> set (io z)" "b \<notin> set (io x)" "b \<notin> set (io y)" "b \<notin> set (io z)"
    "set (io x) \<inter> set (io y) = {}" "set (io x) \<inter> set (io z) = {}" "set (io y) \<inter> set (io z) = {}" "distinct (io y)"
    "insert H (set (before fs @ after fs)) \<inter> insert n (insert b (set (io x) \<union> set (io y) \<union> set (io z))) = {}"
    using A(3) by (auto simp: io_bin split: if_splits)
  have P: "?P \<noteq> n" "?P \<noteq> b" "?P \<notin> set (io x)" "?P \<notin> set (io y)" "?P \<notin> set (io z)" "?P \<in> insert H (set (before fs @ after fs))"
    using hpar_in [of H fs] A(8) by auto
  have gy: "g = NULL \<or> g \<in> set (io y)" using tb(5) by (cases y) auto
  have g: "g \<noteq> n" "g \<noteq> b" "g \<noteq> ?P" using gy dis P A(4,7) tb(1) N(1) by auto
  define s' where "s' = RBTree_Rotate n d s"
  define s1 where "s1 = set_child b d n (if g \<noteq> NULL then set_parent g n (set_child n (opp d) g s) else set_child n (opp d) g s)"
  have D: "RBTree_Direction_of s1 n ?P = ?D" "rb_parent s1 n = ?P"
    using rb_at_direction [OF at] P N(2) g(1) by (auto simp: s1_def RBTree_Direction_of_def split: if_splits)
  have s'1: "s' = set_parent n b (set_parent b ?P (set_child ?P ?D b s1))"
    unfolding s'_def RBTree_Rotate_def Let_def RBTree_Parent_def tb(2) g_def [symmetric] s1_def [symmetric] D using tb(1) by simp
  note s' = s'1 [unfolded s1_def]
  have par: "rb_parent s' = (if g \<noteq> NULL then (rb_parent s)(g := n, b := ?P, n := b) else (rb_parent s)(b := ?P, n := b))"
    and col: "rb_color s' = rb_color s" and fst: "rb_first s' = rb_first s"
    unfolding s' by simp_all
  have ch: "rb_child s' ?P ?D = b" "rb_child s' n (opp d) = g" "rb_child s' b d = n" "rb_child s' n d = rb_child s n d"
    "rb_child s' b (opp d) = rb_child s b (opp d)" "\<And>a. a \<noteq> n \<Longrightarrow> a \<noteq> b \<Longrightarrow> a \<noteq> ?P \<Longrightarrow> rb_child s' a = rb_child s a"
    "\<And>e. e \<noteq> ?D \<Longrightarrow> rb_child s' ?P e = rb_child s ?P e"
    using P(1,2) dis(1) unfolding s' by auto
  have other: "tree_at s' q p t = tree_at s q p t" if "set (io t) \<inter> insert ?P (insert n (insert b (set (io y)))) = {}" for q p t
  proof (rule tree_at_frame)
    fix a assume "a \<in> set (io t)"
    then have "a \<noteq> ?P" "a \<noteq> n" "a \<noteq> b" "a \<notin> set (io y)" using that by auto
    moreover have "a \<noteq> g \<or> g = NULL" using gy calculation by auto
    ultimately show "rb_parent s' a = rb_parent s a \<and> rb_child s' a = rb_child s a \<and> rb_color s' a = rb_color s a"
      using ch(6) [of a] by (auto simp: par col)
  qed
  have "set (io x) \<inter> insert ?P (insert n (insert b (set (io y)))) = {}" "set (io z) \<inter> insert ?P (insert n (insert b (set (io y)))) = {}"
    using dis(2-10) P(3,5) by blast+
  then have x: "tree_at s' n (rb_child s n d) x" and z: "tree_at s' b (rb_child s b (opp d)) z" using other tb(6,7) by simp_all
  have y: "tree_at s' n g y"
  proof -
    have "tree_at s' n g y = tree_at (if g \<noteq> NULL then set_parent g n s else s) n g y"
      by (rule tree_at_frame) (use dis P ch(6) in \<open>auto simp: par col\<close>)
    moreover have "tree_at (if g \<noteq> NULL then set_parent g n s else s) n g y"
      by (rule tree_at_reparent [OF tb(5) dis(11)]) simp_all
    ultimately show ?thesis by simp
  qed
  have "rb_at s' H fs (bin d c' b (bin d c n x y) z)"
  proof (rule rb_at_replace [OF at])
    show "distinct (H # before fs @ io (bin d c' b (bin d c n x y) z) @ after fs)" using A(3) by (auto simp: io_bin split: if_splits)
    show "NULL \<notin> set (io (bin d c' b (bin d c n x y) z))" using A(4) by simp
    show "rb_parent s' a = rb_parent s a \<and> rb_color s' a = rb_color s a" if "a \<in> insert H (set (before fs @ after fs))" for a
      using that dis(12) gy by (auto simp: par col)
    show "rb_child s' a e = rb_child s a e" if "a \<in> insert H (set (before fs @ after fs))" "a \<noteq> ?P \<or> e \<noteq> ?D" for a e
    proof (cases "a = ?P")
      case False
      moreover have "a \<noteq> n" "a \<noteq> b" using that(1) dis(12) by auto
      ultimately show ?thesis using ch(6) by simp
    qed (use that ch(7) in auto)
    show "tree_at s' ?P (rb_child s' ?P ?D) (bin d c' b (bin d c n x y) z)"
      using ch x y z tb N(1,3) g dis(1) by (auto simp: tree_at_bin par col)
  qed
  then show "rb_at (RBTree_Rotate n d s) H fs (bin d c' b (bin d c n x y) z)" "rb_first (RBTree_Rotate n d s) = rb_first s"
    using fst by (simp_all add: s'_def)
qed

subsection \<open>The red-black invariant\<close>

text \<open>\<open>rbh n t\<close>: every path of \<open>t\<close> has \<open>n\<close> black nodes and no two red nodes are next to each other. \<open>rbc n fs\<close> says of the
  rest of a tree that it fits a subtree of black height \<open>n\<close> at the place \<open>fs\<close>, which may be red only below a black node.\<close>

fun rbh :: "nat \<Rightarrow> rtree \<Rightarrow> bool" where
  "rbh n Tip \<longleftrightarrow> n = 0"
| "rbh n (Bin l RBT_RED a r) \<longleftrightarrow> rbh n l \<and> rbh n r \<and> \<not> is_red l \<and> \<not> is_red r"
| "rbh n (Bin l RBT_BLACK a r) \<longleftrightarrow> 0 < n \<and> rbh (n - 1) l \<and> rbh (n - 1) r"

lemma rbh_red [simp]: "rbh n (bin d RBT_RED a x y) \<longleftrightarrow> rbh n x \<and> rbh n y \<and> \<not> is_red x \<and> \<not> is_red y"
  by (cases d) auto

lemma rbh_black [simp]: "rbh n (bin d RBT_BLACK a x y) \<longleftrightarrow> 0 < n \<and> rbh (n - 1) x \<and> rbh (n - 1) y"
  by (cases d) auto

fun red_ok :: "ctx \<Rightarrow> bool" where
  "red_ok ((d, RBT_BLACK, a, u) # fs) = True"
| "red_ok fs = False"

fun rbc :: "nat \<Rightarrow> ctx \<Rightarrow> bool" where
  "rbc n [] = True"
| "rbc n ((d, RBT_RED, a, u) # fs) \<longleftrightarrow> rbh n u \<and> \<not> is_red u \<and> red_ok fs \<and> rbc n fs"
| "rbc n ((d, RBT_BLACK, a, u) # fs) \<longleftrightarrow> rbh n u \<and> rbc (Suc n) fs"

definition rbt :: "rtree \<Rightarrow> bool" where
  "rbt t \<longleftrightarrow> \<not> is_red t \<and> (\<exists>n. rbh n t)"

lemma rbt_plug: "rbh n t \<Longrightarrow> rbc n fs \<Longrightarrow> (is_red t \<Longrightarrow> red_ok fs) \<Longrightarrow> rbt (plug fs t)"
proof (induction n fs arbitrary: t rule: rbc.induct)
  case (1 n)
  then show ?case by (auto simp: rbt_def)
next
  case (2 n d a u fs)
  then have "\<not> is_red t" by auto
  then show ?case using 2 "2.IH" [of "bin d RBT_RED a t u"] by auto
next
  case (3 n d a u fs)
  then show ?case using "3.IH" [of "bin d RBT_BLACK a t u"] by auto
qed

lemma rbt_unplug: "rbt (plug fs t) \<Longrightarrow> \<exists>n. rbh n t \<and> rbc n fs \<and> (is_red t \<longrightarrow> red_ok fs)"
proof (induction fs t rule: plug.induct)
  case (1 t)
  then show ?case by (auto simp: rbt_def)
next
  case (2 d c a u fs t)
  then obtain n where n: "rbh n (bin d c a t u)" "rbc n fs" "is_red (bin d c a t u) \<longrightarrow> red_ok fs" by auto
  show ?case
  proof (cases c)
    case RBT_RED
    then show ?thesis using n by (intro exI [of _ n]) auto
  next
    case RBT_BLACK
    then show ?thesis using n by (intro exI [of _ "n - 1"]) auto
  qed
qed

lemma red_okE:
  assumes "red_ok fs"
  obtains d a u gs where "fs = (d, RBT_BLACK, a, u) # gs"
  using assms by (cases fs rule: red_ok.cases) auto

lemma hpar_parent:
  assumes "rb_at s H ((d, c, a, u) # fs) t"
  shows "rb_parent s a = hpar H fs" "rb_color s a = c" "rb_parent s (hpar H fs) = NULL \<longleftrightarrow> fs = []"
proof -
  have at: "rb_at s H fs (bin d c a t u)" using assms by (simp add: rb_at_zoom)
  show "rb_parent s a = hpar H fs" "rb_color s a = c" using rb_at_node [OF at] by simp_all
  show "rb_parent s (hpar H fs) = NULL \<longleftrightarrow> fs = []"
  proof (cases fs)
    case Nil
    then show ?thesis using rb_atD(2) [OF at] by simp
  next
    case (Cons f gs)
    obtain e k b v where f: "f = (e, k, b, v)" by (cases f)
    have "rb_at s H gs (bin e k b (bin d c a t u) v)" using at by (simp add: rb_at_zoom Cons f)
    then show ?thesis using rb_at_node(2) rb_atD(7) Cons f by auto
  qed
qed

text \<open>The last step of the loop: the parent \<open>p\<close> and the grandparent \<open>b\<close> are repainted and rotated.\<close>

lemma validate_rotate:
  assumes at: "rb_at s H ((e, RBT_BLACK, b, w) # hs) (bin e RBT_RED p t u)"
  defines "s' \<equiv> RBTree_Rotate b (opp e) (set_color b RBT_RED (set_color p RBT_BLACK s))"
  shows "rb_at s' H hs (bin e RBT_BLACK p t (bin e RBT_RED b u w))" "rb_first s' = rb_first s" "rb_parent s' p \<noteq> NULL"
proof -
  define s2 where "s2 = set_color b RBT_RED (set_color p RBT_BLACK s)"
  have "rb_at (set_color p RBT_BLACK s) H ((e, RBT_BLACK, b, w) # hs) (bin e RBT_BLACK p t u)" by (rule rb_at_color [OF at])
  then have "rb_at (set_color p RBT_BLACK s) H hs (bin e RBT_BLACK b (bin e RBT_BLACK p t u) w)" by (simp add: rb_at_zoom)
  then have "rb_at s2 H hs (bin e RBT_RED b (bin e RBT_BLACK p t u) w)" unfolding s2_def by (rule rb_at_color)
  then have z: "rb_at s2 H hs (bin (opp e) RBT_RED b w (bin (opp e) RBT_BLACK p u t))" by (simp add: bin_opp)
  from rb_at_rotate [OF z] have r: "rb_at s' H hs (bin e RBT_BLACK p t (bin e RBT_RED b u w))" "rb_first s' = rb_first s2"
    by (simp_all add: bin_opp s'_def s2_def)
  then show "rb_at s' H hs (bin e RBT_BLACK p t (bin e RBT_RED b u w))" "rb_first s' = rb_first s" by (simp_all add: s2_def)
  show "rb_parent s' p \<noteq> NULL" using rb_at_node(2) [OF r(1)] rb_atD(7) [OF r(1)] by simp
qed

definition validated :: "RBTree \<Rightarrow> addr \<Rightarrow> addr list \<Rightarrow> RBTree \<Rightarrow> bool" where
  "validated s H ns s' \<longleftrightarrow> rb_first s' = rb_first s \<and> (\<exists>t. rb_at s' H [] t \<and> io t = ns \<and> rbt t)"

lemma RBTree_Validate_insert_loop_correct:
  assumes "rb_at s H fs (bin d RBT_RED n x y)" "rbh k (bin d RBT_RED n x y)" "rbc k fs" "fs \<noteq> []"
  shows "\<exists>n' g s'. RBTree_Validate_insert_loop n (hpar H fs) (rb_parent s (hpar H fs)) s = Some (n', g, s')
    \<and> validated s H (io (plug fs (bin d RBT_RED n x y))) (if g = NULL then set_color n' RBT_BLACK s' else s')"
  using assms
proof (induction fs arbitrary: s d n x y k rule: length_induct)
  case (1 fs)
  let ?t = "bin d RBT_RED n x y" and ?loop = "RBTree_Validate_insert_loop n (hpar H fs) (rb_parent s (hpar H fs)) s"
  obtain e c a u gs where fs: "fs = (e, c, a, u) # gs" using "1.prems"(4) by (cases fs) (auto intro: prod_cases4)
  have at: "rb_at s H ((e, c, a, u) # gs) ?t" using "1.prems"(1) fs by simp
  note par = hpar_parent [OF at]
  have pz: "rb_at s H gs (bin e c a ?t u)" using at by (simp add: rb_at_zoom)
  show ?case
  proof (cases c)
    case RBT_BLACK
    then have "?loop = Some (n, rb_parent s a, s)" using par(2) fs by (subst RBTree_Validate_insert_loop.simps) simp
    moreover have "rb_parent s a \<noteq> NULL" using par(1) rb_atD(7) [OF pz] by simp
    moreover have "rbt (plug fs ?t)" by (rule rbt_plug [OF "1.prems"(2,3)]) (simp add: fs RBT_BLACK)
    moreover have "rb_at s H [] (plug fs ?t)" using "1.prems"(1) rb_at_plug by blast
    ultimately show ?thesis by (auto simp: validated_def)
  next
    case RBT_RED
    then have c: "rbh k u" "\<not> is_red u" "red_ok gs" "rbc k gs" using "1.prems"(3) fs by simp_all
    obtain e' b w hs where gs: "gs = (e', RBT_BLACK, b, w) # hs" using c(3) by (rule red_okE)
    have w: "rbh k w" "rbc (Suc k) hs" using c(4) by (simp_all add: gs)
    have pz': "rb_at s H ((e', RBT_BLACK, b, w) # hs) (bin e RBT_RED a ?t u)" using pz RBT_RED gs by simp
    have sib: "RBTree_Sibling s a b = rb_child s b (opp e')" by (rule rb_at_sibling [OF pz'])
    have uncle: "rb_at s H ((opp e', RBT_BLACK, b, bin e RBT_RED a ?t u) # hs) w" using pz' by (subst (asm) rb_at_zoom_opp)
    have unc: "RBTree_Is_red s (rb_child s b (opp e')) \<longleftrightarrow> is_red w" using rb_at_red [OF uncle] by simp
    have step: "?loop = (if RBTree_Is_red s (rb_child s b (opp e'))
        then let s = set_color b RBT_RED (set_color (rb_child s b (opp e')) RBT_BLACK (set_color a RBT_BLACK s));
                 parent = rb_parent s b; grandparent = rb_parent s parent
             in if grandparent = NULL then Some (b, grandparent, s) else RBTree_Validate_insert_loop b parent grandparent s
        else let (nd, pa, s) = (if e \<noteq> e' then (a, n, RBTree_Rotate a e' s) else (n, a, s));
                 s = RBTree_Rotate b (opp e') (set_color b RBT_RED (set_color pa RBT_BLACK s))
             in Some (nd, rb_parent s pa, s))"
      using par(1,2) RBT_RED fs gs sib rb_at_direction [OF at] rb_at_direction [OF pz']
      by (subst RBTree_Validate_insert_loop.simps) (auto simp: RBTree_Is_red_def RBTree_Parent_def Let_def)
    show ?thesis
    proof (cases "is_red w")
      case True
      obtain v p q where v: "w = bin e' RBT_RED v p q" using True bin_exhaust [of w e'] by auto
      define s1 where "s1 = set_color b RBT_RED (set_color v RBT_BLACK (set_color a RBT_BLACK s))"
      let ?T = "bin e' RBT_RED b (bin e RBT_BLACK a ?t u) (bin e' RBT_BLACK v p q)"
      have ve: "rb_child s b (opp e') = v" using rb_at_node(4) uncle v by fastforce
      have "rb_at (set_color a RBT_BLACK s) H ((e', RBT_BLACK, b, w) # hs) (bin e RBT_BLACK a ?t u)" by (rule rb_at_color [OF pz'])
      then have "rb_at (set_color a RBT_BLACK s) H ((opp e', RBT_BLACK, b, bin e RBT_BLACK a ?t u) # hs) (bin e' RBT_RED v p q)"
        unfolding v by (subst (asm) rb_at_zoom_opp)
      then have "rb_at (set_color v RBT_BLACK (set_color a RBT_BLACK s)) H ((opp e', RBT_BLACK, b, bin e RBT_BLACK a ?t u) # hs) (bin e' RBT_BLACK v p q)"
        by (rule rb_at_color)
      then have "rb_at (set_color v RBT_BLACK (set_color a RBT_BLACK s)) H hs (bin e' RBT_BLACK b (bin e RBT_BLACK a ?t u) (bin e' RBT_BLACK v p q))"
        by (simp add: rb_at_zoom [symmetric] bin_opp)
      then have at1: "rb_at s1 H hs ?T" unfolding s1_def by (rule rb_at_color)
      have h1: "rbh (Suc k) ?T" using "1.prems"(2) c w v by simp
      have io1: "io (plug fs ?t) = io (plug hs ?T)" by (simp add: fs gs io_plug v io_bin)
      have b: "rb_parent s1 b = hpar H hs" using rb_at_node(2) [OF at1] .
      show ?thesis
      proof (cases "hs = []")
        case True
        then have "rb_parent s1 (hpar H hs) = NULL" using rb_atD(2) [OF at1] by simp
        then have "?loop = Some (b, NULL, s1)" using step unc \<open>is_red w\<close> b by (simp add: ve s1_def [symmetric] Let_def)
        moreover have "rb_at (set_color b RBT_BLACK s1) H [] (bin e' RBT_BLACK b (bin e RBT_BLACK a ?t u) (bin e' RBT_BLACK v p q))"
          using rb_at_color [OF at1] True by simp
        moreover have "rbt (bin e' RBT_BLACK b (bin e RBT_BLACK a ?t u) (bin e' RBT_BLACK v p q))"
          using h1 by (auto simp: rbt_def intro!: exI [of _ "Suc (Suc k)"])
        ultimately show ?thesis using io1 True by (auto simp: validated_def s1_def io_bin)
      next
        case False
        obtain e2 c2 a2 u2 hs2 where hs: "hs = (e2, c2, a2, u2) # hs2" using False by (cases hs) (auto intro: prod_cases4)
        have "rb_at s1 H ((e2, c2, a2, u2) # hs2) ?T" using at1 hs by simp
        note p1 = hpar_parent [OF this]
        have "rb_parent s1 (hpar H hs) \<noteq> NULL"
          using p1(1) rb_atD(7) [of s1 H hs2 "bin e2 c2 a2 ?T u2"] at1 by (simp add: hs rb_at_zoom)
        then have "?loop = RBTree_Validate_insert_loop b (hpar H hs) (rb_parent s1 (hpar H hs)) s1"
          using step unc \<open>is_red w\<close> b by (simp add: ve s1_def [symmetric] Let_def)
        moreover have "length hs < length fs" by (simp add: fs gs)
        moreover have "validated s H ns r = validated s1 H ns r" for ns r by (simp add: validated_def s1_def)
        ultimately show ?thesis using "1.IH" at1 h1 w(2) False unfolding io1 by presburger
      qed
    next
      case False
      define pa where "pa = (if e \<noteq> e' then n else a)"
      define s1 where "s1 = (if e \<noteq> e' then RBTree_Rotate a e' s else s)"
      define s' where "s' = RBTree_Rotate b (opp e') (set_color b RBT_RED (set_color pa RBT_BLACK s1))"
      have loop: "\<exists>nd. ?loop = Some (nd, rb_parent s' pa, s')"
        using step unc False by (auto simp: Let_def pa_def s1_def s'_def)
      obtain t1 u1 where t1: "rb_at s1 H ((e', RBT_BLACK, b, w) # hs) (bin e' RBT_RED pa t1 u1)" "rbh k t1" "rbh k u1" "\<not> is_red u1"
        "io (bin e' RBT_RED pa t1 u1) = io (bin e RBT_RED a ?t u)" "rb_first s1 = rb_first s"
      proof (cases "e = e'")
        case True
        then show ?thesis using that [of ?t u] pz' "1.prems"(2) c by (simp add: pa_def s1_def)
      next
        case False
        then have e: "e = opp e'" using dir_cases by blast
        obtain x' y' where xy: "?t = bin e' RBT_RED n x' y'" by (metis bin_opp dir_cases)
        have "rb_at s H ((e', RBT_BLACK, b, w) # hs) (bin e' RBT_RED a u (bin e' RBT_RED n x' y'))" using pz' unfolding e xy bin_opp .
        from rb_at_rotate [OF this]
        have r: "rb_at s1 H ((e', RBT_BLACK, b, w) # hs) (bin e' RBT_RED n (bin e' RBT_RED a u x') y')" "rb_first s1 = rb_first s"
          using False by (simp_all add: s1_def)
        have h: "rbh k x'" "rbh k y'" "\<not> is_red x'" "\<not> is_red y'" using "1.prems"(2) unfolding xy by simp_all
        have pan: "pa = n" using False by (simp add: pa_def)
        have "io (bin e' RBT_RED n (bin e' RBT_RED a u x') y') = io (bin e RBT_RED a ?t u)" unfolding e xy bin_opp by (simp add: io_bin)
        then show ?thesis using that [of "bin e' RBT_RED a u x'" y'] r h c(1,2) by (simp add: pan)
      qed
      note V = validate_rotate [OF t1(1), folded s'_def]
      have "rbt (plug hs (bin e' RBT_BLACK pa t1 (bin e' RBT_RED b u1 w)))"
        by (rule rbt_plug [of "Suc k"]) (use t1(2-4) w False in auto)
      moreover have "rb_at s' H [] (plug hs (bin e' RBT_BLACK pa t1 (bin e' RBT_RED b u1 w)))" using V(1) rb_at_plug by blast
      moreover have "io (plug hs (bin e' RBT_BLACK pa t1 (bin e' RBT_RED b u1 w))) = io (plug fs ?t)"
      proof -
        have "io (bin e' RBT_BLACK pa t1 (bin e' RBT_RED b u1 w)) = io (bin e' RBT_BLACK b (bin e' RBT_RED pa t1 u1) w)" by (simp add: io_bin)
        also have "\<dots> = io (bin e' RBT_BLACK b (bin e RBT_RED a ?t u) w)" unfolding io_bin [of e' RBT_BLACK b] t1(5) by (rule refl)
        finally show ?thesis by (simp add: io_plug fs gs RBT_RED io_bin)
      qed
      ultimately have "validated s H (io (plug fs ?t)) s'" using V(2) t1(6) by (auto simp: validated_def)
      then show ?thesis using loop V(3) by auto
    qed
  qed
qed

subsection \<open>Insertion\<close>

lemma rb_at_set_first [simp]: "rb_at (set_first r d v s) H fs t = rb_at s H fs t"
proof -
  have t: "tree_at (set_first r d v s) q p u = tree_at s q p u" for s q p u by (rule tree_at_frame) simp
  have "ctx_at (set_first r d v s) H fs = ctx_at s H fs" by (induction s H fs rule: ctx_at.induct) (simp_all add: t)
  then show ?thesis by (simp add: rb_at_def t)
qed

text \<open>The tree with control \<open>H\<close> holds the nodes \<open>ns\<close> in this order.\<close>

definition rb_rep :: "RBTree \<Rightarrow> addr \<Rightarrow> addr list \<Rightarrow> bool" where
  "rb_rep s H ns \<longleftrightarrow> (\<exists>t. rb_at s H [] t \<and> io t = ns \<and> rbt t)
     \<and> rb_first s H RBT_LEFT = (if ns = [] then NULL else hd ns) \<and> rb_first s H RBT_RIGHT = (if ns = [] then NULL else last ns)"

text \<open>The comparison function orders the nodes by a key.\<close>

definition compares :: "RBTree_Compare \<Rightarrow> (addr \<Rightarrow> 'k :: linorder) \<Rightarrow> bool" where
  "compares cmp key \<longleftrightarrow> (\<forall>a b. (cmp a b < 0 \<longleftrightarrow> key a < key b) \<and> (cmp a b = 0 \<longleftrightarrow> key a = key b))"

lemma comparesD:
  assumes "compares cmp key"
  shows "cmp a b < 0 \<longleftrightarrow> key a < key b" "cmp a b = 0 \<longleftrightarrow> key a = key b" "cmp a b > 0 \<longleftrightarrow> key a > key b"
  using assms by (auto simp: compares_def) (metis linorder_less_linear order_less_asym')+

lemma rb_at_link:
  assumes at: "rb_at s H fs Tip" and n: "n \<noteq> NULL" "n \<noteq> H" "n \<notin> set (before fs @ after fs)"
    and s': "s' = set_parent n (hpar H fs) (set_child (hpar H fs) (hdir fs) n (set_color n c
      (set_child n RBT_LEFT NULL (set_child n RBT_RIGHT NULL s))))"
  shows "rb_at s' H fs (bin d c n Tip Tip)"
proof (rule rb_at_replace [OF at])
  note A = rb_atD [OF at]
  have P: "hpar H fs \<noteq> n" using hpar_in [of H fs] n by auto
  show "distinct (H # before fs @ io (bin d c n Tip Tip) @ after fs)" using A(3) n by (auto simp: io_bin)
  show "NULL \<notin> set (io (bin d c n Tip Tip))" using n by simp
  show "rb_parent s' a = rb_parent s a \<and> rb_color s' a = rb_color s a" if "a \<in> insert H (set (before fs @ after fs))" for a
    using that n by (auto simp: s')
  show "rb_child s' a e = rb_child s a e" if "a \<in> insert H (set (before fs @ after fs))" "a \<noteq> hpar H fs \<or> e \<noteq> hdir fs" for a e
    using that n P by (auto simp: s')
  have "rb_child s' n e = NULL" for e using P by (cases e) (simp_all add: s')
  then show "tree_at s' (hpar H fs) (rb_child s' (hpar H fs) (hdir fs)) (bin d c n Tip Tip)"
    using n P by (simp add: s' tree_at_bin)
qed

text \<open>The descent ends at a place between the smaller or equal nodes and the greater ones.\<close>

definition between :: "(addr \<Rightarrow> 'k :: linorder) \<Rightarrow> addr \<Rightarrow> ctx \<Rightarrow> bool" where
  "between key n fs \<longleftrightarrow> (\<forall>a \<in> set (before fs). key a \<le> key n) \<and> (\<forall>a \<in> set (after fs). key n < key a)"

definition ends :: "RBTree \<Rightarrow> addr \<Rightarrow> addr list \<Rightarrow> bool" where
  "ends s H ns \<longleftrightarrow> rb_first s H RBT_LEFT = (if ns = [] then NULL else hd ns) \<and> rb_first s H RBT_RIGHT = (if ns = [] then NULL else last ns)"

lemma ends_insert:
  assumes cmp: "compares cmp key" and old: "ends s H (B @ A)" and btw: "\<forall>a \<in> set B. key a \<le> key n" "\<forall>a \<in> set A. key n < key a"
    and same: "rb_first s1 H = rb_first s H" and dir: "if dir = RBT_LEFT then A \<noteq> [] else B \<noteq> []"
    and s': "s' = (if dir = RBT_LEFT \<and> cmp n (RBTree_First s1 H dir) < 0 \<or> dir = RBT_RIGHT \<and> \<not> cmp n (RBTree_First s1 H dir) < 0
                              then set_first H dir n s1 else s1)"
  shows "ends s' H (B @ n # A)"
proof (cases dir)
  case RBT_LEFT
  then have A: "A \<noteq> []" and f: "RBTree_First s1 H dir = hd (B @ A)" "rb_first s1 H RBT_RIGHT = last (B @ A)"
    using dir old same by (auto simp: ends_def RBTree_First_def)
  have "key n < key (hd (B @ A)) \<longleftrightarrow> B = []" using btw A by (cases B; cases A) auto
  then show ?thesis using A f old same comparesD(1) [OF cmp] RBT_LEFT by (auto simp: s' ends_def)
next
  case RBT_RIGHT
  then have B: "B \<noteq> []" and f: "RBTree_First s1 H dir = last (B @ A)" "rb_first s1 H RBT_LEFT = hd (B @ A)"
    using dir old same by (auto simp: ends_def RBTree_First_def)
  have "key n < key (last (B @ A)) \<longleftrightarrow> A \<noteq> []" using btw B last_in_set [of A] last_in_set [of B] by (cases "A = []") (auto simp: not_less)
  then show ?thesis using B f old same comparesD(1) [OF cmp] RBT_RIGHT by (auto simp: s' ends_def)
qed

lemma RBTree_Insert_loop_correct:
  assumes cmp: "compares cmp key" and n: "n \<noteq> NULL" "n \<noteq> H" "n \<notin> set (io (plug fs t))"
    and at: "rb_at s H fs t" "t \<noteq> Tip" and btw: "between key n fs" "uniq \<longrightarrow> key n \<notin> key ` set (before fs)" "sorted (map key (io t))"
    and fst: "ends s H (io (plug fs t))"
  shows "(\<exists>s' gs. RBTree_Insert_loop H n cmp uniq (rb_child s (hpar H fs) (hdir fs)) s = Some (s', NULL) \<and> gs \<noteq> []
      \<and> plug gs Tip = plug fs t \<and> between key n gs \<and> (uniq \<longrightarrow> key n \<notin> key ` set (before gs))
      \<and> rb_at s' H gs (bin RBT_LEFT RBT_RED n Tip Tip) \<and> ends s' H (io (plug gs (bin RBT_LEFT RBT_RED n Tip Tip))))
    \<or> uniq \<and> (\<exists>a. RBTree_Insert_loop H n cmp uniq (rb_child s (hpar H fs) (hdir fs)) s = Some (s, a) \<and> a \<in> set (io t) \<and> key a = key n)"
  using n(3) at btw fst
proof (induction t arbitrary: fs)
  case (Bin l c a r)
  define dir where "dir = (if key n < key a then RBT_LEFT else RBT_RIGHT)"
  define x where "x = (if key n < key a then l else r)"
  define y where "y = (if key n < key a then r else l)"
  define fs' where "fs' = (dir, c, a, y) # fs"
  have t: "Bin l c a r = bin dir c a x y" by (simp add: dir_def x_def y_def)
  have at: "rb_at s H fs' x" using Bin.prems(2) unfolding t fs'_def by (simp add: rb_at_zoom)
  have N: "a \<noteq> NULL" "rb_child s (hpar H fs) (hdir fs) = a" "rb_child s a dir = NULL \<longleftrightarrow> x = Tip"
    using rb_at_node [OF Bin.prems(2) [unfolded t]] by simp_all
  have ds: "(if cmp n a < 0 then RBT_LEFT else RBT_RIGHT) = dir" using comparesD(1) [OF cmp] by (simp add: dir_def)
  have step: "RBTree_Insert_loop H n cmp uniq a s = (if uniq \<and> cmp n a = 0 then Some (s, a)
      else if rb_child s a dir = NULL
           then let s = set_parent n a (set_child a dir n (set_color n RBT_RED (set_child n RBT_LEFT NULL (set_child n RBT_RIGHT NULL s))))
                in Some (if dir = RBT_LEFT \<and> cmp n (RBTree_First s H dir) < 0 \<or> dir = RBT_RIGHT \<and> \<not> cmp n (RBTree_First s H dir) < 0
                              then set_first H dir n s else s, NULL)
           else RBTree_Insert_loop H n cmp uniq (rb_child s a dir) s)"
    using N(1) by (subst RBTree_Insert_loop.simps) (simp add: ds Let_def)
  show ?case
  proof (cases "uniq \<and> cmp n a = 0")
    case True
    then show ?thesis using step N(2) comparesD(2) [OF cmp] by auto
  next
    case False
    have srt: "sorted (map key (io x))" "\<forall>b \<in> set (io l). key b \<le> key a" "\<forall>b \<in> set (io r). key a \<le> key b"
      using Bin.prems(6) by (auto simp: sorted_append x_def)
    have pl: "plug fs' x = plug fs (Bin l c a r)" unfolding fs'_def t by simp
    have b': "between key n fs'" "uniq \<longrightarrow> key n \<notin> key ` set (before fs')"
      using Bin.prems(4,5) srt False comparesD(2) [OF cmp, of n a] by (auto simp: fs'_def between_def dir_def y_def)
    show ?thesis
    proof (cases "x = Tip")
      case True
      define s1 where "s1 = set_parent n a (set_child a dir n (set_color n RBT_RED (set_child n RBT_LEFT NULL (set_child n RBT_RIGHT NULL s))))"
      define s' where "s' = (if dir = RBT_LEFT \<and> cmp n (RBTree_First s1 H dir) < 0 \<or> dir = RBT_RIGHT \<and> \<not> cmp n (RBTree_First s1 H dir) < 0
                              then set_first H dir n s1 else s1)"
      have e: "RBTree_Insert_loop H n cmp uniq a s = Some (s', NULL)"
        using step False N(3) True by (simp add: s1_def [symmetric] s'_def Let_def)
      have io: "io (plug fs (Bin l c a r)) = before fs' @ after fs'" using True unfolding pl [symmetric] by (simp add: io_plug)
      have "rb_at s1 H fs' (bin RBT_LEFT RBT_RED n Tip Tip)"
        by (rule rb_at_link) (use at True n Bin.prems(1) io in \<open>auto simp: s1_def fs'_def\<close>)
      then have "rb_at s' H fs' (bin RBT_LEFT RBT_RED n Tip Tip)" by (simp add: s'_def)
      moreover have "ends s' H (before fs' @ n # after fs')"
      proof (rule ends_insert [OF cmp _ _ _ _ _ s'_def])
        show "ends s H (before fs' @ after fs')" using Bin.prems(7) io by simp
        show "rb_first s1 H = rb_first s H" by (simp add: s1_def)
      qed (use b' in \<open>auto simp: between_def fs'_def\<close>)
      then have "ends s' H (io (plug fs' (bin RBT_LEFT RBT_RED n Tip Tip)))" by (simp add: io_plug)
      moreover have "plug fs' Tip = plug fs (Bin l c a r)" using pl True by simp
      moreover have "fs' \<noteq> []" by (simp add: fs'_def)
      ultimately show ?thesis using e N(2) b' by blast
    next
      case False
      have e: "RBTree_Insert_loop H n cmp uniq a s = RBTree_Insert_loop H n cmp uniq (rb_child s (hpar H fs') (hdir fs')) s"
        using step \<open>\<not> (uniq \<and> cmp n a = 0)\<close> N(3) False by (simp add: fs'_def)
      have ih: "n \<notin> set (io (plug fs' x))" "ends s H (io (plug fs' x))" using Bin.prems(1,7) unfolding pl by simp_all
      consider "x = l" | "x = r" by (cases "key n < key a") (simp_all add: x_def)
      then have "(\<exists>s' gs. RBTree_Insert_loop H n cmp uniq a s = Some (s', NULL) \<and> gs \<noteq> []
          \<and> plug gs Tip = plug fs' x \<and> between key n gs \<and> (uniq \<longrightarrow> key n \<notin> key ` set (before gs))
          \<and> rb_at s' H gs (bin RBT_LEFT RBT_RED n Tip Tip) \<and> ends s' H (io (plug gs (bin RBT_LEFT RBT_RED n Tip Tip))))
        \<or> uniq \<and> (\<exists>b. RBTree_Insert_loop H n cmp uniq a s = Some (s, b) \<and> b \<in> set (io x) \<and> key b = key n)"
        using Bin.IH(1) [OF _ _ _ b' _] Bin.IH(2) [OF _ _ _ b' _] ih at False srt(1) unfolding e by cases blast+
      moreover have "set (io x) \<subseteq> set (io (Bin l c a r))" by (auto simp: x_def)
      ultimately show ?thesis unfolding N(2) pl by blast
    qed
  qed
qed simp

text \<open>Insertion behind the nodes that are not greater.\<close>

definition insert_after :: "(addr \<Rightarrow> 'k :: linorder) \<Rightarrow> addr \<Rightarrow> addr list \<Rightarrow> addr list" where
  "insert_after key n ns = takeWhile (\<lambda>a. key a \<le> key n) ns @ n # dropWhile (\<lambda>a. key a \<le> key n) ns"

lemma insert_after_between:
  assumes "\<forall>a \<in> set B. key a \<le> key n" "\<forall>a \<in> set A. key n < key a"
  shows "insert_after key n (B @ A) = B @ n # A"
proof -
  have "takeWhile (\<lambda>a. key a \<le> key n) A = []" "dropWhile (\<lambda>a. key a \<le> key n) A = A" using assms(2) by (cases A; auto simp: not_le)+
  then show ?thesis using assms(1) by (simp add: insert_after_def takeWhile_append2 dropWhile_append2)
qed

lemma set_insert_after [simp]: "set (insert_after key n ns) = insert n (set ns)"
  by (induction ns) (auto simp: insert_after_def)

lemma sorted_insert_after: "sorted (map key ns) \<Longrightarrow> sorted (map key (insert_after key n ns))"
proof (induction ns)
  case (Cons a ns)
  have "insert_after key n (a # ns) = (if key a \<le> key n then a # insert_after key n ns else n # a # ns)"
    by (simp add: insert_after_def)
  then show ?case using Cons by auto
qed (simp add: insert_after_def)

lemma rb_rep_ends: "rb_rep s H ns \<longleftrightarrow> (\<exists>t. rb_at s H [] t \<and> io t = ns \<and> rbt t) \<and> ends s H ns"
  by (simp add: rb_rep_def ends_def)

lemma rb_rep_Insert:
  assumes "compares cmp key" "rb_rep s H ns" "sorted (map key ns)" "n \<noteq> NULL" "n \<noteq> H" "n \<notin> set ns"
  shows "(\<exists>s'. RBTree_Insert H n cmp is_unique s = Some (s', NULL) \<and> (is_unique \<longrightarrow> key n \<notin> key ` set ns) \<and> rb_rep s' H (insert_after key n ns))
    \<or> is_unique \<and> (\<exists>a \<in> set ns. key a = key n \<and> RBTree_Insert H n cmp is_unique s = Some (s, a))"
proof -
  obtain t where at: "rb_at s H [] t" and io: "io t = ns" and rbt: "rbt t" and en: "ends s H ns" using assms(2) by (auto simp: rb_rep_ends)
  show ?thesis
  proof (cases "t = Tip")
    case True
    define s' where "s' = set_parent n H (set_child H RBT_LEFT n (set_color n RBT_BLACK (set_child n RBT_LEFT NULL (set_child n RBT_RIGHT NULL s))))"
    have c: "rb_child s H RBT_LEFT = NULL" using rb_at_root [OF at] True by simp
    have "rb_at s' H [] (bin RBT_LEFT RBT_BLACK n Tip Tip)"
      by (rule rb_at_link) (use at True assms(4-6) in \<open>simp_all add: s'_def\<close>)
    moreover have e: "RBTree_Insert H n cmp is_unique s = Some (set_first H RBT_LEFT n (set_first H RBT_RIGHT n s'), NULL)"
      using c assms(5) unfolding RBTree_Insert_def RBTree_Root_def s'_def Let_def by (simp add: score_defs fun_upd_twist)
    moreover have "rbt (bin RBT_LEFT RBT_BLACK n Tip Tip)" by (auto simp: rbt_def)
    ultimately have "rb_rep (set_first H RBT_LEFT n (set_first H RBT_RIGHT n s')) H [n]"
      by (auto simp: rb_rep_ends ends_def intro!: exI [of _ "bin RBT_LEFT RBT_BLACK n Tip Tip"])
    moreover have "ns = []" "insert_after key n [] = [n]" using True io by (simp_all add: insert_after_def)
    ultimately show ?thesis using e by auto
  next
    case False
    have root: "RBTree_Root s H = rb_child s (hpar H []) (hdir [])" by (simp add: RBTree_Root_def)
    have nz: "RBTree_Root s H \<noteq> NULL" using rb_at_root [OF at] False by (simp add: RBTree_Root_def)
    have L: "(\<exists>s' gs. RBTree_Insert_loop H n cmp is_unique (RBTree_Root s H) s = Some (s', NULL) \<and> gs \<noteq> []
      \<and> plug gs Tip = t \<and> between key n gs \<and> (is_unique \<longrightarrow> key n \<notin> key ` set (before gs))
      \<and> rb_at s' H gs (bin RBT_LEFT RBT_RED n Tip Tip) \<and> ends s' H (io (plug gs (bin RBT_LEFT RBT_RED n Tip Tip))))
    \<or> is_unique \<and> (\<exists>a. RBTree_Insert_loop H n cmp is_unique (RBTree_Root s H) s = Some (s, a) \<and> a \<in> set (io t) \<and> key a = key n)"
      unfolding root using RBTree_Insert_loop_correct [OF assms(1,4,5) _ at False] assms(3,6) io en by (simp add: between_def)
    then consider (new) s1 gs where "RBTree_Insert_loop H n cmp is_unique (RBTree_Root s H) s = Some (s1, NULL)" "gs \<noteq> []" "plug gs Tip = t"
        "between key n gs" "is_unique \<longrightarrow> key n \<notin> key ` set (before gs)" "rb_at s1 H gs (bin RBT_LEFT RBT_RED n Tip Tip)"
        "ends s1 H (io (plug gs (bin RBT_LEFT RBT_RED n Tip Tip)))"
      | (old) a where "is_unique" "RBTree_Insert_loop H n cmp is_unique (RBTree_Root s H) s = Some (s, a)" "a \<in> set ns" "key a = key n"
      unfolding io by blast
    then show ?thesis
    proof cases
      case old
      have "a \<noteq> NULL" using old(3) rb_atD(4) [OF at] io by auto
      then show ?thesis using old nz by (auto simp: RBTree_Insert_def Let_def)
    next
      case new
      have ns: "ns = before gs @ after gs" using new(3) io io_plug [of gs Tip] by simp
      have ins: "insert_after key n ns = before gs @ n # after gs"
        unfolding ns by (rule insert_after_between) (use new(4) in \<open>auto simp: between_def\<close>)
      have "rbc 0 gs" using rbt_unplug [of gs Tip] rbt new(3) by auto
      from RBTree_Validate_insert_loop_correct [OF new(6) _ this new(2)]
      obtain n' g s2 where V: "RBTree_Validate_insert_loop n (hpar H gs) (rb_parent s1 (hpar H gs)) s1 = Some (n', g, s2)"
        "validated s1 H (io (plug gs (bin RBT_LEFT RBT_RED n Tip Tip))) (if g = NULL then set_color n' RBT_BLACK s2 else s2)" by auto
      define s3 where "s3 = (if g = NULL then set_color n' RBT_BLACK s2 else s2)"
      have "RBTree_Parent s1 n = hpar H gs" using rb_at_node(2) [OF new(6)] by (simp add: RBTree_Parent_def)
      then have "RBTree_Validate_insert n s1 = Some s3" using V(1) by (simp add: RBTree_Validate_insert_def Let_def RBTree_Parent_def s3_def)
      then have e: "RBTree_Insert H n cmp is_unique s = Some (s3, NULL)" using nz new(1) by (simp add: RBTree_Insert_def Let_def)
      have i: "io (plug gs (bin RBT_LEFT RBT_RED n Tip Tip)) = insert_after key n ns" by (simp add: io_plug ins)
      have "rb_rep s3 H (insert_after key n ns)"
        using V(2) new(7) unfolding s3_def [symmetric] i by (auto simp: rb_rep_ends validated_def ends_def)
      moreover have "is_unique \<longrightarrow> key n \<notin> key ` set ns" using new(4,5) by (auto simp: ns between_def)
      ultimately show ?thesis using e by blast
    qed
  qed
qed

text \<open>A tree of three nodes, for the examples: a black root with two red children, ordered by address.\<close>

definition rb_three :: RBTree where
  "rb_three = \<lparr>rb_parent = (\<lambda>_. NULL)(64 := 16, 32 := 64, 96 := 64),
     rb_child = (\<lambda>_ _. NULL)(16 := (\<lambda>_. NULL)(RBT_LEFT := 64), 64 := (\<lambda>_. 96)(RBT_LEFT := 32)),
     rb_color = (\<lambda>_. RBT_BLACK)(32 := RBT_RED, 96 := RBT_RED),
     rb_first = (\<lambda>_ _. NULL)(16 := (\<lambda>_. 96)(RBT_LEFT := 32))\<rparr>"

lemma rb_rep_three: "rb_rep rb_three 16 [32, 64, 96]"
proof -
  define t where "t = Bin (Bin Tip RBT_RED 32 Tip) RBT_BLACK 64 (Bin Tip RBT_RED 96 Tip)"
  have "rb_at rb_three 16 [] t" "io t = [32, 64, 96]" by (simp_all add: t_def rb_at_def rb_three_def)
  moreover have "rbt t" by (auto simp: t_def rbt_def intro!: exI [of _ 1])
  ultimately show ?thesis by (auto simp: rb_rep_def rb_three_def)
qed

definition by_address :: RBTree_Compare where
  "by_address a b = uint a - uint b"

lemma compares_by_address: "compares by_address uint"
  by (auto simp: compares_def by_address_def)

text \<open>C33: inserting a node into a red-black tree ends and gives a red-black tree with the node right behind the nodes that are not
  greater, and with the right ends. When equal nodes are refused and the tree has a node equal to the new one, the
  tree is unchanged and such a node is returned. Red-black here means that no red node has a red child and
  all paths have the same number of black nodes.\<close>

theorem RBTree_Insert_correct:
  assumes "compares cmp key" "rb_rep s H ns" "sorted (map key ns)" "n \<noteq> NULL" "n \<noteq> H" "n \<notin> set ns"
  shows "(\<exists>s'. RBTree_Insert H n cmp is_unique s = Some (s', NULL) \<and> (is_unique \<longrightarrow> key n \<notin> key ` set ns) \<and> rb_rep s' H (insert_after key n ns))
    \<or> is_unique \<and> (\<exists>a \<in> set ns. key a = key n \<and> RBTree_Insert H n cmp is_unique s = Some (s, a))"
  using assms by (rule rb_rep_Insert)

theorem RBTree_Insert_correct_witness:
  "(\<exists>s'. RBTree_Insert 16 80 by_address True rb_three = Some (s', NULL) \<and> rb_rep s' 16 [32, 64, 80, 96])
   \<and> (\<exists>s'. RBTree_Insert 16 40 (\<lambda>a b. 0) False rb_three = Some (s', NULL) \<and> rb_rep s' 16 [32, 64, 96, 40])"
proof
  show "\<exists>s'. RBTree_Insert 16 80 by_address True rb_three = Some (s', NULL) \<and> rb_rep s' 16 [32, 64, 80, 96]"
    using RBTree_Insert_correct [OF compares_by_address rb_rep_three, of 80 True] by (simp add: insert_after_def)
  have "compares (\<lambda>a b. 0) (\<lambda>a. 0 :: nat)" by (simp add: compares_def)
  from RBTree_Insert_correct [OF this rb_rep_three, of 40 False]
  show "\<exists>s'. RBTree_Insert 16 40 (\<lambda>a b. 0) False rb_three = Some (s', NULL) \<and> rb_rep s' 16 [32, 64, 96, 40]"
    by (simp add: insert_after_def)
qed

end
