(* ===== verification/Score_RBTree_Order.thy ===== *)
theory Score_RBTree_Order
  imports Score_RBTree_Props
begin

text \<open>
  Reading a red-black tree in order: the successor and the predecessor of a node, iteration and lookup.
\<close>

subsection \<open>Order in a direction\<close>

definition towards :: "RBTree_Direction \<Rightarrow> addr list \<Rightarrow> addr list" where
  "towards d ns = (if d = RBT_RIGHT then ns else rev ns)"

definition beyond :: "RBTree_Direction \<Rightarrow> ctx \<Rightarrow> addr list" where
  "beyond d fs = (if d = RBT_RIGHT then after fs else rev (before fs))"

definition first_of :: "addr list \<Rightarrow> addr" where
  "first_of ns = (if ns = [] then NULL else hd ns)"

lemma towards_bin: "towards d (io (bin d c a x y)) = towards d (io y) @ a # towards d (io x)"
  by (cases d) (simp_all add: towards_def)

lemma beyond_Cons: "beyond d ((e, c, a, u) # fs) = (if e = d then beyond d fs else a # towards d (io u) @ beyond d fs)"
  by (cases d; cases e) (simp_all add: beyond_def towards_def)

lemma towards_Nil [simp]: "towards d [] = []" "towards d ns = [] \<longleftrightarrow> ns = []"
  by (simp_all add: towards_def)

lemma towards_plug:
  "towards d (io (plug fs (bin d c n x y))) = rev (towards (opp d) (io y) @ beyond (opp d) fs) @ n # towards d (io x) @ beyond d fs"
  by (cases d) (simp_all add: towards_def beyond_def io_plug)

subsection \<open>The next node\<close>

lemma RBTree_Next_down_correct:
  assumes "tree_at s q p t" "t \<noteq> Tip"
  shows "RBTree_Next_down s (opp d) p p = Some (first_of (towards d (io t)))"
  using assms
proof (induction t arbitrary: q p)
  case (Bin l c a r)
  obtain x y where t: "Bin l c a r = bin d c a x y" by (cases d) (auto intro: that)
  then have y: "y = l \<or> y = r" by (cases d) auto
  have a: "p = a" "tree_at s a (rb_child s a (opp d)) y" using Bin.prems(1) unfolding t by (simp_all add: tree_at_bin)
  show ?case
  proof (cases "y = Tip")
    case True
    then show ?thesis using a unfolding t towards_bin by (subst RBTree_Next_down.simps) (simp add: first_of_def)
  next
    case False
    then have "rb_child s a (opp d) \<noteq> NULL" using tree_at_NULL [OF a(2)] by simp
    then have "RBTree_Next_down s (opp d) p p = RBTree_Next_down s (opp d) (rb_child s a (opp d)) (rb_child s a (opp d))"
      using a(1) by (subst RBTree_Next_down.simps) (simp add: Let_def)
    also have "\<dots> = Some (first_of (towards d (io y)))" using Bin.IH(1,2) a(2) y False by blast
    also have "first_of (towards d (io y)) = first_of (towards d (io (Bin l c a r)))"
      using False unfolding t towards_bin by (cases y) (simp_all add: first_of_def)
    finally show ?thesis .
  qed
qed simp

lemma rb_at_child_dir:
  assumes "rb_at s H ((e, k, b, u) # gs) (bin d' c n x y)"
  shows "n = rb_child s b d \<longleftrightarrow> e = d"
  using rb_at_other_child [OF assms] dir_cases [of d e] by auto

lemma RBTree_Next_up_correct:
  assumes "rb_at s H fs (bin d' c n x y)"
  shows "\<exists>p. RBTree_Next_up s d n (hpar H fs) = Some p \<and> (if rb_parent s p \<noteq> NULL then p else NULL) = first_of (beyond d fs)"
  using assms
proof (induction fs arbitrary: n d' c x y)
  case Nil
  then show ?case using rb_atD(2) [OF Nil] by (subst RBTree_Next_up.simps) (simp add: beyond_def first_of_def)
next
  case (Cons f gs)
  obtain e k b u where f: "f = (e, k, b, u)" by (cases f)
  have at: "rb_at s H ((e, k, b, u) # gs) (bin d' c n x y)" using Cons.prems f by simp
  have up: "rb_at s H gs (bin e k b (bin d' c n x y) u)" using at by (simp add: rb_at_zoom)
  have b: "rb_parent s b = hpar H gs" "rb_parent s b \<noteq> NULL" using rb_at_node(2) [OF up] rb_atD(7) [OF up] by simp_all
  show ?case
  proof (cases "e = d")
    case True
    then have "RBTree_Next_up s d n (hpar H (f # gs)) = RBTree_Next_up s d b (hpar H gs)"
      using b rb_at_child_dir [OF at, of d] by (subst RBTree_Next_up.simps) (simp add: f)
    then show ?thesis using Cons.IH [OF up] True by (simp add: f beyond_Cons)
  next
    case False
    then have "RBTree_Next_up s d n (hpar H (f # gs)) = Some b"
      using rb_at_child_dir [OF at, of d] by (subst RBTree_Next_up.simps) (simp add: f)
    then show ?thesis using b False by (simp add: f beyond_Cons first_of_def)
  qed
qed

lemma RBTree_Next_place:
  assumes at: "rb_at s H fs (bin d c n x y)"
  shows "RBTree_Next s n d = Some (first_of (towards d (io x) @ beyond d fs))"
proof -
  have t: "tree_at s n (rb_child s n d) x" using rb_atD(6) [OF at] by (simp add: tree_at_bin)
  note N = rb_at_node [OF at]
  show ?thesis
  proof (cases "x = Tip")
    case False
    then show ?thesis using RBTree_Next_down_correct [OF t False, of d] N(5)
      by (cases x) (auto simp: RBTree_Next_def first_of_def towards_def)
  next
    case x: True
    obtain p where up: "RBTree_Next_up s d n (hpar H fs) = Some p" "(if rb_parent s p \<noteq> NULL then p else NULL) = first_of (beyond d fs)"
      using RBTree_Next_up_correct [OF at, of d] by blast
    show ?thesis
    proof (cases "rb_parent s (hpar H fs) \<noteq> NULL \<and> n = rb_child s (hpar H fs) (opp d)")
      case True
      obtain e k b u gs where fs: "fs = (e, k, b, u) # gs" using True rb_atD(2) [OF at] by (cases fs) (auto intro: prod_cases4)
      have "e = opp d" using rb_at_child_dir [of s H e k b u gs d c n x y "opp d"] at True by (simp add: fs)
      then show ?thesis using True N(2) x N(5) by (simp add: RBTree_Next_def Let_def fs beyond_Cons first_of_def)
    next
      case False
      then show ?thesis using up N(2) x N(5) by (auto simp: RBTree_Next_def Let_def)
    qed
  qed
qed

lemma io_place: "n \<in> set (io t) \<Longrightarrow> \<exists>fs c x y. t = plug fs (bin d c n x y)"
proof (induction t)
  case (Bin l c a r)
  consider "n = a" | "n \<in> set (io l)" | "n \<in> set (io r)" using Bin.prems by auto
  then show ?case
  proof cases
    case 1
    obtain x y where "Bin l c a r = bin d c a x y" by (cases d) (auto intro: that)
    then show ?thesis using 1 by (auto intro!: exI [of _ "[]"])
  next
    case 2
    then obtain fs k x y where "l = plug fs (bin d k n x y)" using Bin.IH(1) by blast
    then have "Bin l c a r = plug (fs @ [(RBT_LEFT, c, a, r)]) (bin d k n x y)" by (simp add: plug_append)
    then show ?thesis by blast
  next
    case 3
    then obtain fs k x y where "r = plug fs (bin d k n x y)" using Bin.IH(2) by blast
    then have "Bin l c a r = plug (fs @ [(RBT_RIGHT, c, a, l)]) (bin d k n x y)" by (simp add: plug_append)
    then show ?thesis by blast
  qed
qed simp

text \<open>The successor of a node of a tree is the next node in the order of the tree and the predecessor the one before it; at the
  ends there is none. The search ends.\<close>

lemma RBTree_Next_correct:
  assumes "rb_rep s H (A @ n # B)"
  shows "RBTree_Next s n RBT_RIGHT = Some (if B = [] then NULL else hd B) \<and> RBTree_Next s n RBT_LEFT = Some (if A = [] then NULL else last A)"
proof -
  obtain t where at: "rb_at s H [] t" and io: "io t = A @ n # B" using assms by (auto simp: rb_rep_def)
  have dis: "n \<notin> set A" "n \<notin> set B" using rb_atD(3) [OF at] io by auto
  have "n \<in> set (io t)" by (simp add: io)
  then obtain fs c x y where t: "t = plug fs (bin RBT_RIGHT c n x y)" using io_place by blast
  have p: "rb_at s H fs (bin RBT_RIGHT c n x y)" using at t rb_at_plug by blast
  then have p': "rb_at s H fs (bin RBT_LEFT c n y x)" by simp
  have "before fs @ io y @ n # io x @ after fs = A @ n # B" using io unfolding t by (simp add: io_plug)
  then have "A @ n # B = (before fs @ io y) @ n # (io x @ after fs)" by simp
  then have "A = before fs @ io y" "B = io x @ after fs" using append_Cons_eq_iff [OF dis] by blast+
  then show ?thesis
    using RBTree_Next_place [OF p] RBTree_Next_place [OF p'] by (auto simp: towards_def beyond_def first_of_def hd_rev last_append)
qed

subsection \<open>Iteration\<close>

primrec visit :: "(addr \<Rightarrow> RBTree_Direction \<Rightarrow> 'v \<Rightarrow> bool \<times> 'v) \<Rightarrow> RBTree_Direction \<Rightarrow> addr list \<Rightarrow> 'v \<Rightarrow> 'v" where
  "visit visitor dir [] arg = arg"
| "visit visitor dir (n # ns) arg = (let (stop, arg) = visitor n dir arg in if stop then arg else visit visitor dir ns arg)"

lemma RBTree_Iterate_loop_correct:
  assumes "rb_rep s H ns" "towards dir ns = A @ B"
  shows "RBTree_Iterate_loop s dir visitor False (first_of B) arg = Some (visit visitor dir B arg)"
  using assms(2)
proof (induction B arbitrary: A arg)
  case Nil
  then show ?case by (subst RBTree_Iterate_loop.simps) (simp add: first_of_def)
next
  case (Cons n B)
  have nz: "n \<noteq> NULL"
  proof -
    have "n \<in> set ns" using arg_cong [OF Cons.prems, of set] by (auto simp: towards_def split: if_splits)
    then show ?thesis using assms(1) rb_atD(4) by (fastforce simp: rb_rep_def)
  qed
  have nx: "RBTree_Next s n dir = Some (first_of B)"
  proof (cases dir)
    case RBT_RIGHT
    then show ?thesis using RBTree_Next_correct [of s H A n B] assms(1) Cons.prems by (simp add: towards_def first_of_def)
  next
    case RBT_LEFT
    then have "ns = rev B @ n # rev A" using Cons.prems by (simp add: towards_def rev_swap)
    then show ?thesis using RBTree_Next_correct [of s H "rev B" n "rev A"] assms(1) RBT_LEFT by (simp add: first_of_def last_rev)
  qed
  obtain stop arg' where v: "visitor n dir arg = (stop, arg')" by (cases "visitor n dir arg")
  have "towards dir ns = (A @ [n]) @ B" using Cons.prems by simp
  note IH = Cons.IH [OF this, of arg']
  have "RBTree_Iterate_loop s dir visitor True p arg' = Some arg'" for p by (subst RBTree_Iterate_loop.simps) simp
  then show ?case using nz nx v IH by (subst RBTree_Iterate_loop.simps) (simp add: first_of_def)
qed

text \<open>C36: iteration visits the nodes of a tree from one end to the other, each once, until the visitor stops it, and it ends.\<close>

theorem RBTree_Iterate_correct:
  assumes "rb_rep s H ns"
  shows "RBTree_Iterate s H dir visitor arg = Some (visit visitor dir (if dir = RBT_RIGHT then ns else rev ns) arg)"
proof -
  have "RBTree_First s H (opp dir) = first_of (towards dir ns)"
    using assms by (cases dir) (auto simp: rb_rep_def RBTree_First_def first_of_def towards_def hd_rev)
  then show ?thesis using RBTree_Iterate_loop_correct [OF assms, of dir "[]" "towards dir ns" visitor arg]
    by (simp add: RBTree_Iterate_def towards_def)
qed

subsection \<open>Lookup\<close>

lemma RBTree_Find_loop_correct:
  assumes cmp: "compares cmp key" and "tree_at s q p t" "sorted (map key (io t))"
  shows "\<exists>r. RBTree_Find_loop n cmp uniq p found s = Some r
    \<and> (if key n \<in> key ` set (io t) then r \<in> set (io t) \<and> key r = key n \<and> (\<not> uniq \<longrightarrow> r = hd (filter (\<lambda>a. key a = key n) (io t))) else r = found)"
  using assms(2,3)
proof (induction t arbitrary: q p found)
  case Tip
  then show ?case by (subst RBTree_Find_loop.simps) simp
next
  case (Bin l c a r)
  have a: "p = a" "a \<noteq> NULL" "tree_at s a (rb_child s a RBT_LEFT) l" "tree_at s a (rb_child s a RBT_RIGHT) r" using Bin.prems(1) by auto
  have srt: "sorted (map key (io l))" "sorted (map key (io r))" "\<forall>b \<in> set (io l). key b \<le> key a" "\<forall>b \<in> set (io r). key a \<le> key b"
    using Bin.prems(2) by (auto simp: sorted_append)
  note C = comparesD [OF cmp, of n a]
  note R = Bin.IH(2) [OF a(4) srt(2), of found] and L = Bin.IH(1) [OF a(3) srt(1)]
  consider "key n = key a" | "key n < key a" | "key a < key n" by fastforce
  then show ?case
  proof cases
    case 3
    then have nl: "key n \<notin> key ` set (io l)" "filter (\<lambda>b. key b = key n) (io l) = []" using srt(3) by (force simp: filter_empty_conv)+
    have "RBTree_Find_loop n cmp uniq p found s = RBTree_Find_loop n cmp uniq (rb_child s a RBT_RIGHT) found s"
      using 3 a(1,2) C by (subst RBTree_Find_loop.simps) simp
    moreover obtain r' where "RBTree_Find_loop n cmp uniq (rb_child s a RBT_RIGHT) found s = Some r'"
      "if key n \<in> key ` set (io r) then r' \<in> set (io r) \<and> key r' = key n \<and> (\<not> uniq \<longrightarrow> r' = hd (filter (\<lambda>a. key a = key n) (io r))) else r' = found"
      using R by blast
    ultimately show ?thesis using 3 nl by (auto split: if_splits)
  next
    case 2
    then have nr: "key n \<notin> key ` set (io r)" "filter (\<lambda>b. key b = key n) (io r) = []" using srt(4) by (force simp: filter_empty_conv)+
    have "RBTree_Find_loop n cmp uniq p found s = RBTree_Find_loop n cmp uniq (rb_child s a RBT_LEFT) found s"
      using 2 a(1,2) C by (subst RBTree_Find_loop.simps) simp
    moreover obtain r' where "RBTree_Find_loop n cmp uniq (rb_child s a RBT_LEFT) found s = Some r'"
      "if key n \<in> key ` set (io l) then r' \<in> set (io l) \<and> key r' = key n \<and> (\<not> uniq \<longrightarrow> r' = hd (filter (\<lambda>a. key a = key n) (io l))) else r' = found"
      using L [of found] by blast
    ultimately show ?thesis using 2 nr by (auto split: if_splits)
  next
    case 1
    show ?thesis
    proof (cases uniq)
      case True
      then have "RBTree_Find_loop n cmp uniq p found s = Some a" using 1 a(1,2) C by (subst RBTree_Find_loop.simps) simp
      then show ?thesis using 1 True by auto
    next
      case False
      then have e: "RBTree_Find_loop n cmp uniq p found s = RBTree_Find_loop n cmp uniq (rb_child s a RBT_LEFT) a s"
        using 1 a(1,2) C by (subst RBTree_Find_loop.simps) simp
      have hd: "hd (filter (\<lambda>b. key b = key n) (io (Bin l c a r))) = (if key n \<in> key ` set (io l) then hd (filter (\<lambda>b. key b = key n) (io l)) else a)"
      proof (cases "filter (\<lambda>b. key b = key n) (io l)")
        case Nil
        then show ?thesis using 1 by (force simp: filter_empty_conv)
      next
        case (Cons b bs)
        then have "b \<in> set (filter (\<lambda>b. key b = key n) (io l))" by simp
        then have "b \<in> set (io l)" "key b = key n" by auto
        then have "key n \<in> key ` set (io l)" using imageI [of b "set (io l)" key] by simp
        then show ?thesis using Cons by simp
      qed
      obtain r where "RBTree_Find_loop n cmp uniq (rb_child s a RBT_LEFT) a s = Some r"
        "if key n \<in> key ` set (io l) then r \<in> set (io l) \<and> key r = key n \<and> (\<not> uniq \<longrightarrow> r = hd (filter (\<lambda>a. key a = key n) (io l))) else r = a"
        using L [of a] by blast
      then show ?thesis unfolding e hd using 1 False by (auto split: if_splits)
    qed
  qed
qed


theorem RBTree_Iterate_correct_witness:
  "RBTree_Iterate rb_three 16 RBT_RIGHT (\<lambda>n _ xs. (n = 64, xs @ [n])) [] = Some [32, 64]
   \<and> RBTree_Iterate rb_three 16 RBT_LEFT (\<lambda>n _ xs. (False, xs @ [n])) [] = Some [96, 64, 32]"
  using RBTree_Iterate_correct [OF rb_rep_three, of RBT_RIGHT "\<lambda>n _ xs. (n = 64, xs @ [n])" "[]"]
    RBTree_Iterate_correct [OF rb_rep_three, of RBT_LEFT "\<lambda>n _ xs. (False, xs @ [n])" "[]"] by simp


end
