(* ===== verification/Score_RBTree_Extract.thy ===== *)
theory Score_RBTree_Extract
  imports Score_RBTree_Order
begin

text \<open>
  Extraction from a red-black tree: the tree is first repaired so that the place of the node that leaves has one black node less
  than the rest expects, then the node is taken out.
\<close>

subsection \<open>Repainting and rotating beside a place\<close>

lemma rb_at_frame_color:
  assumes "rb_at s H ((e, c, a, u) # gs) t"
  shows "rb_at (set_color a c' s) H ((e, c', a, u) # gs) t"
proof -
  have "rb_at s H gs (bin e c a t u)" using assms by (simp add: rb_at_zoom)
  from rb_at_color [OF this] show ?thesis by (simp add: rb_at_zoom)
qed

lemma rb_at_beside:
  assumes "\<And>fs. rb_at s H fs u \<Longrightarrow> rb_at s' H fs u'" "rb_at s H ((e, c, a, u) # gs) t"
  shows "rb_at s' H ((e, c, a, u') # gs) t"
  using assms(1) [of "(opp e, c, a, t) # gs"] assms(2) rb_at_zoom_opp [of _ H e c a _ gs t] by simp

lemma rb_at_frame_rotate:
  assumes "rb_at s H ((e, c, a, bin e k b y z) # gs) t"
  shows "rb_at (RBTree_Rotate a e s) H ((e, c, a, y) # (e, k, b, z) # gs) t"
proof -
  have "rb_at s H gs (bin e c a t (bin e k b y z))" using assms by (simp add: rb_at_zoom)
  from rb_at_rotate(1) [OF this] show ?thesis by (simp add: rb_at_zoom)
qed

lemma rotate_first [simp]: "rb_first (RBTree_Rotate a e s) = rb_first s"
  by (simp add: RBTree_Rotate_def Let_def)

text \<open>Reading the sibling of a place and its children.\<close>

lemma rb_at_sibling_node:
  assumes "rb_at s H ((e, c, a, bin e k b y z) # gs) t"
  shows "rb_child s a (opp e) = b" "b \<noteq> NULL" "rb_color s b = k" "RBTree_Is_red s (rb_child s b e) \<longleftrightarrow> is_red y"
    "RBTree_Is_red s (rb_child s b (opp e)) \<longleftrightarrow> is_red z"
proof -
  have at: "rb_at s H ((opp e, c, a, t) # gs) (bin e k b y z)" using assms by (subst (asm) rb_at_zoom_opp)
  show "rb_child s a (opp e) = b" using rb_at_node(4) [OF at] by simp
  show "b \<noteq> NULL" "rb_color s b = k" by (rule rb_at_node(1,3) [OF at])+
  have "rb_at s H ((e, k, b, z) # (opp e, c, a, t) # gs) y" using at by (simp add: rb_at_zoom)
  from rb_at_red [OF this] show "RBTree_Is_red s (rb_child s b e) \<longleftrightarrow> is_red y" by simp
  have "rb_at s H ((opp e, k, b, y) # (opp e, c, a, t) # gs) z" using at by (simp add: rb_at_zoom [symmetric] bin_opp)
  from rb_at_red [OF this] show "RBTree_Is_red s (rb_child s b (opp e)) \<longleftrightarrow> is_red z" by simp
qed

lemma rb_at_far_color:
  assumes "rb_at s H ((e, c, a, bin e k b y (bin e k' f p q)) # gs) t"
  shows "rb_at (set_color f k'' s) H ((e, c, a, bin e k b y (bin e k'' f p q)) # gs) t"
proof (rule rb_at_beside [OF _ assms])
  fix fs assume "rb_at s H fs (bin e k b y (bin e k' f p q))"
  then show "rb_at (set_color f k'' s) H fs (bin e k b y (bin e k'' f p q))"
    unfolding rb_at_zoom by (rule rb_at_beside [rotated]) (rule rb_at_color)
qed

lemma rb_at_near_color:
  assumes "rb_at s H ((e, c, a, bin e k b (bin e k' f p q) z) # gs) t"
  shows "rb_at (set_color f k'' s) H ((e, c, a, bin e k b (bin e k'' f p q) z) # gs) t"
proof (rule rb_at_beside [OF _ assms])
  fix fs assume "rb_at s H fs (bin e k b (bin e k' f p q) z)"
  then have "rb_at s H ((e, k, b, z) # fs) (bin e k' f p q)" by (simp add: rb_at_zoom)
  from rb_at_color [OF this] show "rb_at (set_color f k'' s) H fs (bin e k b (bin e k'' f p q) z)" by (simp add: rb_at_zoom)
qed

subsection \<open>Repairing the tree\<close>

text \<open>The place has changed, but not its position in the order, and now fits a subtree of black height \<open>k\<close>.\<close>

definition repaired :: "RBTree \<Rightarrow> addr \<Rightarrow> ctx \<Rightarrow> rtree \<Rightarrow> nat \<Rightarrow> RBTree \<Rightarrow> bool" where
  "repaired s H fs t k s' \<longleftrightarrow> (\<exists>fs'. rb_at s' H fs' t \<and> rbc k fs' \<and> before fs' = before fs \<and> after fs' = after fs) \<and> rb_first s' = rb_first s"

lemma repairedI:
  "rb_at s' H fs' t \<Longrightarrow> rbc k fs' \<Longrightarrow> before fs' = before fs \<Longrightarrow> after fs' = after fs \<Longrightarrow> rb_first s' = rb_first s \<Longrightarrow> repaired s H fs t k s'"
  by (auto simp: repaired_def)

text \<open>The last step when a child of the black sibling is red.\<close>

definition fix_sibling :: "addr \<Rightarrow> RBTree_Direction \<Rightarrow> addr \<Rightarrow> RBTree \<Rightarrow> RBTree" where
  "fix_sibling parent dir sibling s =
     (let (s, sibling) =
            (if \<not> RBTree_Is_red s (rb_child s sibling (opp dir))
             then let s = set_color sibling RBT_RED s;
                      s = set_color (rb_child s sibling dir) RBT_BLACK s;
                      s = RBTree_Rotate sibling (opp dir) s
                  in (s, rb_child s parent (opp dir))
             else (s, sibling));
          s = set_color sibling (rb_color s parent) s;
          s = set_color parent RBT_BLACK s;
          s = set_color (rb_child s sibling (opp dir)) RBT_BLACK s
      in RBTree_Rotate parent dir s)"

lemma fix_sibling_far:
  assumes at: "rb_at s H ((e, c, a, bin e RBT_BLACK b y (bin e RBT_RED f p q)) # gs) t"
    and h: "rbc (Suc k) ((e, c, a, bin e RBT_BLACK b y (bin e RBT_RED f p q)) # gs)"
    and s': "s' = RBTree_Rotate a e (set_color (rb_child s b (opp e)) RBT_BLACK (set_color a RBT_BLACK (set_color b (rb_color s a) s)))"
  shows "repaired s H ((e, c, a, bin e RBT_BLACK b y (bin e RBT_RED f p q)) # gs) t k s'"
proof -
  have "rb_at s H ((opp e, c, a, t) # gs) (bin e RBT_BLACK b y (bin e RBT_RED f p q))" using at by (subst (asm) rb_at_zoom_opp)
  then have "rb_at s H ((opp e, RBT_BLACK, b, y) # (opp e, c, a, t) # gs) (bin e RBT_RED f p q)" by (simp add: rb_at_zoom [symmetric] bin_opp)
  then have f: "rb_child s b (opp e) = f" using rb_at_node(4) by fastforce
  have ca: "rb_color s a = c" using hpar_parent(2) [OF at] .
  have "rb_at (set_color b c s) H ((e, c, a, bin e c b y (bin e RBT_RED f p q)) # gs) t" by (rule rb_at_beside [OF rb_at_color at])
  from rb_at_frame_color [OF this, of RBT_BLACK]
  have "rb_at (set_color a RBT_BLACK (set_color b c s)) H ((e, RBT_BLACK, a, bin e c b y (bin e RBT_RED f p q)) # gs) t" .
  from rb_at_frame_rotate [OF rb_at_far_color [OF this, of RBT_BLACK]]
  have "rb_at s' H ((e, RBT_BLACK, a, y) # (e, c, b, bin e RBT_BLACK f p q) # gs) t" by (simp add: s' f ca)
  moreover have "rbc k ((e, RBT_BLACK, a, y) # (e, c, b, bin e RBT_BLACK f p q) # gs)" using h by (cases c) auto
  ultimately show ?thesis by (rule repairedI) (simp_all add: s' io_bin)
qed

lemma fix_sibling_correct:
  assumes at: "rb_at s H ((e, c, a, bin e RBT_BLACK b y z) # gs) t" and h: "rbc (Suc k) ((e, c, a, bin e RBT_BLACK b y z) # gs)"
    and red: "is_red y \<or> is_red z"
  shows "repaired s H ((e, c, a, bin e RBT_BLACK b y z) # gs) t k (fix_sibling a e b s)"
proof (cases "is_red z")
  case True
  then obtain f p q where z: "z = bin e RBT_RED f p q" using bin_exhaust [of z e] by auto
  have "fix_sibling a e b s = RBTree_Rotate a e (set_color (rb_child s b (opp e)) RBT_BLACK (set_color a RBT_BLACK (set_color b (rb_color s a) s)))"
    using rb_at_sibling_node(5) [OF at] True by (simp add: fix_sibling_def Let_def)
  then show ?thesis using fix_sibling_far [OF at [unfolded z] h [unfolded z]] unfolding z by blast
next
  case False
  then obtain f p q where y: "y = bin e RBT_RED f p q" using red bin_exhaust [of y e] by auto
  note at' = at [unfolded y]
  have f: "rb_child s b e = f"
  proof -
    have "rb_at s H ((opp e, c, a, t) # gs) (bin e RBT_BLACK b (bin e RBT_RED f p q) z)" using at' by (subst (asm) rb_at_zoom_opp)
    then have "rb_at s H ((e, RBT_BLACK, b, z) # (opp e, c, a, t) # gs) (bin e RBT_RED f p q)" by (simp add: rb_at_zoom)
    then show ?thesis using rb_at_node(4) by fastforce
  qed
  define s1 where "s1 = RBTree_Rotate b (opp e) (set_color f RBT_BLACK (set_color b RBT_RED s))"
  have "rb_at (set_color b RBT_RED s) H ((e, c, a, bin e RBT_RED b (bin e RBT_RED f p q) z) # gs) t" by (rule rb_at_beside [OF rb_at_color at'])
  from rb_at_near_color [OF this, of RBT_BLACK]
  have c2: "rb_at (set_color f RBT_BLACK (set_color b RBT_RED s)) H ((e, c, a, bin e RBT_RED b (bin e RBT_BLACK f p q) z) # gs) t" .
  have at1: "rb_at s1 H ((e, c, a, bin e RBT_BLACK f p (bin e RBT_RED b q z)) # gs) t"
  proof (rule rb_at_beside [OF _ c2])
    fix fs assume "rb_at (set_color f RBT_BLACK (set_color b RBT_RED s)) H fs (bin e RBT_RED b (bin e RBT_BLACK f p q) z)"
    then have "rb_at (set_color f RBT_BLACK (set_color b RBT_RED s)) H fs (bin (opp e) RBT_RED b z (bin (opp e) RBT_BLACK f q p))" by (simp add: bin_opp)
    from rb_at_rotate(1) [OF this] show "rb_at s1 H fs (bin e RBT_BLACK f p (bin e RBT_RED b q z))" by (simp add: s1_def bin_opp)
  qed
  have h1: "rbc (Suc k) ((e, c, a, bin e RBT_BLACK f p (bin e RBT_RED b q z)) # gs)" using h False unfolding y by (cases c) auto
  have "fix_sibling a e b s = RBTree_Rotate a e (set_color (rb_child s1 f (opp e)) RBT_BLACK (set_color a RBT_BLACK (set_color f (rb_color s1 a) s1)))"
    using rb_at_sibling_node(5) [OF at] False rb_at_sibling_node(1) [OF at1] by (simp add: fix_sibling_def Let_def f s1_def)
  with fix_sibling_far [OF at1 h1]
  have "repaired s1 H ((e, c, a, bin e RBT_BLACK f p (bin e RBT_RED b q z)) # gs) t k (fix_sibling a e b s)" by blast
  moreover have "rb_first s1 = rb_first s" by (simp add: s1_def)
  moreover have io: "io (bin e RBT_BLACK f p (bin e RBT_RED b q z)) = io (bin e RBT_BLACK b (bin e RBT_RED f p q) z)" by (simp add: io_bin)
  ultimately show ?thesis unfolding y repaired_def before.simps after.simps io by simp
qed

text \<open>The loop, with the round of a black sibling on its own.\<close>

definition validate_step :: "addr \<Rightarrow> addr \<Rightarrow> addr \<Rightarrow> RBTree \<Rightarrow> (addr \<times> RBTree) option" where
  "validate_step n a b s =
     (if \<not> RBTree_Is_red s (rb_child s b RBT_RIGHT) \<and> \<not> RBTree_Is_red s (rb_child s b RBT_LEFT)
      then if RBTree_Is_red (set_color b RBT_RED s) a then Some (n, set_color a RBT_BLACK (set_color b RBT_RED s))
           else RBTree_Extract_validate_loop a (rb_parent s a) (set_color b RBT_RED s)
      else Some (n, fix_sibling a (RBTree_Direction_of s n a) b s))"

lemma RBTree_Extract_validate_loop_unfold:
  "RBTree_Extract_validate_loop n a s =
     (if \<not> RBTree_Is_red s n \<and> rb_parent s a \<noteq> NULL
      then if RBTree_Is_red s (RBTree_Sibling s n a)
           then let dir = RBTree_Direction_of s n a;
                    s = RBTree_Rotate a dir (set_color (RBTree_Sibling s n a) RBT_BLACK (set_color a RBT_RED s))
                in validate_step n a (rb_child s a (opp dir)) s
           else validate_step n a (RBTree_Sibling s n a) s
      else Some (n, s))"
  by (subst RBTree_Extract_validate_loop.simps) (simp add: validate_step_def fix_sibling_def Let_def split_beta cong: if_cong)

lemma repaired_color:
  assumes "repaired s H fs (bin d c n x y) k s'"
  shows "rb_color s' n = c"
  using assms rb_at_node(3) by (auto simp: repaired_def)

lemma validate_step_correct:
  assumes at: "rb_at s H ((e, c, a, bin e RBT_BLACK b y z) # gs) t" and h: "rbc (Suc k) ((e, c, a, bin e RBT_BLACK b y z) # gs)"
    and t: "t = bin d RBT_BLACK n x' y'"
    and IH: "\<And>s t d n x y k. c = RBT_BLACK \<Longrightarrow> rb_at s H gs t \<Longrightarrow> t = bin d RBT_BLACK n x y \<Longrightarrow> rbc (Suc k) gs
      \<Longrightarrow> \<exists>m s'. RBTree_Extract_validate_loop n (hpar H gs) s = Some (m, s') \<and> repaired s H gs t k s' \<and> rb_color s' m = RBT_BLACK"
  shows "\<exists>m s'. validate_step n a b s = Some (m, s') \<and> repaired s H ((e, c, a, bin e RBT_BLACK b y z) # gs) t k s' \<and> rb_color s' m = RBT_BLACK"
proof (cases "is_red y \<or> is_red z")
  case True
  note S = rb_at_sibling_node [OF at]
  have "RBTree_Direction_of s n a = e" using rb_at_direction at t by fastforce
  then have "validate_step n a b s = Some (n, fix_sibling a e b s)"
    using S(4,5) True by (cases e) (auto simp: validate_step_def)
  then show ?thesis using fix_sibling_correct [OF at h True] repaired_color t by blast
next
  case False
  note S = rb_at_sibling_node [OF at] and P = hpar_parent [OF at]
  define s2 where "s2 = set_color b RBT_RED s"
  have at2: "rb_at s2 H ((e, c, a, bin e RBT_RED b y z) # gs) t" unfolding s2_def by (rule rb_at_beside [OF rb_at_color at])
  have "rb_at s2 H gs (bin e c a t (bin e RBT_RED b y z))" using at2 by (simp add: rb_at_zoom)
  note A = rb_at_node [OF this]
  have red: "RBTree_Is_red s2 a \<longleftrightarrow> c = RBT_RED" using A(1,3) by (simp add: RBTree_Is_red_def)
  have step: "validate_step n a b s = (if c = RBT_RED then Some (n, set_color a RBT_BLACK s2) else RBTree_Extract_validate_loop a (hpar H gs) s2)"
    using S(4,5) False P(1) red unfolding validate_step_def s2_def [symmetric] by (cases e) simp_all
  have io: "io (bin e RBT_RED b y z) = io (bin e RBT_BLACK b y z)" by (simp add: io_bin)
  show ?thesis
  proof (cases c)
    case RBT_RED
    have "rb_at (set_color a RBT_BLACK s2) H ((e, RBT_BLACK, a, bin e RBT_RED b y z) # gs) t" by (rule rb_at_frame_color [OF at2])
    moreover have "rbc k ((e, RBT_BLACK, a, bin e RBT_RED b y z) # gs)" using h False RBT_RED by simp
    ultimately have "repaired s H ((e, c, a, bin e RBT_BLACK b y z) # gs) t k (set_color a RBT_BLACK s2)"
      by (rule repairedI) (simp_all add: s2_def io)
    moreover have "rb_color (set_color a RBT_BLACK s2) n = RBT_BLACK" using repaired_color calculation t by blast
    ultimately show ?thesis using step RBT_RED by auto
  next
    case RBT_BLACK
    have "rb_at s2 H gs (bin e RBT_BLACK a t (bin e RBT_RED b y z))" using at2 RBT_BLACK by (simp add: rb_at_zoom)
    from IH [OF RBT_BLACK this refl, of "Suc k"]
    obtain m s' where m: "RBTree_Extract_validate_loop a (hpar H gs) s2 = Some (m, s')"
      "repaired s2 H gs (bin e RBT_BLACK a t (bin e RBT_RED b y z)) (Suc k) s'" "rb_color s' m = RBT_BLACK"
      using h RBT_BLACK by auto
    then obtain gs' where gs': "rb_at s' H gs' (bin e RBT_BLACK a t (bin e RBT_RED b y z))" "rbc (Suc k) gs'" "before gs' = before gs" "after gs' = after gs"
      "rb_first s' = rb_first s2" by (auto simp: repaired_def)
    have "rb_at s' H ((e, RBT_BLACK, a, bin e RBT_RED b y z) # gs') t" using gs'(1) by (simp add: rb_at_zoom)
    moreover have "rbc k ((e, RBT_BLACK, a, bin e RBT_RED b y z) # gs')" using gs'(2) h False RBT_BLACK by simp
    ultimately have "repaired s H ((e, c, a, bin e RBT_BLACK b y z) # gs) t k s'"
      by (rule repairedI) (simp_all add: gs' s2_def io)
    then show ?thesis using step RBT_BLACK m(1,3) by simp
  qed
qed

lemma RBTree_Extract_validate_loop_correct:
  assumes "rb_at s H fs t" "t = bin d RBT_BLACK n x y" "rbc (Suc k) fs"
  shows "\<exists>m s'. RBTree_Extract_validate_loop n (hpar H fs) s = Some (m, s') \<and> repaired s H fs t k s' \<and> rb_color s' m = RBT_BLACK"
  using assms
proof (induction fs arbitrary: s t d n x y k)
  case Nil
  have "RBTree_Extract_validate_loop n (hpar H []) s = Some (n, s)"
    using rb_atD(2) [OF Nil(1)] by (subst RBTree_Extract_validate_loop.simps) simp
  moreover have "rb_color s n = RBT_BLACK" using rb_at_node(3) Nil(1,2) by blast
  ultimately show ?case using Nil(1) by (auto simp: repaired_def intro!: exI [of _ "[]"])
next
  case (Cons fr gs)
  obtain e c a u where fr: "fr = (e, c, a, u)" by (cases fr)
  have at: "rb_at s H ((e, c, a, u) # gs) t" and h: "rbc (Suc k) ((e, c, a, u) # gs)" using Cons.prems fr by simp_all
  note at' = at [unfolded Cons.prems(2)]
  note IH = Cons.IH
  have hu: "rbh (Suc k) u" using h by (cases c) auto
  then obtain ku b p q where u: "u = bin e ku b p q" using bin_exhaust [of u e] by auto
  note S = rb_at_sibling_node [OF at [unfolded u]]
  have "rb_at s H gs (bin e c a t u)" using at by (simp add: rb_at_zoom)
  then have a: "rb_parent s a \<noteq> NULL" using rb_at_node(2) rb_atD(7) by metis
  have n: "\<not> RBTree_Is_red s n" using rb_at_node(3) [OF at'] by (simp add: RBTree_Is_red_def)
  have sib: "RBTree_Sibling s n a = b" using rb_at_sibling [OF at'] S(1) by simp
  have dir: "RBTree_Direction_of s n a = e" using rb_at_direction [OF at'] by simp
  show ?case
  proof (cases ku)
    case RBT_BLACK
    then have "RBTree_Extract_validate_loop n (hpar H (fr # gs)) s = validate_step n a b s"
      using n a sib S(3) by (subst RBTree_Extract_validate_loop_unfold) (simp add: fr RBTree_Is_red_def)
    then show ?thesis
      using validate_step_correct [of s H e c a b p q gs t k, OF _ _ Cons.prems(2) IH] at h u RBT_BLACK fr by simp
  next
    case RBT_RED
    then have c: "c = RBT_BLACK" "rbc (Suc (Suc k)) gs" using h u by (cases c; simp)+
    have pq: "rbh (Suc k) p" "rbh (Suc k) q" "\<not> is_red p" using hu u RBT_RED by simp_all
    then obtain b' p' q' where p: "p = bin e RBT_BLACK b' p' q'" using bin_exhaust [of p e] RBTree_Color.exhaust by (metis is_red_bin Suc_neq_Zero rbh.simps(1))
    define s1 where "s1 = RBTree_Rotate a e (set_color b RBT_BLACK (set_color a RBT_RED s))"
    have c1: "rb_at (set_color a RBT_RED s) H ((e, RBT_RED, a, bin e RBT_RED b p q) # gs) t"
      by (rule rb_at_frame_color [OF at [unfolded u RBT_RED]])
    have "rb_at (set_color b RBT_BLACK (set_color a RBT_RED s)) H ((e, RBT_RED, a, bin e RBT_BLACK b p q) # gs) t"
      by (rule rb_at_beside [OF rb_at_color c1])
    from rb_at_frame_rotate [OF this]
    have at1: "rb_at s1 H ((e, RBT_RED, a, bin e RBT_BLACK b' p' q') # (e, RBT_BLACK, b, q) # gs) t" unfolding s1_def p .
    have h1: "rbc (Suc k) ((e, RBT_RED, a, bin e RBT_BLACK b' p' q') # (e, RBT_BLACK, b, q) # gs)" using pq c(2) p by simp
    have "RBTree_Extract_validate_loop n (hpar H (fr # gs)) s = validate_step n a b' s1"
      using n a sib S(2,3) RBT_RED dir rb_at_sibling_node(1) [OF at1]
      by (subst RBTree_Extract_validate_loop_unfold) (simp add: fr RBTree_Is_red_def Let_def s1_def)
    moreover obtain m s' where "validate_step n a b' s1 = Some (m, s')" "rb_color s' m = RBT_BLACK"
      "repaired s1 H ((e, RBT_RED, a, bin e RBT_BLACK b' p' q') # (e, RBT_BLACK, b, q) # gs) t k s'"
      using validate_step_correct [OF at1 h1 Cons.prems(2)] by blast
    moreover have "rb_first s1 = rb_first s" by (simp add: s1_def)
    ultimately show ?thesis unfolding fr u p by (auto simp: repaired_def io_bin)
  qed
qed

subsection \<open>Taking a node out\<close>

lemma rb_at_remove:
  assumes at: "rb_at s H fs (bin e c m lf Tip)"
    and s1: "s1 = (if rb_child s m e \<noteq> NULL then set_parent (rb_child s m e) (rb_parent s m) s else s)"
    and s': "s' = set_child (rb_parent s1 m) (if m \<noteq> rb_child s1 (rb_parent s1 m) RBT_LEFT then RBT_RIGHT else RBT_LEFT) (rb_child s m e) s1"
  shows "rb_at s' H fs lf"
proof -
  note A = rb_atD [OF at] and N = rb_at_node [OF at]
  let ?P = "hpar H fs" and ?D = "hdir fs" and ?l = "rb_child s m e"
  have lf: "tree_at s m ?l lf" using A(6) by (simp add: tree_at_bin)
  have dis: "distinct (io lf)" "?P \<notin> set (io lf)" "m \<notin> set (io lf)" "set (io lf) \<inter> insert H (set (before fs @ after fs)) = {}"
    using A(3,8) by (auto simp: io_bin split: if_splits)
  have l: "?l = NULL \<or> ?l \<in> set (io lf)" using lf by (cases lf) auto
  then have lm: "?l \<noteq> m" "?l \<noteq> ?P" using dis N(1) A(7) by auto
  have p1: "rb_parent s1 m = ?P" using N(2) lm by (simp add: s1)
  have ch1: "rb_child s1 = rb_child s" "rb_color s1 = rb_color s" by (simp_all add: s1)
  have d: "(if m \<noteq> rb_child s1 (rb_parent s1 m) RBT_LEFT then RBT_RIGHT else RBT_LEFT) = ?D"
    using rb_at_direction [OF at] by (simp add: RBTree_Direction_of_def p1 ch1)
  have e: "s' = set_child ?P ?D ?l s1" unfolding s' unfolding d unfolding p1 by (rule refl)
  show ?thesis
  proof (rule rb_at_replace [OF at])
    show "distinct (H # before fs @ io lf @ after fs)" "NULL \<notin> set (io lf)" using A(3,4) by (auto simp: io_bin split: if_splits)
    show "rb_parent s' b = rb_parent s b \<and> rb_color s' b = rb_color s b" if "b \<in> insert H (set (before fs @ after fs))" for b
    proof -
      have "b \<noteq> ?l \<or> ?l = NULL" using l dis(4) that by auto
      then show ?thesis by (auto simp: e s1)
    qed
    show "rb_child s' b f = rb_child s b f" if "b \<noteq> ?P \<or> f \<noteq> ?D" for b f using that by (auto simp: e ch1)
    have "tree_at s1 ?P ?l lf" by (rule tree_at_reparent [OF lf dis(1)]) (simp_all add: s1 N(2))
    moreover have "tree_at s' ?P ?l lf = tree_at s1 ?P ?l lf" by (rule tree_at_frame) (use dis(2) in \<open>auto simp: e\<close>)
    ultimately show "tree_at s' ?P (rb_child s' ?P ?D) lf" by (simp add: e)
  qed
qed

lemma rbh_0: "rbh 0 t \<Longrightarrow> \<not> is_red t \<Longrightarrow> t = Tip"
  by (cases t rule: is_red.cases) auto

lemma RBTree_Extract_lift_correct:
  assumes at: "rb_at s H fs (bin e c m lf Tip)" and rbt: "rbt (plug fs (bin e c m lf Tip))"
  shows "\<exists>v s' fs'. RBTree_Extract_lift m (rb_child s m e) s = Some (v, s') \<and> rb_at s' H fs' lf \<and> before fs' = before fs \<and> after fs' = after fs
    \<and> rb_first s' = rb_first s \<and> (if lf = Tip then rbc 0 fs' else v = RBT_BLACK \<and> rbc 1 fs' \<and> rbh 0 lf)"
proof -
  note N = rb_at_node [OF at]
  obtain k where k: "rbh k (bin e c m lf Tip)" "rbc k fs" "is_red (bin e c m lf Tip) \<longrightarrow> red_ok fs" using rbt_unplug [OF rbt] by blast
  show ?thesis
  proof (cases "lf = Tip")
    case False
    have c: "c = RBT_BLACK" "k = 1" "rbh 0 lf"
      using k(1) False rbh_0 [of lf] by (cases c; auto)+
    define s1 where "s1 = set_parent (rb_child s m e) (rb_parent s m) s"
    define s' where "s' = set_child (rb_parent s1 m) (if m \<noteq> rb_child s1 (rb_parent s1 m) RBT_LEFT then RBT_RIGHT else RBT_LEFT) (rb_child s m e) s1"
    have nz: "rb_child s m e \<noteq> NULL" using N(5) False by simp
    have "RBTree_Extract_lift m (rb_child s m e) s = Some (RBT_BLACK, s')"
      using nz N(3) c(1) by (simp add: RBTree_Extract_lift_def Let_def s1_def s'_def)
    moreover have "rb_at s' H fs lf" by (rule rb_at_remove [OF at _ s'_def]) (simp add: s1_def nz)
    moreover have "rb_first s' = rb_first s" by (simp add: s'_def s1_def)
    ultimately show ?thesis using c k(2) False by auto
  next
    case True
    have nz: "rb_child s m e = NULL" using N(5) True by simp
    have "\<exists>s1 fs'. RBTree_Extract_validate m s = Some s1 \<and> (\<exists>c'. rb_at s1 H fs' (bin e c' m Tip Tip)) \<and> rbc 0 fs'
        \<and> before fs' = before fs \<and> after fs' = after fs \<and> rb_first s1 = rb_first s"
    proof (cases "fs = []")
      case True
      then have "RBTree_Extract_validate m s = Some s" using N(2) rb_atD(2) [OF at] by (simp add: RBTree_Extract_validate_def)
      then show ?thesis using at \<open>lf = Tip\<close> True by (auto intro!: exI [of _ s] exI [of _ "[]"])
    next
      case False
      obtain e' c' a u gs where fs: "fs = (e', c', a, u) # gs" using False by (cases fs) (auto intro: prod_cases4)
      have "rb_at s H gs (bin e' c' a (bin e c m lf Tip) u)" using at by (simp add: fs rb_at_zoom)
      then have pp: "rb_parent s (hpar H fs) \<noteq> NULL" using rb_at_node(2) rb_atD(7) by (metis fs hpar.simps(2))
      show ?thesis
      proof (cases c)
        case RBT_RED
        have "RBTree_Extract_validate_loop m (hpar H fs) s = Some (m, s)"
          using N(1,3) RBT_RED by (subst RBTree_Extract_validate_loop.simps) (simp add: RBTree_Is_red_def)
        then have "RBTree_Extract_validate m s = Some s" using N(2) pp by (simp add: RBTree_Extract_validate_def)
        moreover have "k = 0" using k(1) RBT_RED \<open>lf = Tip\<close> by simp
        ultimately show ?thesis using at k(2) \<open>lf = Tip\<close> by blast
      next
        case RBT_BLACK
        have k1: "k = Suc 0" using k(1) RBT_BLACK \<open>lf = Tip\<close> by simp
        obtain m' s1 where L: "RBTree_Extract_validate_loop m (hpar H fs) s = Some (m', s1)" "repaired s H fs (bin e RBT_BLACK m Tip Tip) 0 s1" "rb_color s1 m' = RBT_BLACK"
          using RBTree_Extract_validate_loop_correct [of s H fs "bin e RBT_BLACK m Tip Tip" e m Tip Tip 0] at k(2) k1 RBT_BLACK \<open>lf = Tip\<close> by auto
        have "set_color m' RBT_BLACK s1 = s1" using L(3) by (simp add: set_color_def fun_upd_idem)
        then have "RBTree_Extract_validate m s = Some s1" using N(2) pp L(1) by (simp add: RBTree_Extract_validate_def)
        then show ?thesis using L(2) by (auto simp: repaired_def)
      qed
    qed
    then obtain s1 fs' c' where V: "RBTree_Extract_validate m s = Some s1" "rb_at s1 H fs' (bin e c' m Tip Tip)" "rbc 0 fs'"
      "before fs' = before fs" "after fs' = after fs" "rb_first s1 = rb_first s" by blast
    define s' where "s' = set_child (rb_parent s1 m) (if m \<noteq> rb_child s1 (rb_parent s1 m) RBT_LEFT then RBT_RIGHT else RBT_LEFT) NULL s1"
    have n1: "rb_child s1 m e = NULL" using rb_at_node(5) [OF V(2)] by simp
    have "RBTree_Extract_lift m (rb_child s m e) s = Some (rb_color s1 m, s')"
      unfolding RBTree_Extract_lift_def using nz V(1) by (simp add: s'_def Let_def)
    moreover have "rb_at s' H fs' Tip" by (rule rb_at_remove [OF V(2)]) (simp_all add: n1 s'_def)
    moreover have "rb_first s' = rb_first s" using V(6) by (simp add: s'_def)
    ultimately show ?thesis using V(3-5) True by auto
  qed
qed

text \<open>Another node takes the place of a node.\<close>

lemma rb_at_Extract_replace:
  assumes at: "rb_at s H fs (bin RBT_LEFT c n x y)" and m: "m \<noteq> NULL" "m \<noteq> H" "m \<notin> set (io (plug fs (bin RBT_LEFT c n x y)))"
  shows "rb_at (RBTree_Extract_replace n m s) H fs (bin RBT_LEFT c m x y)" "rb_first (RBTree_Extract_replace n m s) = rb_first s"
proof -
  note A = rb_atD [OF at] and N = rb_at_node [OF at]
  let ?P = "hpar H fs" and ?D = "hdir fs" and ?l = "rb_child s n RBT_LEFT" and ?r = "rb_child s n RBT_RIGHT"
  have tx: "tree_at s n ?l x" and ty: "tree_at s n ?r y" using A(6) by simp_all
  have dis: "distinct (io x)" "distinct (io y)" "set (io x) \<inter> set (io y) = {}" "n \<notin> set (io x)" "n \<notin> set (io y)" "?P \<notin> set (io x)" "?P \<notin> set (io y)" "?P \<noteq> n"
    "insert H (set (before fs @ after fs)) \<inter> insert n (set (io x) \<union> set (io y)) = {}"
    using A(3,8) by auto
  have mm: "m \<notin> insert n (set (io x) \<union> set (io y))" "m \<notin> insert H (set (before fs @ after fs))" using m by (auto simp: io_plug)
  have mP: "m \<noteq> ?P" using mm(2) hpar_in [of H fs] by auto
  have l: "?l = NULL \<or> ?l \<in> set (io x)" using tx by (cases x) auto
  have r: "?r = NULL \<or> ?r \<in> set (io y)" using ty by (cases y) auto
  have d: "(if n \<noteq> rb_child s ?P RBT_LEFT then RBT_RIGHT else RBT_LEFT) = ?D"
    using rb_at_direction [OF at] by (simp add: RBTree_Direction_of_def)
  define s' where "s' = RBTree_Extract_replace n m s"
  have ne: "n \<noteq> m" "n \<noteq> ?P" using mm(1) dis(8) by blast+
  have lr: "?l \<noteq> n" "?l \<noteq> m" using l dis(4) mm(1) N(1) m(1) by (metis UnI1 insertI2)+
  have rr: "?r \<noteq> n" "?r \<noteq> m" using r dis(5) mm(1) N(1) m(1) by (metis UnI2 insertI2)+
  define s1 where "s1 = set_child m RBT_RIGHT ?r (set_child ?P ?D m s)"
  define s2 where "s2 = (if ?r \<noteq> NULL then set_parent ?r m s1 else s1)"
  define s3 where "s3 = set_child m RBT_LEFT ?l s2"
  define s4 where "s4 = (if ?l \<noteq> NULL then set_parent ?l m s3 else s3)"
  have s1n: "rb_child s1 n = rb_child s n" and s2n: "rb_child s2 n = rb_child s n" "rb_parent s2 n = ?P" and s3n: "rb_child s3 n = rb_child s n"
    and s4n: "rb_parent s4 n = ?P"
    using ne lr rr N(2) by (auto simp: s1_def s2_def s3_def s4_def)
  have c0: "rb_child (set_child ?P ?D m s) n = rb_child s n" using ne by simp
  have e: "s' = set_color m (rb_color s4 n) (set_parent m ?P s4)"
    unfolding s'_def RBTree_Extract_replace_def Let_def N(2) d c0
    unfolding s1_def [symmetric] s1n unfolding s2_def [symmetric] s2n unfolding s3_def [symmetric] s3n unfolding s4_def [symmetric] s4n by simp
  have par: "rb_parent s' = (\<lambda>b. if b = m then ?P else if b = ?l \<and> ?l \<noteq> NULL then m else if b = ?r \<and> ?r \<noteq> NULL then m else rb_parent s b)"
    by (auto simp: fun_eq_iff e s4_def s3_def s2_def s1_def)
  have ch: "rb_child s' = (rb_child s)(?P := (rb_child s ?P)(?D := m), m := (rb_child s m)(RBT_RIGHT := ?r, RBT_LEFT := ?l))"
    using mP by (auto simp: fun_eq_iff e s4_def s3_def s2_def s1_def)
  have col: "rb_color s' = (rb_color s)(m := c)" and fst: "rb_first s' = rb_first s"
    using N(3) by (auto simp: e s4_def s3_def s2_def s1_def)
  have x: "tree_at s' m ?l x"
  proof -
    define s1 where "s1 = (if ?l \<noteq> NULL then set_parent ?l m s else s)"
    have "tree_at s1 m ?l x" by (rule tree_at_reparent [OF tx dis(1)]) (simp_all add: s1_def)
    moreover have "tree_at s' m ?l x = tree_at s1 m ?l x"
    proof (rule tree_at_frame)
      fix b assume b: "b \<in> set (io x)"
      then have "b \<noteq> m" "b \<noteq> ?P" "b \<noteq> ?r \<or> ?r = NULL" using mm dis r by auto
      then show "rb_parent s' b = rb_parent s1 b \<and> rb_child s' b = rb_child s1 b \<and> rb_color s' b = rb_color s1 b"
        by (auto simp: par ch col s1_def)
    qed
    ultimately show ?thesis by simp
  qed
  have y: "tree_at s' m ?r y"
  proof -
    define s1 where "s1 = (if ?r \<noteq> NULL then set_parent ?r m s else s)"
    have "tree_at s1 m ?r y" by (rule tree_at_reparent [OF ty dis(2)]) (simp_all add: s1_def)
    moreover have "tree_at s' m ?r y = tree_at s1 m ?r y"
    proof (rule tree_at_frame)
      fix b assume b: "b \<in> set (io y)"
      then have "b \<noteq> m" "b \<noteq> ?P" "b \<noteq> ?l \<or> ?l = NULL" using mm dis l by auto
      then show "rb_parent s' b = rb_parent s1 b \<and> rb_child s' b = rb_child s1 b \<and> rb_color s' b = rb_color s1 b"
        by (auto simp: par ch col s1_def)
    qed
    ultimately show ?thesis by simp
  qed
  have "rb_at s' H fs (bin RBT_LEFT c m x y)"
  proof (rule rb_at_replace [OF at])
    show "distinct (H # before fs @ io (bin RBT_LEFT c m x y) @ after fs)" using A(3) mm by auto
    show "NULL \<notin> set (io (bin RBT_LEFT c m x y))" using A(4) m(1) by auto
    show "rb_parent s' b = rb_parent s b \<and> rb_color s' b = rb_color s b" if "b \<in> insert H (set (before fs @ after fs))" for b
    proof -
      have "b \<noteq> m" "b \<noteq> ?l \<or> ?l = NULL" "b \<noteq> ?r \<or> ?r = NULL" using that mm dis(9) l r by auto
      then show ?thesis by (auto simp: par col)
    qed
    show "rb_child s' b f = rb_child s b f" if "b \<in> insert H (set (before fs @ after fs))" "b \<noteq> ?P \<or> f \<noteq> ?D" for b f
      using that mm(2) by (auto simp: ch)
    show "tree_at s' ?P (rb_child s' ?P ?D) (bin RBT_LEFT c m x y)"
      using x y m(1) mP by (simp add: ch col par)
  qed
  then show "rb_at (RBTree_Extract_replace n m s) H fs (bin RBT_LEFT c m x y)" "rb_first (RBTree_Extract_replace n m s) = rb_first s"
    using fst by (simp_all add: s'_def)
qed

subsection \<open>Extraction\<close>

fun troot :: "rtree \<Rightarrow> addr" where
  "troot Tip = NULL"
| "troot (Bin l c a r) = a"

lemma tree_at_root: "tree_at s q p t \<Longrightarrow> p = troot t"
  by (cases t) auto

text \<open>The right-most node of a subtree.\<close>

definition rights :: "ctx \<Rightarrow> bool" where
  "rights rs \<longleftrightarrow> (\<forall>f \<in> set rs. fst f = RBT_RIGHT)"

lemma RBTree_Extract_target_correct:
  assumes "tree_at s q p t" "t \<noteq> Tip"
  shows "\<exists>m c lf rs. RBTree_Extract_target s p = Some m \<and> t = plug rs (bin RBT_LEFT c m lf Tip) \<and> rights rs"
  using assms
proof (induction t arbitrary: q p)
  case (Bin l c a r)
  have a: "p = a" "tree_at s a (rb_child s a RBT_RIGHT) r" using Bin.prems(1) by auto
  show ?case
  proof (cases "r = Tip")
    case True
    then have "RBTree_Extract_target s p = Some a" using a by (subst RBTree_Extract_target.simps) simp
    moreover have "Bin l c a r = plug [] (bin RBT_LEFT c a l Tip)" "rights []" using True by (simp_all add: rights_def)
    ultimately show ?thesis by blast
  next
    case False
    obtain m k lf rs where m: "RBTree_Extract_target s (rb_child s a RBT_RIGHT) = Some m" "r = plug rs (bin RBT_LEFT k m lf Tip)" "rights rs"
      using Bin.IH(2) [OF a(2) False] by blast
    have "RBTree_Extract_target s p = Some m"
      using m(1) a tree_at_NULL [OF a(2)] False by (subst RBTree_Extract_target.simps) simp
    moreover have "Bin l c a r = plug (rs @ [(RBT_RIGHT, c, a, l)]) (bin RBT_LEFT k m lf Tip)" using m(2) by (simp add: plug_append)
    moreover have "rights (rs @ [(RBT_RIGHT, c, a, l)])" using m(3) by (simp add: rights_def)
    ultimately show ?thesis by blast
  qed
qed simp

lemma before_after_rights:
  assumes "rights rs"
  shows "after (rs @ gs) = after gs" "before (rs @ (RBT_LEFT, c, n, u) # gs) = before (rs @ (RBT_LEFT, c', n', u') # gs)"
  using assms by (induction rs) (auto simp: rights_def)

lemma after_split:
  "after fs = n # ns \<Longrightarrow> \<exists>rs c u gs. fs = rs @ (RBT_LEFT, c, n, u) # gs \<and> rights rs"
proof (induction fs)
  case (Cons f fs)
  obtain d c a u where f: "f = (d, c, a, u)" by (cases f)
  show ?case
  proof (cases d)
    case RBT_LEFT
    then show ?thesis using Cons.prems f by (auto simp: rights_def intro!: exI [of _ "[]"])
  next
    case RBT_RIGHT
    then obtain rs k v gs where "fs = rs @ (RBT_LEFT, k, n, v) # gs" "rights rs" using Cons f by auto
    then have "f # fs = (f # rs) @ (RBT_LEFT, k, n, v) # gs" "rights (f # rs)" using f RBT_RIGHT by (simp_all add: rights_def)
    then show ?thesis by blast
  qed
qed simp

lemma rbc_rename: "rbc k (rs @ (d, c, n, u) # gs) = rbc k (rs @ (d, c, m, u) # gs)"
proof (induction rs arbitrary: k)
  case Nil
  show ?case by (cases c) simp_all
next
  case (Cons f rs)
  obtain e k' a v where f: "f = (e, k', a, v)" by (cases f)
  have "red_ok (rs @ (d, c, n, u) # gs) = red_ok (rs @ (d, c, m, u) # gs)"
    by (cases rs; cases c) (auto elim: red_ok.elims)
  then show ?case using Cons.IH by (cases k') (simp_all add: f)
qed

text \<open>What the last two statements of the routine leave: the lifted subtree and the root are painted black.\<close>

lemma extract_finish:
  assumes at: "rb_at s H fs lf" and lf: "if lf = Tip then rbc 0 fs else v = RBT_BLACK \<and> rbc 1 fs \<and> rbh 0 lf"
    and leaf: "leaf = rb_child s (hpar H fs) (hdir fs)"
    and s1: "s1 = (if v = RBT_BLACK \<and> leaf \<noteq> NULL then set_color leaf RBT_BLACK s else s)"
    and s': "s' = (if RBTree_Root s1 H \<noteq> NULL then set_color (RBTree_Root s1 H) RBT_BLACK s1 else s1)"
  shows "\<exists>t. rb_at s' H [] t \<and> io t = before fs @ io lf @ after fs \<and> rbt t \<and> rb_first s' = rb_first s"
proof -
  obtain t1 where t1: "rb_at s1 H fs t1" "io t1 = io lf" "rbt (plug fs t1)"
  proof (cases "lf = Tip")
    case True
    then have "leaf = NULL" using rb_at_root [OF at] leaf by simp
    then have "s1 = s" by (simp add: s1)
    moreover have "rbt (plug fs Tip)" by (rule rbt_plug [of 0]) (use lf True in simp_all)
    ultimately show ?thesis using that at True by simp
  next
    case False
    then have l: "v = RBT_BLACK" "rbc 1 fs" "rbh 0 lf" using lf by simp_all
    obtain c a x y where t: "lf = bin RBT_LEFT c a x y" using False bin_exhaust [of lf RBT_LEFT] by blast
    have c: "c = RBT_RED" using l(3) t by (cases c) auto
    have "leaf = a" "a \<noteq> NULL" using rb_at_node(1,4) [OF at [unfolded t]] leaf by simp_all
    then have e: "s1 = set_color a RBT_BLACK s" using l(1) by (simp add: s1)
    have "rb_at s1 H fs (bin RBT_LEFT RBT_BLACK a x y)" unfolding e by (rule rb_at_color [OF at [unfolded t]])
    moreover have "rbt (plug fs (bin RBT_LEFT RBT_BLACK a x y))" by (rule rbt_plug [of 1]) (use l t c in auto)
    ultimately show ?thesis using that t by simp
  qed
  have at1: "rb_at s1 H [] (plug fs t1)" using t1(1) rb_at_plug by blast
  have "s' = s1"
  proof (cases "plug fs t1")
    case Tip
    then show ?thesis using rb_at_root [OF at1] by (simp add: s' RBTree_Root_def)
  next
    case (Bin l c a r)
    then have "plug fs t1 = bin RBT_LEFT c a l r" by simp
    then have "rb_color s1 a = c" "RBTree_Root s1 H = a" using rb_at_node(3,4) [of s1 H "[]" RBT_LEFT c a l r] at1 by (simp_all add: RBTree_Root_def)
    moreover have "c = RBT_BLACK" using t1(3) Bin by (cases c) (auto simp: rbt_def)
    ultimately show ?thesis by (simp add: s' set_color_def fun_upd_idem)
  qed
  moreover have "rb_first s1 = rb_first s" by (simp add: s1)
  ultimately show ?thesis using at1 t1 by (auto simp: io_plug)
qed

lemma RBTree_Extract_ends_correct:
  assumes "rb_rep s H (A @ n # B)"
  shows "\<exists>s0. RBTree_Extract_ends H n s = Some s0 \<and> (\<forall>H fs t. rb_at s0 H fs t = rb_at s H fs t) \<and> ends s0 H (A @ B)"
proof -
  obtain t where at: "rb_at s H [] t" and io: "io t = A @ n # B" using assms by (auto simp: rb_rep_def)
  have dis: "n \<notin> set A" "n \<notin> set B" "n \<noteq> NULL" using rb_atD(3,4) [OF at] io by auto
  have en: "rb_first s H RBT_LEFT = hd (A @ [n])" "rb_first s H RBT_RIGHT = last (n # B)" using assms by (cases A; simp add: rb_rep_def)+
  have left: "n = rb_first s H RBT_LEFT \<longleftrightarrow> A = []" using en(1) dis(1) by (cases A) auto
  have right: "n = rb_first s H RBT_RIGHT \<longleftrightarrow> B = []" using en(2) dis(2) last_in_set [of B] by (cases "B = []") auto
  note X = RBTree_Next_correct [OF assms]
  define s1 where "s1 = (if A = [] then set_first H RBT_LEFT (if B = [] then NULL else hd B) s else s)"
  have e1: "(if n = rb_first s H RBT_LEFT then map_option (\<lambda>n. set_first H RBT_LEFT n s) (RBTree_Next s n RBT_RIGHT) else Some s) = Some s1"
    using X left by (simp add: s1_def)
  have "RBTree_Next s1 n RBT_LEFT = RBTree_Next s n RBT_LEFT"
  proof -
    have "n \<in> set (io t)" using io by simp
    then obtain fs c x y where "t = plug fs (bin RBT_LEFT c n x y)" using io_place by blast
    then have p: "rb_at s H fs (bin RBT_LEFT c n x y)" using at rb_at_plug by blast
    moreover have "rb_at s1 H fs (bin RBT_LEFT c n x y)" using p by (simp add: s1_def)
    ultimately show ?thesis using RBTree_Next_place by metis
  qed
  moreover have "rb_first s1 H RBT_RIGHT = rb_first s H RBT_RIGHT" by (simp add: s1_def)
  ultimately have "RBTree_Extract_ends H n s = Some (if B = [] then set_first H RBT_RIGHT (if A = [] then NULL else last A) s1 else s1)"
    unfolding RBTree_Extract_ends_def e1 using X right by simp
  moreover have "ends (if B = [] then set_first H RBT_RIGHT (if A = [] then NULL else last A) s1 else s1) H (A @ B)"
    using en by (cases A; cases "B = []") (auto simp: ends_def s1_def)
  ultimately show ?thesis by (auto simp: s1_def)
qed

lemma rb_rep_Extract:
  assumes "rb_rep s H (A @ n # B)"
  shows "\<exists>s'. RBTree_Extract H n s = Some s' \<and> rb_rep s' H (A @ B)"
proof -
  obtain s0 where s0: "RBTree_Extract_ends H n s = Some s0" "\<forall>H fs t. rb_at s0 H fs t = rb_at s H fs t" "ends s0 H (A @ B)"
    using RBTree_Extract_ends_correct [OF assms] by blast
  obtain t where t: "rb_at s H [] t" "io t = A @ n # B" "rbt t" using assms by (auto simp: rb_rep_def)
  have dis: "n \<notin> set A" "n \<notin> set B" using rb_atD(3) [OF t(1)] t(2) by auto
  have "n \<in> set (io t)" using t(2) by simp
  then obtain fs c L R where pl: "t = plug fs (bin RBT_LEFT c n L R)" using io_place by blast
  have at: "rb_at s0 H fs (bin RBT_LEFT c n L R)" using t(1) s0(2) rb_at_plug unfolding pl by blast
  have "A @ n # B = (before fs @ io L) @ n # (io R @ after fs)" using t(2) unfolding pl by (simp add: io_plug)
  then have AB: "A = before fs @ io L" "B = io R @ after fs" using append_Cons_eq_iff [OF dis] by blast+
  note N = rb_at_node [OF at]
  have LR: "rb_child s0 n RBT_LEFT = NULL \<longleftrightarrow> L = Tip" "rb_child s0 n RBT_RIGHT = NULL \<longleftrightarrow> R = Tip" using N(5,6) by simp_all
  define fin where "fin = (\<lambda>(leaf, v, s). let s = (if v = RBT_BLACK \<and> leaf \<noteq> NULL then set_color leaf RBT_BLACK s else s); root = RBTree_Root s H
     in if root \<noteq> NULL then set_color root RBT_BLACK s else s)"
  have finish: ?thesis
    if r: "RBTree_Extract H n s = Some (fin (leaf, v, s1))" and p: "rb_at s1 H gs lf" "rb_child s1 (hpar H gs) (hdir gs) = leaf"
      "if lf = Tip then rbc 0 gs else v = RBT_BLACK \<and> rbc 1 gs \<and> rbh 0 lf" "before gs @ io lf @ after gs = A @ B" "rb_first s1 = rb_first s0" for leaf v s1 gs lf
  proof -
    have "\<exists>t. rb_at (fin (leaf, v, s1)) H [] t \<and> io t = A @ B \<and> rbt t \<and> rb_first (fin (leaf, v, s1)) = rb_first s1"
      unfolding p(4) [symmetric] by (rule extract_finish [OF p(1,3) p(2) [symmetric] refl]) (simp add: fin_def Let_def)
    then show ?thesis using r s0(3) p(5) by (auto simp: rb_rep_ends ends_def)
  qed
  show ?thesis
  proof (cases "L \<noteq> Tip \<and> R \<noteq> Tip")
    case False
    define e where "e = (if L \<noteq> Tip then RBT_LEFT else RBT_RIGHT)"
    define lf where "lf = (if L \<noteq> Tip then L else R)"
    have b: "bin RBT_LEFT c n L R = bin e c n lf Tip" using False by (auto simp: e_def lf_def)
    obtain v s1 gs where X: "RBTree_Extract_lift n (rb_child s0 n e) s0 = Some (v, s1)" "rb_at s1 H gs lf" "before gs = before fs" "after gs = after fs"
      "rb_first s1 = rb_first s0" "if lf = Tip then rbc 0 gs else v = RBT_BLACK \<and> rbc 1 gs \<and> rbh 0 lf"
      using RBTree_Extract_lift_correct [OF at [unfolded b]] t(3) unfolding pl b by blast
    have leaf: "(if rb_child s0 n RBT_LEFT \<noteq> NULL then rb_child s0 n RBT_LEFT else rb_child s0 n RBT_RIGHT) = rb_child s0 n e"
      using LR by (simp add: e_def)
    have "rb_child s1 (hpar H gs) (hdir gs) = rb_child s0 n e"
      using tree_at_root [OF rb_atD(6) [OF X(2)]] tree_at_root [of s0 n "rb_child s0 n e" lf] rb_atD(6) [OF at [unfolded b]] by (simp add: tree_at_bin)
    moreover have "RBTree_Extract H n s = Some (fin (rb_child s0 n e, v, s1))"
      using LR False X(1) leaf unfolding RBTree_Extract_def s0(1) by (auto simp: Let_def fin_def)
    moreover have "before gs @ io lf @ after gs = A @ B" using X(3,4) AB False by (auto simp: lf_def)
    ultimately show ?thesis using finish [of "rb_child s0 n e" v s1 gs lf] X(2,5,6) by blast
  next
    case True
    have "tree_at s0 n (rb_child s0 n RBT_LEFT) L" using rb_atD(6) [OF at] by simp
    then obtain m k lf rs where m: "RBTree_Extract_target s0 (rb_child s0 n RBT_LEFT) = Some m" "L = plug rs (bin RBT_LEFT k m lf Tip)" "rights rs"
      using RBTree_Extract_target_correct True by blast
    let ?gs0 = "rs @ (RBT_LEFT, c, n, R) # fs" and ?tm = "bin RBT_LEFT k m lf Tip"
    have "rb_at s0 H ((RBT_LEFT, c, n, R) # fs) (plug rs ?tm)" using at unfolding m(2) by (simp only: rb_at_zoom)
    then have at0: "rb_at s0 H ?gs0 ?tm" by (simp add: rb_at_append)
    have "plug ?gs0 ?tm = t" unfolding pl m(2) by (simp add: plug_append)
    then obtain v s1 gs1 where X: "RBTree_Extract_lift m (rb_child s0 m RBT_LEFT) s0 = Some (v, s1)" "rb_at s1 H gs1 lf" "before gs1 = before ?gs0"
      "after gs1 = after ?gs0" "rb_first s1 = rb_first s0" "if lf = Tip then rbc 0 gs1 else v = RBT_BLACK \<and> rbc 1 gs1 \<and> rbh 0 lf"
      using RBTree_Extract_lift_correct [OF at0] t(3) by metis
    have af: "after ?gs0 = n # io R @ after fs" using before_after_rights(1) [OF m(3)] by simp
    then obtain rs1 c1 u1 gs2 where g1: "gs1 = rs1 @ (RBT_LEFT, c1, n, u1) # gs2" "rights rs1" using after_split X(4) by metis
    have u1: "io u1 @ after gs2 = io R @ after fs" using X(4) af before_after_rights(1) [OF g1(2)] g1(1) by simp
    define g2 where "g2 = rs1 @ (RBT_LEFT, c1, m, u1) # gs2"
    have at1: "rb_at s1 H gs2 (bin RBT_LEFT c1 n (plug rs1 lf) u1)" using X(2) unfolding g1(1) rb_at_append by (simp only: rb_at_zoom plug.simps append_Cons append_Nil)
    have md: "m \<notin> set (before ?gs0 @ io lf @ after ?gs0)" "m \<noteq> NULL" "m \<noteq> H" using rb_atD(3,4) [OF at0] by auto
    have "io (plug gs2 (bin RBT_LEFT c1 n (plug rs1 lf) u1)) = io (plug gs1 lf)" unfolding g1(1) by (simp add: plug_append)
    then have "m \<notin> set (io (plug gs2 (bin RBT_LEFT c1 n (plug rs1 lf) u1)))" using md(1) X(3,4) by (simp add: io_plug)
    note Y = rb_at_Extract_replace [OF at1 md(2,3) this]
    define s2 where "s2 = RBTree_Extract_replace n m s1"
    have at2: "rb_at s2 H g2 lf" using Y(1) unfolding g2_def rb_at_append s2_def by (simp only: rb_at_zoom)
    have leaf: "rb_child s2 (hpar H g2) (hdir g2) = rb_child s0 m RBT_LEFT"
      using tree_at_root [OF rb_atD(6) [OF at2]] tree_at_root [of s0 m "rb_child s0 m RBT_LEFT" lf] rb_atD(6) [OF at0] by simp
    have res: "RBTree_Extract H n s = Some (fin (rb_child s0 m RBT_LEFT, v, s2))"
      using LR True X(1) m(1) unfolding RBTree_Extract_def s0(1) by (simp add: Let_def fin_def s2_def)
    have order: "before g2 @ io lf @ after g2 = A @ B"
    proof -
      have "before g2 = before ?gs0" using before_after_rights(2) [OF g1(2), of c1 m u1 gs2 c1 n u1] X(3) g1(1) by (simp add: g2_def)
      moreover have "after g2 = m # io R @ after fs" using before_after_rights(1) [OF g1(2)] u1 by (simp add: g2_def)
      moreover have "before ?gs0 @ io lf @ [m] = A"
      proof -
        have "io (plug ?gs0 ?tm) = A @ n # B" using t(2) \<open>plug ?gs0 ?tm = t\<close> by simp
        then have "A @ n # B = (before ?gs0 @ io lf @ [m]) @ n # (io R @ after fs)" using af by (simp add: io_plug)
        from append_Cons_eq_iff [OF dis, THEN iffD1, OF this] show ?thesis by simp
      qed
      ultimately show ?thesis using AB(2) by simp
    qed
    have eq: "rbc j g2 = rbc j gs1" for j unfolding g2_def g1(1) by (rule rbc_rename)
    have "if lf = Tip then rbc 0 g2 else v = RBT_BLACK \<and> rbc 1 g2 \<and> rbh 0 lf" using X(6) unfolding eq .
    moreover have "rb_first s2 = rb_first s0" using Y(2) X(5) by (simp add: s2_def)
    ultimately show ?thesis by (rule finish [OF res at2 leaf _ order])
  qed
qed

text \<open>C34: extracting a node from a red-black tree ends and gives a red-black tree with the other nodes in the same order
  and with the right ends.\<close>

theorem RBTree_Extract_correct:
  assumes "rb_rep s H (A @ n # B)"
  shows "\<exists>s'. RBTree_Extract H n s = Some s' \<and> rb_rep s' H (A @ B)"
  using assms by (rule rb_rep_Extract)

theorem RBTree_Extract_correct_witness:
  "\<exists>s'. RBTree_Extract 16 64 rb_three = Some s' \<and> rb_rep s' 16 [32, 96]"
  using RBTree_Extract_correct [of rb_three 16 "[32]" 64 "[96]"] rb_rep_three by simp

end
