(* ===== verification/Score_Thread.thy ===== *)
theory Score_Thread
  imports Score_Chain_Set Score_Priority Score_RBTree_Extract
begin

text \<open>
  Threads, their states and the priority scheduler (\<^verbatim>\<open>src/librtems/score/scheduler/schedulerpriority*.c\<close>,
  \<^verbatim>\<open>schedulerdefaulttick.c\<close>, \<^verbatim>\<open>src/librtems/score/thread/threadsetstate.c\<close>, \<^verbatim>\<open>threadclearstate.c\<close>, \<^verbatim>\<open>threadyield.c\<close>,
  \<^verbatim>\<open>threaddispatch.c\<close>, \<^verbatim>\<open>threadinitialize.c\<close>, \<^verbatim>\<open>threadloadenv.c\<close>, \<^verbatim>\<open>threadstart.c\<close> and \<^verbatim>\<open>threadcreateidle.c\<close>, with
  \<^verbatim>\<open>schedulerpriorityimpl.h\<close>, \<^verbatim>\<open>schedulerimpl.h\<close>, \<^verbatim>\<open>statesimpl.h\<close> and \<^verbatim>\<open>threadimpl.h\<close>), on one processor.

  A thread is known by the address of its control block, whose first field is its chain node \<open>Object.Node\<close>. The ready queues
  are chains in the memory \<open>ready_mem\<close>, which holds those nodes and the array \<open>Ready\<close> of chain controls, twelve bytes each. The
  fields of the thread control blocks are in \<open>threads\<close>. The links \<open>Wait.Node\<close> used by thread queues
  are in memories of their own, one for each member of that union: \<open>wait_chain\<close> for the chains of all FIFO queues, and \<open>wait_tree\<close> with one
  memory for the nodes of each priority queue. A thread is on at most one thread queue, a queue reads only the links of its own
  threads, and it writes the links of a new thread before it reads them. Locks are the disabling of interrupts and have no state. Of a
  thread dispatch the model has what the kernel keeps about it: the executing thread, the disable level and the time slice; registers, the
  floating point context, user extensions and the accounting of processor time are left out.
\<close>

unbundle bit_operations_syntax

subsection \<open>Data\<close>

type_synonym States_Control = uint32
type_synonym Thread_Wait_flags = uint32

datatype Thread_queue_Operations = Thread_queue_Operations_default | Thread_queue_Operations_FIFO | Thread_queue_Operations_priority

datatype Thread_CPU_budget_algorithms =
    THREAD_CPU_BUDGET_ALGORITHM_NONE | THREAD_CPU_BUDGET_ALGORITHM_RESET_TIMESLICE | THREAD_CPU_BUDGET_ALGORITHM_CALLOUT

record Thread_Wait_information =
  wait_id :: uint32
  wait_count :: uint32
  return_argument :: addr
  return_argument_second :: addr
  wait_option :: uint32
  return_code :: uint32
  timeout_code :: uint32
  wait_queue :: addr
  wait_flags :: Thread_Wait_flags
  operations :: Thread_queue_Operations

record Thread_Control =
  current_state :: States_Control
  current_priority :: Priority_Control
  real_priority :: Priority_Control
  priority_generation :: uint32
  priority_restore_hint :: bool
  resource_count :: uint32
  Wait :: Thread_Wait_information
  is_preemptible :: bool
  cpu_time_budget :: uint32
  budget_algorithm :: Thread_CPU_budget_algorithms
  ready_chain :: addr
  Priority_map :: Priority_bit_map_Information
  Start_is_preemptible :: bool
  Start_budget_algorithm :: Thread_CPU_budget_algorithms
  Start_initial_priority :: Priority_Control

text \<open>The synchronization objects. A thread queue is the first member of each, so that an object has the address of its queue.\<close>

datatype CORE_semaphore_Disciplines = CORE_SEMAPHORE_DISCIPLINES_FIFO | CORE_SEMAPHORE_DISCIPLINES_PRIORITY

record CORE_semaphore_Control =
  sem_maximum_count :: uint32
  sem_discipline :: CORE_semaphore_Disciplines
  sem_count :: uint32

datatype CORE_barrier_Disciplines = CORE_BARRIER_AUTOMATIC_RELEASE | CORE_BARRIER_MANUAL_RELEASE

record CORE_barrier_Control =
  bar_discipline :: CORE_barrier_Disciplines
  bar_maximum_count :: uint32
  number_of_waiting_threads :: uint32

datatype CORE_RWLock_States = CORE_RWLOCK_UNLOCKED | CORE_RWLOCK_LOCKED_FOR_READING | CORE_RWLOCK_LOCKED_FOR_WRITING

record CORE_RWLock_Control =
  rw_state :: CORE_RWLock_States
  number_of_readers :: uint32

datatype CORE_mutex_Disciplines =
    CORE_MUTEX_DISCIPLINES_FIFO | CORE_MUTEX_DISCIPLINES_PRIORITY | CORE_MUTEX_DISCIPLINES_PRIORITY_INHERIT | CORE_MUTEX_DISCIPLINES_PRIORITY_CEILING

datatype CORE_mutex_Nesting_behaviors = CORE_MUTEX_NESTING_ACQUIRES | CORE_MUTEX_NESTING_BLOCKS

record CORE_mutex_Attributes =
  lock_nesting_behavior :: CORE_mutex_Nesting_behaviors
  only_owner_release :: bool
  mutex_discipline :: CORE_mutex_Disciplines
  priority_ceiling :: Priority_Control

record CORE_mutex_Control =
  Attributes :: CORE_mutex_Attributes
  nest_count :: uint32
  holder :: addr

text \<open>\<open>Ready\<close> is the address of the array of ready chains, \<open>PRIORITY_MAXIMUM\<close> and \<open>ticks_per_timeslice\<close> are configured.\<close>

record Kernel =
  threads :: "addr \<Rightarrow> Thread_Control"
  ready_mem :: mem
  Ready :: addr
  Bit_map :: Priority_bit_map_Control
  Thread_Executing :: addr
  Thread_Heir :: addr
  Thread_Dispatch_necessary :: bool
  Thread_Dispatch_disable_level :: uint32
  PRIORITY_MAXIMUM :: uint32
  ticks_per_timeslice :: uint32
  wait_chain :: mem
  wait_tree :: "addr \<Rightarrow> RBTree"
  queue_operations :: "addr \<Rightarrow> Thread_queue_Operations"
  semaphores :: "addr \<Rightarrow> CORE_semaphore_Control"
  barriers :: "addr \<Rightarrow> CORE_barrier_Control"
  rwlocks :: "addr \<Rightarrow> CORE_RWLock_Control"
  mutexes :: "addr \<Rightarrow> CORE_mutex_Control"

definition upd_thread :: "addr \<Rightarrow> (Thread_Control \<Rightarrow> Thread_Control) \<Rightarrow> Kernel \<Rightarrow> Kernel" where
  [score_defs]: "upd_thread t f s = s\<lparr>threads := (threads s)(t := f (threads s t))\<rparr>"

definition upd_wait :: "addr \<Rightarrow> (Thread_Wait_information \<Rightarrow> Thread_Wait_information) \<Rightarrow> Kernel \<Rightarrow> Kernel" where
  [score_defs]: "upd_wait t f s = upd_thread t (\<lambda>c. c\<lparr>Wait := f (Wait c)\<rparr>) s"

subsection \<open>States\<close>

abbreviation STATES_READY :: States_Control where "STATES_READY \<equiv> 0"
abbreviation STATES_DORMANT :: States_Control where "STATES_DORMANT \<equiv> 0x00001"
abbreviation STATES_SUSPENDED :: States_Control where "STATES_SUSPENDED \<equiv> 0x00002"
abbreviation STATES_WAITING_FOR_MESSAGE :: States_Control where "STATES_WAITING_FOR_MESSAGE \<equiv> 0x00080"
abbreviation STATES_WAITING_FOR_SEMAPHORE :: States_Control where "STATES_WAITING_FOR_SEMAPHORE \<equiv> 0x00200"
abbreviation STATES_WAITING_FOR_MUTEX :: States_Control where "STATES_WAITING_FOR_MUTEX \<equiv> 0x00400"
abbreviation STATES_WAITING_FOR_BARRIER :: States_Control where "STATES_WAITING_FOR_BARRIER \<equiv> 0x10000"
abbreviation STATES_WAITING_FOR_RWLOCK :: States_Control where "STATES_WAITING_FOR_RWLOCK \<equiv> 0x20000"

text \<open>The union of the waiting states: delaying, waiting for an object, for a time, a period, an event or a remote reply, and
  interruptible by a signal.\<close>

definition STATES_LOCALLY_BLOCKED :: States_Control where
  "STATES_LOCALLY_BLOCKED = 0x20 OR 0x40 OR 0x80 OR 0x200 OR 0x400 OR 0x800 OR 0x1000000 OR 0x8000 OR 0x10000 OR 0x80000 OR 0x20000"

definition STATES_BLOCKED :: States_Control where
  "STATES_BLOCKED = 0x8 OR STATES_LOCALLY_BLOCKED OR 0x10 OR 0x4000 OR 0x100 OR 0x2000 OR 0x40000 OR 0x10000000"

abbreviation STATES_ALL_SET :: States_Control where "STATES_ALL_SET \<equiv> 0xffffffff"

definition States_Set :: "States_Control \<Rightarrow> States_Control \<Rightarrow> States_Control" where
  "States_Set states_to_set states = states OR states_to_set"

definition States_Clear :: "States_Control \<Rightarrow> States_Control \<Rightarrow> States_Control" where
  "States_Clear states_to_clear states = states AND NOT states_to_clear"

definition States_Is_ready :: "States_Control \<Rightarrow> bool" where
  "States_Is_ready the_states = (the_states = STATES_READY)"

subsection \<open>The priority scheduler\<close>

definition Ready_at :: "Kernel \<Rightarrow> Priority_Control \<Rightarrow> addr" where
  "Ready_at s p = Ready s + 12 * p"

primrec Scheduler_priority_Ready_queue_initialize :: "nat \<Rightarrow> uint32 \<Rightarrow> Kernel \<Rightarrow> Kernel" where
  "Scheduler_priority_Ready_queue_initialize 0 index s = s"
| "Scheduler_priority_Ready_queue_initialize (Suc k) index s =
     Scheduler_priority_Ready_queue_initialize k (index + 1) (s\<lparr>ready_mem := Chain_Initialize_empty (ready_mem s) (Ready_at s index)\<rparr>)"

text \<open>The loop runs for the indexes up to and including \<open>PRIORITY_MAXIMUM\<close>.\<close>

definition Scheduler_priority_Initialize :: "Kernel \<Rightarrow> Kernel" where
  "Scheduler_priority_Initialize s =
     (let s = s\<lparr>Bit_map := Priority_bit_map_Initialize\<rparr>
      in Scheduler_priority_Ready_queue_initialize (Suc (unat (PRIORITY_MAXIMUM s))) 0 s)"

definition Scheduler_priority_Ready_queue_enqueue :: "addr \<Rightarrow> Kernel \<Rightarrow> Kernel" where
  "Scheduler_priority_Ready_queue_enqueue t s =
     (let s = s\<lparr>ready_mem := Chain_Append (ready_mem s) (ready_chain (threads s t)) t\<rparr>
      in s\<lparr>Bit_map := Priority_bit_map_Add (Priority_map (threads s t)) (Bit_map s)\<rparr>)"

definition Scheduler_priority_Ready_queue_enqueue_first :: "addr \<Rightarrow> Kernel \<Rightarrow> Kernel" where
  "Scheduler_priority_Ready_queue_enqueue_first t s =
     (let s = s\<lparr>ready_mem := Chain_Prepend (ready_mem s) (ready_chain (threads s t)) t\<rparr>
      in s\<lparr>Bit_map := Priority_bit_map_Add (Priority_map (threads s t)) (Bit_map s)\<rparr>)"

definition Scheduler_priority_Ready_queue_extract :: "addr \<Rightarrow> Kernel \<Rightarrow> Kernel" where
  "Scheduler_priority_Ready_queue_extract t s =
     (let chain = ready_chain (threads s t) in
      if Chain_Has_only_one_node (ready_mem s) chain
      then let s = s\<lparr>ready_mem := Chain_Initialize_empty (ready_mem s) chain\<rparr>
           in s\<lparr>Bit_map := Priority_bit_map_Remove (Priority_map (threads s t)) (Bit_map s)\<rparr>
      else s\<lparr>ready_mem := Chain_Extract (ready_mem s) t\<rparr>)"

definition Scheduler_priority_Extract_body :: "addr \<Rightarrow> Kernel \<Rightarrow> Kernel" where
  "Scheduler_priority_Extract_body t s = Scheduler_priority_Ready_queue_extract t s"

definition Scheduler_priority_Ready_queue_first :: "Kernel \<Rightarrow> addr" where
  "Scheduler_priority_Ready_queue_first s =
     (let index = Priority_bit_map_Get_highest (Bit_map s) in Chain_First (ready_mem s) (Ready_at s index))"

definition Scheduler_Update_heir :: "addr \<Rightarrow> bool \<Rightarrow> Kernel \<Rightarrow> Kernel" where
  "Scheduler_Update_heir new_heir force_dispatch s =
     (let heir = Thread_Heir s in
      if heir \<noteq> new_heir \<and> (is_preemptible (threads s heir) \<or> force_dispatch)
      then s\<lparr>Thread_Heir := new_heir, Thread_Dispatch_necessary := True\<rparr> else s)"

definition Scheduler_priority_Schedule_body :: "addr \<Rightarrow> bool \<Rightarrow> Kernel \<Rightarrow> Kernel" where
  "Scheduler_priority_Schedule_body the_thread force_dispatch s =
     (let heir = Scheduler_priority_Ready_queue_first s in Scheduler_Update_heir heir force_dispatch s)"

definition Scheduler_priority_Schedule :: "addr \<Rightarrow> Kernel \<Rightarrow> Kernel" where
  "Scheduler_priority_Schedule the_thread s = Scheduler_priority_Schedule_body the_thread False s"

definition Scheduler_priority_Ready_queue_update :: "addr \<Rightarrow> Priority_Control \<Rightarrow> Kernel \<Rightarrow> Kernel" where
  "Scheduler_priority_Ready_queue_update t new_priority s =
     upd_thread t (\<lambda>c. c\<lparr>ready_chain := Ready_at s new_priority, Priority_map := Priority_bit_map_Initialize_information new_priority\<rparr>) s"

definition Scheduler_Generic_block :: "(addr \<Rightarrow> Kernel \<Rightarrow> Kernel) \<Rightarrow> (addr \<Rightarrow> bool \<Rightarrow> Kernel \<Rightarrow> Kernel) \<Rightarrow> addr \<Rightarrow> Kernel \<Rightarrow> Kernel" where
  "Scheduler_Generic_block extract schedule the_thread s =
     (let s = extract the_thread s in
      if the_thread = Thread_Executing s \<or> the_thread = Thread_Heir s then schedule the_thread True s else s)"

definition Scheduler_priority_Block :: "addr \<Rightarrow> Kernel \<Rightarrow> Kernel" where
  "Scheduler_priority_Block = Scheduler_Generic_block Scheduler_priority_Extract_body Scheduler_priority_Schedule_body"

abbreviation PRIORITY_PSEUDO_ISR :: Priority_Control where "PRIORITY_PSEUDO_ISR \<equiv> 0"

definition Scheduler_priority_Unblock :: "addr \<Rightarrow> Kernel \<Rightarrow> Kernel" where
  "Scheduler_priority_Unblock the_thread s =
     (let s = Scheduler_priority_Ready_queue_enqueue the_thread s in
      if current_priority (threads s the_thread) < current_priority (threads s (Thread_Heir s))
      then Scheduler_Update_heir the_thread (current_priority (threads s the_thread) = PRIORITY_PSEUDO_ISR) s
      else s)"

definition Scheduler_priority_Yield :: "addr \<Rightarrow> Kernel \<Rightarrow> Kernel" where
  "Scheduler_priority_Yield the_thread s =
     (let chain = ready_chain (threads s the_thread);
          s = (if \<not> Chain_Has_only_one_node (ready_mem s) chain
               then let s = s\<lparr>ready_mem := Chain_Extract (ready_mem s) the_thread\<rparr>
                    in s\<lparr>ready_mem := Chain_Append (ready_mem s) chain the_thread\<rparr>
               else s)
      in Scheduler_priority_Schedule_body the_thread True s)"

definition Scheduler_priority_Change_priority :: "addr \<Rightarrow> Priority_Control \<Rightarrow> bool \<Rightarrow> Kernel \<Rightarrow> Kernel" where
  "Scheduler_priority_Change_priority the_thread new_priority prepend_it s =
     (let s = Scheduler_priority_Ready_queue_extract the_thread s;
          s = Scheduler_priority_Ready_queue_update the_thread new_priority s;
          s = (if prepend_it then Scheduler_priority_Ready_queue_enqueue_first the_thread s
               else Scheduler_priority_Ready_queue_enqueue the_thread s)
      in Scheduler_priority_Schedule_body the_thread False s)"

definition Scheduler_priority_Update_priority :: "addr \<Rightarrow> Priority_Control \<Rightarrow> Kernel \<Rightarrow> Kernel" where
  "Scheduler_priority_Update_priority the_thread new_priority s = Scheduler_priority_Ready_queue_update the_thread new_priority s"

subsection \<open>Thread states\<close>

definition Thread_Set_state :: "addr \<Rightarrow> States_Control \<Rightarrow> Kernel \<Rightarrow> Kernel \<times> States_Control" where
  "Thread_Set_state the_thread state s =
     (let previous_state = current_state (threads s the_thread);
          next_state = States_Set state previous_state;
          s = upd_thread the_thread (\<lambda>c. c\<lparr>current_state := next_state\<rparr>) s
      in (if States_Is_ready previous_state then Scheduler_priority_Block the_thread s else s, previous_state))"

definition Thread_Clear_state :: "addr \<Rightarrow> States_Control \<Rightarrow> Kernel \<Rightarrow> Kernel \<times> States_Control" where
  "Thread_Clear_state the_thread state s =
     (let previous_state = current_state (threads s the_thread) in
      (if previous_state AND state \<noteq> 0
       then let next_state = States_Clear state previous_state;
                s = upd_thread the_thread (\<lambda>c. c\<lparr>current_state := next_state\<rparr>) s
            in if States_Is_ready next_state then Scheduler_priority_Unblock the_thread s else s
       else s, previous_state))"

definition Thread_Ready :: "addr \<Rightarrow> Kernel \<Rightarrow> Kernel" where
  "Thread_Ready the_thread s = fst (Thread_Clear_state the_thread STATES_ALL_SET s)"

definition Thread_Unblock :: "addr \<Rightarrow> Kernel \<Rightarrow> Kernel" where
  "Thread_Unblock the_thread s = fst (Thread_Clear_state the_thread STATES_BLOCKED s)"

definition Thread_Yield :: "addr \<Rightarrow> Kernel \<Rightarrow> Kernel" where
  "Thread_Yield executing s =
     (if States_Is_ready (current_state (threads s executing)) then Scheduler_priority_Yield executing s else s)"

text \<open>\<open>callout\<close> stands for the \<open>budget_callout\<close> routine of the thread.\<close>

definition Scheduler_default_Tick :: "(addr \<Rightarrow> Kernel \<Rightarrow> Kernel) \<Rightarrow> addr \<Rightarrow> Kernel \<Rightarrow> Kernel" where
  "Scheduler_default_Tick callout executing s =
     (if \<not> is_preemptible (threads s executing) then s
      else if \<not> States_Is_ready (current_state (threads s executing)) then s
      else case budget_algorithm (threads s executing) of
             THREAD_CPU_BUDGET_ALGORITHM_NONE \<Rightarrow> s
           | THREAD_CPU_BUDGET_ALGORITHM_RESET_TIMESLICE \<Rightarrow>
               let s = upd_thread executing (\<lambda>c. c\<lparr>cpu_time_budget := cpu_time_budget c - 1\<rparr>) s in
               if sint (cpu_time_budget (threads s executing)) \<le> 0
               then let s = Thread_Yield executing s
                    in upd_thread executing (\<lambda>c. c\<lparr>cpu_time_budget := ticks_per_timeslice s\<rparr>) s
               else s
           | THREAD_CPU_BUDGET_ALGORITHM_CALLOUT \<Rightarrow>
               let s = upd_thread executing (\<lambda>c. c\<lparr>cpu_time_budget := cpu_time_budget c - 1\<rparr>) s in
               if cpu_time_budget (threads s executing) = 0 then callout executing s else s)"

definition Thread_Get_heir_and_make_it_executing :: "Kernel \<Rightarrow> Kernel \<times> addr" where
  "Thread_Get_heir_and_make_it_executing s =
     (let s = s\<lparr>Thread_Dispatch_necessary := False\<rparr>; heir = Thread_Heir s in (s\<lparr>Thread_Executing := heir\<rparr>, heir))"

definition Thread_Do_dispatch :: "Kernel \<Rightarrow> Kernel" where
  "Thread_Do_dispatch s =
     (let executing = Thread_Executing s;
          (s, heir) = Thread_Get_heir_and_make_it_executing s;
          s = (if heir \<noteq> executing \<and> budget_algorithm (threads s heir) = THREAD_CPU_BUDGET_ALGORITHM_RESET_TIMESLICE
               then upd_thread heir (\<lambda>c. c\<lparr>cpu_time_budget := ticks_per_timeslice s\<rparr>) s else s)
      in s\<lparr>Thread_Dispatch_disable_level := 0\<rparr>)"

definition Thread_Dispatch :: "Kernel \<Rightarrow> Kernel" where
  "Thread_Dispatch s =
     (if Thread_Dispatch_necessary s then let s = s\<lparr>Thread_Dispatch_disable_level := 1\<rparr> in Thread_Do_dispatch s else s)"

definition Thread_Dispatch_disable :: "Kernel \<Rightarrow> Kernel" where
  "Thread_Dispatch_disable s = s\<lparr>Thread_Dispatch_disable_level := Thread_Dispatch_disable_level s + 1\<rparr>"

definition Thread_Dispatch_enable :: "Kernel \<Rightarrow> Kernel" where
  "Thread_Dispatch_enable s =
     (if Thread_Dispatch_disable_level s = 1
      then if Thread_Dispatch_necessary s then Thread_Do_dispatch s else s\<lparr>Thread_Dispatch_disable_level := 0\<rparr>
      else s\<lparr>Thread_Dispatch_disable_level := Thread_Dispatch_disable_level s - 1\<rparr>)"

subsection \<open>Creation and start\<close>

text \<open>Of the creation of a thread the model has the general part, which sets up the fields above and the scheduler node; the
  stack, the floating point area, the object name and the user extensions come before and after it.\<close>

definition Thread_Initialize ::
  "addr \<Rightarrow> Priority_Control \<Rightarrow> bool \<Rightarrow> Thread_CPU_budget_algorithms \<Rightarrow> Kernel \<Rightarrow> Kernel" where
  "Thread_Initialize t priority preemptible budget s =
     (let s = upd_thread t (\<lambda>c. c\<lparr>Start_is_preemptible := preemptible, Start_budget_algorithm := budget\<rparr>) s;
          s = upd_thread t (\<lambda>c. c\<lparr>current_state := STATES_DORMANT\<rparr>) s;
          s = upd_wait t (\<lambda>w. w\<lparr>wait_queue := NULL, operations := Thread_queue_Operations_default\<rparr>) s;
          s = upd_thread t (\<lambda>c. c\<lparr>resource_count := 0, current_priority := priority, real_priority := priority,
                priority_generation := 0, Start_initial_priority := priority\<rparr>) s;
          s = upd_wait t (\<lambda>w. w\<lparr>wait_flags := 0\<rparr>) s
      in Scheduler_priority_Update_priority t priority s)"

text \<open>The registers are set up for the thread handler too, which is not part of the model.\<close>

definition Thread_Load_environment :: "addr \<Rightarrow> Kernel \<Rightarrow> Kernel" where
  "Thread_Load_environment t s =
     upd_thread t (\<lambda>c. c\<lparr>is_preemptible := Start_is_preemptible c, budget_algorithm := Start_budget_algorithm c\<rparr>) s"

text \<open>\<open>cpu\<close> tells whether the thread is started as the idle thread of a processor.\<close>

definition Thread_Start :: "addr \<Rightarrow> bool \<Rightarrow> Kernel \<Rightarrow> Kernel \<times> bool" where
  "Thread_Start t cpu s =
     (if current_state (threads s t) AND STATES_DORMANT \<noteq> 0
      then let s = Thread_Load_environment t s in
           (if \<not> cpu then Thread_Ready t s
            else let s = upd_thread t (\<lambda>c. c\<lparr>current_state := STATES_READY\<rparr>) s in Scheduler_priority_Unblock t s, True)
      else (s, False))"

definition Thread_Create_idle_for_cpu :: "addr \<Rightarrow> Kernel \<Rightarrow> Kernel" where
  "Thread_Create_idle_for_cpu idle s =
     (let s = Thread_Initialize idle (PRIORITY_MAXIMUM s) True THREAD_CPU_BUDGET_ALGORITHM_NONE s;
          s = s\<lparr>Thread_Heir := idle, Thread_Executing := idle\<rparr>
      in fst (Thread_Start idle True s))"

end
