(* ===== verification/Score_Scheduler.thy ===== *)
theory Score_Scheduler
  imports Score_Thread
begin

text \<open>
  The ready queues as lists of threads by priority, and the correctness of the priority scheduler: every operation keeps the bit map, the
  chains and the thread states together, and the heir is the first of the most important ready threads unless it may not be
  preempted.
\<close>

subsection \<open>The ready queues\<close>

text \<open>\<open>rq p\<close> is the list of the threads of the ready chain of priority \<open>p\<close>.\<close>

definition queues :: "Kernel \<Rightarrow> addr set \<Rightarrow> (Priority_Control \<Rightarrow> addr list) \<Rightarrow> bool" where
  "queues s T rq \<longleftrightarrow> unat (PRIORITY_MAXIMUM s) < 256
     \<and> chains_rep (ready_mem s) (Ready_at s ` {p. p \<le> PRIORITY_MAXIMUM s}) T (\<lambda>c. rq ((c - Ready s) div 12))"

lemma Ready_at_level:
  assumes "unat (PRIORITY_MAXIMUM s) < 256" "p \<le> PRIORITY_MAXIMUM s"
  shows "(Ready_at s p - Ready s) div 12 = p"
proof -
  have "unat p < 256" using assms by (simp add: word_le_nat_alt)
  then have "unat (12 * p) = 12 * unat p" by (simp add: unat_word_ariths)
  then have "unat (12 * p div 12) = unat p" by (simp add: unat_div)
  then show ?thesis by (simp add: Ready_at_def word_unat_eq_iff)
qed

lemma Ready_at_frame [simp]:
  "Ready_at (s\<lparr>ready_mem := m\<rparr>) = Ready_at s" "Ready_at (s\<lparr>Bit_map := b\<rparr>) = Ready_at s" "Ready_at (s\<lparr>threads := f\<rparr>) = Ready_at s"
  "Ready_at (s\<lparr>Thread_Heir := h\<rparr>) = Ready_at s" "Ready_at (s\<lparr>Thread_Dispatch_necessary := d\<rparr>) = Ready_at s"
  by (simp_all add: Ready_at_def fun_eq_iff)

lemma queues_frame [simp]: "queues (s\<lparr>Bit_map := b\<rparr>) = queues s" "queues (s\<lparr>threads := f\<rparr>) = queues s"
  by (simp_all add: queues_def fun_eq_iff)

lemma queues_update:
  assumes "queues s T rq" "p \<le> PRIORITY_MAXIMUM s"
    and "\<And>C q. chains_rep (ready_mem s) C T q \<Longrightarrow> Ready_at s p \<in> C \<Longrightarrow> q (Ready_at s p) = rq p
      \<Longrightarrow> (\<And>c t. c \<in> C \<Longrightarrow> t \<in> set (q c) \<Longrightarrow> \<exists>p \<le> PRIORITY_MAXIMUM s. t \<in> set (rq p)) \<Longrightarrow> chains_rep m C T (q(Ready_at s p := xs))"
  shows "queues (s\<lparr>ready_mem := m\<rparr>) T (rq(p := xs))"
proof -
  let ?C = "Ready_at s ` {p. p \<le> PRIORITY_MAXIMUM s}" and ?q = "\<lambda>c. rq ((c - Ready s) div 12)"
  have lim: "unat (PRIORITY_MAXIMUM s) < 256" and rep: "chains_rep (ready_mem s) ?C T ?q" using assms(1) by (simp_all add: queues_def)
  note lev = Ready_at_level [OF lim]
  have "chains_rep m ?C T (?q(Ready_at s p := xs))" by (rule assms(3) [OF rep]) (use assms(2) lev in auto)
  moreover have "(?q(Ready_at s p := xs)) c = (rq(p := xs)) ((c - Ready s) div 12)" if "c \<in> ?C" for c
    using that lev assms(2) by (auto split: if_splits)
  ultimately have "chains_rep m ?C T (\<lambda>c. (rq(p := xs)) ((c - Ready s) div 12))" by (rule chains_rep_cong [THEN iffD1, rotated])
  then show ?thesis using lim by (simp add: queues_def)
qed

lemma queues_at:
  assumes "queues s T rq" "p \<le> PRIORITY_MAXIMUM s"
  shows "chain_rep (ready_mem s) (Ready_at s p) (rq p)" "distinct (rq p)" "set (rq p) \<subseteq> T"
    "r \<le> PRIORITY_MAXIMUM s \<Longrightarrow> t \<in> set (rq p) \<Longrightarrow> t \<in> set (rq r) \<Longrightarrow> p = r"
proof -
  let ?C = "Ready_at s ` {p. p \<le> PRIORITY_MAXIMUM s}" and ?q = "\<lambda>c. rq ((c - Ready s) div 12)"
  have lim: "unat (PRIORITY_MAXIMUM s) < 256" and rep: "chains_rep (ready_mem s) ?C T ?q" using assms(1) by (simp_all add: queues_def)
  note lev = Ready_at_level [OF lim] and D = chains_repD [OF rep]
  have c: "Ready_at s p \<in> ?C" using assms(2) by simp
  show "chain_rep (ready_mem s) (Ready_at s p) (rq p)" "distinct (rq p)" "set (rq p) \<subseteq> T"
    using D(2-4) [OF c] lev [OF assms(2)] by simp_all
  show "p = r" if "r \<le> PRIORITY_MAXIMUM s" "t \<in> set (rq p)" "t \<in> set (rq r)"
    using D(6) [OF c, of "Ready_at s r" t] that lev assms(2) by (metis (no_types, lifting) imageI mem_Collect_eq)
qed

lemma queues_append:
  assumes "queues s T rq" "p \<le> PRIORITY_MAXIMUM s" "t \<in> T" "\<forall>p \<le> PRIORITY_MAXIMUM s. t \<notin> set (rq p)"
  shows "queues (s\<lparr>ready_mem := Chain_Append (ready_mem s) (Ready_at s p) t\<rparr>) T (rq(p := rq p @ [t]))"
  by (rule queues_update [OF assms(1,2)]) (metis chains_rep_append assms(3,4))

lemma queues_prepend:
  assumes "queues s T rq" "p \<le> PRIORITY_MAXIMUM s" "t \<in> T" "\<forall>p \<le> PRIORITY_MAXIMUM s. t \<notin> set (rq p)"
  shows "queues (s\<lparr>ready_mem := Chain_Prepend (ready_mem s) (Ready_at s p) t\<rparr>) T (rq(p := t # rq p))"
  by (rule queues_update [OF assms(1,2)]) (metis chains_rep_prepend assms(3,4))

lemma queues_extract:
  assumes "queues s T rq" "p \<le> PRIORITY_MAXIMUM s" "t \<in> set (rq p)"
  shows "queues (s\<lparr>ready_mem := Chain_Extract (ready_mem s) t\<rparr>) T (rq(p := remove1 t (rq p)))"
  by (rule queues_update [OF assms(1,2)]) (metis chains_rep_extract assms(3))

lemma queues_empty:
  assumes "queues s T rq" "p \<le> PRIORITY_MAXIMUM s"
  shows "queues (s\<lparr>ready_mem := Chain_Initialize_empty (ready_mem s) (Ready_at s p)\<rparr>) T (rq(p := []))"
  by (rule queues_update [OF assms(1,2)]) (metis chains_rep_empty)

subsection \<open>Queues, nodes and bit map\<close>

text \<open>\<open>lev t\<close> is the priority the scheduler node of \<open>t\<close> is set up for.\<close>

definition sched_rep :: "Kernel \<Rightarrow> addr set \<Rightarrow> (addr \<Rightarrow> Priority_Control) \<Rightarrow> (Priority_Control \<Rightarrow> addr list) \<Rightarrow> bool" where
  "sched_rep s T lev rq \<longleftrightarrow> queues s T rq
     \<and> (\<forall>t \<in> T. lev t \<le> PRIORITY_MAXIMUM s \<and> ready_chain (threads s t) = Ready_at s (lev t)
          \<and> Priority_map (threads s t) = Priority_bit_map_Initialize_information (lev t))
     \<and> (\<forall>p \<le> PRIORITY_MAXIMUM s. \<forall>t \<in> set (rq p). lev t = p)
     \<and> bit_map_rep (Bit_map s) (unat ` {p. p \<le> PRIORITY_MAXIMUM s \<and> rq p \<noteq> []})"

lemma sched_repD:
  assumes "sched_rep s T lev rq"
  shows "queues s T rq" "unat (PRIORITY_MAXIMUM s) < 256" "bit_map_rep (Bit_map s) (unat ` {p. p \<le> PRIORITY_MAXIMUM s \<and> rq p \<noteq> []})"
    "t \<in> T \<Longrightarrow> lev t \<le> PRIORITY_MAXIMUM s" "t \<in> T \<Longrightarrow> ready_chain (threads s t) = Ready_at s (lev t)"
    "t \<in> T \<Longrightarrow> Priority_map (threads s t) = Priority_bit_map_Initialize_information (lev t)"
    "p \<le> PRIORITY_MAXIMUM s \<Longrightarrow> t \<in> set (rq p) \<Longrightarrow> lev t = p"
    "t \<in> T \<Longrightarrow> unat (lev t) < 256"
  using assms by (auto simp: sched_rep_def queues_def word_le_nat_alt)

lemma sched_repI:
  assumes "queues s T rq" "bit_map_rep (Bit_map s) (unat ` {p. p \<le> PRIORITY_MAXIMUM s \<and> rq p \<noteq> []})"
    "\<And>t. t \<in> T \<Longrightarrow> lev t \<le> PRIORITY_MAXIMUM s \<and> ready_chain (threads s t) = Ready_at s (lev t)
          \<and> Priority_map (threads s t) = Priority_bit_map_Initialize_information (lev t)"
    "\<And>p t. p \<le> PRIORITY_MAXIMUM s \<Longrightarrow> t \<in> set (rq p) \<Longrightarrow> lev t = p"
  shows "sched_rep s T lev rq"
  using assms unfolding sched_rep_def by blast

lemma sched_rep_cong:
  assumes "ready_mem s' = ready_mem s" "Ready s' = Ready s" "Bit_map s' = Bit_map s" "PRIORITY_MAXIMUM s' = PRIORITY_MAXIMUM s"
    and "\<And>t. t \<in> T \<Longrightarrow> ready_chain (threads s' t) = ready_chain (threads s t) \<and> Priority_map (threads s' t) = Priority_map (threads s t)"
  shows "sched_rep s' T lev rq = sched_rep s T lev rq"
proof -
  have "Ready_at s' = Ready_at s" using assms(2) by (simp add: Ready_at_def fun_eq_iff)
  then show ?thesis using assms by (simp add: sched_rep_def queues_def)
qed

lemma nonempty_levels:
  assumes "p \<le> PRIORITY_MAXIMUM s"
  shows "unat ` {r. r \<le> PRIORITY_MAXIMUM s \<and> (rq(p := xs)) r \<noteq> []} =
    (if xs = [] then unat ` {r. r \<le> PRIORITY_MAXIMUM s \<and> rq r \<noteq> []} - {unat p} else insert (unat p) (unat ` {r. r \<le> PRIORITY_MAXIMUM s \<and> rq r \<noteq> []}))"
  using assms by (auto simp: word_unat_eq_iff [symmetric])

lemma sched_rep_put:
  assumes rep: "sched_rep s T lev rq" and t: "t \<in> T" and new: "queues (s\<lparr>ready_mem := m\<rparr>) T (rq(lev t := xs))" "xs \<noteq> []" "set xs \<subseteq> insert t (set (rq (lev t)))"
  shows "sched_rep (s\<lparr>ready_mem := m, Bit_map := Priority_bit_map_Add (Priority_map (threads s t)) (Bit_map s)\<rparr>) T lev (rq(lev t := xs))"
proof -
  note D = sched_repD [OF rep]
  have "bit_map_rep (Priority_bit_map_Add (Priority_map (threads s t)) (Bit_map s))
      (unat ` {r. r \<le> PRIORITY_MAXIMUM s \<and> (rq(lev t := xs)) r \<noteq> []})"
    using bit_map_rep_Add [OF D(3) D(8) [OF t]] D(6) [OF t] nonempty_levels [OF D(4) [OF t], of rq xs] new(2) by simp
  moreover have "lev u = p" if "p \<le> PRIORITY_MAXIMUM s" "u \<in> set ((rq(lev t := xs)) p)" for p u
    using D(7) [OF that(1), of u] that new(3) by (cases "p = lev t") auto
  ultimately show ?thesis by (intro sched_repI) (use new(1) D(4-6) in \<open>simp_all del: fun_upd_apply\<close>)
qed

lemma sched_not_queued:
  assumes "sched_rep s T lev rq" "t \<notin> set (rq (lev t))"
  shows "\<forall>p \<le> PRIORITY_MAXIMUM s. t \<notin> set (rq p)"
  using sched_repD(7) [OF assms(1)] assms(2) by metis

lemma sched_rep_enqueue:
  assumes "sched_rep s T lev rq" "t \<in> T" "t \<notin> set (rq (lev t))"
  shows "sched_rep (Scheduler_priority_Ready_queue_enqueue t s) T lev (rq(lev t := rq (lev t) @ [t]))"
    "sched_rep (Scheduler_priority_Ready_queue_enqueue_first t s) T lev (rq(lev t := t # rq (lev t)))"
proof -
  note D = sched_repD [OF assms(1)] and nq = sched_not_queued [OF assms(1,3)]
  show "sched_rep (Scheduler_priority_Ready_queue_enqueue t s) T lev (rq(lev t := rq (lev t) @ [t]))"
    using sched_rep_put [OF assms(1,2) queues_append [OF D(1) D(4) [OF assms(2)] assms(2) nq]]
    by (simp add: Scheduler_priority_Ready_queue_enqueue_def Let_def D(5) [OF assms(2)])
  show "sched_rep (Scheduler_priority_Ready_queue_enqueue_first t s) T lev (rq(lev t := t # rq (lev t)))"
    using sched_rep_put [OF assms(1,2) queues_prepend [OF D(1) D(4) [OF assms(2)] assms(2) nq]]
    by (simp add: Scheduler_priority_Ready_queue_enqueue_first_def Let_def D(5) [OF assms(2)])
qed

lemma sched_rep_extract:
  assumes rep: "sched_rep s T lev rq" and t: "t \<in> T" "t \<in> set (rq (lev t))"
  shows "sched_rep (Scheduler_priority_Ready_queue_extract t s) T lev (rq(lev t := remove1 t (rq (lev t))))"
proof -
  note D = sched_repD [OF rep] and Q = queues_at [OF sched_repD(1) [OF rep] sched_repD(4) [OF rep t(1)]]
  note chain = D(5) [OF t(1)] and map = D(6) [OF t(1)] and lim = D(4) [OF t(1)]
  have members: "lev u = p" if "p \<le> PRIORITY_MAXIMUM s" "u \<in> set ((rq(lev t := remove1 t (rq (lev t)))) p)" for p u
    using D(7) [OF that(1), of u] that by (cases "p = lev t") (auto dest: notin_set_remove1)
  show ?thesis
  proof (cases "length (rq (lev t)) = 1")
    case True
    then have r: "rq (lev t) = [t]" using t(2) by (cases "rq (lev t)") auto
    have "bit_map_rep (Priority_bit_map_Remove (Priority_map (threads s t)) (Bit_map s)) (unat ` {r. r \<le> PRIORITY_MAXIMUM s \<and> (rq(lev t := [])) r \<noteq> []})"
      using bit_map_rep_Remove [OF D(3) D(8) [OF t(1)]] nonempty_levels [OF lim, of rq "[]"] by (simp add: map)
    then have "sched_rep (s\<lparr>ready_mem := Chain_Initialize_empty (ready_mem s) (Ready_at s (lev t)),
        Bit_map := Priority_bit_map_Remove (Priority_map (threads s t)) (Bit_map s)\<rparr>) T lev (rq(lev t := []))"
    proof (intro sched_repI)
      show "lev u = p" if "p \<le> PRIORITY_MAXIMUM (s\<lparr>ready_mem := Chain_Initialize_empty (ready_mem s) (Ready_at s (lev t)),
          Bit_map := Priority_bit_map_Remove (Priority_map (threads s t)) (Bit_map s)\<rparr>)" "u \<in> set ((rq(lev t := [])) p)" for p u
        using D(7) [of p u] that by (cases "p = lev t") simp_all
    qed (use queues_empty [OF D(1) lim] D(4-6) in \<open>simp_all del: fun_upd_apply\<close>)
    then show ?thesis using r Chain_Has_only_one_node_rep [OF Q(1)]
      by (simp add: Scheduler_priority_Ready_queue_extract_def Let_def chain)
  next
    case False
    have "rq (lev t) \<noteq> []" using t(2) by auto
    then have "remove1 t (rq (lev t)) \<noteq> []" using False t(2) length_remove1 [of t "rq (lev t)"] by (cases "rq (lev t)") auto
    moreover have "insert (unat (lev t)) (unat ` {r. r \<le> PRIORITY_MAXIMUM s \<and> rq r \<noteq> []}) = unat ` {r. r \<le> PRIORITY_MAXIMUM s \<and> rq r \<noteq> []}"
      using lim \<open>rq (lev t) \<noteq> []\<close> by auto
    ultimately have "bit_map_rep (Bit_map s) (unat ` {r. r \<le> PRIORITY_MAXIMUM s \<and> (rq(lev t := remove1 t (rq (lev t)))) r \<noteq> []})"
      using D(3) nonempty_levels [OF lim, of rq "remove1 t (rq (lev t))"] by simp
    then have "sched_rep (s\<lparr>ready_mem := Chain_Extract (ready_mem s) t\<rparr>) T lev (rq(lev t := remove1 t (rq (lev t))))"
    proof (intro sched_repI)
      show "lev u = p" if "p \<le> PRIORITY_MAXIMUM (s\<lparr>ready_mem := Chain_Extract (ready_mem s) t\<rparr>)"
        "u \<in> set ((rq(lev t := remove1 t (rq (lev t)))) p)" for p u
        by (rule members [OF _ that(2)]) (use that(1) in simp)
    qed (use queues_extract [OF D(1) lim t(2)] D(4-6) in \<open>simp_all del: fun_upd_apply\<close>)
    then show ?thesis using False Chain_Has_only_one_node_rep [OF Q(1)]
      by (simp add: Scheduler_priority_Ready_queue_extract_def Let_def chain)
  qed
qed

lemma sched_rep_update:
  assumes "sched_rep s T lev rq" "t \<in> T" "t \<notin> set (rq (lev t))" "p \<le> PRIORITY_MAXIMUM s"
  shows "sched_rep (Scheduler_priority_Ready_queue_update t p s) T (lev(t := p)) rq"
  using assms sched_not_queued [OF assms(1,3)] by (auto simp: sched_rep_def Scheduler_priority_Ready_queue_update_def upd_thread_def)

text \<open>The first ready thread is the head of the least level that has one.\<close>

lemma sched_rep_first:
  assumes rep: "sched_rep s T lev rq" and t: "t \<in> T" "t \<in> set (rq (lev t))"
  shows "\<exists>p \<le> lev t. rq p \<noteq> [] \<and> (\<forall>r < p. rq r = []) \<and> Scheduler_priority_Ready_queue_first s = hd (rq p)"
proof -
  note D = sched_repD [OF rep]
  let ?S = "unat ` {p. p \<le> PRIORITY_MAXIMUM s \<and> rq p \<noteq> []}"
  define p where "p = Priority_bit_map_Get_highest (Bit_map s)"
  have fin: "finite ?S" by simp
  have mem: "unat (lev t) \<in> ?S" using D(4) [OF t(1)] t(2) by auto
  then have "?S \<noteq> {}" by blast
  then have min: "unat p = Min ?S" "unat p \<in> ?S" using bit_map_Get_highest [OF D(3)] Min_in [OF fin] by (simp_all add: p_def)
  then have p: "p \<le> PRIORITY_MAXIMUM s" "rq p \<noteq> []" by (auto simp: word_unat_eq_iff [symmetric])
  have "unat p \<le> unat (lev t)" using Min_le [OF fin mem] min(1) by simp
  moreover have "rq r = []" if "r < p" for r
  proof (rule ccontr)
    assume "rq r \<noteq> []"
    then have "unat r \<in> ?S" using that p(1) by simp
    then have "unat p \<le> unat r" using Min_le [OF fin] min(1) by simp
    then show False using that by (simp add: word_less_nat_alt)
  qed
  moreover have "Scheduler_priority_Ready_queue_first s = hd (rq p)"
    using Chain_First_rep [OF queues_at(1) [OF D(1) p(1)]] p(2) by (simp add: Scheduler_priority_Ready_queue_first_def Let_def p_def)
  ultimately show ?thesis using p by (auto simp: word_le_nat_alt)
qed

subsection \<open>The heir\<close>

abbreviation prio :: "Kernel \<Rightarrow> addr \<Rightarrow> Priority_Control" where
  "prio s t \<equiv> current_priority (threads s t)"

abbreviation is_ready :: "Kernel \<Rightarrow> addr \<Rightarrow> bool" where
  "is_ready s t \<equiv> current_state (threads s t) = STATES_READY"

text \<open>The ready queues hold exactly the ready threads, each at its priority.\<close>

definition sched_base :: "addr set \<Rightarrow> Kernel \<Rightarrow> (Priority_Control \<Rightarrow> addr list) \<Rightarrow> bool" where
  "sched_base T s rq \<longleftrightarrow> sched_rep s T (prio s) rq \<and> (\<forall>t \<in> T. t \<in> set (rq (prio s t)) \<longleftrightarrow> is_ready s t) \<and> Thread_Executing s \<in> T"

text \<open>The heir is ready, and if it may be preempted, then no more important thread is ready and it is the first of
  its priority. Only at the priority of pseudo interrupts another thread may be ahead of it: one that got this priority while a
  thread that may not be preempted was the heir.\<close>

definition heir_ok :: "addr set \<Rightarrow> Kernel \<Rightarrow> (Priority_Control \<Rightarrow> addr list) \<Rightarrow> bool" where
  "heir_ok T s rq \<longleftrightarrow> (let h = Thread_Heir s in h \<in> T \<and> is_ready s h \<and>
     (is_preemptible (threads s h) \<longrightarrow> (\<forall>p < prio s h. rq p = []) \<and> (prio s h = PRIORITY_PSEUDO_ISR \<or> hd (rq (prio s h)) = h)))"

definition sched_inv :: "addr set \<Rightarrow> Kernel \<Rightarrow> (Priority_Control \<Rightarrow> addr list) \<Rightarrow> bool" where
  "sched_inv T s rq \<longleftrightarrow> sched_base T s rq \<and> heir_ok T s rq"

lemma sched_invD:
  assumes "sched_inv T s rq"
  shows "sched_base T s rq" "heir_ok T s rq" "sched_rep s T (prio s) rq" "Thread_Executing s \<in> T" "Thread_Heir s \<in> T" "is_ready s (Thread_Heir s)"
    "t \<in> T \<Longrightarrow> t \<in> set (rq (prio s t)) \<longleftrightarrow> is_ready s t"
  using assms by (auto simp: sched_inv_def sched_base_def heir_ok_def Let_def)

lemma queued_ready: "sched_base T s rq \<Longrightarrow> p \<le> PRIORITY_MAXIMUM s \<Longrightarrow> t \<in> set (rq p) \<Longrightarrow> t \<in> T \<and> prio s t = p \<and> is_ready s t"
proof -
  assume base: "sched_base T s rq" and p: "p \<le> PRIORITY_MAXIMUM s" "t \<in> set (rq p)"
  have rep: "sched_rep s T (prio s) rq" using base by (simp add: sched_base_def)
  have "t \<in> T" using queues_at(3) [OF sched_repD(1) [OF rep] p(1)] p(2) by blast
  moreover have "prio s t = p" by (rule sched_repD(7) [OF rep p])
  ultimately show ?thesis using base p(2) by (auto simp: sched_base_def)
qed

lemma Update_heir_frame:
  "threads (Scheduler_Update_heir h f s) = threads s" "ready_mem (Scheduler_Update_heir h f s) = ready_mem s" "Ready (Scheduler_Update_heir h f s) = Ready s"
  "Bit_map (Scheduler_Update_heir h f s) = Bit_map s" "PRIORITY_MAXIMUM (Scheduler_Update_heir h f s) = PRIORITY_MAXIMUM s"
  "Thread_Executing (Scheduler_Update_heir h f s) = Thread_Executing s"
  by (simp_all add: Scheduler_Update_heir_def Let_def)

lemma sched_base_Update_heir: "sched_base T (Scheduler_Update_heir h f s) rq = sched_base T s rq"
proof -
  have "sched_rep (Scheduler_Update_heir h f s) T (prio s) rq = sched_rep s T (prio s) rq" by (rule sched_rep_cong) (simp_all add: Update_heir_frame)
  then show ?thesis by (simp add: sched_base_def Update_heir_frame)
qed

text \<open>Scheduling anew makes the heir right, when the old heir is still ready or the dispatch is forced.\<close>

lemma Schedule_body_inv:
  assumes base: "sched_base T s rq" and u: "u \<in> T" "is_ready s u" and heir: "force \<or> Thread_Heir s \<in> T \<and> is_ready s (Thread_Heir s)"
  shows "sched_inv T (Scheduler_priority_Schedule_body t force s) rq"
proof -
  have "u \<in> set (rq (prio s u))" using base u by (simp add: sched_base_def)
  then obtain p where p: "p \<le> prio s u" "rq p \<noteq> []" "\<forall>r < p. rq r = []" and first: "Scheduler_priority_Ready_queue_first s = hd (rq p)"
    using sched_rep_first [of s T "prio s" rq u] base u(1) by (auto simp: sched_base_def)
  have "prio s u \<le> PRIORITY_MAXIMUM s" using base u(1) sched_repD(4) by (auto simp: sched_base_def)
  then have q: "hd (rq p) \<in> T" "prio s (hd (rq p)) = p" "is_ready s (hd (rq p))" using queued_ready [OF base, of p "hd (rq p)"] p(1,2) by auto
  have "heir_ok T (Scheduler_priority_Schedule_body t force s) rq"
    using q p heir unfolding Scheduler_priority_Schedule_body_def Scheduler_Update_heir_def first heir_ok_def Let_def by auto
  then show ?thesis using base by (simp add: sched_inv_def Scheduler_priority_Schedule_body_def Let_def sched_base_Update_heir)
qed

text \<open>A change of the thread state, before the queues follow.\<close>

lemma enqueue_frame:
  "threads (Scheduler_priority_Ready_queue_enqueue t s) = threads s" "Thread_Heir (Scheduler_priority_Ready_queue_enqueue t s) = Thread_Heir s"
  "Thread_Executing (Scheduler_priority_Ready_queue_enqueue t s) = Thread_Executing s"
  "threads (Scheduler_priority_Ready_queue_enqueue_first t s) = threads s" "Thread_Heir (Scheduler_priority_Ready_queue_enqueue_first t s) = Thread_Heir s"
  "Thread_Executing (Scheduler_priority_Ready_queue_enqueue_first t s) = Thread_Executing s"
  "threads (Scheduler_priority_Ready_queue_extract t s) = threads s" "Thread_Heir (Scheduler_priority_Ready_queue_extract t s) = Thread_Heir s"
  "Thread_Executing (Scheduler_priority_Ready_queue_extract t s) = Thread_Executing s"
  "PRIORITY_MAXIMUM (Scheduler_priority_Ready_queue_extract t s) = PRIORITY_MAXIMUM s"
  by (simp_all add: Scheduler_priority_Ready_queue_enqueue_def Scheduler_priority_Ready_queue_enqueue_first_def Scheduler_priority_Ready_queue_extract_def Let_def)

lemma sched_rep_state:
  "sched_rep (upd_thread t (\<lambda>c. c\<lparr>current_state := x\<rparr>) s) T lev rq = sched_rep s T lev rq"
  by (rule sched_rep_cong) (simp_all add: upd_thread_def)

lemma or_nonzero: "(x :: uint32) \<noteq> 0 \<Longrightarrow> y OR x \<noteq> 0"
  by (metis or_eq_0_iff)

lemma Thread_Set_state_inv:
  assumes inv: "sched_inv T s rq" and t: "t \<in> T" and st: "state \<noteq> 0" and u: "u \<in> T" "u \<noteq> t" "is_ready s u"
  shows "sched_inv T (fst (Thread_Set_state t state s)) (rq(prio s t := remove1 t (rq (prio s t))))"
proof -
  note I = sched_invD [OF inv]
  define s1 where "s1 = upd_thread t (\<lambda>c. c\<lparr>current_state := States_Set state (current_state (threads s t))\<rparr>) s"
  define rq' where "rq' = rq(prio s t := remove1 t (rq (prio s t)))"
  have th: "threads s1 = (threads s)(t := (threads s t)\<lparr>current_state := States_Set state (current_state (threads s t))\<rparr>)"
    and fr: "Thread_Heir s1 = Thread_Heir s" "Thread_Executing s1 = Thread_Executing s" "prio s1 v = prio s v" for v by (simp_all add: s1_def upd_thread_def)
  have nr: "\<not> is_ready s1 t" using st by (simp add: th States_Set_def or_nonzero)
  have rep: "sched_rep s1 T (prio s) rq" using I(3) sched_rep_state by (simp add: s1_def)
  have dis: "distinct (rq (prio s t))" using queues_at(2) [OF sched_repD(1) sched_repD(4)] I(3) t by blast
  show ?thesis
  proof (cases "is_ready s t")
    case False
    then have "t \<notin> set (rq (prio s t))" using I(7) t by simp
    then have "rq' = rq" by (simp add: rq'_def remove1_idem)
    moreover have "sched_inv T s1 rq" using rep nr I False fr by (auto simp: sched_inv_def sched_base_def heir_ok_def Let_def th)
    ultimately show ?thesis using False by (simp add: Thread_Set_state_def Let_def s1_def States_Is_ready_def rq'_def)
  next
    case True
    define s2 where "s2 = Scheduler_priority_Ready_queue_extract t s1"
    have q: "t \<in> set (rq (prio s t))" using True I(7) t by simp
    have rep2: "sched_rep s2 T (prio s2) rq'" using sched_rep_extract [OF rep t q] fr(3) by (simp add: s2_def enqueue_frame rq'_def)
    have mem: "v \<in> set (rq' (prio s v)) \<longleftrightarrow> v \<noteq> t \<and> v \<in> set (rq (prio s v))" for v using dis by (auto simp: rq'_def)
    have base: "sched_base T s2 rq'" using rep2 mem nr I(4,7) fr t
      by (auto simp: sched_base_def s2_def enqueue_frame th)
    have eq: "fst (Thread_Set_state t state s) = (if t = Thread_Executing s2 \<or> t = Thread_Heir s2 then Scheduler_priority_Schedule_body t True s2 else s2)"
      using True by (simp add: Thread_Set_state_def Let_def States_Is_ready_def Scheduler_priority_Block_def Scheduler_Generic_block_def
          Scheduler_priority_Extract_body_def s2_def s1_def)
    show ?thesis
    proof (cases "t = Thread_Executing s2 \<or> t = Thread_Heir s2")
      case True
      have "is_ready s2 u" using u by (simp add: s2_def enqueue_frame th)
      then show ?thesis using Schedule_body_inv [OF base u(1), of True t] True eq by (simp add: rq'_def)
    next
      case False
      have "hd (remove1 t xs) = hd xs" if "hd xs \<noteq> t" for xs :: "addr list" using that by (cases xs) auto
      then have "heir_ok T s2 rq'" using I(2) False fr unfolding heir_ok_def Let_def
        by (auto simp: s2_def enqueue_frame th rq'_def)
      then show ?thesis using base False eq by (simp add: sched_inv_def rq'_def)
    qed
  qed
qed

lemma Thread_Clear_state_inv:
  assumes inv: "sched_inv T s rq" and t: "t \<in> T"
  defines "old \<equiv> current_state (threads s t)"
  shows "sched_inv T (fst (Thread_Clear_state t state s))
    (if old AND state \<noteq> 0 \<and> old AND NOT state = 0 then rq(prio s t := rq (prio s t) @ [t]) else rq)"
proof (cases "old AND state \<noteq> 0")
  case False
  then show ?thesis using inv by (simp add: Thread_Clear_state_def Let_def old_def)
next
  case True
  note I = sched_invD [OF inv]
  define s1 where "s1 = upd_thread t (\<lambda>c. c\<lparr>current_state := States_Clear state old\<rparr>) s"
  have th: "threads s1 = (threads s)(t := (threads s t)\<lparr>current_state := States_Clear state old\<rparr>)"
    and fr: "Thread_Heir s1 = Thread_Heir s" "Thread_Executing s1 = Thread_Executing s" "prio s1 v = prio s v" for v by (simp_all add: s1_def upd_thread_def)
  have "old \<noteq> 0" using True by auto
  then have nr: "\<not> is_ready s t" by (simp add: old_def)
  then have nq: "t \<notin> set (rq (prio s t))" using I(7) t by simp
  have rep: "sched_rep s1 T (prio s) rq" using I(3) sched_rep_state by (simp add: s1_def)
  have heir: "Thread_Heir s \<noteq> t" using nr I(6) by auto
  show ?thesis
  proof (cases "old AND NOT state = 0")
    case False
    then have "sched_inv T s1 rq" using rep nr I fr heir by (auto simp: sched_inv_def sched_base_def heir_ok_def Let_def th States_Clear_def)
    then show ?thesis using False True by (simp add: Thread_Clear_state_def Let_def s1_def States_Is_ready_def old_def [symmetric] States_Clear_def)
  next
    case ready: True
    define s2 where "s2 = Scheduler_priority_Ready_queue_enqueue t s1"
    define rq' where "rq' = rq(prio s t := rq (prio s t) @ [t])"
    have rep2: "sched_rep s2 T (prio s2) rq'" using sched_rep_enqueue(1) [OF rep t nq] fr(3) by (simp add: s2_def enqueue_frame rq'_def)
    have lim: "prio s t \<le> PRIORITY_MAXIMUM s" using sched_repD(4) [OF I(3) t] .
    have base: "sched_base T s2 rq'"
    proof -
      have "v \<in> set (rq' (prio s v)) \<longleftrightarrow> v = t \<or> v \<in> set (rq (prio s v))" if "v \<in> T" for v by (auto simp: rq'_def)
      then show ?thesis using rep2 I(4,7) fr ready by (auto simp: sched_base_def s2_def enqueue_frame th States_Clear_def)
    qed
    have eq: "fst (Thread_Clear_state t state s) = (if prio s t < prio s (Thread_Heir s) then Scheduler_Update_heir t (prio s t = PRIORITY_PSEUDO_ISR) s2 else s2)"
    proof -
      have "fst (Thread_Clear_state t state s) = Scheduler_priority_Unblock t s1"
        using True ready by (simp add: Thread_Clear_state_def Let_def s1_def States_Is_ready_def States_Clear_def old_def)
      then show ?thesis by (simp add: Scheduler_priority_Unblock_def Let_def enqueue_frame fr s2_def)
    qed
    have hd': "hd (rq' p) = (if p = prio s t \<and> rq p = [] then t else hd (rq p))" for p by (simp add: rq'_def hd_append)
    have "rq (prio s (Thread_Heir s)) \<noteq> []" using I(7) [OF I(5)] I(6) by auto
    then have "heir_ok T (fst (Thread_Clear_state t state s)) rq'"
      unfolding eq heir_ok_def Scheduler_Update_heir_def Let_def s2_def enqueue_frame fr th
      using I(2,5,6) t heir ready hd' by (auto simp: heir_ok_def Let_def s2_def enqueue_frame th fr rq'_def States_Clear_def)
    moreover have "sched_base T (fst (Thread_Clear_state t state s)) rq'" unfolding eq using base by (simp add: sched_base_Update_heir)
    ultimately show ?thesis using True ready by (simp add: sched_inv_def rq'_def)
  qed
qed

lemma update_frame:
  "threads (Scheduler_priority_Ready_queue_update t p s) =
     (threads s)(t := (threads s t)\<lparr>ready_chain := Ready_at s p, Priority_map := Priority_bit_map_Initialize_information p\<rparr>)"
  "Thread_Heir (Scheduler_priority_Ready_queue_update t p s) = Thread_Heir s"
  "Thread_Executing (Scheduler_priority_Ready_queue_update t p s) = Thread_Executing s"
  "PRIORITY_MAXIMUM (Scheduler_priority_Ready_queue_update t p s) = PRIORITY_MAXIMUM s"
  by (simp_all add: Scheduler_priority_Ready_queue_update_def upd_thread_def)

lemma Thread_Yield_inv:
  assumes inv: "sched_inv T s rq" and t: "t \<in> T"
  shows "sched_inv T (Thread_Yield t s) (if is_ready s t then rq(prio s t := remove1 t (rq (prio s t)) @ [t]) else rq)"
proof (cases "is_ready s t")
  case True
  note I = sched_invD [OF inv] and D = sched_repD [OF sched_invD(3) [OF inv]]
  note Q = queues_at [OF D(1) D(4) [OF t]]
  define rq' where "rq' = rq(prio s t := remove1 t (rq (prio s t)) @ [t])"
  have q: "t \<in> set (rq (prio s t))" using I(7) t True by simp
  define s1 where "s1 = s\<lparr>ready_mem := (if length (rq (prio s t)) = 1 then ready_mem s
      else Chain_Append (Chain_Extract (ready_mem s) t) (Ready_at s (prio s t)) t)\<rparr>"
  have "sched_rep s1 T (prio s) rq'"
  proof (cases "length (rq (prio s t)) = 1")
    case True
    then have "rq (prio s t) = [t]" using q by (cases "rq (prio s t)") auto
    then have "rq' = rq" by (auto simp: rq'_def)
    then show ?thesis using I(3) True by (simp add: s1_def)
  next
    case False
    let ?s = "s\<lparr>ready_mem := Chain_Extract (ready_mem s) t\<rparr>" and ?rq = "rq(prio s t := remove1 t (rq (prio s t)))"
    have qs: "queues ?s T ?rq" by (rule queues_extract [OF D(1) D(4) [OF t] q])
    have "t \<notin> set (?rq p)" if "p \<le> PRIORITY_MAXIMUM s" for p
      using D(7) [OF that, of t] Q(2) by (cases "p = prio s t") auto
    then have "queues (?s\<lparr>ready_mem := Chain_Append (ready_mem ?s) (Ready_at ?s (prio s t)) t\<rparr>) T (?rq(prio s t := ?rq (prio s t) @ [t]))"
      by (intro queues_append [OF qs _ t]) (use D(4) [OF t] in auto)
    then have qs': "queues s1 T rq'" using False by (simp add: s1_def rq'_def)
    have "rq' p = [] \<longleftrightarrow> rq p = []" for p using q by (auto simp: rq'_def)
    moreover have "set (rq' p) = set (rq p)" for p using q Q(2) by (auto simp: rq'_def)
    ultimately show ?thesis using qs' D(3-7) by (intro sched_repI) (simp_all add: s1_def)
  qed
  moreover have "set (rq' p) = set (rq p)" for p using q Q(2) by (auto simp: rq'_def)
  ultimately have "sched_base T s1 rq'" using I(4,7) by (simp add: sched_base_def s1_def)
  moreover have "Thread_Yield t s = Scheduler_priority_Schedule_body t True s1"
    using True D(5) [OF t] Chain_Has_only_one_node_rep [OF Q(1)]
    by (simp add: Thread_Yield_def States_Is_ready_def Scheduler_priority_Yield_def Let_def s1_def)
  ultimately show ?thesis using Schedule_body_inv [of T s1 rq' t True t] t True by (simp add: s1_def rq'_def)
qed (use inv in \<open>simp add: Thread_Yield_def States_Is_ready_def\<close>)

text \<open>The new priority is already in the thread control block; the scheduler node still has the old one.\<close>

lemma Scheduler_priority_Change_priority_inv:
  assumes rep: "sched_rep s T lev rq" and rdy: "\<forall>u \<in> T. u \<in> set (rq (lev u)) \<longleftrightarrow> is_ready s u" and ex: "Thread_Executing s \<in> T"
    and t: "t \<in> T" "is_ready s t" and p: "p \<le> PRIORITY_MAXIMUM s" "\<And>u. prio s u = (lev(t := p)) u"
    and heir: "Thread_Heir s \<in> T" "is_ready s (Thread_Heir s)"
  defines "rq1 \<equiv> rq(lev t := remove1 t (rq (lev t)))"
  shows "sched_inv T (Scheduler_priority_Change_priority t p prepend_it s) (rq1(p := if prepend_it then t # rq1 p else rq1 p @ [t]))"
proof -
  define s1 where "s1 = Scheduler_priority_Ready_queue_extract t s"
  define s2 where "s2 = Scheduler_priority_Ready_queue_update t p s1"
  define s3 where "s3 = (if prepend_it then Scheduler_priority_Ready_queue_enqueue_first t s2 else Scheduler_priority_Ready_queue_enqueue t s2)"
  define rq3 where "rq3 = rq1(p := if prepend_it then t # rq1 p else rq1 p @ [t])"
  have q: "t \<in> set (rq (lev t))" using rdy t by blast
  have rep1: "sched_rep s1 T lev rq1" using sched_rep_extract [OF rep t(1) q] by (simp add: s1_def rq1_def)
  have "distinct (rq (lev t))" by (rule queues_at(2) [OF sched_repD(1) [OF rep] sched_repD(4) [OF rep t(1)]])
  then have nq: "t \<notin> set (rq1 (lev t))" by (simp add: rq1_def)
  have rep2: "sched_rep s2 T (lev(t := p)) rq1" using sched_rep_update [OF rep1 t(1) nq] p(1) by (simp add: s2_def s1_def enqueue_frame)
  have nq2: "t \<notin> set (rq1 p)" using sched_not_queued [OF rep1 nq] p(1) by (simp add: s1_def enqueue_frame)
  then have rep3: "sched_rep s3 T (lev(t := p)) rq3" using sched_rep_enqueue [OF rep2 t(1)] by (simp add: s3_def rq3_def)
  have th: "threads s3 u = (if u = t then (threads s t)\<lparr>ready_chain := Ready_at s1 p, Priority_map := Priority_bit_map_Initialize_information p\<rparr> else threads s u)"
    and fr: "Thread_Heir s3 = Thread_Heir s" "Thread_Executing s3 = Thread_Executing s" for u
    by (simp_all add: s3_def s2_def s1_def enqueue_frame update_frame)
  have pr: "prio s3 u = (lev(t := p)) u" for u using p(2) [of u] p(2) [of t] by (simp add: th)
  have "u \<in> set (rq3 ((lev(t := p)) u)) \<longleftrightarrow> u = t \<or> u \<in> set (rq (lev u))" for u
    using nq nq2 by (auto simp: rq3_def rq1_def)
  then have "\<forall>u \<in> T. u \<in> set (rq3 (prio s3 u)) \<longleftrightarrow> is_ready s3 u" using rdy t(2) unfolding pr by (auto simp: th)
  moreover have "sched_rep s3 T (\<lambda>u. prio s3 u) rq3" using rep3 unfolding pr .
  ultimately have "sched_base T s3 rq3" using ex fr by (simp add: sched_base_def)
  moreover have "Scheduler_priority_Change_priority t p prepend_it s = Scheduler_priority_Schedule_body t False s3"
    by (simp add: Scheduler_priority_Change_priority_def s3_def s2_def s1_def Let_def)
  ultimately show ?thesis using Schedule_body_inv [of T s3 rq3 t False t] t heir fr by (simp add: th rq3_def)
qed

lemma sched_inv_budget: "sched_inv T (upd_thread t (\<lambda>c. c\<lparr>cpu_time_budget := x\<rparr>) s) rq = sched_inv T s rq"
proof -
  let ?s = "upd_thread t (\<lambda>c. c\<lparr>cpu_time_budget := x\<rparr>) s"
  have "current_priority (threads ?s u) = prio s u" "current_state (threads ?s u) = current_state (threads s u)"
    "is_preemptible (threads ?s u) = is_preemptible (threads s u)" for u by (simp_all add: upd_thread_def)
  moreover have "sched_rep ?s T lev rq = sched_rep s T lev rq" for lev by (rule sched_rep_cong) (simp_all add: upd_thread_def)
  moreover have "Thread_Heir ?s = Thread_Heir s" "Thread_Executing ?s = Thread_Executing s" by (simp_all add: upd_thread_def)
  ultimately show ?thesis by (simp add: sched_inv_def sched_base_def heir_ok_def)
qed

lemma Scheduler_default_Tick_inv:
  assumes inv: "sched_inv T s rq" and t: "t \<in> T" and callout: "\<And>s rq. sched_inv T s rq \<Longrightarrow> \<exists>rq. sched_inv T (callout t s) rq"
  shows "\<exists>rq. sched_inv T (Scheduler_default_Tick callout t s) rq"
proof -
  define s1 where "s1 = upd_thread t (\<lambda>c. c\<lparr>cpu_time_budget := cpu_time_budget c - 1\<rparr>) s"
  have "s1 = upd_thread t (\<lambda>c. c\<lparr>cpu_time_budget := cpu_time_budget (threads s t) - 1\<rparr>) s" by (simp add: s1_def upd_thread_def)
  then have i1: "sched_inv T s1 rq" using inv by (simp add: sched_inv_budget)
  obtain rq1 where "sched_inv T (Thread_Yield t s1) rq1" using Thread_Yield_inv [OF i1 t] by blast
  then have "sched_inv T (upd_thread t (\<lambda>c. c\<lparr>cpu_time_budget := ticks_per_timeslice (Thread_Yield t s1)\<rparr>) (Thread_Yield t s1)) rq1"
    by (simp add: sched_inv_budget)
  then show ?thesis using inv i1 callout [OF i1]
    by (cases "budget_algorithm (threads s t)") (auto simp: Scheduler_default_Tick_def Let_def s1_def)
qed

lemma sched_inv_dispatch:
  assumes "sched_inv T s rq" "h = Thread_Executing s \<or> h = Thread_Heir s"
  shows "sched_inv T (s\<lparr>Thread_Dispatch_necessary := n, Thread_Executing := h, Thread_Dispatch_disable_level := l\<rparr>) rq"
proof -
  let ?s = "s\<lparr>Thread_Dispatch_necessary := n, Thread_Executing := h, Thread_Dispatch_disable_level := l\<rparr>"
  have "sched_rep ?s T lev rq = sched_rep s T lev rq" for lev by (rule sched_rep_cong) simp_all
  then show ?thesis using assms sched_invD(4,5) [OF assms(1)] by (auto simp: sched_inv_def sched_base_def heir_ok_def)
qed

lemma sched_inv_level [simp]: "sched_inv T (s\<lparr>Thread_Dispatch_disable_level := l\<rparr>) rq = sched_inv T s rq"
proof -
  have "sched_rep (s\<lparr>Thread_Dispatch_disable_level := l\<rparr>) T lev rq = sched_rep s T lev rq" for lev by (rule sched_rep_cong) simp_all
  then show ?thesis by (simp add: sched_inv_def sched_base_def heir_ok_def)
qed

lemma Thread_Do_dispatch_inv:
  assumes "sched_inv T s rq"
  shows "sched_inv T (Thread_Do_dispatch s) rq"
proof -
  let ?s = "s\<lparr>Thread_Dispatch_necessary := False, Thread_Executing := Thread_Heir s\<rparr>"
  have "sched_inv T (?s\<lparr>Thread_Dispatch_disable_level := Thread_Dispatch_disable_level s\<rparr>) rq" by (rule sched_inv_dispatch [OF assms]) simp
  then have "sched_inv T ?s rq" by simp
  then show ?thesis by (simp add: Thread_Do_dispatch_def Thread_Get_heir_and_make_it_executing_def Let_def sched_inv_budget)
qed

lemma Thread_Dispatch_enable_inv: "sched_inv T s rq \<Longrightarrow> sched_inv T (Thread_Dispatch_enable s) rq"
  by (simp add: Thread_Dispatch_enable_def Thread_Do_dispatch_inv)

end
