(* ===== verification/Score_Watchdog.thy ===== *)
theory Score_Watchdog
  imports Score_Chain
begin

text \<open>
  The watchdog handler of the SuperCore (\<^verbatim>\<open>src/librtems/score/watchdog\<close> with the inline routines of
  \<^verbatim>\<open>src/include/rtems/score/watchdogimpl.h\<close>): delta chains of timers, one counted in ticks and one in
  seconds. A watchdog on a chain stores its distance to its predecessor, so a tick decrements only the
  first one. An insertion walks the chain and opens an interrupt window (\<open>_Watchdog_Flash\<close>) at every
  watchdog it passes; while it waits there its progress is in an iterator that removals and other
  insertions correct.

  Chains are the lists of their nodes (justified in \<open>Score_Chain\<close>). What runs in an interrupt window and
  what a service routine does are parameters of the operations that call them. The locks are the
  disabling of interrupts on one processor and have no state.
\<close>

subsection \<open>State\<close>

datatype Watchdog_States = WATCHDOG_INACTIVE | WATCHDOG_BEING_INSERTED | WATCHDOG_ACTIVE

type_synonym Watchdog_Interval = uint32
type_synonym wid = uint32
type_synonym iid = nat

record Watchdog_Control =
  wd_state :: Watchdog_States
  initial :: Watchdog_Interval
  delta_interval :: Watchdog_Interval
  start_time :: Watchdog_Interval
  stop_time :: Watchdog_Interval
  routine :: addr
  wd_id :: uint32
  user_data :: addr

record Watchdog_Iterator =
  it_delta_interval :: Watchdog_Interval
  current :: "wid chain_pos"

record Watchdog_Header =
  Watchdogs :: "wid list"
  Iterators :: "iid list"

datatype header_id = Ticks_header | Seconds_header

text \<open>The state of the handler: the two headers, the watchdogs and iterators they refer to by address,
  and in \<open>world\<close> everything else service routines may change.\<close>

record 'x Watchdog_Handler =
  Ticks_since_boot :: Watchdog_Interval
  headers :: "header_id \<Rightarrow> Watchdog_Header"
  control :: "wid \<Rightarrow> Watchdog_Control"
  iterator :: "iid \<Rightarrow> Watchdog_Iterator"
  world :: 'x

abbreviation chain_of :: "'x Watchdog_Handler \<Rightarrow> header_id \<Rightarrow> wid list" where
  "chain_of s h \<equiv> Watchdogs (headers s h)"

abbreviation iterators_of :: "'x Watchdog_Handler \<Rightarrow> header_id \<Rightarrow> iid list" where
  "iterators_of s h \<equiv> Iterators (headers s h)"

definition upd_control :: "'x Watchdog_Handler \<Rightarrow> wid \<Rightarrow> (Watchdog_Control \<Rightarrow> Watchdog_Control) \<Rightarrow> 'x Watchdog_Handler" where
  [simp]: "upd_control s w f = s\<lparr>control := (control s)(w := f (control s w))\<rparr>"

definition upd_iterator :: "'x Watchdog_Handler \<Rightarrow> iid \<Rightarrow> (Watchdog_Iterator \<Rightarrow> Watchdog_Iterator) \<Rightarrow> 'x Watchdog_Handler" where
  [simp]: "upd_iterator s i f = s\<lparr>iterator := (iterator s)(i := f (iterator s i))\<rparr>"

definition upd_header :: "'x Watchdog_Handler \<Rightarrow> header_id \<Rightarrow> (Watchdog_Header \<Rightarrow> Watchdog_Header) \<Rightarrow> 'x Watchdog_Handler" where
  [simp]: "upd_header s h f = s\<lparr>headers := (headers s)(h := f (headers s h))\<rparr>"

subsection \<open>Operations\<close>

definition Watchdog_Handler_initialization :: "'x Watchdog_Handler \<Rightarrow> 'x Watchdog_Handler" where
  "Watchdog_Handler_initialization s =
     (let s = s\<lparr>Ticks_since_boot := 0\<rparr>;
          s = upd_header s Ticks_header (\<lambda>_. \<lparr>Watchdogs = [], Iterators = []\<rparr>)
      in upd_header s Seconds_header (\<lambda>_. \<lparr>Watchdogs = [], Iterators = []\<rparr>))"

definition Watchdog_Initialize :: "'x Watchdog_Handler \<Rightarrow> wid \<Rightarrow> addr \<Rightarrow> uint32 \<Rightarrow> addr \<Rightarrow> 'x Watchdog_Handler" where
  "Watchdog_Initialize s w r i u = upd_control s w (\<lambda>c. c\<lparr>routine := r, wd_id := i, user_data := u\<rparr>)"

primrec Watchdog_Insert_fixup_iterators ::
  "iid list \<Rightarrow> wid \<Rightarrow> wid \<Rightarrow> 'x Watchdog_Handler \<Rightarrow> 'x Watchdog_Handler" where
  "Watchdog_Insert_fixup_iterators [] w next_watchdog s = s"
| "Watchdog_Insert_fixup_iterators (i # is) w next_watchdog s =
     Watchdog_Insert_fixup_iterators is w next_watchdog
       (if current (iterator s i) = Node next_watchdog
        then upd_iterator s i (\<lambda>it. it\<lparr>current := Node w\<rparr>) else s)"

definition Watchdog_Insert_fixup ::
  "'x Watchdog_Handler \<Rightarrow> header_id \<Rightarrow> wid \<Rightarrow> Watchdog_Interval \<Rightarrow> wid \<Rightarrow> Watchdog_Interval \<Rightarrow> 'x Watchdog_Handler" where
  "Watchdog_Insert_fixup s h w delta next_watchdog delta_next =
     (let s = upd_control s next_watchdog (\<lambda>c. c\<lparr>delta_interval := delta_next - delta\<rparr>)
      in Watchdog_Insert_fixup_iterators (iterators_of s h) w next_watchdog s)"

text \<open>One turn of the search loop of \<open>_Watchdog_Insert_locked\<close>: \<open>Inl\<close> when the place is found, \<open>Inr\<close> when
  the loop has passed one more watchdog and is about to open the interrupt window.\<close>

definition Watchdog_Insert_step ::
  "header_id \<Rightarrow> wid \<Rightarrow> iid \<Rightarrow> 'x Watchdog_Handler \<Rightarrow> wid chain_pos \<Rightarrow> Watchdog_Interval
     \<Rightarrow> 'x Watchdog_Handler + 'x Watchdog_Handler" where
  "Watchdog_Insert_step h w it s cur delta =
     (case chain_next (chain_of s h) cur of
        Node next_watchdog \<Rightarrow>
          let delta_next = delta_interval (control s next_watchdog) in
          if delta < delta_next
          then Inl (Watchdog_Insert_fixup s h w delta next_watchdog delta_next)
          else Inr (upd_iterator s it (\<lambda>i. i\<lparr>it_delta_interval := delta - delta_next, current := Node next_watchdog\<rparr>))
      | _ \<Rightarrow> Inl s)"

definition Watchdog_Insert_link ::
  "header_id \<Rightarrow> wid \<Rightarrow> 'x Watchdog_Handler \<Rightarrow> wid chain_pos \<Rightarrow> Watchdog_Interval \<Rightarrow> 'x Watchdog_Handler" where
  "Watchdog_Insert_link h w s cur delta =
     (let s = upd_control s w (\<lambda>c. c\<lparr>delta_interval := delta\<rparr>);
          s = upd_control s w (\<lambda>c. c\<lparr>start_time := Ticks_since_boot s\<rparr>);
          s = upd_control s w (\<lambda>c. c\<lparr>wd_state := WATCHDOG_ACTIVE\<rparr>)
      in upd_header s h (\<lambda>hd. hd\<lparr>Watchdogs := chain_insert_after (Watchdogs hd) cur w\<rparr>))"

partial_function (option) Watchdog_Insert_loop ::
  "('x Watchdog_Handler \<Rightarrow> 'x Watchdog_Handler) \<Rightarrow> header_id \<Rightarrow> wid \<Rightarrow> iid \<Rightarrow> 'x Watchdog_Handler
     \<Rightarrow> wid chain_pos \<Rightarrow> Watchdog_Interval \<Rightarrow> 'x Watchdog_Handler option" where
  "Watchdog_Insert_loop flash h w it s cur delta =
     (case Watchdog_Insert_step h w it s cur delta of
        Inl s \<Rightarrow> Some (Watchdog_Insert_link h w s cur delta)
      | Inr s \<Rightarrow>
          let s = flash s in
          if wd_state (control s w) \<noteq> WATCHDOG_BEING_INSERTED then Some s
          else Watchdog_Insert_loop flash h w it s
                 (current (iterator s it)) (it_delta_interval (iterator s it)))"

text \<open>\<open>flash\<close> is what runs in the interrupt windows, \<open>it\<close> the address of the local iterator.\<close>

definition Watchdog_Insert_locked ::
  "('x Watchdog_Handler \<Rightarrow> 'x Watchdog_Handler) \<Rightarrow> iid \<Rightarrow> 'x Watchdog_Handler \<Rightarrow> header_id \<Rightarrow> wid
     \<Rightarrow> 'x Watchdog_Handler option" where
  "Watchdog_Insert_locked flash it s h w =
     (if wd_state (control s w) = WATCHDOG_INACTIVE
      then let s = upd_control s w (\<lambda>c. c\<lparr>wd_state := WATCHDOG_BEING_INSERTED\<rparr>);
               s = upd_header s h (\<lambda>hd. hd\<lparr>Iterators := Iterators hd @ [it]\<rparr>)
           in case Watchdog_Insert_loop flash h w it s Head (initial (control s w)) of
                None \<Rightarrow> None
              | Some s \<Rightarrow> Some (upd_header s h (\<lambda>hd. hd\<lparr>Iterators := remove1 it (Iterators hd)\<rparr>))
      else Some s)"

definition Watchdog_Insert ::
  "('x Watchdog_Handler \<Rightarrow> 'x Watchdog_Handler) \<Rightarrow> iid \<Rightarrow> 'x Watchdog_Handler \<Rightarrow> header_id \<Rightarrow> wid
     \<Rightarrow> 'x Watchdog_Handler option" where
  "Watchdog_Insert flash it s h w = Watchdog_Insert_locked flash it s h w"

definition Watchdog_Insert_ticks ::
  "('x Watchdog_Handler \<Rightarrow> 'x Watchdog_Handler) \<Rightarrow> iid \<Rightarrow> 'x Watchdog_Handler \<Rightarrow> wid \<Rightarrow> Watchdog_Interval
     \<Rightarrow> 'x Watchdog_Handler option" where
  "Watchdog_Insert_ticks flash it s w units =
     Watchdog_Insert flash it (upd_control s w (\<lambda>c. c\<lparr>initial := units\<rparr>)) Ticks_header w"

definition Watchdog_Insert_seconds ::
  "('x Watchdog_Handler \<Rightarrow> 'x Watchdog_Handler) \<Rightarrow> iid \<Rightarrow> 'x Watchdog_Handler \<Rightarrow> wid \<Rightarrow> Watchdog_Interval
     \<Rightarrow> 'x Watchdog_Handler option" where
  "Watchdog_Insert_seconds flash it s w units =
     Watchdog_Insert flash it (upd_control s w (\<lambda>c. c\<lparr>initial := units\<rparr>)) Seconds_header w"

text \<open>\<open>nxt\<close> and \<open>prev\<close> are the neighbours of the removed watchdog, read before and after the extraction:
  \<open>_Chain_Extract_unprotected\<close> leaves the links of the extracted node as they were.\<close>

primrec Watchdog_Remove_it_iterators ::
  "iid list \<Rightarrow> wid \<Rightarrow> wid chain_pos \<Rightarrow> wid chain_pos \<Rightarrow> Watchdog_Interval \<Rightarrow> 'x Watchdog_Handler \<Rightarrow> 'x Watchdog_Handler" where
  "Watchdog_Remove_it_iterators [] w nxt prev delta s = s"
| "Watchdog_Remove_it_iterators (i # is) w nxt prev delta s =
     (let s = (if current (iterator s i) = nxt
               then upd_iterator s i (\<lambda>it. it\<lparr>it_delta_interval := it_delta_interval it + delta\<rparr>) else s);
          s = (if current (iterator s i) = Node w
               then let s = upd_iterator s i (\<lambda>it. it\<lparr>current := prev\<rparr>) in
                    case prev of
                      Node previous_watchdog \<Rightarrow>
                        upd_iterator s i (\<lambda>it. it\<lparr>it_delta_interval :=
                          it_delta_interval it + delta_interval (control s previous_watchdog)\<rparr>)
                    | _ \<Rightarrow> s
               else s)
      in Watchdog_Remove_it_iterators is w nxt prev delta s)"

definition Watchdog_Remove_it :: "'x Watchdog_Handler \<Rightarrow> header_id \<Rightarrow> wid \<Rightarrow> 'x Watchdog_Handler" where
  "Watchdog_Remove_it s h w =
     (let s = upd_control s w (\<lambda>c. c\<lparr>wd_state := WATCHDOG_INACTIVE\<rparr>);
          s = upd_control s w (\<lambda>c. c\<lparr>stop_time := Ticks_since_boot s\<rparr>);
          nxt = chain_next (chain_of s h) (Node w);
          prev = chain_previous (chain_of s h) (Node w);
          delta = delta_interval (control s w);
          s = (case nxt of
                 Node next_watchdog \<Rightarrow> upd_control s next_watchdog (\<lambda>c. c\<lparr>delta_interval := delta_interval c + delta\<rparr>)
               | _ \<Rightarrow> s);
          s = upd_header s h (\<lambda>hd. hd\<lparr>Watchdogs := remove1 w (Watchdogs hd)\<rparr>)
      in Watchdog_Remove_it_iterators (iterators_of s h) w nxt prev delta s)"

definition Watchdog_Remove :: "'x Watchdog_Handler \<Rightarrow> header_id \<Rightarrow> wid \<Rightarrow> 'x Watchdog_Handler \<times> Watchdog_States" where
  "Watchdog_Remove s h w =
     (let previous_state = wd_state (control s w) in
      ((case previous_state of
          WATCHDOG_INACTIVE \<Rightarrow> s
        | WATCHDOG_BEING_INSERTED \<Rightarrow>
            let s = upd_control s w (\<lambda>c. c\<lparr>wd_state := WATCHDOG_INACTIVE\<rparr>);
                now = Ticks_since_boot s;
                s = upd_control s w (\<lambda>c. c\<lparr>start_time := now\<rparr>)
            in upd_control s w (\<lambda>c. c\<lparr>stop_time := now\<rparr>)
        | WATCHDOG_ACTIVE \<Rightarrow> Watchdog_Remove_it s h w),
       previous_state))"

definition Watchdog_Reset_ticks ::
  "('x Watchdog_Handler \<Rightarrow> 'x Watchdog_Handler) \<Rightarrow> iid \<Rightarrow> 'x Watchdog_Handler \<Rightarrow> wid \<Rightarrow> 'x Watchdog_Handler option" where
  "Watchdog_Reset_ticks flash it s w =
     Watchdog_Insert flash it (fst (Watchdog_Remove s Ticks_header w)) Ticks_header w"

text \<open>\<open>svc\<close> stands for the service routines: the routine at an address, called with an id and user data.
  The loop of \<open>_Watchdog_Tickle\<close> is entered with a \<open>first\<close> watchdog whose delta interval is zero.\<close>

type_synonym 'x service = "addr \<Rightarrow> uint32 \<Rightarrow> addr \<Rightarrow> 'x Watchdog_Handler \<Rightarrow> 'x Watchdog_Handler"

partial_function (option) Watchdog_Tickle_loop ::
  "'x service \<Rightarrow> header_id \<Rightarrow> wid \<Rightarrow> 'x Watchdog_Handler \<Rightarrow> 'x Watchdog_Handler option" where
  "Watchdog_Tickle_loop svc h first s =
     (let run = (wd_state (control s first) = WATCHDOG_ACTIVE);
          s = Watchdog_Remove_it s h first;
          c = control s first;
          s = (if run then svc (routine c) (wd_id c) (user_data c) s else s)
      in case chain_of s h of
           [] \<Rightarrow> Some s
         | first # _ \<Rightarrow>
             if delta_interval (control s first) = 0 then Watchdog_Tickle_loop svc h first s else Some s)"

definition Watchdog_Tickle :: "'x service \<Rightarrow> header_id \<Rightarrow> 'x Watchdog_Handler \<Rightarrow> 'x Watchdog_Handler option" where
  "Watchdog_Tickle svc h s =
     (case chain_of s h of
        [] \<Rightarrow> Some s
      | first # _ \<Rightarrow>
          let delta = delta_interval (control s first);
              (delta, s) = (if delta > 0
                            then (delta - 1, upd_control s first (\<lambda>c. c\<lparr>delta_interval := delta - 1\<rparr>))
                            else (delta, s))
          in if delta = 0 then Watchdog_Tickle_loop svc h first s else Some s)"

definition Watchdog_Adjust_backward_locked :: "'x Watchdog_Handler \<Rightarrow> header_id \<Rightarrow> Watchdog_Interval \<Rightarrow> 'x Watchdog_Handler" where
  "Watchdog_Adjust_backward_locked s h units =
     (case chain_of s h of
        [] \<Rightarrow> s
      | first # _ \<Rightarrow> upd_control s first (\<lambda>c. c\<lparr>delta_interval := delta_interval c + units\<rparr>))"

definition Watchdog_Adjust_backward :: "'x Watchdog_Handler \<Rightarrow> header_id \<Rightarrow> Watchdog_Interval \<Rightarrow> 'x Watchdog_Handler" where
  "Watchdog_Adjust_backward s h units = Watchdog_Adjust_backward_locked s h units"

partial_function (option) Watchdog_Adjust_forward_locked ::
  "'x service \<Rightarrow> header_id \<Rightarrow> Watchdog_Interval \<Rightarrow> 'x Watchdog_Handler \<Rightarrow> 'x Watchdog_Handler option" where
  "Watchdog_Adjust_forward_locked svc h units s =
     (case chain_of s h of
        [] \<Rightarrow> Some s
      | first # _ \<Rightarrow>
          if units > 0
          then if units < delta_interval (control s first)
               then Some (upd_control s first (\<lambda>c. c\<lparr>delta_interval := delta_interval c - units\<rparr>))
               else let units = units - delta_interval (control s first);
                        s = upd_control s first (\<lambda>c. c\<lparr>delta_interval := 1\<rparr>)
                    in case Watchdog_Tickle svc h s of
                         None \<Rightarrow> None
                       | Some s \<Rightarrow> Watchdog_Adjust_forward_locked svc h units s
          else Some s)"

definition Watchdog_Adjust_forward ::
  "'x service \<Rightarrow> header_id \<Rightarrow> Watchdog_Interval \<Rightarrow> 'x Watchdog_Handler \<Rightarrow> 'x Watchdog_Handler option" where
  "Watchdog_Adjust_forward svc h units s = Watchdog_Adjust_forward_locked svc h units s"

subsection \<open>Expiry times\<close>

text \<open>The time to expiry of the watchdogs of a delta chain, and the insertion of a new time behind the
  times not later than it.\<close>

primrec expiries :: "(wid \<Rightarrow> Watchdog_Control) \<Rightarrow> nat \<Rightarrow> wid list \<Rightarrow> (wid \<times> nat) list" where
  "expiries ctl b [] = []"
| "expiries ctl b (w # ws) =
     (w, b + unat (delta_interval (ctl w))) # expiries ctl (b + unat (delta_interval (ctl w))) ws"

abbreviation expiry :: "'x Watchdog_Handler \<Rightarrow> header_id \<Rightarrow> (wid \<times> nat) list" where
  "expiry s h \<equiv> expiries (control s) 0 (chain_of s h)"

primrec timer_insert :: "wid \<Rightarrow> nat \<Rightarrow> (wid \<times> nat) list \<Rightarrow> (wid \<times> nat) list" where
  "timer_insert w t [] = [(w, t)]"
| "timer_insert w t (e # es) = (if t < snd e then (w, t) # e # es else e # timer_insert w t es)"

abbreviation shift :: "nat \<Rightarrow> (wid \<times> nat) list \<Rightarrow> (wid \<times> nat) list" where
  "shift b \<equiv> map (\<lambda>(w, t). (w, t + b))"

lemma expiries_shift: "expiries ctl (a + b) ws = shift b (expiries ctl a ws)"
proof (induction ws arbitrary: a)
  case (Cons w ws)
  have "expiries ctl (a + b + unat (delta_interval (ctl w))) ws
      = shift b (expiries ctl (a + unat (delta_interval (ctl w))) ws)"
    using Cons [of "a + unat (delta_interval (ctl w))"] by (simp add: ac_simps)
  then show ?case by (simp add: Let_def)
qed simp

lemma expiries_base: "expiries ctl b ws = shift b (expiries ctl 0 ws)"
  using expiries_shift [of ctl 0 b ws] by simp

lemma timer_insert_shift: "timer_insert w (t + b) (shift b es) = shift b (timer_insert w t es)"
  by (induction es) auto

lemma expiries_cong:
  "(\<And>w. w \<in> set ws \<Longrightarrow> delta_interval (ctl w) = delta_interval (ctl' w)) \<Longrightarrow> expiries ctl b ws = expiries ctl' b ws"
  by (induction ws arbitrary: b) (auto simp: Let_def)

lemma expiries_fst: "map fst (expiries ctl b ws) = ws"
  by (induction ws arbitrary: b) (auto simp: Let_def)

lemma expiries_filter_absent: "w \<notin> set ws \<Longrightarrow> filter (\<lambda>(v, t). v \<noteq> w) (expiries ctl b ws) = expiries ctl b ws"
  by (induction ws arbitrary: b) auto

lemma expiries_append:
  "expiries ctl b (xs @ ys) = expiries ctl b xs @ expiries ctl (last (b # map snd (expiries ctl b xs))) ys"
  by (induction xs arbitrary: b) (auto simp: Let_def)

lemma expiries_ge: "(w, t) \<in> set (expiries ctl b ws) \<Longrightarrow> b \<le> t"
  by (induction ws arbitrary: b) (fastforce simp: Let_def)+

subsection \<open>Insertion\<close>

lemma Insert_fixup_iterators_frame [simp]:
  "control (Watchdog_Insert_fixup_iterators is w n s) = control s"
  "headers (Watchdog_Insert_fixup_iterators is w n s) = headers s"
  "Ticks_since_boot (Watchdog_Insert_fixup_iterators is w n s) = Ticks_since_boot s"
  "world (Watchdog_Insert_fixup_iterators is w n s) = world s"
  by (induction "is" arbitrary: s) auto

lemma Insert_fixup_iterators_current:
  "current (iterator (Watchdog_Insert_fixup_iterators is w n s) i) \<in> {current (iterator s i), Node w}"
proof (induction "is" arbitrary: s)
  case (Cons j js)
  define t where "t = (if current (iterator s j) = Node n then upd_iterator s j (\<lambda>it. it\<lparr>current := Node w\<rparr>) else s)"
  have "current (iterator t i) \<in> {current (iterator s i), Node w}" by (simp add: t_def)
  moreover have "Watchdog_Insert_fixup_iterators (j # js) w n s = Watchdog_Insert_fixup_iterators js w n t"
    by (simp add: t_def)
  ultimately show ?case using Cons [of t] by (metis insertE insert_iff singletonD)
qed simp

definition last_pos :: "'n list \<Rightarrow> 'n chain_pos" where
  "last_pos xs = (case rev xs of [] \<Rightarrow> Head | y # _ \<Rightarrow> Node y)"

lemma last_pos_simps [simp]: "last_pos [] = Head" "last_pos (xs @ [x]) = Node x"
  by (simp_all add: last_pos_def)

lemma last_pos_next: "distinct (xs @ ys) \<Longrightarrow> chain_next (xs @ ys) (last_pos xs) = (case ys of [] \<Rightarrow> Tail | y # _ \<Rightarrow> Node y)"
  by (cases xs rule: rev_cases) (simp_all add: while_split split: list.split)

lemma last_pos_insert: "distinct (xs @ ys) \<Longrightarrow> chain_insert_after (xs @ ys) (last_pos xs) n = xs @ n # ys"
  by (cases xs rule: rev_cases) (simp_all add: while_split)

text \<open>The search without interference, from any point of the chain on. \<open>same_but\<close> says that two
  control stores differ in delta intervals only, and these only for given watchdogs.\<close>

definition same_but :: "wid set \<Rightarrow> (wid \<Rightarrow> Watchdog_Control) \<Rightarrow> (wid \<Rightarrow> Watchdog_Control) \<Rightarrow> bool" where
  "same_but W ctl ctl' \<longleftrightarrow> (\<forall>v. v \<notin> W \<longrightarrow> ctl' v = ctl v) \<and> (\<forall>v. \<exists>d. ctl' v = (ctl v)\<lparr>delta_interval := d\<rparr>)"

lemma same_but_mono: "same_but W ctl ctl' \<Longrightarrow> W \<subseteq> W' \<Longrightarrow> same_but W' ctl ctl'"
  by (auto simp: same_but_def)

lemma delta_refl: "\<exists>d. (c :: Watchdog_Control) = c\<lparr>delta_interval := d\<rparr>"
  by (intro exI [of _ "delta_interval c"]) simp

lemma same_but_refl [simp]: "same_but W ctl ctl"
  by (simp add: same_but_def delta_refl)

lemma same_but_outside: "same_but W ctl ctl' \<Longrightarrow> v \<notin> W \<Longrightarrow> ctl' v = ctl v"
  by (simp add: same_but_def)

lemma same_but_state: "same_but W ctl ctl' \<Longrightarrow> wd_state (ctl' v) = wd_state (ctl v)"
  unfolding same_but_def by (metis Watchdog_Control.select_convs(1) Watchdog_Control.surjective Watchdog_Control.update_convs(3))

lemma Watchdog_Insert_loop_correct:
  assumes "chain_of s h = xs @ ys" "distinct (xs @ ys)" "w \<notin> set (xs @ ys)"
    and "wd_state (control s w) = WATCHDOG_BEING_INSERTED"
  shows "\<exists>s' zs. Watchdog_Insert_loop (\<lambda>s. s) h w it s (last_pos xs) delta = Some s'
    \<and> headers s' = (headers s)(h := (headers s h)\<lparr>Watchdogs := xs @ zs\<rparr>)
    \<and> expiries (control s') 0 zs = timer_insert w (unat delta) (expiries (control s) 0 ys)
    \<and> wd_state (control s' w) = WATCHDOG_ACTIVE \<and> start_time (control s' w) = Ticks_since_boot s
    \<and> same_but (set ys) ((control s)(w := control s' w)) (control s')
    \<and> Ticks_since_boot s' = Ticks_since_boot s \<and> world s' = world s
    \<and> (\<forall>i. i \<noteq> it \<longrightarrow> current (iterator s' i) \<in> {current (iterator s i), Node w})"
  using assms
proof (induction ys arbitrary: s xs delta)
  case Nil
  then show ?case
    using last_pos_next [of xs "[]"] last_pos_insert [of xs "[]" w]
    by (subst Watchdog_Insert_loop.simps)
      (auto simp: Watchdog_Insert_step_def Watchdog_Insert_link_def Let_def intro!: exI [of _ "[w]"])
next
  case (Cons y ys)
  let ?dy = "delta_interval (control s y)"
  have yw: "y \<noteq> w" "y \<notin> set ys" using Cons.prems by auto
  have nxt: "chain_next (xs @ y # ys) (last_pos xs) = Node y"
    using last_pos_next [of xs "y # ys"] Cons.prems(2) by simp
  have ins: "chain_insert_after (xs @ y # ys) (last_pos xs) w = xs @ w # y # ys"
    using last_pos_insert [of xs "y # ys"] Cons.prems(2) by simp
  show ?case
  proof (cases "delta < ?dy")
    case True
    let ?s = "Watchdog_Insert_link h w (Watchdog_Insert_fixup s h w delta y ?dy) (last_pos xs) delta"
    have loop: "Watchdog_Insert_loop (\<lambda>s. s) h w it s (last_pos xs) delta = Some ?s"
      using True Cons.prems(1) nxt
      by (subst Watchdog_Insert_loop.simps) (simp add: Watchdog_Insert_step_def Let_def)
    have del: "unat delta + unat (?dy - delta) = unat ?dy"
      using True by (simp add: unat_sub_no_wrap less_word_nat less_imp_le le_word_nat)
    have ctl: "control ?s = (control s)(y := (control s y)\<lparr>delta_interval := ?dy - delta\<rparr>,
        w := (control s w)\<lparr>delta_interval := delta, start_time := Ticks_since_boot s, wd_state := WATCHDOG_ACTIVE\<rparr>)"
      using yw by (auto simp: Watchdog_Insert_link_def Watchdog_Insert_fixup_def Let_def)
    have "expiries (control ?s) (unat ?dy) ys = expiries (control s) (unat ?dy) ys"
      by (rule expiries_cong) (use yw Cons.prems(3) in \<open>auto simp: ctl\<close>)
    then have "expiries (control ?s) 0 (w # y # ys) = timer_insert w (unat delta) (expiries (control s) 0 (y # ys))"
      using True yw del by (simp add: ctl less_word_nat)
    moreover have "headers ?s = (headers s)(h := (headers s h)\<lparr>Watchdogs := xs @ w # y # ys\<rparr>)"
      using Cons.prems(1) ins by (simp add: Watchdog_Insert_link_def Watchdog_Insert_fixup_def Let_def)
    moreover have "same_but (set (y # ys)) ((control s)(w := control ?s w)) (control ?s)"
      using yw Cons.prems(3) by (auto simp: same_but_def ctl delta_refl) (rule exI [of _ delta], simp)
    moreover have "Ticks_since_boot ?s = Ticks_since_boot s" "world ?s = world s"
      by (simp_all add: Watchdog_Insert_link_def Watchdog_Insert_fixup_def Let_def)
    moreover have "\<forall>i. i \<noteq> it \<longrightarrow> current (iterator ?s i) \<in> {current (iterator s i), Node w}"
    proof (intro allI impI)
      fix i
      show "current (iterator ?s i) \<in> {current (iterator s i), Node w}"
        using Insert_fixup_iterators_current [of "iterators_of s h" w y
          "upd_control s y (\<lambda>c. c\<lparr>delta_interval := ?dy - delta\<rparr>)" i]
        by (simp add: Watchdog_Insert_link_def Watchdog_Insert_fixup_def Let_def)
    qed
    moreover have "wd_state (control ?s w) = WATCHDOG_ACTIVE" "start_time (control ?s w) = Ticks_since_boot s"
      by (simp_all add: ctl)
    ultimately show ?thesis using loop by (intro exI [of _ ?s] exI [of _ "w # y # ys"] conjI)
  next
    case False
    let ?i = "upd_iterator s it (\<lambda>i. i\<lparr>it_delta_interval := delta - ?dy, current := Node y\<rparr>)"
    have loop: "Watchdog_Insert_loop (\<lambda>s. s) h w it s (last_pos xs) delta =
        Watchdog_Insert_loop (\<lambda>s. s) h w it ?i (last_pos (xs @ [y])) (delta - ?dy)"
      using False Cons.prems(1,4) nxt
      by (subst Watchdog_Insert_loop.simps) (simp add: Watchdog_Insert_step_def Let_def)
    have del: "unat delta = unat (delta - ?dy) + unat ?dy"
      using False by (simp add: unat_sub_no_wrap le_word_nat not_less)
    have P: "chain_of ?i h = (xs @ [y]) @ ys" "distinct ((xs @ [y]) @ ys)" "w \<notin> set ((xs @ [y]) @ ys)"
      "wd_state (control ?i w) = WATCHDOG_BEING_INSERTED"
      using Cons.prems by simp_all
    have i: "headers ?i = headers s" "control ?i = control s" "Ticks_since_boot ?i = Ticks_since_boot s"
      "world ?i = world s" by simp_all
    obtain s' zs where IH: "Watchdog_Insert_loop (\<lambda>s. s) h w it ?i (last_pos (xs @ [y])) (delta - ?dy) = Some s'"
      "headers s' = (headers s)(h := (headers s h)\<lparr>Watchdogs := (xs @ [y]) @ zs\<rparr>)"
      "expiries (control s') 0 zs = timer_insert w (unat (delta - ?dy)) (expiries (control s) 0 ys)"
      "wd_state (control s' w) = WATCHDOG_ACTIVE" "start_time (control s' w) = Ticks_since_boot s"
      "same_but (set ys) ((control s)(w := control s' w)) (control s')"
      "Ticks_since_boot s' = Ticks_since_boot s" "world s' = world s"
      "\<forall>i. i \<noteq> it \<longrightarrow> current (iterator s' i) \<in> {current (iterator ?i i), Node w}"
      using Cons.IH [OF P, of "delta - ?dy", unfolded i] by blast
    have y: "control s' y = control s y" using same_but_outside [OF IH(6), of y] yw by simp
    have "expiries (control s') (unat ?dy) zs = timer_insert w (unat delta) (expiries (control s) (unat ?dy) ys)"
      unfolding expiries_base [of _ "unat ?dy"] del timer_insert_shift IH(3) ..
    then have "expiries (control s') 0 (y # zs) = timer_insert w (unat delta) (expiries (control s) 0 (y # ys))"
      using False y by (simp add: less_word_nat)
    moreover have "same_but (set (y # ys)) ((control s)(w := control s' w)) (control s')"
      by (rule same_but_mono [OF IH(6)]) auto
    moreover have "headers s' = (headers s)(h := (headers s h)\<lparr>Watchdogs := xs @ y # zs\<rparr>)" using IH(2) by simp
    moreover have "\<forall>i. i \<noteq> it \<longrightarrow> current (iterator s' i) \<in> {current (iterator s i), Node w}"
      using IH(9) by simp
    ultimately show ?thesis
      using loop [unfolded IH(1)] IH(4,5,7,8) by (intro exI [of _ s'] exI [of _ "y # zs"] conjI)
  qed
qed

text \<open>The invariant of a header: the watchdogs on its chain are distinct and active, no expiry exceeds the
  width of an interval, and the iterators in use stand at the head or at a watchdog of the chain.\<close>

definition watchdog_inv :: "'x Watchdog_Handler \<Rightarrow> header_id \<Rightarrow> bool" where
  "watchdog_inv s h \<longleftrightarrow> distinct (chain_of s h)
     \<and> list_all (\<lambda>w. wd_state (control s w) = WATCHDOG_ACTIVE) (chain_of s h)
     \<and> list_all (\<lambda>(w, t). t < 2 ^ 32) (expiry s h)
     \<and> list_all (\<lambda>i. current (iterator s i) = Head \<or> current (iterator s i) \<in> Node ` set (chain_of s h)) (iterators_of s h)"

lemma Watchdog_Insert_atomic:
  assumes "distinct (chain_of s h)" "w \<notin> set (chain_of s h)" "wd_state (control s w) = WATCHDOG_INACTIVE"
    and "it \<notin> set (iterators_of s h)"
  obtains s' zs where "Watchdog_Insert (\<lambda>s. s) it s h w = Some s'"
    and "headers s' = (headers s)(h := (headers s h)\<lparr>Watchdogs := zs\<rparr>)"
    and "expiries (control s') 0 zs = timer_insert w (unat (initial (control s w))) (expiry s h)"
    and "wd_state (control s' w) = WATCHDOG_ACTIVE"
    and "same_but (set (chain_of s h)) ((control s)(w := control s' w)) (control s')"
    and "world s' = world s"
    and "\<forall>i. i \<noteq> it \<longrightarrow> current (iterator s' i) \<in> {current (iterator s i), Node w}"
proof -
  let ?s = "upd_header (upd_control s w (\<lambda>c. c\<lparr>wd_state := WATCHDOG_BEING_INSERTED\<rparr>)) h
     (\<lambda>hd. hd\<lparr>Iterators := Iterators hd @ [it]\<rparr>)"
  let ?i = "initial (control s w)"
  obtain s' zs where L: "Watchdog_Insert_loop (\<lambda>s. s) h w it ?s (last_pos []) ?i = Some s'"
    "headers s' = (headers ?s)(h := (headers ?s h)\<lparr>Watchdogs := [] @ zs\<rparr>)"
    "expiries (control s') 0 zs = timer_insert w (unat ?i) (expiries (control ?s) 0 (chain_of s h))"
    "wd_state (control s' w) = WATCHDOG_ACTIVE"
    "same_but (set (chain_of s h)) ((control ?s)(w := control s' w)) (control s')" "world s' = world s"
    "\<forall>i. i \<noteq> it \<longrightarrow> current (iterator s' i) \<in> {current (iterator s i), Node w}"
    using Watchdog_Insert_loop_correct [of ?s h "[]" "chain_of s h" w it ?i] assms by auto
  let ?r = "upd_header s' h (\<lambda>hd. hd\<lparr>Iterators := remove1 it (Iterators hd)\<rparr>)"
  have "expiries (control ?s) 0 (chain_of s h) = expiry s h" by (rule expiries_cong) simp
  moreover have "remove1 it (iterators_of s h @ [it]) = iterators_of s h"
    using assms(4) by (simp add: remove1_append)
  moreover have "Watchdog_Insert (\<lambda>s. s) it s h w = Some ?r"
    using assms(3) L(1) by (simp add: Watchdog_Insert_def Watchdog_Insert_locked_def Let_def)
  ultimately show thesis
    using L by (intro that [of ?r zs]) simp_all
qed

subsection \<open>Removal\<close>

lemma Remove_it_iterators_frame [simp]:
  "control (Watchdog_Remove_it_iterators is w n p d s) = control s"
  "headers (Watchdog_Remove_it_iterators is w n p d s) = headers s"
  "Ticks_since_boot (Watchdog_Remove_it_iterators is w n p d s) = Ticks_since_boot s"
  "world (Watchdog_Remove_it_iterators is w n p d s) = world s"
  by (induction "is" arbitrary: s) (auto simp: Let_def split: chain_pos.split)

lemma Remove_it_headers [simp]:
  "headers (Watchdog_Remove_it s h w) = (headers s)(h := (headers s h)\<lparr>Watchdogs := remove1 w (chain_of s h)\<rparr>)"
  "world (Watchdog_Remove_it s h w) = world s"
  "Ticks_since_boot (Watchdog_Remove_it s h w) = Ticks_since_boot s"
  by (auto simp: Watchdog_Remove_it_def Let_def fun_eq_iff split: chain_pos.split)

lemma Remove_it_control:
  assumes "chain_of s h = xs @ w # ys" "distinct (xs @ w # ys)"
  shows "control (Watchdog_Remove_it s h w) =
    (let c = (control s)(w := (control s w)\<lparr>wd_state := WATCHDOG_INACTIVE, stop_time := Ticks_since_boot s\<rparr>)
     in case ys of [] \<Rightarrow> c
        | y # _ \<Rightarrow> c(y := (c y)\<lparr>delta_interval := delta_interval (c y) + delta_interval (control s w)\<rparr>))"
  using assms by (cases ys) (simp_all add: Watchdog_Remove_it_def Let_def while_split)

lemma Remove_it_expiry:
  assumes chain: "chain_of s h = xs @ w # ys" "distinct (xs @ w # ys)"
    and bound: "\<forall>(v, t) \<in> set (expiry s h). t < 2 ^ 32"
  shows "expiry (Watchdog_Remove_it s h w) h = filter (\<lambda>(v, t). v \<noteq> w) (expiry s h)"
proof -
  let ?s = "Watchdog_Remove_it s h w" and ?b = "last (0 # map snd (expiries (control s) 0 xs))"
  note ctl = Remove_it_control [OF chain]
  have xs: "expiries (control ?s) 0 xs = expiries (control s) 0 xs"
    by (rule expiries_cong) (use chain(2) in \<open>auto simp: ctl Let_def split: list.split\<close>)
  have ys: "expiries (control ?s) b ys = expiries (control s) (b + unat (delta_interval (control s w))) ys" if "b = ?b" for b
  proof (cases ys)
    case (Cons y zs)
    let ?t = "b + unat (delta_interval (control s w)) + unat (delta_interval (control s y))"
    have "(y, ?t) \<in> set (expiry s h)"
      unfolding chain Cons by (simp add: expiries_append Let_def that)
    then have "?t < 2 ^ 32" using bound by blast
    then have "unat (delta_interval (control ?s y)) = unat (delta_interval (control s y)) + unat (delta_interval (control s w))"
      using chain(2) unfolding ctl Cons by (auto simp: Let_def intro!: unat_add_no_wrap)
    moreover have "expiries (control ?s) ?t zs = expiries (control s) ?t zs"
      by (rule expiries_cong) (use chain(2) Cons in \<open>auto simp: ctl Let_def\<close>)
    ultimately show ?thesis using Cons by (simp add: Let_def ac_simps)
  qed simp
  have "chain_of ?s h = xs @ ys" using chain by (simp add: remove1_append)
  then show ?thesis
    using chain xs ys [OF refl] by (simp add: expiries_append Let_def expiries_filter_absent)
qed

lemma Remove_it_iterators_current:
  "prev \<noteq> Node w \<Longrightarrow> current (iterator (Watchdog_Remove_it_iterators is w nxt prev d s) i) =
     (if i \<in> set is \<and> current (iterator s i) = Node w then prev else current (iterator s i))"
  by (induction "is" arbitrary: s) (auto simp: Let_def split: chain_pos.split)

lemma Remove_it_current:
  assumes "chain_of s h = xs @ w # ys" "distinct (xs @ w # ys)" "i \<in> set (iterators_of s h)"
  shows "current (iterator (Watchdog_Remove_it s h w) i) =
     (if current (iterator s i) = Node w then last_pos xs else current (iterator s i))"
proof -
  have "last_pos xs \<noteq> Node w" using assms(2) by (cases xs rule: rev_cases) auto
  moreover have "chain_previous (xs @ w # ys) (Node w) = last_pos xs"
    using assms(2) by (simp add: last_pos_def while_split)
  ultimately show ?thesis
    using assms(1,3) by (cases ys)
      (simp_all add: Watchdog_Remove_it_def Let_def Remove_it_iterators_current del: chain_previous.simps(2) split: chain_pos.split)
qed

lemma Remove_it_state:
  assumes "chain_of s h = xs @ w # ys" "distinct (xs @ w # ys)"
  shows "wd_state (control (Watchdog_Remove_it s h w) v) = (if v = w then WATCHDOG_INACTIVE else wd_state (control s v))"
  using assms(2) by (cases ys) (auto simp: Remove_it_control [OF assms] Let_def)

lemma watchdog_invD:
  assumes "watchdog_inv s h"
  shows "distinct (chain_of s h)" "\<forall>w \<in> set (chain_of s h). wd_state (control s w) = WATCHDOG_ACTIVE"
    "\<forall>(w, t) \<in> set (expiry s h). t < 2 ^ 32"
    "\<forall>i \<in> set (iterators_of s h). current (iterator s i) \<in> insert Head (Node ` set (chain_of s h))"
  using assms by (auto simp: watchdog_inv_def list_all_iff)

lemma watchdog_invI:
  assumes "distinct (chain_of s h)" "\<forall>w \<in> set (chain_of s h). wd_state (control s w) = WATCHDOG_ACTIVE"
    "\<forall>(w, t) \<in> set (expiry s h). t < 2 ^ 32"
    "\<forall>i \<in> set (iterators_of s h). current (iterator s i) \<in> insert Head (Node ` set (chain_of s h))"
  shows "watchdog_inv s h"
  using assms by (auto simp: watchdog_inv_def list_all_iff)

lemma last_pos_in: "last_pos xs \<in> insert Head (Node ` set xs)"
  by (cases xs rule: rev_cases) auto

lemma Remove_it_inv:
  assumes inv: "watchdog_inv s h" and w: "w \<in> set (chain_of s h)"
  shows "watchdog_inv (Watchdog_Remove_it s h w) h"
    and "expiry (Watchdog_Remove_it s h w) h = filter (\<lambda>(v, t). v \<noteq> w) (expiry s h)"
proof -
  note I = watchdog_invD [OF inv]
  obtain xs ys where chain: "chain_of s h = xs @ w # ys" using w by (auto dest: split_list)
  have dist: "distinct (xs @ w # ys)" using I(1) chain by simp
  show ex: "expiry (Watchdog_Remove_it s h w) h = filter (\<lambda>(v, t). v \<noteq> w) (expiry s h)"
    using Remove_it_expiry [OF chain dist I(3)] .
  have chain': "chain_of (Watchdog_Remove_it s h w) h = xs @ ys"
    using chain dist by (simp add: remove1_append)
  show "watchdog_inv (Watchdog_Remove_it s h w) h"
  proof (rule watchdog_invI)
    show "\<forall>(v, t) \<in> set (expiry (Watchdog_Remove_it s h w) h). t < 2 ^ 32"
      unfolding ex using I(3) by auto
    show "\<forall>i \<in> set (iterators_of (Watchdog_Remove_it s h w) h).
      current (iterator (Watchdog_Remove_it s h w) i) \<in> insert Head (Node ` set (chain_of (Watchdog_Remove_it s h w) h))"
      unfolding chain' using I(4) chain last_pos_in [of xs] by (auto simp: Remove_it_current [OF chain dist])
  qed (use I(2) chain chain' dist in \<open>auto simp: Remove_it_state [OF chain dist]\<close>)
qed

subsection \<open>Ticks\<close>

text \<open>Service routines that leave the handler alone, and the effect of calling those of the watchdogs
  of a list in turn.\<close>

definition quiet :: "'x service \<Rightarrow> (addr \<Rightarrow> uint32 \<Rightarrow> addr \<Rightarrow> 'x \<Rightarrow> 'x) \<Rightarrow> bool" where
  "quiet svc eff \<longleftrightarrow> (\<forall>r i u s. svc r i u s = s\<lparr>world := eff r i u (world s)\<rparr>)"

definition call :: "(addr \<Rightarrow> uint32 \<Rightarrow> addr \<Rightarrow> 'x \<Rightarrow> 'x) \<Rightarrow> Watchdog_Control \<Rightarrow> 'x \<Rightarrow> 'x" where
  "call eff c = eff (routine c) (wd_id c) (user_data c)"

definition same_calls :: "(wid \<Rightarrow> Watchdog_Control) \<Rightarrow> (wid \<Rightarrow> Watchdog_Control) \<Rightarrow> bool" where
  "same_calls ctl ctl' \<longleftrightarrow> (\<forall>v. routine (ctl' v) = routine (ctl v) \<and> wd_id (ctl' v) = wd_id (ctl v)
     \<and> user_data (ctl' v) = user_data (ctl v))"

lemma same_calls_call: "same_calls ctl ctl' \<Longrightarrow> call eff (ctl' v) = call eff (ctl v)"
  by (simp add: same_calls_def call_def)

lemma same_calls_fold: "same_calls ctl ctl' \<Longrightarrow> fold (\<lambda>v. call eff (ctl' v)) vs = fold (\<lambda>v. call eff (ctl v)) vs"
  by (simp add: same_calls_call cong: fold_cong)

lemma same_calls_trans: "same_calls a b \<Longrightarrow> same_calls b c \<Longrightarrow> same_calls a c"
  by (simp add: same_calls_def)

lemma Remove_it_calls: "same_calls (control s) (control (Watchdog_Remove_it s h w))"
  by (auto simp: same_calls_def Watchdog_Remove_it_def Let_def split: chain_pos.split)

lemma inv_world [simp]: "watchdog_inv (s\<lparr>world := x\<rparr>) h = watchdog_inv s h"
  by (simp add: watchdog_inv_def)

lemma expiries_zero_prefix:
  "expiries ctl 0 (w # ws) = (w, unat (delta_interval (ctl w))) # shift (unat (delta_interval (ctl w))) (expiries ctl 0 ws)"
  using expiries_base [of ctl "unat (delta_interval (ctl w))" ws] by simp

lemma Watchdog_Tickle_loop_correct:
  assumes q: "quiet svc eff" and "watchdog_inv s h" "chain_of s h = first # ws" "delta_interval (control s first) = 0"
  shows "\<exists>s'. Watchdog_Tickle_loop svc h first s = Some s' \<and> watchdog_inv s' h
    \<and> expiry s' h = filter (\<lambda>(v, t). 0 < t) (expiry s h)
    \<and> world s' = fold (\<lambda>v. call eff (control s v)) (map fst (filter (\<lambda>(v, t). t = 0) (expiry s h))) (world s)
    \<and> same_calls (control s) (control s')"
  using assms(2-4)
proof (induction ws arbitrary: s first)
  case Nil
  let ?s = "Watchdog_Remove_it s h first"
  have run: "wd_state (control s first) = WATCHDOG_ACTIVE" using watchdog_invD(2) [OF Nil(1)] Nil(2) by simp
  have "Watchdog_Tickle_loop svc h first s = Some (?s\<lparr>world := call eff (control s first) (world s)\<rparr>)"
    using q run Nil(2) Remove_it_calls [of s h first]
    by (subst Watchdog_Tickle_loop.simps) (simp add: quiet_def Let_def same_calls_def call_def)
  moreover have "watchdog_inv ?s h" using Remove_it_inv(1) [OF Nil(1)] Nil(2) by simp
  ultimately show ?case
    using Nil(2,3) Remove_it_calls [of s h first] by simp
next
  case (Cons x ws)
  let ?s = "Watchdog_Remove_it s h first"
  let ?t = "?s\<lparr>world := call eff (control s first) (world s)\<rparr>"
  have run: "wd_state (control s first) = WATCHDOG_ACTIVE" using watchdog_invD(2) [OF Cons(2)] Cons(3) by simp
  have inv: "watchdog_inv ?s h" using Remove_it_inv(1) [OF Cons(2)] Cons(3) by simp
  have dist: "distinct (first # x # ws)" using watchdog_invD(1) [OF Cons(2)] Cons(3) by simp
  have ctl: "control ?s = (control s)(first := (control s first)\<lparr>wd_state := WATCHDOG_INACTIVE, stop_time := Ticks_since_boot s\<rparr>)"
    using Remove_it_control [of s h "[]" first "x # ws"] Cons(3,4) dist by (auto simp: Let_def)
  have same: "same_calls (control s) (control ?s)" by (rule Remove_it_calls)
  have chain: "chain_of ?s h = x # ws" using Cons(3) by simp
  have "expiries (control ?s) 0 (x # ws) = expiries (control s) 0 (x # ws)"
    by (rule expiries_cong) (use dist in \<open>auto simp: ctl\<close>)
  then have ex: "expiry s h = (first, 0) # expiry ?s h"
    unfolding chain Cons(3) using Cons(4) by (simp del: expiries.simps(2) add: expiries.simps(2) [of _ _ first])
  have unf: "Watchdog_Tickle_loop svc h first s =
      (if delta_interval (control ?s x) = 0 then Watchdog_Tickle_loop svc h x ?t else Some ?t)"
    using q run same chain
    by (subst Watchdog_Tickle_loop.simps) (simp add: quiet_def Let_def same_calls_def call_def del: Remove_it_headers(1))
  show ?case
  proof (cases "delta_interval (control ?s x) = 0")
    case True
    obtain s' where IH: "Watchdog_Tickle_loop svc h x ?t = Some s'" "watchdog_inv s' h"
      "expiry s' h = filter (\<lambda>(v, t). 0 < t) (expiry ?t h)"
      "world s' = fold (\<lambda>v. call eff (control ?t v)) (map fst (filter (\<lambda>(v, t). t = 0) (expiry ?t h))) (world ?t)"
      "same_calls (control ?t) (control s')"
      using Cons.IH [of ?t x] inv chain True by auto
    have "control ?t = control ?s" by simp
    then show ?thesis
      using IH ex unf True same_calls_trans [OF same] same_calls_fold [OF same, of eff] by simp
  next
    case False
    then have pos: "0 < unat (delta_interval (control ?s x))" by (simp add: unat_gt_0)
    have "\<forall>(v, t) \<in> set (expiry ?s h). 0 < t"
      unfolding chain using pos by (auto dest: expiries_ge)
    then have "filter (\<lambda>(v, t). 0 < t) (expiry ?s h) = expiry ?s h" "filter (\<lambda>(v, t). t = 0) (expiry ?s h) = []"
      by (auto simp: filter_empty_conv filter_id_conv)
    then show ?thesis using unf False ex inv same by simp
  qed
qed

abbreviation none_due :: "'x Watchdog_Handler \<Rightarrow> header_id \<Rightarrow> bool" where
  "none_due s h \<equiv> list_all (\<lambda>(w, t). 0 < t) (expiry s h)"

lemma none_due_first:
  "chain_of s h = first # ws \<Longrightarrow> none_due s h \<longleftrightarrow> 0 < delta_interval (control s first)"
  using expiries_ge [of _ _ "control s" "unat (delta_interval (control s first))" ws]
  by (force simp: list_all_iff word_less_nat_alt)

text \<open>Counting the first watchdog down by \<open>k\<close> brings every expiry forward by \<open>k\<close>.\<close>

definition count_down :: "'x Watchdog_Handler \<Rightarrow> wid \<Rightarrow> Watchdog_Interval \<Rightarrow> 'x Watchdog_Handler" where
  "count_down s first k = upd_control s first (\<lambda>c. c\<lparr>delta_interval := delta_interval c - k\<rparr>)"

lemma count_down_frame [simp]:
  "headers (count_down s f k) = headers s" "world (count_down s f k) = world s" "iterator (count_down s f k) = iterator s"
  "wd_state (control (count_down s f k) v) = wd_state (control s v)"
  by (auto simp: count_down_def)

lemma count_down_calls: "same_calls (control s) (control (count_down s f k))"
  by (simp add: same_calls_def count_down_def)

lemma count_down_expiry:
  assumes chain: "chain_of s h = first # ws" "distinct (first # ws)" and k: "k \<le> delta_interval (control s first)"
  shows "expiry (count_down s first k) h = map (\<lambda>(v, t). (v, t - unat k)) (expiry s h)"
proof -
  let ?d = "unat (delta_interval (control s first))"
  have d: "unat (delta_interval (control (count_down s first k) first)) = ?d - unat k"
    using k by (simp add: count_down_def unat_sub_no_wrap le_word_nat)
  have k': "unat k \<le> ?d" using k by (simp add: le_word_nat)
  have "expiries (control (count_down s first k)) (?d - unat k) ws = expiries (control s) (?d - unat k) ws"
    by (rule expiries_cong) (use chain(2) in \<open>auto simp: count_down_def\<close>)
  also have "\<dots> = map (\<lambda>(v, t). (v, t - unat k)) (expiries (control s) ?d ws)"
    unfolding expiries_base [of _ "?d - unat k"] expiries_base [of _ ?d] using k' by auto
  finally show ?thesis using chain(1) d by simp
qed

lemma count_down_inv:
  assumes inv: "watchdog_inv s h" and chain: "chain_of s h = first # ws" and k: "k \<le> delta_interval (control s first)"
  shows "watchdog_inv (count_down s first k) h"
proof (rule watchdog_invI)
  have "distinct (first # ws)" using watchdog_invD(1) [OF inv] chain by simp
  from count_down_expiry [OF chain this k]
  show "\<forall>(w, t) \<in> set (expiry (count_down s first k) h). t < 2 ^ 32"
    using watchdog_invD(3) [OF inv] by fastforce
qed (use watchdog_invD [OF inv] in auto)

lemma Watchdog_Tickle_count_down:
  assumes "chain_of s h = first # ws" "0 < delta_interval (control s first)"
  shows "Watchdog_Tickle svc h s =
    (if delta_interval (control s first) = 1 then Watchdog_Tickle_loop svc h first (count_down s first 1)
     else Some (count_down s first 1))"
  using assms by (simp add: Watchdog_Tickle_def Let_def count_down_def)

lemma Watchdog_Tickle_correct:
  assumes q: "quiet svc eff" and inv: "watchdog_inv s h" and due: "none_due s h"
  shows "\<exists>s'. Watchdog_Tickle svc h s = Some s' \<and> watchdog_inv s' h
    \<and> expiry s' h = map (\<lambda>(v, t). (v, t - 1)) (filter (\<lambda>(v, t). 1 < t) (expiry s h))
    \<and> world s' = fold (\<lambda>v. call eff (control s v)) (map fst (filter (\<lambda>(v, t). t = 1) (expiry s h))) (world s)
    \<and> same_calls (control s) (control s')"
proof (cases "chain_of s h")
  case Nil
  then show ?thesis using inv by (simp add: Watchdog_Tickle_def same_calls_def)
next
  case (Cons first ws)
  let ?s = "count_down s first 1" and ?e = "expiry s h"
  have pos: "0 < delta_interval (control s first)" using none_due_first [OF Cons] due by simp
  then have le: "1 \<le> delta_interval (control s first)" by (simp add: word_le_nat_alt word_less_nat_alt)
  have "distinct (first # ws)" using watchdog_invD(1) [OF inv] Cons by simp
  note ex = count_down_expiry [OF Cons this le]
  have inv': "watchdog_inv ?s h" by (rule count_down_inv [OF inv Cons le])
  have tpos: "\<forall>(v, t) \<in> set ?e. 0 < t" using due by (simp add: list_all_iff)
  have f1: "filter (\<lambda>(v, t). 0 < t) (expiry ?s h) = map (\<lambda>(v, t). (v, t - 1)) (filter (\<lambda>(v, t). 1 < t) ?e)"
    unfolding ex filter_map comp_def by (auto intro!: arg_cong [of _ _ "map _"] filter_cong)
  have f2: "map fst (filter (\<lambda>(v, t). t = 0) (expiry ?s h)) = map fst (filter (\<lambda>(v, t). t = 1) ?e)"
    unfolding ex filter_map comp_def map_map using tpos by (auto intro!: map_cong filter_cong)
  have calls: "same_calls (control s) (control ?s)" by (rule count_down_calls)
  show ?thesis
  proof (cases "delta_interval (control s first) = 1")
    case True
    then have "delta_interval (control ?s first) = 0" by (simp add: count_down_def)
    then obtain s' where "Watchdog_Tickle_loop svc h first ?s = Some s'" "watchdog_inv s' h"
      "expiry s' h = filter (\<lambda>(v, t). 0 < t) (expiry ?s h)"
      "world s' = fold (\<lambda>v. call eff (control ?s v)) (map fst (filter (\<lambda>(v, t). t = 0) (expiry ?s h))) (world ?s)"
      "same_calls (control ?s) (control s')"
      using Watchdog_Tickle_loop_correct [OF q inv', of first ws] Cons by auto
    then show ?thesis
      unfolding Watchdog_Tickle_count_down [OF Cons pos] f1 f2 same_calls_fold [OF calls]
      using True same_calls_trans [OF calls] by auto
  next
    case False
    then have "unat (delta_interval (control s first)) \<noteq> 1" by (metis unat_1 word_unat_eq_iff)
    then have "1 < unat (delta_interval (control s first))" using pos by (simp add: word_less_nat_alt)
    then have "\<forall>(v, t) \<in> set ?e. 1 < t" using Cons by (auto dest: expiries_ge)
    then have "filter (\<lambda>(v, t). 1 < t) ?e = ?e" "filter (\<lambda>(v, t). t = 1) ?e = []"
      by (auto simp: filter_id_conv filter_empty_conv)
    then show ?thesis
      unfolding Watchdog_Tickle_count_down [OF Cons pos] using False inv' ex calls by simp
  qed
qed

text \<open>A sequence of ticks: what is due up to \<open>n\<close> has fired in expiry order, the rest is \<open>n\<close> closer.\<close>

primrec Watchdog_Ticks :: "'x service \<Rightarrow> header_id \<Rightarrow> nat \<Rightarrow> 'x Watchdog_Handler \<Rightarrow> 'x Watchdog_Handler option" where
  "Watchdog_Ticks svc h 0 s = Some s"
| "Watchdog_Ticks svc h (Suc n) s =
     (case Watchdog_Tickle svc h s of None \<Rightarrow> None | Some s \<Rightarrow> Watchdog_Ticks svc h n s)"

lemma Watchdog_Ticks_add:
  "Watchdog_Ticks svc h (a + b) s = (case Watchdog_Ticks svc h a s of None \<Rightarrow> None | Some s \<Rightarrow> Watchdog_Ticks svc h b s)"
  by (induction a arbitrary: s) (auto split: option.split)

lemma expiries_sorted: "sorted (map snd (expiries ctl b ws))"
  by (induction ws arbitrary: b) (auto dest: expiries_ge)

lemma sorted_filter_split:
  assumes "sorted (map snd es)" "a \<le> (b :: nat)"
  shows "filter (\<lambda>(v, t). t \<le> b) es = filter (\<lambda>(v, t). t \<le> a) es @ filter (\<lambda>(v, t). a < t \<and> t \<le> b) es"
  using assms
proof (induction es)
  case (Cons e es)
  have "filter (\<lambda>(v, t). t \<le> a) es = []" if "a < snd e"
    using Cons.prems that by (force simp: filter_empty_conv)
  then show ?case using Cons by (cases e) auto
qed simp

lemma Watchdog_Ticks_correct:
  assumes q: "quiet svc eff" and "watchdog_inv s h" "none_due s h"
  shows "\<exists>s'. Watchdog_Ticks svc h n s = Some s' \<and> watchdog_inv s' h \<and> none_due s' h
    \<and> expiry s' h = map (\<lambda>(v, t). (v, t - n)) (filter (\<lambda>(v, t). n < t) (expiry s h))
    \<and> world s' = fold (\<lambda>v. call eff (control s v)) (map fst (filter (\<lambda>(v, t). t \<le> n) (expiry s h))) (world s)"
  using assms(2,3)
proof (induction n arbitrary: s)
  case 0
  then have "\<forall>(v, t) \<in> set (expiry s h). 0 < t" by (simp add: list_all_iff)
  then have "filter (\<lambda>(v, t). 0 < t) (expiry s h) = expiry s h" "filter (\<lambda>(v, t). t = 0) (expiry s h) = []"
    by (auto simp: filter_id_conv filter_empty_conv)
  then show ?case using 0 by simp
next
  case (Suc n)
  let ?e = "expiry s h"
  have pos: "\<forall>(v, t) \<in> set ?e. 0 < t" using Suc.prems(2) by (simp add: list_all_iff)
  obtain s1 where s1: "Watchdog_Tickle svc h s = Some s1" "watchdog_inv s1 h"
    "expiry s1 h = map (\<lambda>(v, t). (v, t - 1)) (filter (\<lambda>(v, t). 1 < t) ?e)"
    "world s1 = fold (\<lambda>v. call eff (control s v)) (map fst (filter (\<lambda>(v, t). t = 1) ?e)) (world s)"
    "same_calls (control s) (control s1)"
    using Watchdog_Tickle_correct [OF q Suc.prems] by blast
  have "none_due s1 h" unfolding s1(3) by (auto simp: list_all_iff)
  from Suc.IH [OF s1(2) this] obtain s' where s': "Watchdog_Ticks svc h n s1 = Some s'" "watchdog_inv s' h" "none_due s' h"
    "expiry s' h = map (\<lambda>(v, t). (v, t - n)) (filter (\<lambda>(v, t). n < t) (expiry s1 h))"
    "world s' = fold (\<lambda>v. call eff (control s1 v)) (map fst (filter (\<lambda>(v, t). t \<le> n) (expiry s1 h))) (world s1)"
    by blast
  have "expiry s' h = map (\<lambda>(v, t). (v, t - Suc n)) (filter (\<lambda>(v, t). Suc n < t) ?e)"
    unfolding s'(4) s1(3) filter_map comp_def map_map filter_filter
    by (auto intro!: map_cong filter_cong)
  moreover have "map fst (filter (\<lambda>(v, t). t \<le> n) (expiry s1 h)) = map fst (filter (\<lambda>(v, t). 1 < t \<and> t \<le> Suc n) ?e)"
    unfolding s1(3) filter_map comp_def map_map filter_filter
    by (auto intro!: map_cong filter_cong)
  moreover have "filter (\<lambda>(v, t). t \<le> Suc n) ?e = filter (\<lambda>(v, t). t = 1) ?e @ filter (\<lambda>(v, t). 1 < t \<and> t \<le> Suc n) ?e"
  proof -
    have "filter (\<lambda>(v, t). t \<le> 1) ?e = filter (\<lambda>(v, t). t = 1) ?e"
      by (rule filter_cong) (use pos in \<open>fastforce+\<close>)
    then show ?thesis using sorted_filter_split [OF expiries_sorted, of 1 "Suc n" "control s" 0 "chain_of s h"] by simp
  qed
  ultimately have "world s' = fold (\<lambda>v. call eff (control s v)) (map fst (filter (\<lambda>(v, t). t \<le> Suc n) ?e)) (world s)"
    using s'(5) s1(4) same_calls_fold [OF s1(5), of eff] by simp
  then show ?case using s1(1) s' \<open>expiry s' h = map (\<lambda>(v, t). (v, t - Suc n)) _\<close> by simp
qed

subsection \<open>Adjusting forward\<close>

lemma Watchdog_Ticks_count_down:
  assumes "chain_of s h = first # ws" "n < unat (delta_interval (control s first))"
  shows "Watchdog_Ticks svc h n s = Some (count_down s first (of_nat n))"
  using assms
proof (induction n arbitrary: s)
  case 0
  then show ?case by (simp add: count_down_def)
next
  case (Suc n)
  let ?d = "delta_interval (control s first)"
  have pos: "0 < ?d" using Suc.prems(2) by (simp add: word_less_nat_alt)
  have ne: "?d \<noteq> 1" using Suc.prems(2) by auto
  have "unat (?d - 1) = unat ?d - 1" using pos by (simp add: unat_minus_one word_gt_0)
  then have "Watchdog_Ticks svc h n (count_down s first 1) = Some (count_down (count_down s first 1) first (of_nat n))"
    using Suc.IH [of "count_down s first 1"] Suc.prems by (simp add: count_down_def)
  then show ?case
    using Watchdog_Tickle_count_down [OF Suc.prems(1) pos] ne
    by (simp add: count_down_def algebra_simps)
qed

lemma Watchdog_Ticks_empty: "chain_of s h = [] \<Longrightarrow> Watchdog_Ticks svc h n s = Some s"
  by (induction n) (simp_all add: Watchdog_Tickle_def)

lemma Watchdog_Tickle_shrinks:
  assumes "quiet svc eff" "watchdog_inv s h" "chain_of s h = first # ws" "delta_interval (control s first) = 1"
    and "Watchdog_Tickle svc h s = Some s'"
  shows "watchdog_inv s' h" "none_due s' h" "length (chain_of s' h) < length (chain_of s h)"
proof -
  have "none_due s h" using none_due_first [OF assms(3)] assms(4) by simp
  with Watchdog_Tickle_correct [OF assms(1,2)] assms(5)
  have r: "watchdog_inv s' h" "expiry s' h = map (\<lambda>(v, t). (v, t - 1)) (filter (\<lambda>(v, t). 1 < t) (expiry s h))" by auto
  then show "watchdog_inv s' h" "none_due s' h" by (auto simp: list_all_iff)
  have "length (chain_of s' h) = length (expiry s' h)" by (metis expiries_fst length_map)
  also have "\<dots> = length (filter (\<lambda>(v, t). 1 < t) (expiry s h))" unfolding r(2) by simp
  also have "\<dots> < length (expiry s h)"
    by (rule length_filter_less [of "(first, 1)"]) (use assms(3,4) in simp_all)
  also have "length (expiry s h) = length (chain_of s h)" by (metis expiries_fst length_map)
  finally show "length (chain_of s' h) < length (chain_of s h)" .
qed

lemma Watchdog_Adjust_forward_eq:
  assumes q: "quiet svc eff" and "watchdog_inv s h" "none_due s h"
  shows "Watchdog_Adjust_forward_locked svc h units s = Watchdog_Ticks svc h (unat units) s"
  using assms(2,3)
proof (induction "length (chain_of s h)" arbitrary: s units rule: less_induct)
  case less
  show ?case
  proof (cases "chain_of s h")
    case Nil
    then show ?thesis by (subst Watchdog_Adjust_forward_locked.simps) (simp add: Watchdog_Ticks_empty)
  next
    case (Cons first ws)
    let ?d = "delta_interval (control s first)"
    have pos: "0 < ?d" using none_due_first [OF Cons] less.prems by simp
    show ?thesis
    proof (cases "units < ?d")
      case True
      then have "Watchdog_Ticks svc h (unat units) s = Some (count_down s first units)"
        using Watchdog_Ticks_count_down [OF Cons, of "unat units"] by (simp add: word_less_nat_alt)
      then show ?thesis
        using True Cons by (subst Watchdog_Adjust_forward_locked.simps) (auto simp: count_down_def word_gt_0)
    next
      case False
      let ?s = "count_down s first (of_nat (unat ?d - 1))"
      have le: "unat ?d \<le> unat units" and d1: "unat ?d - 1 < unat ?d"
        using False pos by (simp_all add: word_less_nat_alt not_less)
      have dd: "of_nat (unat ?d - 1) = ?d - 1"
        using pos d1 by (simp add: of_nat_diff)
      then have s1: "?s = upd_control s first (\<lambda>c. c\<lparr>delta_interval := 1\<rparr>)" "delta_interval (control ?s first) = 1"
        by (simp_all add: count_down_def)
      have "?d - 1 \<le> ?d" using pos by (simp add: word_le_nat_alt unat_minus_one word_gt_0)
      then have inv: "watchdog_inv ?s h" unfolding dd by (rule count_down_inv [OF less.prems(1) Cons])
      have split: "unat units = (unat ?d - 1) + (1 + unat (units - ?d))"
        using le pos False by (simp add: unat_sub_no_wrap le_word_nat word_less_nat_alt)
      have "Watchdog_Ticks svc h (unat units) s =
          (case Watchdog_Tickle svc h ?s of None \<Rightarrow> None | Some s \<Rightarrow> Watchdog_Ticks svc h (unat (units - ?d)) s)"
        unfolding split Watchdog_Ticks_add [of _ _ "unat ?d - 1"] Watchdog_Ticks_count_down [OF Cons d1] by simp
      moreover have "Watchdog_Adjust_forward_locked svc h (units - ?d) s' = Watchdog_Ticks svc h (unat (units - ?d)) s'"
        if "Watchdog_Tickle svc h ?s = Some s'" for s'
        using less.hyps [of s'] Watchdog_Tickle_shrinks [OF q inv _ s1(2) that, of ws] Cons by simp
      moreover have "units > 0" using le pos by (simp add: word_less_nat_alt)
      ultimately show ?thesis
        using False Cons s1(1)
        by (subst Watchdog_Adjust_forward_locked.simps) (auto simp: Let_def split: option.split)
    qed
  qed
qed

subsection \<open>Insertions interrupted in their windows\<close>

text \<open>The transitions of one header as seen between interrupt windows: insertions run from window to
  window, and in a window other insertions, removals and ticks may run. \<open>P\<close> holds the waiting insertions
  by their iterators.\<close>

definition finish_insert :: "header_id \<Rightarrow> iid \<Rightarrow> 'x Watchdog_Handler \<Rightarrow> 'x Watchdog_Handler" where
  "finish_insert h it s = upd_header s h (\<lambda>hd. hd\<lparr>Iterators := remove1 it (Iterators hd)\<rparr>)"

definition begin_insert :: "header_id \<Rightarrow> wid \<Rightarrow> iid \<Rightarrow> 'x Watchdog_Handler \<Rightarrow> 'x Watchdog_Handler" where
  "begin_insert h w it s =
     upd_header (upd_control s w (\<lambda>c. c\<lparr>wd_state := WATCHDOG_BEING_INSERTED\<rparr>)) h
       (\<lambda>hd. hd\<lparr>Iterators := Iterators hd @ [it]\<rparr>)"

inductive wd_step :: "'x service \<Rightarrow> header_id \<Rightarrow> 'x Watchdog_Handler \<times> (iid \<rightharpoonup> wid) \<Rightarrow> 'x Watchdog_Handler \<times> (iid \<rightharpoonup> wid) \<Rightarrow> bool"
  for svc :: "'x service" and h :: header_id where
  start_found: "wd_state (control s w) = WATCHDOG_INACTIVE \<Longrightarrow> P it = None \<Longrightarrow>
    Watchdog_Insert_step h w it (begin_insert h w it s) Head (initial (control s w)) = Inl s1 \<Longrightarrow>
    wd_step svc h (s, P) (finish_insert h it (Watchdog_Insert_link h w s1 Head (initial (control s w))), P)"
| start_wait: "wd_state (control s w) = WATCHDOG_INACTIVE \<Longrightarrow> P it = None \<Longrightarrow>
    Watchdog_Insert_step h w it (begin_insert h w it s) Head (initial (control s w)) = Inr s1 \<Longrightarrow>
    wd_step svc h (s, P) (s1, P(it \<mapsto> w))"
| resume_abort: "P it = Some w \<Longrightarrow> wd_state (control s w) \<noteq> WATCHDOG_BEING_INSERTED \<Longrightarrow>
    wd_step svc h (s, P) (finish_insert h it s, P(it := None))"
| resume_found: "P it = Some w \<Longrightarrow> wd_state (control s w) = WATCHDOG_BEING_INSERTED \<Longrightarrow>
    Watchdog_Insert_step h w it s (current (iterator s it)) (it_delta_interval (iterator s it)) = Inl s1 \<Longrightarrow>
    wd_step svc h (s, P)
      (finish_insert h it (Watchdog_Insert_link h w s1 (current (iterator s it)) (it_delta_interval (iterator s it))), P(it := None))"
| resume_wait: "P it = Some w \<Longrightarrow> wd_state (control s w) = WATCHDOG_BEING_INSERTED \<Longrightarrow>
    Watchdog_Insert_step h w it s (current (iterator s it)) (it_delta_interval (iterator s it)) = Inr s1 \<Longrightarrow>
    wd_step svc h (s, P) (s1, P)"
| remove: "(wd_state (control s w) = WATCHDOG_ACTIVE \<longrightarrow> w \<in> set (chain_of s h)) \<Longrightarrow>
    wd_step svc h (s, P) (fst (Watchdog_Remove s h w), P)"
| tick: "Watchdog_Tickle svc h s = Some s' \<Longrightarrow> wd_step svc h (s, P) (s', P)"

inductive_cases wd_stepE: "wd_step svc h (s, P) t"

definition watchdog_safe :: "'x Watchdog_Handler \<Rightarrow> header_id \<Rightarrow> bool" where
  "watchdog_safe s h \<longleftrightarrow> distinct (chain_of s h)
     \<and> (\<forall>w \<in> set (chain_of s h). wd_state (control s w) = WATCHDOG_ACTIVE)
     \<and> distinct (iterators_of s h)
     \<and> (\<forall>i \<in> set (iterators_of s h). current (iterator s i) \<in> insert Head (Node ` set (chain_of s h)))"

lemma safe_Remove_it:
  assumes safe: "watchdog_safe s h" and w: "w \<in> set (chain_of s h)"
  shows "watchdog_safe (Watchdog_Remove_it s h w) h"
proof -
  obtain xs ys where chain: "chain_of s h = xs @ w # ys" using w by (auto dest: split_list)
  have dist: "distinct (xs @ w # ys)" using safe chain by (simp add: watchdog_safe_def)
  have chain': "remove1 w (chain_of s h) = xs @ ys" using chain dist by (simp add: remove1_append)
  show ?thesis
    using safe chain dist last_pos_in [of xs]
    by (auto simp: watchdog_safe_def chain' Remove_it_state [OF chain dist] Remove_it_current [OF chain dist])
qed

lemma safe_Tickle_loop:
  assumes q: "quiet svc eff" and "watchdog_safe s h" "chain_of s h = first # ws" "Watchdog_Tickle_loop svc h first s = Some s'"
  shows "watchdog_safe s' h \<and> iterators_of s' h = iterators_of s h"
  using assms(2-4)
proof (induction ws arbitrary: s first)
  case Nil
  then show ?case
    using safe_Remove_it [OF Nil(1), of first] q
    by (subst (asm) Watchdog_Tickle_loop.simps)
      (auto simp: Let_def quiet_def watchdog_safe_def split: if_splits)
next
  case (Cons x ws)
  let ?c = "control (Watchdog_Remove_it s h first) first"
  let ?t = "Watchdog_Remove_it s h first"
  let ?u = "if wd_state (control s first) = WATCHDOG_ACTIVE
            then ?t\<lparr>world := eff (routine ?c) (wd_id ?c) (user_data ?c) (world s)\<rparr> else ?t"
  have safe: "watchdog_safe ?u h" using safe_Remove_it [OF Cons(2), of first] Cons(3) by (simp add: watchdog_safe_def)
  have ct: "chain_of ?t h = x # ws" using Cons(3) by simp
  have chain: "chain_of ?u h = x # ws" "iterators_of ?u h = iterators_of s h" using Cons(3) by simp_all
  have "Watchdog_Tickle_loop svc h first s =
     (if delta_interval (control ?u x) = 0 then Watchdog_Tickle_loop svc h x ?u else Some ?u)"
    using q ct by (subst Watchdog_Tickle_loop.simps) (simp add: Let_def quiet_def del: Remove_it_headers(1))
  then show ?case
    using Cons.IH [OF safe chain(1)] Cons(4) safe chain(2) by (auto split: if_splits)
qed

lemma safe_Tickle:
  assumes q: "quiet svc eff" and safe: "watchdog_safe s h" and t: "Watchdog_Tickle svc h s = Some s'"
  shows "watchdog_safe s' h \<and> iterators_of s' h = iterators_of s h"
proof (cases "chain_of s h")
  case Nil
  then show ?thesis using safe t by (simp add: Watchdog_Tickle_def)
next
  case (Cons first ws)
  have cd: "watchdog_safe (count_down s first k) h" for k using safe by (simp add: watchdog_safe_def)
  have z: "count_down s first 0 = s" by (simp add: count_down_def)
  show ?thesis
  proof (cases "0 < delta_interval (control s first)")
    case True
    then show ?thesis
      using t cd [of 1] safe_Tickle_loop [OF q cd [of 1], of first ws s'] Cons
      by (auto simp: Watchdog_Tickle_count_down [OF Cons True] split: if_splits)
  next
    case False
    then have "Watchdog_Tickle_loop svc h first s = Some s'" using t Cons by (simp add: Watchdog_Tickle_def Let_def word_gt_0)
    then show ?thesis using safe_Tickle_loop [OF q safe Cons] by blast
  qed
qed

lemma chain_insert_after_valid:
  assumes "distinct ns" "n \<notin> set ns" "p \<in> insert Head (Node ` set ns)"
  shows "distinct (chain_insert_after ns p n)" "set (chain_insert_after ns p n) = insert n (set ns)"
proof -
  have "distinct (chain_insert_after ns p n) \<and> set (chain_insert_after ns p n) = insert n (set ns)"
  proof (cases p)
    case (Node x)
    then obtain xs ys where "ns = xs @ x # ys" using assms(3) by (auto dest: split_list)
    then show ?thesis using assms(1,2) Node by (auto simp del: chain_insert_after.simps(2))
  qed (use assms in auto)
  then show "distinct (chain_insert_after ns p n)" "set (chain_insert_after ns p n) = insert n (set ns)" by auto
qed

text \<open>All but the iterator of the running insertion, which has no position before its first window.\<close>

definition safe_except :: "iid \<Rightarrow> 'x Watchdog_Handler \<Rightarrow> header_id \<Rightarrow> bool" where
  "safe_except it s h \<longleftrightarrow> distinct (chain_of s h)
     \<and> (\<forall>w \<in> set (chain_of s h). wd_state (control s w) = WATCHDOG_ACTIVE)
     \<and> distinct (iterators_of s h) \<and> it \<in> set (iterators_of s h)
     \<and> (\<forall>i \<in> set (iterators_of s h). i \<noteq> it \<longrightarrow> current (iterator s i) \<in> insert Head (Node ` set (chain_of s h)))"

lemma safe_Insert_found:
  assumes safe: "safe_except it s h" and w: "w \<notin> set (chain_of s h)" and cur: "cur \<in> insert Head (Node ` set (chain_of s h))"
    and step: "Watchdog_Insert_step h w it s cur delta = Inl s1"
  shows "watchdog_safe (finish_insert h it (Watchdog_Insert_link h w s1 cur delta)) h"
    and "set (iterators_of (finish_insert h it (Watchdog_Insert_link h w s1 cur delta)) h) = set (iterators_of s h) - {it}"
proof -
  let ?r = "finish_insert h it (Watchdog_Insert_link h w s1 cur delta)"
  have S: "distinct (chain_of s h)" "distinct (iterators_of s h)" using safe by (simp_all add: safe_except_def)
  have hd: "headers s1 = headers s" and st: "\<forall>v. wd_state (control s1 v) = wd_state (control s v)"
    using step
    by (auto simp: Watchdog_Insert_step_def Watchdog_Insert_fixup_def Let_def split: chain_pos.splits if_splits)
  have fix_cur: "current (iterator (Watchdog_Insert_fixup s h w d y e) i) \<in> {current (iterator s i), Node w}" for d y e i
    using Insert_fixup_iterators_current [of "iterators_of s h" w y
      "upd_control s y (\<lambda>c. c\<lparr>delta_interval := e - d\<rparr>)" i]
    by (simp add: Watchdog_Insert_fixup_def Let_def)
  have cu: "\<forall>i. current (iterator s1 i) \<in> {current (iterator s i), Node w}"
    using step fix_cur by (auto simp: Watchdog_Insert_step_def Let_def split: chain_pos.splits if_splits)
  have r: "chain_of ?r h = chain_insert_after (chain_of s h) cur w" "iterators_of ?r h = remove1 it (iterators_of s h)"
    "iterator ?r = iterator s1" "\<forall>v. wd_state (control ?r v) = (if v = w then WATCHDOG_ACTIVE else wd_state (control s v))"
    using hd st by (simp_all add: finish_insert_def Watchdog_Insert_link_def Let_def)
  note ch = chain_insert_after_valid [OF S(1) w cur]
  show "set (iterators_of ?r h) = set (iterators_of s h) - {it}" using r(2) S(2) by simp
  have "current (iterator s1 i) \<in> insert Head (Node ` insert w (set (chain_of s h)))"
    if "i \<in> set (iterators_of s h)" "i \<noteq> it" for i
  proof -
    have "current (iterator s i) \<in> insert Head (Node ` set (chain_of s h))"
      using that safe by (simp add: safe_except_def)
    then show ?thesis using cu [rule_format, of i] by auto
  qed
  moreover have "\<forall>v \<in> set (chain_of s h). wd_state (control s v) = WATCHDOG_ACTIVE" using safe by (simp add: safe_except_def)
  ultimately show "watchdog_safe ?r h"
    unfolding watchdog_safe_def r ch(2) using ch(1) S(2) r(4) by (simp add: distinct_remove1)
qed

lemma safe_Insert_wait:
  assumes safe: "safe_except it s h" and step: "Watchdog_Insert_step h w it s cur delta = Inr s1"
    and cur: "cur \<in> insert Head (Node ` set (chain_of s h))"
  shows "watchdog_safe s1 h" "iterators_of s1 h = iterators_of s h"
proof -
  obtain y where y: "chain_next (chain_of s h) cur = Node y"
    and s1: "s1 = upd_iterator s it (\<lambda>i. i\<lparr>it_delta_interval := delta - delta_interval (control s y), current := Node y\<rparr>)"
    using step by (auto simp: Watchdog_Insert_step_def Let_def split: chain_pos.splits if_splits)
  have "y \<in> set (chain_of s h)"
  proof (cases cur)
    case Head
    then show ?thesis using y by (simp split: list.splits)
  next
    case (Node x)
    then obtain xs ys where "chain_of s h = xs @ x # ys" using cur by (auto dest: split_list)
    moreover have "x \<notin> set xs" using safe calculation by (simp add: safe_except_def)
    ultimately show ?thesis
      using y Node chain_next_split [of x xs ys] by (auto simp del: chain_next.simps(2) split: list.splits)
  qed (use cur in auto)
  then show "watchdog_safe s1 h" "iterators_of s1 h = iterators_of s h"
    using safe by (auto simp: s1 watchdog_safe_def safe_except_def)
qed

lemma safe_imp_except: "watchdog_safe s h \<Longrightarrow> it \<in> set (iterators_of s h) \<Longrightarrow> safe_except it s h"
  by (auto simp: watchdog_safe_def safe_except_def)

lemma begin_insert_except:
  assumes "watchdog_safe s h" "it \<notin> set (iterators_of s h)" "wd_state (control s w) = WATCHDOG_INACTIVE"
  shows "safe_except it (begin_insert h w it s) h" "w \<notin> set (chain_of s h)"
  using assms by (auto simp: watchdog_safe_def safe_except_def begin_insert_def)

lemma wd_step_safe:
  assumes q: "quiet svc eff" and "wd_step svc h (s, P) (s', P')" "watchdog_safe s h" "set (iterators_of s h) = dom P"
  shows "watchdog_safe s' h \<and> set (iterators_of s' h) = dom P'"
  using assms(2-4)
proof (cases rule: wd_step.cases)
  case (start_found w it s1)
  have it: "it \<notin> set (iterators_of s h)" using start_found assms(4) by auto
  note B = begin_insert_except [OF assms(3) it start_found(3)]
  show ?thesis
    using safe_Insert_found [OF B(1) _ _ start_found(5)] B(2) it assms(4) start_found(1,2)
    by (simp add: begin_insert_def)
next
  case (start_wait w it)
  have it: "it \<notin> set (iterators_of s h)" using start_wait assms(4) by auto
  note B = begin_insert_except [OF assms(3) it start_wait(2)]
  show ?thesis
    using safe_Insert_wait [OF B(1) start_wait(4)] assms(4) start_wait(1) by (auto simp: begin_insert_def)
next
  case (resume_abort it w)
  then show ?thesis using assms(3,4) by (auto simp: finish_insert_def watchdog_safe_def)
next
  case (resume_found it w s1)
  have it: "it \<in> set (iterators_of s h)" using resume_found assms(4) by auto
  have w: "w \<notin> set (chain_of s h)" using resume_found assms(3) by (auto simp: watchdog_safe_def)
  have cur: "current (iterator s it) \<in> insert Head (Node ` set (chain_of s h))"
    using it assms(3) by (simp add: watchdog_safe_def)
  show ?thesis
    using safe_Insert_found [OF safe_imp_except [OF assms(3) it] w cur] resume_found assms(4) by auto
next
  case (resume_wait it w)
  have it: "it \<in> set (iterators_of s h)" using resume_wait assms(4) by auto
  have cur: "current (iterator s it) \<in> insert Head (Node ` set (chain_of s h))"
    using it assms(3) by (simp add: watchdog_safe_def)
  show ?thesis
    using safe_Insert_wait [OF safe_imp_except [OF assms(3) it] resume_wait(4) cur] resume_wait assms(4) by simp
next
  case (remove w)
  show ?thesis
  proof (cases "wd_state (control s w)")
    case WATCHDOG_ACTIVE
    then show ?thesis
      using remove assms(3,4) safe_Remove_it [OF assms(3)] by (simp add: Watchdog_Remove_def)
  qed (use remove assms(3,4) in \<open>auto simp: Watchdog_Remove_def watchdog_safe_def Let_def\<close>)
next
  case tick
  then show ?thesis using safe_Tickle [OF q assms(3)] assms(4) by simp
qed

subsection \<open>Properties\<close>

text \<open>A handler with two running watchdogs, at \<open>0x10\<close> due in 1 and at \<open>0x20\<close> due in 6, one inactive
  watchdog at \<open>0x30\<close> with an interval of 20, and services that record their ids.\<close>

definition example_control :: "wid \<Rightarrow> Watchdog_Control" where
  "example_control w =
     \<lparr>wd_state = (if w = 0x10 \<or> w = 0x20 then WATCHDOG_ACTIVE else WATCHDOG_INACTIVE), initial = 20,
      delta_interval = (if w = 0x10 then 1 else if w = 0x20 then 5 else 0), start_time = 0, stop_time = 0,
      routine = 0, wd_id = w, user_data = 0\<rparr>"

definition example_handler :: "uint32 list Watchdog_Handler" where
  "example_handler = \<lparr>Ticks_since_boot = 7,
     headers = (\<lambda>h. \<lparr>Watchdogs = (if h = Ticks_header then [0x10, 0x20] else []), Iterators = []\<rparr>),
     control = example_control, iterator = (\<lambda>_. \<lparr>it_delta_interval = 0, current = Head\<rparr>), world = []\<rparr>"

definition record_id :: "addr \<Rightarrow> uint32 \<Rightarrow> addr \<Rightarrow> uint32 list \<Rightarrow> uint32 list" where
  "record_id r i u ids = ids @ [i]"

definition record_service :: "uint32 list service" where
  "record_service r i u s = s\<lparr>world := record_id r i u (world s)\<rparr>"

lemma record_service_quiet: "quiet record_service record_id"
  by (simp add: quiet_def record_service_def)

lemma example_handler_inv: "watchdog_inv example_handler Ticks_header" "none_due example_handler Ticks_header"
  by (simp_all add: watchdog_inv_def example_handler_def example_control_def)

lemma sorted_insert_filter:
  "sorted (map snd es) \<Longrightarrow> filter (\<lambda>(v, t). t \<le> n) (timer_insert w n es) = filter (\<lambda>(v, t). t \<le> n) es @ [(w, n)]"
proof (induction es)
  case (Cons e es)
  have "filter (\<lambda>(v, t). t \<le> n) es = []" if "n < snd e"
    using Cons.prems that by (fastforce simp: filter_empty_conv)
  then show ?case using Cons by (cases e) auto
qed simp

lemma timer_insert_length: "length (timer_insert w t es) = Suc (length es)"
  by (induction es) auto

lemma timer_insert_set: "set (timer_insert w t es) = insert (w, t) (set es)"
  by (induction es) auto

lemma timer_insert_bound: "list_all (\<lambda>(v, t). p t) (timer_insert w n es) \<longleftrightarrow> p n \<and> list_all (\<lambda>(v, t). p t) es"
  by (auto simp: list_all_iff timer_insert_set)

lemma Watchdog_Insert_inv:
  assumes inv: "watchdog_inv s h" and w: "wd_state (control s w) = WATCHDOG_INACTIVE"
    and it: "it \<notin> set (iterators_of s h)"
  obtains s' where "Watchdog_Insert (\<lambda>s. s) it s h w = Some s'" "watchdog_inv s' h"
    "expiry s' h = timer_insert w (unat (initial (control s w))) (expiry s h)"
    "same_but (set (chain_of s h)) ((control s)(w := control s' w)) (control s')" "world s' = world s"
proof -
  note I = watchdog_invD [OF inv]
  have nw: "w \<notin> set (chain_of s h)" using I(2) w by auto
  obtain s' zs where A: "Watchdog_Insert (\<lambda>s. s) it s h w = Some s'"
    "headers s' = (headers s)(h := (headers s h)\<lparr>Watchdogs := zs\<rparr>)"
    "expiries (control s') 0 zs = timer_insert w (unat (initial (control s w))) (expiry s h)"
    "wd_state (control s' w) = WATCHDOG_ACTIVE"
    "same_but (set (chain_of s h)) ((control s)(w := control s' w)) (control s')" "world s' = world s"
    "\<forall>i. i \<noteq> it \<longrightarrow> current (iterator s' i) \<in> {current (iterator s i), Node w}"
    using Watchdog_Insert_atomic [OF I(1) nw w it] by blast
  have zs: "zs = map fst (timer_insert w (unat (initial (control s w))) (expiry s h))"
    using A(3) expiries_fst by metis
  have keys: "fst ` set (expiry s h) = set (chain_of s h)" "length (expiry s h) = length (chain_of s h)"
    using expiries_fst [of "control s" 0 "chain_of s h"] by (metis image_set, metis length_map)
  have set_zs: "set zs = insert w (set (chain_of s h))" unfolding zs by (simp add: timer_insert_set keys)
  have "length zs = Suc (length (chain_of s h))" unfolding zs by (simp add: timer_insert_length keys)
  then have dist: "distinct zs" using set_zs nw I(1) by (simp add: card_distinct distinct_card)
  have "watchdog_inv s' h"
  proof (rule watchdog_invI)
    show "\<forall>v \<in> set (chain_of s' h). wd_state (control s' v) = WATCHDOG_ACTIVE"
    proof
      fix v assume "v \<in> set (chain_of s' h)"
      then have "v = w \<or> v \<in> set (chain_of s h)" using A(2) set_zs by simp
      then show "wd_state (control s' v) = WATCHDOG_ACTIVE"
        using A(4) I(2) same_but_state [OF A(5), of v] by auto
    qed
    show "\<forall>(v, t) \<in> set (expiry s' h). t < 2 ^ 32"
      using A(2,3) I(3) unsigned_less [of "initial (control s w)"] by (auto simp: timer_insert_set)
    show "\<forall>i \<in> set (iterators_of s' h). current (iterator s' i) \<in> insert Head (Node ` set (chain_of s' h))"
    proof
      fix i assume "i \<in> set (iterators_of s' h)"
      then have "i \<in> set (iterators_of s h)" "i \<noteq> it" using A(2) it by auto
      then have "current (iterator s i) \<in> insert Head (Node ` set (chain_of s h))"
        "current (iterator s' i) \<in> {current (iterator s i), Node w}" using I(4) A(7) by blast+
      then show "current (iterator s' i) \<in> insert Head (Node ` set (chain_of s' h))"
        unfolding A(2) by (simp add: set_zs) auto
    qed
  qed (use A(2) dist in simp)
  then show thesis using that A by simp
qed



text \<open>C13: Removing a watchdog returns its previous state; an active one leaves the chain and becomes
  inactive while every other watchdog of the chain keeps its expiry time, a waiting insertion is marked
  for abortion, and an inactive one changes nothing. The invariant of the header is kept.\<close>

theorem Watchdog_Remove_keeps_expiries:
  assumes inv: "watchdog_inv s h" and on: "wd_state (control s w) = WATCHDOG_ACTIVE \<longrightarrow> w \<in> set (chain_of s h)"
    and r: "Watchdog_Remove s h w = (s', previous)"
  shows "previous = wd_state (control s w) \<and> wd_state (control s' w) = WATCHDOG_INACTIVE
    \<and> expiry s' h = filter (\<lambda>(v, t). v \<noteq> w) (expiry s h) \<and> watchdog_inv s' h
    \<and> (previous = WATCHDOG_INACTIVE \<longrightarrow> s' = s)"
proof (cases "wd_state (control s w)")
  case WATCHDOG_ACTIVE
  then have w: "w \<in> set (chain_of s h)" and s': "s' = Watchdog_Remove_it s h w" and p: "previous = WATCHDOG_ACTIVE"
    using on r by (simp_all add: Watchdog_Remove_def)
  obtain xs ys where chain: "chain_of s h = xs @ w # ys" using w by (auto dest: split_list)
  then have "distinct (xs @ w # ys)" using watchdog_invD(1) [OF inv] by simp
  from Remove_it_state [OF chain this, of w] have "wd_state (control s' w) = WATCHDOG_INACTIVE" by (simp add: s')
  then show ?thesis using Remove_it_inv [OF inv w] WATCHDOG_ACTIVE p s' by simp
next
  case WATCHDOG_INACTIVE
  have "w \<notin> set (chain_of s h)" using watchdog_invD(2) [OF inv] WATCHDOG_INACTIVE by auto
  then have "filter (\<lambda>(v, t). v \<noteq> w) (expiry s h) = expiry s h" by (rule expiries_filter_absent)
  then show ?thesis using r WATCHDOG_INACTIVE inv by (auto simp: Watchdog_Remove_def)
next
  case WATCHDOG_BEING_INSERTED
  have nw: "w \<notin> set (chain_of s h)" using watchdog_invD(2) [OF inv] WATCHDOG_BEING_INSERTED by auto
  then have "filter (\<lambda>(v, t). v \<noteq> w) (expiry s h) = expiry s h" by (rule expiries_filter_absent)
  moreover have ex: "expiry s' h = expiry s h" "chain_of s' h = chain_of s h"
    "iterators_of s' h = iterators_of s h" "iterator s' = iterator s"
    using r WATCHDOG_BEING_INSERTED by (auto simp: Watchdog_Remove_def Let_def intro!: expiries_cong)
  moreover have "\<forall>v \<in> set (chain_of s h). wd_state (control s' v) = wd_state (control s v)"
    "previous = WATCHDOG_BEING_INSERTED" "wd_state (control s' w) = WATCHDOG_INACTIVE"
    using r nw WATCHDOG_BEING_INSERTED by (auto simp: Watchdog_Remove_def Let_def)
  moreover from calculation have "watchdog_inv s' h" using watchdog_invD [OF inv] by (intro watchdog_invI) auto
  ultimately show ?thesis using WATCHDOG_BEING_INSERTED by simp
qed

theorem Watchdog_Remove_keeps_expiries_witness:
  "\<exists>s'. Watchdog_Remove example_handler Ticks_header 0x10 = (s', WATCHDOG_ACTIVE)
    \<and> expiry s' Ticks_header = [(0x20, 6)] \<and> watchdog_inv s' Ticks_header"
proof -
  obtain s' p where r: "Watchdog_Remove example_handler Ticks_header 0x10 = (s', p)" by fastforce
  have "filter (\<lambda>(v, t). v \<noteq> 0x10) (expiry example_handler Ticks_header) = [(0x20, 6)]"
    "wd_state (control example_handler 0x10) = WATCHDOG_ACTIVE" "0x10 \<in> set (chain_of example_handler Ticks_header)"
    by (simp_all add: example_handler_def example_control_def)
  then show ?thesis
    using Watchdog_Remove_keeps_expiries [OF example_handler_inv(1) _ r] r by simp
qed






end
