(* ===== verification/Score_ThreadQ.thy ===== *)
theory Score_ThreadQ
  imports Score_Scheduler Score_Watchdog "HOL-Library.Monad_Syntax"
begin

text \<open>
  Thread queues and thread priorities (\<^verbatim>\<open>src/librtems/score/thread/threadq*.c\<close>, \<^verbatim>\<open>threadtimeout.c\<close>,
  \<^verbatim>\<open>threadchangepriority.c\<close>, \<^verbatim>\<open>threadsetpriority.c\<close>, with \<^verbatim>\<open>threadqimpl.h\<close> and \<^verbatim>\<open>threadimpl.h\<close>). A thread queue is known by its
  address; its discipline is the set of operations it was initialized with. A thread that blocks with a timeout
  starts the watchdog \<open>Timer\<close> of its control block, which has the address of the thread here.

  The operations that block or unblock change the threads and the watchdogs: they work on the watchdog handler whose \<open>world\<close>
  is the kernel. Where the source enables interrupts in the middle of an operation, what the interrupts do there is a
  parameter. \<open>None\<close> stands for a loop that does not end and for a call of an operation that the default set does not have.
\<close>

type_synonym System = "Kernel Watchdog_Handler"

definition on_kernel :: "(Kernel \<Rightarrow> Kernel) \<Rightarrow> System \<Rightarrow> System" where
  [simp]: "on_kernel f s = s\<lparr>world := f (world s)\<rparr>"

definition try_kernel :: "(Kernel \<Rightarrow> Kernel option) \<Rightarrow> System \<Rightarrow> System option" where
  "try_kernel f s = map_option (\<lambda>k. s\<lparr>world := k\<rparr>) (f (world s))"

subsection \<open>Disciplines\<close>

definition Thread_queue_Compare_priority :: "Kernel \<Rightarrow> RBTree_Compare" where
  "Thread_queue_Compare_priority k left right =
     (let left_prio = current_priority (threads k left); right_prio = current_priority (threads k right)
      in of_bool (left_prio > right_prio) - of_bool (left_prio < right_prio))"

definition Thread_queue_FIFO_initialize :: "addr \<Rightarrow> Kernel \<Rightarrow> Kernel" where
  "Thread_queue_FIFO_initialize q k = k\<lparr>wait_chain := Chain_Initialize_empty (wait_chain k) q\<rparr>"

definition Thread_queue_FIFO_enqueue :: "addr \<Rightarrow> addr \<Rightarrow> Kernel \<Rightarrow> Kernel option" where
  "Thread_queue_FIFO_enqueue q t k = Some (k\<lparr>wait_chain := Chain_Append (wait_chain k) q t\<rparr>)"

definition Thread_queue_FIFO_extract :: "addr \<Rightarrow> addr \<Rightarrow> Kernel \<Rightarrow> Kernel option" where
  "Thread_queue_FIFO_extract q t k = Some (k\<lparr>wait_chain := Chain_Extract (wait_chain k) t\<rparr>)"

definition Thread_queue_FIFO_first :: "addr \<Rightarrow> Kernel \<Rightarrow> addr" where
  "Thread_queue_FIFO_first q k = (if Chain_Is_empty (wait_chain k) q then NULL else Chain_First (wait_chain k) q)"

definition Thread_queue_Priority_initialize :: "addr \<Rightarrow> Kernel \<Rightarrow> Kernel" where
  "Thread_queue_Priority_initialize q k = k\<lparr>wait_tree := (wait_tree k)(q := RBTree_Initialize_empty q (wait_tree k q))\<rparr>"

definition Thread_queue_Priority_enqueue :: "addr \<Rightarrow> addr \<Rightarrow> Kernel \<Rightarrow> Kernel option" where
  "Thread_queue_Priority_enqueue q t k =
     map_option (\<lambda>(tree, _). k\<lparr>wait_tree := (wait_tree k)(q := tree)\<rparr>)
       (RBTree_Insert q t (Thread_queue_Compare_priority k) False (wait_tree k q))"

definition Thread_queue_Priority_extract :: "addr \<Rightarrow> addr \<Rightarrow> Kernel \<Rightarrow> Kernel option" where
  "Thread_queue_Priority_extract q t k =
     map_option (\<lambda>tree. k\<lparr>wait_tree := (wait_tree k)(q := tree)\<rparr>) (RBTree_Extract q t (wait_tree k q))"

definition Thread_queue_Priority_first :: "addr \<Rightarrow> Kernel \<Rightarrow> addr" where
  "Thread_queue_Priority_first q k =
     (let first = RBTree_First (wait_tree k q) q RBT_LEFT in if first \<noteq> NULL then first else NULL)"

definition Thread_queue_Priority_priority_change :: "addr \<Rightarrow> Priority_Control \<Rightarrow> addr \<Rightarrow> Kernel \<Rightarrow> Kernel option" where
  "Thread_queue_Priority_priority_change t new_priority q k = do {
     k \<leftarrow> Thread_queue_Priority_extract q t k;
     Thread_queue_Priority_enqueue q t k
   }"

text \<open>The tables of operations.\<close>

fun ops_enqueue :: "Thread_queue_Operations \<Rightarrow> addr \<Rightarrow> addr \<Rightarrow> Kernel \<Rightarrow> Kernel option" where
  "ops_enqueue Thread_queue_Operations_default q t k = None"
| "ops_enqueue Thread_queue_Operations_FIFO q t k = Thread_queue_FIFO_enqueue q t k"
| "ops_enqueue Thread_queue_Operations_priority q t k = Thread_queue_Priority_enqueue q t k"

fun ops_extract :: "Thread_queue_Operations \<Rightarrow> addr \<Rightarrow> addr \<Rightarrow> Kernel \<Rightarrow> Kernel option" where
  "ops_extract Thread_queue_Operations_default q t k = Some k"
| "ops_extract Thread_queue_Operations_FIFO q t k = Thread_queue_FIFO_extract q t k"
| "ops_extract Thread_queue_Operations_priority q t k = Thread_queue_Priority_extract q t k"

fun ops_first :: "Thread_queue_Operations \<Rightarrow> addr \<Rightarrow> Kernel \<Rightarrow> addr option" where
  "ops_first Thread_queue_Operations_default q k = None"
| "ops_first Thread_queue_Operations_FIFO q k = Some (Thread_queue_FIFO_first q k)"
| "ops_first Thread_queue_Operations_priority q k = Some (Thread_queue_Priority_first q k)"

fun ops_priority_change :: "Thread_queue_Operations \<Rightarrow> addr \<Rightarrow> Priority_Control \<Rightarrow> addr \<Rightarrow> Kernel \<Rightarrow> Kernel option" where
  "ops_priority_change Thread_queue_Operations_priority t new_priority q k = Thread_queue_Priority_priority_change t new_priority q k"
| "ops_priority_change _ t new_priority q k = Some k"

datatype Thread_queue_Disciplines = THREAD_QUEUE_DISCIPLINE_FIFO | THREAD_QUEUE_DISCIPLINE_PRIORITY

definition Thread_queue_Initialize :: "addr \<Rightarrow> Thread_queue_Disciplines \<Rightarrow> Kernel \<Rightarrow> Kernel" where
  "Thread_queue_Initialize q the_discipline k =
     (if the_discipline = THREAD_QUEUE_DISCIPLINE_PRIORITY
      then let k = k\<lparr>queue_operations := (queue_operations k)(q := Thread_queue_Operations_priority)\<rparr>
           in Thread_queue_Priority_initialize q k
      else let k = k\<lparr>queue_operations := (queue_operations k)(q := Thread_queue_Operations_FIFO)\<rparr>
           in Thread_queue_FIFO_initialize q k)"

definition Thread_queue_First_locked :: "addr \<Rightarrow> Kernel \<Rightarrow> addr option" where
  "Thread_queue_First_locked q k = ops_first (queue_operations k q) q k"

definition Thread_queue_First :: "addr \<Rightarrow> Kernel \<Rightarrow> addr option" where
  "Thread_queue_First q k = Thread_queue_First_locked q k"

subsection \<open>Wait flags\<close>

abbreviation THREAD_WAIT_STATE_INTEND_TO_BLOCK :: Thread_Wait_flags where "THREAD_WAIT_STATE_INTEND_TO_BLOCK \<equiv> 1"
abbreviation THREAD_WAIT_STATE_BLOCKED :: Thread_Wait_flags where "THREAD_WAIT_STATE_BLOCKED \<equiv> 2"
abbreviation THREAD_WAIT_STATE_READY_AGAIN :: Thread_Wait_flags where "THREAD_WAIT_STATE_READY_AGAIN \<equiv> 4"
abbreviation THREAD_WAIT_CLASS_MASK :: Thread_Wait_flags where "THREAD_WAIT_CLASS_MASK \<equiv> 0xff00"
abbreviation THREAD_WAIT_CLASS_OBJECT :: Thread_Wait_flags where "THREAD_WAIT_CLASS_OBJECT \<equiv> 0x400"

definition THREAD_QUEUE_INTEND_TO_BLOCK :: Thread_Wait_flags where
  "THREAD_QUEUE_INTEND_TO_BLOCK = THREAD_WAIT_CLASS_OBJECT OR THREAD_WAIT_STATE_INTEND_TO_BLOCK"

definition THREAD_QUEUE_BLOCKED :: Thread_Wait_flags where
  "THREAD_QUEUE_BLOCKED = THREAD_WAIT_CLASS_OBJECT OR THREAD_WAIT_STATE_BLOCKED"

definition THREAD_QUEUE_READY_AGAIN :: Thread_Wait_flags where
  "THREAD_QUEUE_READY_AGAIN = THREAD_WAIT_CLASS_OBJECT OR THREAD_WAIT_STATE_READY_AGAIN"

definition Thread_Wait_flags_set :: "addr \<Rightarrow> Thread_Wait_flags \<Rightarrow> Kernel \<Rightarrow> Kernel" where
  "Thread_Wait_flags_set t flags k = upd_wait t (\<lambda>w. w\<lparr>wait_flags := flags\<rparr>) k"

definition Thread_Wait_flags_get :: "addr \<Rightarrow> Kernel \<Rightarrow> Thread_Wait_flags" where
  "Thread_Wait_flags_get t k = wait_flags (Wait (threads k t))"

definition Thread_Wait_flags_try_change :: "addr \<Rightarrow> Thread_Wait_flags \<Rightarrow> Thread_Wait_flags \<Rightarrow> Kernel \<Rightarrow> Kernel \<times> bool" where
  "Thread_Wait_flags_try_change t expected_flags desired_flags k =
     (let success = (wait_flags (Wait (threads k t)) = expected_flags)
      in (if success then upd_wait t (\<lambda>w. w\<lparr>wait_flags := desired_flags\<rparr>) k else k, success))"

definition Thread_Wait_set_queue :: "addr \<Rightarrow> addr \<Rightarrow> Kernel \<Rightarrow> Kernel" where
  "Thread_Wait_set_queue t q k = upd_wait t (\<lambda>w. w\<lparr>wait_queue := q\<rparr>) k"

definition Thread_Wait_set_operations :: "addr \<Rightarrow> Thread_queue_Operations \<Rightarrow> Kernel \<Rightarrow> Kernel" where
  "Thread_Wait_set_operations t ops k = upd_wait t (\<lambda>w. w\<lparr>operations := ops\<rparr>) k"

definition Thread_Wait_restore_default_operations :: "addr \<Rightarrow> Kernel \<Rightarrow> Kernel" where
  "Thread_Wait_restore_default_operations t k = upd_wait t (\<lambda>w. w\<lparr>operations := Thread_queue_Operations_default\<rparr>) k"

definition Thread_Wait_set_timeout_code :: "addr \<Rightarrow> uint32 \<Rightarrow> Kernel \<Rightarrow> Kernel" where
  "Thread_Wait_set_timeout_code t code k = upd_wait t (\<lambda>w. w\<lparr>timeout_code := code\<rparr>) k"

subsection \<open>Blocking and unblocking\<close>

abbreviation WATCHDOG_NO_TIMEOUT :: Watchdog_Interval where "WATCHDOG_NO_TIMEOUT \<equiv> 0"

definition Thread_queue_Unblock :: "addr \<Rightarrow> System \<Rightarrow> System" where
  "Thread_queue_Unblock t s = (let s = fst (Watchdog_Remove s Ticks_header t) in on_kernel (Thread_Unblock t) s)"

text \<open>\<open>isr n\<close> is what interrupts do at the points where they are enabled: after the release of the queue, after the
  thread has got its state, in the windows of the watchdog insertion and after it. \<open>it\<close> is the iterator of the insertion and
  \<open>timeout_routine\<close> the address of \<open>_Thread_Timeout\<close>.\<close>

definition Thread_queue_Enqueue_critical ::
  "(nat \<Rightarrow> System \<Rightarrow> System) \<Rightarrow> iid \<Rightarrow> addr \<Rightarrow> addr \<Rightarrow> addr \<Rightarrow> States_Control \<Rightarrow> Watchdog_Interval \<Rightarrow> uint32 \<Rightarrow> System \<Rightarrow> System option" where
  "Thread_queue_Enqueue_critical isr it timeout_routine q t state timeout code s =
     (let ops = queue_operations (world s) q;
          s = on_kernel (Thread_Wait_set_queue t q) s;
          s = on_kernel (Thread_Wait_set_operations t ops) s in
      do {
        s \<leftarrow> try_kernel (ops_enqueue ops q t) s;
        let s = on_kernel (Thread_Wait_flags_set t THREAD_QUEUE_INTEND_TO_BLOCK) s;
        let s = on_kernel Thread_Dispatch_disable s;
        let s = isr 0 s;
        let s = on_kernel (\<lambda>k. fst (Thread_Set_state t state k)) s;
        let s = isr 1 s;
        s \<leftarrow> (if timeout \<noteq> WATCHDOG_NO_TIMEOUT
             then let s = on_kernel (Thread_Wait_set_timeout_code t code) s;
                      s = Watchdog_Initialize s t timeout_routine 0 t
                  in Watchdog_Insert_ticks (isr 2) it s t timeout
             else Some s);
        let s = isr 3 s;
        let (k, success) = Thread_Wait_flags_try_change t THREAD_QUEUE_INTEND_TO_BLOCK THREAD_QUEUE_BLOCKED (world s);
        let s = s\<lparr>world := k\<rparr>;
        let s = (if \<not> success then Thread_queue_Unblock t s else s);
        Some (on_kernel Thread_Dispatch_enable s)
      })"

definition Thread_queue_Extract_locked :: "addr \<Rightarrow> addr \<Rightarrow> Kernel \<Rightarrow> Kernel option" where
  "Thread_queue_Extract_locked q t k = do {
     k \<leftarrow> ops_extract (queue_operations k q) q t k;
     let k = Thread_Wait_set_queue t NULL k;
     Some (Thread_Wait_restore_default_operations t k)
   }"

definition Thread_queue_Unblock_critical :: "addr \<Rightarrow> addr \<Rightarrow> System \<Rightarrow> System" where
  "Thread_queue_Unblock_critical q t s =
     (let (k, success) = Thread_Wait_flags_try_change t THREAD_QUEUE_INTEND_TO_BLOCK THREAD_QUEUE_READY_AGAIN (world s);
          s = s\<lparr>world := k\<rparr> in
      if success then s
      else let s = on_kernel (Thread_Wait_flags_set t THREAD_QUEUE_READY_AGAIN) s;
               s = on_kernel Thread_Dispatch_disable s;
               s = Thread_queue_Unblock t s
           in on_kernel Thread_Dispatch_enable s)"

definition Thread_queue_Extract_critical :: "addr \<Rightarrow> addr \<Rightarrow> System \<Rightarrow> System option" where
  "Thread_queue_Extract_critical q t s = do {
     s \<leftarrow> try_kernel (Thread_queue_Extract_locked q t) s;
     Some (Thread_queue_Unblock_critical q t s)
   }"

definition Thread_queue_Extract :: "addr \<Rightarrow> System \<Rightarrow> System option" where
  "Thread_queue_Extract t s =
     (let q = wait_queue (Wait (threads (world s) t)) in
      if q \<noteq> NULL then Thread_queue_Extract_critical q t s else Some s)"

definition Thread_queue_Dequeue :: "addr \<Rightarrow> System \<Rightarrow> (System \<times> addr) option" where
  "Thread_queue_Dequeue q s = do {
     t \<leftarrow> Thread_queue_First_locked q (world s);
     if t \<noteq> NULL then do { s \<leftarrow> Thread_queue_Extract_critical q t s; Some (s, t) }
     else Some (s, NULL)
   }"

partial_function (option) Thread_queue_Flush :: "addr \<Rightarrow> uint32 \<Rightarrow> System \<Rightarrow> System option" where
  "Thread_queue_Flush q status s = do {
     t \<leftarrow> Thread_queue_First_locked q (world s);
     if t \<noteq> NULL
     then do {
       let s = on_kernel (upd_wait t (\<lambda>w. w\<lparr>return_code := status\<rparr>)) s;
       s \<leftarrow> Thread_queue_Extract_critical q t s;
       Thread_queue_Flush q status s
     }
     else Some s
   }"

declare Thread_queue_Flush.simps [code]

subsection \<open>Timeout\<close>

definition Thread_Do_timeout :: "addr \<Rightarrow> Kernel \<Rightarrow> Kernel option" where
  "Thread_Do_timeout t k = do {
     let k = upd_wait t (\<lambda>w. w\<lparr>return_code := timeout_code w\<rparr>) k;
     k \<leftarrow> ops_extract (operations (Wait (threads k t))) (wait_queue (Wait (threads k t))) t k;
     let k = Thread_Wait_set_queue t NULL k;
     Some (Thread_Wait_restore_default_operations t k)
   }"

definition Thread_Timeout :: "addr \<Rightarrow> Kernel \<Rightarrow> Kernel option" where
  "Thread_Timeout t k =
     (let flags = Thread_Wait_flags_get t k in
      if flags AND THREAD_WAIT_STATE_READY_AGAIN = 0
      then do {
        k \<leftarrow> Thread_Do_timeout t k;
        let wait_class = flags AND THREAD_WAIT_CLASS_MASK;
        let ready_again = wait_class OR THREAD_WAIT_STATE_READY_AGAIN;
        let (k, success) = Thread_Wait_flags_try_change t (wait_class OR THREAD_WAIT_STATE_INTEND_TO_BLOCK) ready_again k;
        Some (if success then k else Thread_Unblock t (Thread_Wait_flags_set t ready_again k))
      }
      else Some k)"

subsection \<open>Priorities\<close>

definition Thread_Priority_less_than :: "Priority_Control \<Rightarrow> Priority_Control \<Rightarrow> bool" where
  "Thread_Priority_less_than left right = (left > right)"

definition Thread_Owns_resources :: "addr \<Rightarrow> Kernel \<Rightarrow> bool" where
  "Thread_Owns_resources t k = (resource_count (threads k t) \<noteq> 0)"

text \<open>A filter may change the thread and the new priority, and decides whether the priority is changed.\<close>

type_synonym Thread_Change_priority_filter = "addr \<Rightarrow> Priority_Control \<Rightarrow> Kernel \<Rightarrow> Kernel \<times> Priority_Control \<times> bool"

definition Thread_Change_priority ::
  "addr \<Rightarrow> Priority_Control \<Rightarrow> Thread_Change_priority_filter \<Rightarrow> bool \<Rightarrow> Kernel \<Rightarrow> Kernel option" where
  "Thread_Change_priority t new_priority filt prepend_it k =
     (let k = upd_thread t (\<lambda>c. c\<lparr>priority_restore_hint := True\<rparr>) k;
          (k, new_priority, change) = filt t new_priority k in
      if change
      then do {
        let my_generation = priority_generation (threads k t) + 1;
        let k = upd_thread t (\<lambda>c. c\<lparr>current_priority := new_priority, priority_generation := my_generation\<rparr>) k;
        k \<leftarrow> ops_priority_change (operations (Wait (threads k t))) t new_priority (wait_queue (Wait (threads k t))) k;
        Some (if priority_generation (threads k t) = my_generation
              then if States_Is_ready (current_state (threads k t))
                   then Scheduler_priority_Change_priority t new_priority prepend_it k
                   else Scheduler_priority_Update_priority t new_priority k
              else k)
      }
      else Some k)"

definition Thread_Raise_priority_filter :: Thread_Change_priority_filter where
  "Thread_Raise_priority_filter t new_priority k =
     (k, new_priority, Thread_Priority_less_than (current_priority (threads k t)) new_priority)"

definition Thread_Raise_priority :: "addr \<Rightarrow> Priority_Control \<Rightarrow> Kernel \<Rightarrow> Kernel option" where
  "Thread_Raise_priority t new_priority k = Thread_Change_priority t new_priority Thread_Raise_priority_filter False k"

definition Thread_Restore_priority_filter :: Thread_Change_priority_filter where
  "Thread_Restore_priority_filter t new_priority k =
     (let new_priority = real_priority (threads k t);
          k = upd_thread t (\<lambda>c. c\<lparr>priority_restore_hint := False\<rparr>) k
      in (k, new_priority, new_priority \<noteq> current_priority (threads k t)))"

definition Thread_Restore_priority :: "addr \<Rightarrow> Kernel \<Rightarrow> Kernel option" where
  "Thread_Restore_priority t k = Thread_Change_priority t 0 Thread_Restore_priority_filter True k"

definition Thread_Set_priority_filter :: Thread_Change_priority_filter where
  "Thread_Set_priority_filter t new_priority k =
     (let cur = current_priority (threads k t);
          k = upd_thread t (\<lambda>c. c\<lparr>real_priority := new_priority\<rparr>) k
      in (k, new_priority, Thread_Priority_less_than cur new_priority \<or> \<not> Thread_Owns_resources t k))"

text \<open>The second component of the result is \<open>*old_priority\<close>.\<close>

definition Thread_Set_priority :: "addr \<Rightarrow> Priority_Control \<Rightarrow> bool \<Rightarrow> Kernel \<Rightarrow> (Kernel \<times> Priority_Control) option" where
  "Thread_Set_priority t new_priority prepend_it k =
     map_option (\<lambda>k'. (k', current_priority (threads k t))) (Thread_Change_priority t new_priority Thread_Set_priority_filter prepend_it k)"

end
