(* ===== verification/Score_Mutex.thy ===== *)
theory Score_Mutex
  imports Score_ThreadQ
begin

text \<open>
  Mutexes (\<^verbatim>\<open>src/librtems/score/core/coremutex*.c\<close> and \<^verbatim>\<open>coremuteximpl.h\<close>) with nesting, the priority inheritance and the priority
  ceiling protocol. A mutex is known by its address, which is the address of its thread queue. \<open>RTEMS_POSIX_API\<close> and
  \<open>__RTEMS_STRICT_ORDER_MUTEX__\<close> are not defined, so that nesting is never an error and mutexes may be released in any order.

  The windows of \<open>_Thread_queue_Enqueue_critical\<close> are numbered 0 to 3; the mutexes add window 4, where the priority of the
  holder is about to be raised, and window 5 after that. A surrender may switch to the thread that gets the mutex before it restores the priority of
  the previous holder; \<open>resume\<close> is everything that happens until the previous holder goes on.
\<close>

abbreviation CORE_MUTEX_STATUS_SUCCESSFUL :: uint32 where "CORE_MUTEX_STATUS_SUCCESSFUL \<equiv> 0"
abbreviation CORE_MUTEX_STATUS_UNSATISFIED_NOWAIT :: uint32 where "CORE_MUTEX_STATUS_UNSATISFIED_NOWAIT \<equiv> 1"
abbreviation CORE_MUTEX_STATUS_NOT_OWNER_OF_RESOURCE :: uint32 where "CORE_MUTEX_STATUS_NOT_OWNER_OF_RESOURCE \<equiv> 2"
abbreviation CORE_MUTEX_WAS_DELETED :: uint32 where "CORE_MUTEX_WAS_DELETED \<equiv> 3"
abbreviation CORE_MUTEX_TIMEOUT :: uint32 where "CORE_MUTEX_TIMEOUT \<equiv> 4"
abbreviation CORE_MUTEX_STATUS_CEILING_VIOLATED :: uint32 where "CORE_MUTEX_STATUS_CEILING_VIOLATED \<equiv> 5"

abbreviation STATES_WAITING_FOR_MUTEX :: States_Control where "STATES_WAITING_FOR_MUTEX \<equiv> 0x400"
abbreviation SYSTEM_STATE_UP :: uint32 where "SYSTEM_STATE_UP \<equiv> 2"
abbreviation INTERNAL_ERROR_MUTEX_OBTAIN_FROM_BAD_STATE :: uint32 where "INTERNAL_ERROR_MUTEX_OBTAIN_FROM_BAD_STATE \<equiv> 18"

definition upd_mutex :: "addr \<Rightarrow> (CORE_mutex_Control \<Rightarrow> CORE_mutex_Control) \<Rightarrow> Kernel \<Rightarrow> Kernel" where
  "upd_mutex q f k = k\<lparr>mutexes := (mutexes k)(q := f (mutexes k q))\<rparr>"

definition CORE_mutex_Is_locked :: "CORE_mutex_Control \<Rightarrow> bool" where
  "CORE_mutex_Is_locked the_mutex = (holder the_mutex \<noteq> NULL)"

definition CORE_mutex_Is_fifo :: "CORE_mutex_Attributes \<Rightarrow> bool" where
  "CORE_mutex_Is_fifo the_attribute = (mutex_discipline the_attribute = CORE_MUTEX_DISCIPLINES_FIFO)"

definition CORE_mutex_Is_inherit_priority :: "CORE_mutex_Attributes \<Rightarrow> bool" where
  "CORE_mutex_Is_inherit_priority the_attribute = (mutex_discipline the_attribute = CORE_MUTEX_DISCIPLINES_PRIORITY_INHERIT)"

definition CORE_mutex_Is_priority_ceiling :: "CORE_mutex_Attributes \<Rightarrow> bool" where
  "CORE_mutex_Is_priority_ceiling the_attribute = (mutex_discipline the_attribute = CORE_MUTEX_DISCIPLINES_PRIORITY_CEILING)"

definition Thread_Is_executing :: "addr \<Rightarrow> Kernel \<Rightarrow> bool" where
  "Thread_Is_executing the_thread k = (the_thread = Thread_Executing k)"

definition Thread_Dispatch_is_enabled :: "Kernel \<Rightarrow> bool" where
  "Thread_Dispatch_is_enabled k = (Thread_Dispatch_disable_level k = 0)"

subsection \<open>Initialization\<close>

definition CORE_mutex_Initialize :: "addr \<Rightarrow> addr \<Rightarrow> CORE_mutex_Attributes \<Rightarrow> bool \<Rightarrow> Kernel \<Rightarrow> (Kernel \<times> uint32) option" where
  "CORE_mutex_Initialize the_mutex executing the_mutex_attributes initially_locked k =
     (let is_priority_ceiling = CORE_mutex_Is_priority_ceiling the_mutex_attributes;
          ceiling = priority_ceiling the_mutex_attributes;
          k = upd_mutex the_mutex (\<lambda>m. m\<lparr>Attributes := the_mutex_attributes\<rparr>) k;
          queue = Thread_queue_Initialize the_mutex
            (if CORE_mutex_Is_fifo the_mutex_attributes then THREAD_QUEUE_DISCIPLINE_FIFO else THREAD_QUEUE_DISCIPLINE_PRIORITY) in
      if initially_locked
      then let k = upd_mutex the_mutex (\<lambda>m. m\<lparr>nest_count := 1, holder := executing\<rparr>) k in
           if is_priority_ceiling \<or> CORE_mutex_Is_inherit_priority the_mutex_attributes
           then let k = Thread_Dispatch_disable k in
                if is_priority_ceiling \<and> current_priority (threads k executing) < ceiling
                then Some (Thread_Dispatch_enable k, CORE_MUTEX_STATUS_CEILING_VIOLATED)
                else do {
                  let k = upd_thread executing (\<lambda>c. c\<lparr>resource_count := resource_count c + 1\<rparr>) k;
                  k \<leftarrow> (if is_priority_ceiling then Thread_Raise_priority executing ceiling k else Some k);
                  Some (queue (Thread_Dispatch_enable k), CORE_MUTEX_STATUS_SUCCESSFUL)
                }
           else Some (queue k, CORE_MUTEX_STATUS_SUCCESSFUL)
      else Some (queue (upd_mutex the_mutex (\<lambda>m. m\<lparr>nest_count := 0, holder := NULL\<rparr>) k), CORE_MUTEX_STATUS_SUCCESSFUL))"

subsection \<open>Seizing\<close>

text \<open>The result 1 means that the caller has to wait.\<close>

definition CORE_mutex_Seize_interrupt_trylock ::
  "(nat \<Rightarrow> System \<Rightarrow> System) \<Rightarrow> addr \<Rightarrow> addr \<Rightarrow> System \<Rightarrow> (System \<times> uint32) option" where
  "CORE_mutex_Seize_interrupt_trylock isr the_mutex executing s =
     (let s = on_kernel (upd_wait executing (\<lambda>w. w\<lparr>return_code := CORE_MUTEX_STATUS_SUCCESSFUL\<rparr>)) s;
          attr = Attributes (mutexes (world s) the_mutex) in
      if \<not> CORE_mutex_Is_locked (mutexes (world s) the_mutex)
      then let s = on_kernel (upd_mutex the_mutex (\<lambda>m. m\<lparr>holder := executing, nest_count := 1\<rparr>)) s;
               s = (if CORE_mutex_Is_inherit_priority attr \<or> CORE_mutex_Is_priority_ceiling attr
                    then on_kernel (upd_thread executing (\<lambda>c. c\<lparr>resource_count := resource_count c + 1\<rparr>)) s else s) in
           if \<not> CORE_mutex_Is_priority_ceiling attr then Some (s, 0)
           else let ceiling = priority_ceiling attr; cur = current_priority (threads (world s) executing) in
                if cur = ceiling then Some (s, 0)
                else if cur > ceiling
                then do {
                  let s = on_kernel Thread_Dispatch_disable s;
                  let s = isr 4 s;
                  s \<leftarrow> try_kernel (Thread_Raise_priority executing ceiling) s;
                  Some (on_kernel Thread_Dispatch_enable s, 0)
                }
                else let s = on_kernel (upd_wait executing (\<lambda>w. w\<lparr>return_code := CORE_MUTEX_STATUS_CEILING_VIOLATED\<rparr>)) s;
                         s = on_kernel (upd_mutex the_mutex (\<lambda>m. m\<lparr>holder := NULL, nest_count := 0\<rparr>)) s
                     in Some (on_kernel (upd_thread executing (\<lambda>c. c\<lparr>resource_count := resource_count c - 1\<rparr>)) s, 0)
      else if Thread_Is_executing (holder (mutexes (world s) the_mutex)) (world s) \<and> lock_nesting_behavior attr = CORE_MUTEX_NESTING_ACQUIRES
      then Some (on_kernel (upd_mutex the_mutex (\<lambda>m. m\<lparr>nest_count := nest_count m + 1\<rparr>)) s, 0)
      else Some (s, 1))"

definition CORE_mutex_Seize_interrupt_blocking ::
  "(nat \<Rightarrow> System \<Rightarrow> System) \<Rightarrow> iid \<Rightarrow> addr \<Rightarrow> addr \<Rightarrow> addr \<Rightarrow> Watchdog_Interval \<Rightarrow> System \<Rightarrow> System option" where
  "CORE_mutex_Seize_interrupt_blocking isr it timeout_routine the_mutex executing timeout s = do {
     let s = on_kernel Thread_Dispatch_disable s;
     s \<leftarrow> (if CORE_mutex_Is_inherit_priority (Attributes (mutexes (world s) the_mutex))
          then do {
            let the_holder = holder (mutexes (world s) the_mutex);
            let s = isr 4 s;
            s \<leftarrow> try_kernel (Thread_Raise_priority the_holder (current_priority (threads (world s) executing))) s;
            Some (isr 5 s)
          }
          else Some s);
     s \<leftarrow> Thread_queue_Enqueue_critical isr it timeout_routine the_mutex executing STATES_WAITING_FOR_MUTEX timeout CORE_MUTEX_TIMEOUT s;
     Some (on_kernel Thread_Dispatch_enable s)
   }"

definition CORE_mutex_Check_dispatch_for_seize :: "uint32 \<Rightarrow> bool \<Rightarrow> Kernel \<Rightarrow> bool" where
  "CORE_mutex_Check_dispatch_for_seize system_state wait k = (\<not> Thread_Dispatch_is_enabled k \<and> wait \<and> system_state \<ge> SYSTEM_STATE_UP)"

text \<open>\<open>Inl\<close> is the termination of the system with an internal error. \<open>system_state\<close> is the value of \<open>_System_state_Get\<close>.\<close>

definition CORE_mutex_Seize ::
  "uint32 \<Rightarrow> (nat \<Rightarrow> System \<Rightarrow> System) \<Rightarrow> iid \<Rightarrow> addr \<Rightarrow> addr \<Rightarrow> addr \<Rightarrow> uint32 \<Rightarrow> bool \<Rightarrow> Watchdog_Interval \<Rightarrow> System \<Rightarrow> (uint32 + System) option" where
  "CORE_mutex_Seize system_state isr it timeout_routine the_mutex executing ident wait timeout s =
     (if CORE_mutex_Check_dispatch_for_seize system_state wait (world s) then Some (Inl INTERNAL_ERROR_MUTEX_OBTAIN_FROM_BAD_STATE)
      else do {
        (s, blocked) \<leftarrow> CORE_mutex_Seize_interrupt_trylock isr the_mutex executing s;
        if blocked \<noteq> 0
        then if \<not> wait
             then Some (Inr (on_kernel (upd_wait executing (\<lambda>w. w\<lparr>return_code := CORE_MUTEX_STATUS_UNSATISFIED_NOWAIT\<rparr>)) s))
             else do {
               let s = on_kernel (upd_wait executing (\<lambda>w. w\<lparr>wait_id := ident\<rparr>)) s;
               s \<leftarrow> CORE_mutex_Seize_interrupt_blocking isr it timeout_routine the_mutex executing timeout s;
               Some (Inr s)
             }
        else Some (Inr s)
      })"

subsection \<open>Surrendering\<close>

text \<open>The mutex has been released formally; the first waiting thread gets it.\<close>

definition CORE_mutex_Transfer :: "addr \<Rightarrow> System \<Rightarrow> System option" where
  "CORE_mutex_Transfer the_mutex s = do {
     the_thread \<leftarrow> Thread_queue_First_locked the_mutex (world s);
     if the_thread \<noteq> NULL
     then do {
       s \<leftarrow> try_kernel (Thread_queue_Extract_locked the_mutex the_thread) s;
       let s = on_kernel (upd_mutex the_mutex (\<lambda>m. m\<lparr>holder := the_thread, nest_count := 1\<rparr>)) s;
       let attr = Attributes (mutexes (world s) the_mutex);
       s \<leftarrow> (case mutex_discipline attr of
              CORE_MUTEX_DISCIPLINES_FIFO \<Rightarrow> Some s
            | CORE_MUTEX_DISCIPLINES_PRIORITY \<Rightarrow> Some s
            | CORE_MUTEX_DISCIPLINES_PRIORITY_INHERIT \<Rightarrow>
                Some (on_kernel (upd_thread the_thread (\<lambda>c. c\<lparr>resource_count := resource_count c + 1\<rparr>)) s)
            | CORE_MUTEX_DISCIPLINES_PRIORITY_CEILING \<Rightarrow>
                try_kernel (Thread_Raise_priority the_thread (priority_ceiling attr))
                  (on_kernel (upd_thread the_thread (\<lambda>c. c\<lparr>resource_count := resource_count c + 1\<rparr>)) s));
       Some (Thread_queue_Unblock_critical the_mutex the_thread s)
     }
     else Some s
   }"

text \<open>The first part of a surrender, up to the point where another thread may run. The second component of the result tells whether the mutex was
  released.\<close>

definition CORE_mutex_Surrender_release :: "addr \<Rightarrow> System \<Rightarrow> (System \<times> bool \<times> uint32) option" where
  "CORE_mutex_Surrender_release the_mutex s =
     (let m = mutexes (world s) the_mutex; the_holder = holder m; attr = Attributes m in
      if only_owner_release attr \<and> \<not> Thread_Is_executing the_holder (world s) then Some (s, False, CORE_MUTEX_STATUS_NOT_OWNER_OF_RESOURCE)
      else if nest_count m = 0 then Some (s, False, CORE_MUTEX_STATUS_SUCCESSFUL)
      else let s = on_kernel (upd_mutex the_mutex (\<lambda>m. m\<lparr>nest_count := nest_count m - 1\<rparr>)) s in
           if nest_count (mutexes (world s) the_mutex) \<noteq> 0 then Some (s, False, CORE_MUTEX_STATUS_SUCCESSFUL)
           else do {
             let s = (if CORE_mutex_Is_inherit_priority attr \<or> CORE_mutex_Is_priority_ceiling attr
                      then on_kernel (upd_thread the_holder (\<lambda>c. c\<lparr>resource_count := resource_count c - 1\<rparr>)) s else s);
             let s = on_kernel (upd_mutex the_mutex (\<lambda>m. m\<lparr>holder := NULL\<rparr>)) s;
             s \<leftarrow> CORE_mutex_Transfer the_mutex s;
             Some (s, True, CORE_MUTEX_STATUS_SUCCESSFUL)
           })"

text \<open>The second part: an inherited priority is given up with the last resource.\<close>

definition CORE_mutex_Surrender_restore :: "addr \<Rightarrow> System \<Rightarrow> System option" where
  "CORE_mutex_Surrender_restore the_holder s =
     (if \<not> Thread_Owns_resources the_holder (world s) \<and> priority_restore_hint (threads (world s) the_holder)
      then do {
        let s = on_kernel Thread_Dispatch_disable s;
        s \<leftarrow> try_kernel (Thread_Restore_priority the_holder) s;
        Some (on_kernel Thread_Dispatch_enable s)
      }
      else Some s)"

definition CORE_mutex_Surrender :: "(System \<Rightarrow> System) \<Rightarrow> addr \<Rightarrow> System \<Rightarrow> (System \<times> uint32) option" where
  "CORE_mutex_Surrender resume the_mutex s =
     (let the_holder = holder (mutexes (world s) the_mutex) in
      do {
        (s, released, status) \<leftarrow> CORE_mutex_Surrender_release the_mutex s;
        if released then do { s \<leftarrow> CORE_mutex_Surrender_restore the_holder (resume s); Some (s, status) }
        else Some (s, status)
      })"

definition CORE_mutex_Flush :: "addr \<Rightarrow> uint32 \<Rightarrow> System \<Rightarrow> System option" where
  "CORE_mutex_Flush the_mutex status s = Thread_queue_Flush the_mutex status s"

end
