(* ===== verification/Score_Core.thy ===== *)
theory Score_Core
  imports Score_ThreadQ
begin

text \<open>
  Semaphores, barriers and read-write locks (\<^verbatim>\<open>src/librtems/score/core/coresem.c\<close>, \<^verbatim>\<open>corebarrier*.c\<close>, \<^verbatim>\<open>corerwlock*.c\<close>, with
  \<^verbatim>\<open>coresemimpl.h\<close> and \<^verbatim>\<open>corebarrierimpl.h\<close>). An object is known by its address, which is the address of its thread queue. What a
  thread that waited gets to know is the \<open>return_code\<close> of its wait information. The operations that may block have the
  parameters of \<open>_Thread_queue_Enqueue_critical\<close> for interrupts and the timeout watchdog. The callouts for remote
  threads belong to multiprocessing, which is not configured.
\<close>

subsection \<open>Semaphores\<close>

abbreviation CORE_SEMAPHORE_STATUS_SUCCESSFUL :: uint32 where "CORE_SEMAPHORE_STATUS_SUCCESSFUL \<equiv> 0"
abbreviation CORE_SEMAPHORE_STATUS_UNSATISFIED_NOWAIT :: uint32 where "CORE_SEMAPHORE_STATUS_UNSATISFIED_NOWAIT \<equiv> 1"
abbreviation CORE_SEMAPHORE_WAS_DELETED :: uint32 where "CORE_SEMAPHORE_WAS_DELETED \<equiv> 2"
abbreviation CORE_SEMAPHORE_TIMEOUT :: uint32 where "CORE_SEMAPHORE_TIMEOUT \<equiv> 3"
abbreviation CORE_SEMAPHORE_MAXIMUM_COUNT_EXCEEDED :: uint32 where "CORE_SEMAPHORE_MAXIMUM_COUNT_EXCEEDED \<equiv> 4"

definition CORE_semaphore_Is_priority :: "CORE_semaphore_Disciplines \<Rightarrow> bool" where
  "CORE_semaphore_Is_priority d = (d = CORE_SEMAPHORE_DISCIPLINES_PRIORITY)"

definition CORE_semaphore_Get_count :: "addr \<Rightarrow> Kernel \<Rightarrow> uint32" where
  "CORE_semaphore_Get_count the_semaphore k = sem_count (semaphores k the_semaphore)"

definition upd_semaphore :: "addr \<Rightarrow> (CORE_semaphore_Control \<Rightarrow> CORE_semaphore_Control) \<Rightarrow> Kernel \<Rightarrow> Kernel" where
  "upd_semaphore q f k = k\<lparr>semaphores := (semaphores k)(q := f (semaphores k q))\<rparr>"

definition CORE_semaphore_Initialize :: "addr \<Rightarrow> uint32 \<Rightarrow> CORE_semaphore_Disciplines \<Rightarrow> uint32 \<Rightarrow> Kernel \<Rightarrow> Kernel" where
  "CORE_semaphore_Initialize the_semaphore maximum_count d initial_value k =
     (let k = upd_semaphore the_semaphore (\<lambda>c. c\<lparr>sem_maximum_count := maximum_count, sem_discipline := d\<rparr>) k;
          k = upd_semaphore the_semaphore (\<lambda>c. c\<lparr>sem_count := initial_value\<rparr>) k
      in Thread_queue_Initialize the_semaphore
           (if CORE_semaphore_Is_priority d then THREAD_QUEUE_DISCIPLINE_PRIORITY else THREAD_QUEUE_DISCIPLINE_FIFO) k)"

definition CORE_semaphore_Surrender :: "addr \<Rightarrow> System \<Rightarrow> (System \<times> uint32) option" where
  "CORE_semaphore_Surrender the_semaphore s = do {
     the_thread \<leftarrow> Thread_queue_First_locked the_semaphore (world s);
     if the_thread \<noteq> NULL
     then do { s \<leftarrow> Thread_queue_Extract_critical the_semaphore the_thread s; Some (s, CORE_SEMAPHORE_STATUS_SUCCESSFUL) }
     else if sem_count (semaphores (world s) the_semaphore) < sem_maximum_count (semaphores (world s) the_semaphore)
     then Some (on_kernel (upd_semaphore the_semaphore (\<lambda>c. c\<lparr>sem_count := sem_count c + 1\<rparr>)) s, CORE_SEMAPHORE_STATUS_SUCCESSFUL)
     else Some (s, CORE_SEMAPHORE_MAXIMUM_COUNT_EXCEEDED)
   }"

definition CORE_semaphore_Flush :: "addr \<Rightarrow> uint32 \<Rightarrow> System \<Rightarrow> System option" where
  "CORE_semaphore_Flush the_semaphore status s = Thread_queue_Flush the_semaphore status s"

definition CORE_semaphore_Seize ::
  "(nat \<Rightarrow> System \<Rightarrow> System) \<Rightarrow> iid \<Rightarrow> addr \<Rightarrow> addr \<Rightarrow> addr \<Rightarrow> uint32 \<Rightarrow> bool \<Rightarrow> Watchdog_Interval \<Rightarrow> System \<Rightarrow> System option" where
  "CORE_semaphore_Seize isr it timeout_routine the_semaphore executing ident wait timeout s =
     (let s = on_kernel (upd_wait executing (\<lambda>w. w\<lparr>return_code := CORE_SEMAPHORE_STATUS_SUCCESSFUL\<rparr>)) s in
      if sem_count (semaphores (world s) the_semaphore) \<noteq> 0
      then Some (on_kernel (upd_semaphore the_semaphore (\<lambda>c. c\<lparr>sem_count := sem_count c - 1\<rparr>)) s)
      else if \<not> wait
      then Some (on_kernel (upd_wait executing (\<lambda>w. w\<lparr>return_code := CORE_SEMAPHORE_STATUS_UNSATISFIED_NOWAIT\<rparr>)) s)
      else let s = on_kernel (upd_wait executing (\<lambda>w. w\<lparr>wait_id := ident\<rparr>)) s
           in Thread_queue_Enqueue_critical isr it timeout_routine the_semaphore executing STATES_WAITING_FOR_SEMAPHORE timeout CORE_SEMAPHORE_TIMEOUT s)"

subsection \<open>Barriers\<close>

abbreviation CORE_BARRIER_STATUS_SUCCESSFUL :: uint32 where "CORE_BARRIER_STATUS_SUCCESSFUL \<equiv> 0"
abbreviation CORE_BARRIER_STATUS_AUTOMATICALLY_RELEASED :: uint32 where "CORE_BARRIER_STATUS_AUTOMATICALLY_RELEASED \<equiv> 1"
abbreviation CORE_BARRIER_TIMEOUT :: uint32 where "CORE_BARRIER_TIMEOUT \<equiv> 3"

definition upd_barrier :: "addr \<Rightarrow> (CORE_barrier_Control \<Rightarrow> CORE_barrier_Control) \<Rightarrow> Kernel \<Rightarrow> Kernel" where
  "upd_barrier q f k = k\<lparr>barriers := (barriers k)(q := f (barriers k q))\<rparr>"

definition CORE_barrier_Is_automatic :: "CORE_barrier_Disciplines \<Rightarrow> bool" where
  "CORE_barrier_Is_automatic d = (d = CORE_BARRIER_AUTOMATIC_RELEASE)"

definition CORE_barrier_Initialize :: "addr \<Rightarrow> CORE_barrier_Disciplines \<Rightarrow> uint32 \<Rightarrow> Kernel \<Rightarrow> Kernel" where
  "CORE_barrier_Initialize the_barrier d maximum_count k =
     (let k = upd_barrier the_barrier (\<lambda>c. c\<lparr>bar_discipline := d, bar_maximum_count := maximum_count\<rparr>) k;
          k = upd_barrier the_barrier (\<lambda>c. c\<lparr>number_of_waiting_threads := 0\<rparr>) k
      in Thread_queue_Initialize the_barrier THREAD_QUEUE_DISCIPLINE_FIFO k)"

partial_function (option) CORE_barrier_Release_loop :: "addr \<Rightarrow> uint32 \<Rightarrow> System \<Rightarrow> (System \<times> uint32) option" where
  "CORE_barrier_Release_loop the_barrier n s = do {
     (s, the_thread) \<leftarrow> Thread_queue_Dequeue the_barrier s;
     if the_thread \<noteq> NULL then CORE_barrier_Release_loop the_barrier (n + 1) s else Some (s, n)
   }"

declare CORE_barrier_Release_loop.simps [code]

definition CORE_barrier_Release :: "addr \<Rightarrow> System \<Rightarrow> (System \<times> uint32) option" where
  "CORE_barrier_Release the_barrier s = do {
     (s, n) \<leftarrow> CORE_barrier_Release_loop the_barrier 0 s;
     Some (on_kernel (upd_barrier the_barrier (\<lambda>c. c\<lparr>number_of_waiting_threads := 0\<rparr>)) s, n)
   }"

text \<open>The parameter \<open>wait\<close> of the source is not used there.\<close>

definition CORE_barrier_Wait ::
  "(nat \<Rightarrow> System \<Rightarrow> System) \<Rightarrow> iid \<Rightarrow> addr \<Rightarrow> addr \<Rightarrow> addr \<Rightarrow> uint32 \<Rightarrow> Watchdog_Interval \<Rightarrow> System \<Rightarrow> System option" where
  "CORE_barrier_Wait isr it timeout_routine the_barrier executing ident timeout s =
     (let s = on_kernel (upd_wait executing (\<lambda>w. w\<lparr>return_code := CORE_BARRIER_STATUS_SUCCESSFUL\<rparr>)) s;
          s = on_kernel (upd_barrier the_barrier (\<lambda>c. c\<lparr>number_of_waiting_threads := number_of_waiting_threads c + 1\<rparr>)) s;
          b = barriers (world s) the_barrier in
      if CORE_barrier_Is_automatic (bar_discipline b) \<and> number_of_waiting_threads b = bar_maximum_count b
      then let s = on_kernel (upd_wait executing (\<lambda>w. w\<lparr>return_code := CORE_BARRIER_STATUS_AUTOMATICALLY_RELEASED\<rparr>)) s
           in map_option fst (CORE_barrier_Release the_barrier s)
      else let s = on_kernel (upd_wait executing (\<lambda>w. w\<lparr>wait_id := ident\<rparr>)) s
           in Thread_queue_Enqueue_critical isr it timeout_routine the_barrier executing STATES_WAITING_FOR_BARRIER timeout CORE_BARRIER_TIMEOUT s)"

subsection \<open>Read-write locks\<close>

abbreviation CORE_RWLOCK_SUCCESSFUL :: uint32 where "CORE_RWLOCK_SUCCESSFUL \<equiv> 0"
abbreviation CORE_RWLOCK_UNAVAILABLE :: uint32 where "CORE_RWLOCK_UNAVAILABLE \<equiv> 2"
abbreviation CORE_RWLOCK_TIMEOUT :: uint32 where "CORE_RWLOCK_TIMEOUT \<equiv> 3"
abbreviation CORE_RWLOCK_THREAD_WAITING_FOR_READ :: uint32 where "CORE_RWLOCK_THREAD_WAITING_FOR_READ \<equiv> 0"
abbreviation CORE_RWLOCK_THREAD_WAITING_FOR_WRITE :: uint32 where "CORE_RWLOCK_THREAD_WAITING_FOR_WRITE \<equiv> 1"

definition upd_rwlock :: "addr \<Rightarrow> (CORE_RWLock_Control \<Rightarrow> CORE_RWLock_Control) \<Rightarrow> Kernel \<Rightarrow> Kernel" where
  "upd_rwlock q f k = k\<lparr>rwlocks := (rwlocks k)(q := f (rwlocks k q))\<rparr>"

definition CORE_RWLock_Initialize :: "addr \<Rightarrow> Kernel \<Rightarrow> Kernel" where
  "CORE_RWLock_Initialize the_rwlock k =
     (let k = upd_rwlock the_rwlock (\<lambda>c. c\<lparr>number_of_readers := 0, rw_state := CORE_RWLOCK_UNLOCKED\<rparr>) k
      in Thread_queue_Initialize the_rwlock THREAD_QUEUE_DISCIPLINE_FIFO k)"

definition CORE_RWLock_wait_for ::
  "uint32 \<Rightarrow> (nat \<Rightarrow> System \<Rightarrow> System) \<Rightarrow> iid \<Rightarrow> addr \<Rightarrow> addr \<Rightarrow> addr \<Rightarrow> uint32 \<Rightarrow> bool \<Rightarrow> Watchdog_Interval \<Rightarrow> System \<Rightarrow> System option" where
  "CORE_RWLock_wait_for option_set isr it timeout_routine the_rwlock executing ident wait timeout s =
     (if \<not> wait then Some (on_kernel (upd_wait executing (\<lambda>w. w\<lparr>return_code := CORE_RWLOCK_UNAVAILABLE\<rparr>)) s)
      else let s = on_kernel (upd_wait executing (\<lambda>w. w\<lparr>wait_id := ident, wait_option := option_set, return_code := CORE_RWLOCK_SUCCESSFUL\<rparr>)) s
           in Thread_queue_Enqueue_critical isr it timeout_routine the_rwlock executing STATES_WAITING_FOR_RWLOCK timeout CORE_RWLOCK_TIMEOUT s)"

definition CORE_RWLock_Obtain_for_reading ::
  "(nat \<Rightarrow> System \<Rightarrow> System) \<Rightarrow> iid \<Rightarrow> addr \<Rightarrow> addr \<Rightarrow> addr \<Rightarrow> uint32 \<Rightarrow> bool \<Rightarrow> Watchdog_Interval \<Rightarrow> System \<Rightarrow> System option" where
  "CORE_RWLock_Obtain_for_reading isr it timeout_routine the_rwlock executing ident wait timeout s =
     (let blocked = CORE_RWLock_wait_for CORE_RWLOCK_THREAD_WAITING_FOR_READ isr it timeout_routine the_rwlock executing ident wait timeout in
      case rw_state (rwlocks (world s) the_rwlock) of
        CORE_RWLOCK_UNLOCKED \<Rightarrow>
          let s = on_kernel (upd_rwlock the_rwlock (\<lambda>c. c\<lparr>rw_state := CORE_RWLOCK_LOCKED_FOR_READING, number_of_readers := number_of_readers c + 1\<rparr>)) s
          in Some (on_kernel (upd_wait executing (\<lambda>w. w\<lparr>return_code := CORE_RWLOCK_SUCCESSFUL\<rparr>)) s)
      | CORE_RWLOCK_LOCKED_FOR_READING \<Rightarrow> do {
          waiter \<leftarrow> Thread_queue_First_locked the_rwlock (world s);
          if waiter = NULL
          then let s = on_kernel (upd_rwlock the_rwlock (\<lambda>c. c\<lparr>number_of_readers := number_of_readers c + 1\<rparr>)) s
               in Some (on_kernel (upd_wait executing (\<lambda>w. w\<lparr>return_code := CORE_RWLOCK_SUCCESSFUL\<rparr>)) s)
          else blocked s
        }
      | CORE_RWLOCK_LOCKED_FOR_WRITING \<Rightarrow> blocked s)"

definition CORE_RWLock_Obtain_for_writing ::
  "(nat \<Rightarrow> System \<Rightarrow> System) \<Rightarrow> iid \<Rightarrow> addr \<Rightarrow> addr \<Rightarrow> addr \<Rightarrow> uint32 \<Rightarrow> bool \<Rightarrow> Watchdog_Interval \<Rightarrow> System \<Rightarrow> System option" where
  "CORE_RWLock_Obtain_for_writing isr it timeout_routine the_rwlock executing ident wait timeout s =
     (if rw_state (rwlocks (world s) the_rwlock) = CORE_RWLOCK_UNLOCKED
      then let s = on_kernel (upd_rwlock the_rwlock (\<lambda>c. c\<lparr>rw_state := CORE_RWLOCK_LOCKED_FOR_WRITING\<rparr>)) s
           in Some (on_kernel (upd_wait executing (\<lambda>w. w\<lparr>return_code := CORE_RWLOCK_SUCCESSFUL\<rparr>)) s)
      else CORE_RWLock_wait_for CORE_RWLOCK_THREAD_WAITING_FOR_WRITE isr it timeout_routine the_rwlock executing ident wait timeout s)"

partial_function (option) CORE_RWLock_Release_loop :: "addr \<Rightarrow> System \<Rightarrow> System option" where
  "CORE_RWLock_Release_loop the_rwlock s = do {
     nxt \<leftarrow> Thread_queue_First the_rwlock (world s);
     if nxt = NULL \<or> wait_option (Wait (threads (world s) nxt)) = CORE_RWLOCK_THREAD_WAITING_FOR_WRITE then Some s
     else do {
       let s = on_kernel (upd_rwlock the_rwlock (\<lambda>c. c\<lparr>number_of_readers := number_of_readers c + 1\<rparr>)) s;
       s \<leftarrow> Thread_queue_Extract nxt s;
       CORE_RWLock_Release_loop the_rwlock s
     }
   }"

declare CORE_RWLock_Release_loop.simps [code]

definition CORE_RWLock_Release :: "addr \<Rightarrow> addr \<Rightarrow> System \<Rightarrow> (System \<times> uint32) option" where
  "CORE_RWLock_Release the_rwlock executing s =
     (let reading = (rw_state (rwlocks (world s) the_rwlock) = CORE_RWLOCK_LOCKED_FOR_READING);
          s1 = (if reading then on_kernel (upd_rwlock the_rwlock (\<lambda>c. c\<lparr>number_of_readers := number_of_readers c - 1\<rparr>)) s else s) in
      if rw_state (rwlocks (world s) the_rwlock) = CORE_RWLOCK_UNLOCKED
      then Some (on_kernel (upd_wait executing (\<lambda>w. w\<lparr>return_code := CORE_RWLOCK_UNAVAILABLE\<rparr>)) s, CORE_RWLOCK_SUCCESSFUL)
      else if reading \<and> number_of_readers (rwlocks (world s1) the_rwlock) \<noteq> 0 then Some (s1, CORE_RWLOCK_SUCCESSFUL)
      else do {
        let s = on_kernel (upd_wait executing (\<lambda>w. w\<lparr>return_code := CORE_RWLOCK_SUCCESSFUL\<rparr>)) s1;
        let s = on_kernel (upd_rwlock the_rwlock (\<lambda>c. c\<lparr>rw_state := CORE_RWLOCK_UNLOCKED\<rparr>)) s;
        (s, nxt) \<leftarrow> Thread_queue_Dequeue the_rwlock s;
        if nxt = NULL then Some (s, CORE_RWLOCK_SUCCESSFUL)
        else if wait_option (Wait (threads (world s) nxt)) = CORE_RWLOCK_THREAD_WAITING_FOR_WRITE
        then Some (on_kernel (upd_rwlock the_rwlock (\<lambda>c. c\<lparr>rw_state := CORE_RWLOCK_LOCKED_FOR_WRITING\<rparr>)) s, CORE_RWLOCK_SUCCESSFUL)
        else do {
          let s = on_kernel (upd_rwlock the_rwlock (\<lambda>c. c\<lparr>number_of_readers := number_of_readers c + 1, rw_state := CORE_RWLOCK_LOCKED_FOR_READING\<rparr>)) s;
          s \<leftarrow> CORE_RWLock_Release_loop the_rwlock s;
          Some (s, CORE_RWLOCK_SUCCESSFUL)
        }
      })"

end
