(* ===== verification/Score_ThreadQ_Props.thy ===== *)
theory Score_ThreadQ_Props
  imports Score_ThreadQ
begin

text \<open>
  The two disciplines of thread queues behind one interface: the threads that wait at a queue are a list, a new
  thread gets its place in it, any thread can be taken out, and the first one is the next to get the resource. The chains of the FIFO
  queues and the red-black trees of the priority queues both implement it.
\<close>

subsection \<open>The interface of a discipline\<close>

text \<open>The operations of a discipline change nothing but the links of waiting threads.\<close>

definition links_only :: "Kernel \<Rightarrow> Kernel \<Rightarrow> bool" where
  "links_only k k' \<longleftrightarrow> k' = k\<lparr>wait_chain := wait_chain k', wait_tree := wait_tree k'\<rparr>"

lemma links_only_fields:
  assumes "links_only k k'"
  shows "threads k' = threads k" "queue_operations k' = queue_operations k" "ready_mem k' = ready_mem k" "Bit_map k' = Bit_map k"
    "Thread_Executing k' = Thread_Executing k" "Thread_Heir k' = Thread_Heir k" "PRIORITY_MAXIMUM k' = PRIORITY_MAXIMUM k" "Ready k' = Ready k"
    "semaphores k' = semaphores k" "barriers k' = barriers k" "rwlocks k' = rwlocks k" "mutexes k' = mutexes k"
  by (subst assms [unfolded links_only_def], simp)+

text \<open>Synchronization objects change their own fields.\<close>

definition core_only :: "Kernel \<Rightarrow> Kernel \<Rightarrow> bool" where
  "core_only k k' \<longleftrightarrow> k' = k\<lparr>semaphores := semaphores k', barriers := barriers k', rwlocks := rwlocks k', mutexes := mutexes k'\<rparr>"

lemma core_only_fields:
  assumes "core_only k k'"
  shows "threads k' = threads k" "queue_operations k' = queue_operations k" "wait_chain k' = wait_chain k" "wait_tree k' = wait_tree k"
  by (subst assms [unfolded core_only_def], simp)+

lemma links_only_refl: "links_only k k"
  by (simp add: links_only_def)

lemma links_only_trans: "links_only k k1 \<Longrightarrow> links_only k1 k2 \<Longrightarrow> links_only k k2"
  by (cases k; cases k1; cases k2) (simp add: links_only_def)

text \<open>\<open>rep k C T ql\<close>: the queues of the set \<open>C\<close> hold the lists \<open>ql\<close> of threads of the set \<open>T\<close>. \<open>place\<close> puts a thread into the list
  of its queue.\<close>

locale thread_queue_discipline =
  fixes rep :: "Kernel \<Rightarrow> addr set \<Rightarrow> addr set \<Rightarrow> (addr \<Rightarrow> addr list) \<Rightarrow> bool"
    and enq :: "addr \<Rightarrow> addr \<Rightarrow> Kernel \<Rightarrow> Kernel option"
    and ext :: "addr \<Rightarrow> addr \<Rightarrow> Kernel \<Rightarrow> Kernel option"
    and front :: "addr \<Rightarrow> Kernel \<Rightarrow> addr"
    and place :: "(addr \<Rightarrow> Priority_Control) \<Rightarrow> addr \<Rightarrow> addr list \<Rightarrow> addr list"
  assumes enq_rep: "rep k C T ql \<Longrightarrow> q \<in> C \<Longrightarrow> t \<in> T \<Longrightarrow> \<forall>c \<in> C. t \<notin> set (ql c)
      \<Longrightarrow> \<exists>k'. enq q t k = Some k' \<and> links_only k k' \<and> rep k' C T (ql(q := place (\<lambda>u. prio k u) t (ql q)))"
    and ext_rep: "rep k C T ql \<Longrightarrow> q \<in> C \<Longrightarrow> t \<in> set (ql q)
      \<Longrightarrow> \<exists>k'. ext q t k = Some k' \<and> links_only k k' \<and> rep k' C T (ql(q := remove1 t (ql q)))"
    and front_rep: "rep k C T ql \<Longrightarrow> q \<in> C \<Longrightarrow> front q k = (if ql q = [] then NULL else hd (ql q))"
    and rep_apart: "rep k C T ql \<Longrightarrow> q \<in> C \<Longrightarrow> distinct (ql q) \<and> set (ql q) \<subseteq> T \<and> NULL \<notin> T"
    and place_set: "set (place key t ts) = insert t (set ts)"

text \<open>The thread at the front is taken.\<close>

context thread_queue_discipline
begin

lemma take_front:
  assumes "rep k C T ql" "q \<in> C" "ql q = t # ts"
  shows "front q k = t \<and> t \<noteq> NULL \<and> (\<exists>k'. ext q t k = Some k' \<and> links_only k k' \<and> rep k' C T (ql(q := ts)))"
  using front_rep [OF assms(1,2)] ext_rep [OF assms(1,2), of t] rep_apart [OF assms(1,2)] assms(3) by auto

text \<open>A thread that enters an empty queue is the one to leave it next, and the queue is as before.\<close>

lemma enter_leave:
  assumes "rep k C T ql" "q \<in> C" "t \<in> T" "\<forall>c \<in> C. t \<notin> set (ql c)" "ql q = []" "place (\<lambda>u. prio k u) t [] = [t]"
  shows "\<exists>k' k''. enq q t k = Some k' \<and> front q k' = t \<and> ext q t k' = Some k'' \<and> links_only k k'' \<and> rep k'' C T ql"
proof -
  obtain k' where k': "enq q t k = Some k'" "links_only k k'" "rep k' C T (ql(q := [t]))" using enq_rep [OF assms(1-4)] assms(5,6) by auto
  obtain k'' where "front q k' = t" "ext q t k' = Some k''" "links_only k' k''" "rep k'' C T (ql(q := []))"
    using take_front [OF k'(3) assms(2), of t "[]"] by auto
  then show ?thesis using k' assms(5) links_only_trans fun_upd_triv [of ql q] by metis
qed

end

subsection \<open>FIFO queues\<close>

definition fifo_rep :: "Kernel \<Rightarrow> addr set \<Rightarrow> addr set \<Rightarrow> (addr \<Rightarrow> addr list) \<Rightarrow> bool" where
  "fifo_rep k C T ql \<longleftrightarrow> chains_rep (wait_chain k) C T ql"

interpretation fifo: thread_queue_discipline fifo_rep Thread_queue_FIFO_enqueue Thread_queue_FIFO_extract Thread_queue_FIFO_first
  "\<lambda>key t ts. ts @ [t]"
proof
  fix k C T ql q
  assume rep: "fifo_rep k C T ql" and q: "q \<in> C"
  note D = chains_repD [OF rep [unfolded fifo_rep_def]]
  show "\<exists>k'. Thread_queue_FIFO_enqueue q t k = Some k' \<and> links_only k k' \<and> fifo_rep k' C T (ql(q := ql q @ [t]))"
    if "t \<in> T" "\<forall>c \<in> C. t \<notin> set (ql c)" for t
    using chains_rep_append [OF rep [unfolded fifo_rep_def] q that] by (simp add: Thread_queue_FIFO_enqueue_def fifo_rep_def links_only_def)
  show "\<exists>k'. Thread_queue_FIFO_extract q t k = Some k' \<and> links_only k k' \<and> fifo_rep k' C T (ql(q := remove1 t (ql q)))" if "t \<in> set (ql q)" for t
    using chains_rep_extract [OF rep [unfolded fifo_rep_def] q that] by (simp add: Thread_queue_FIFO_extract_def fifo_rep_def links_only_def)
  show "Thread_queue_FIFO_first q k = (if ql q = [] then NULL else hd (ql q))"
    using Chain_Is_empty_rep [OF D(2) [OF q]] Chain_First_rep [OF D(2) [OF q]] by (simp add: Thread_queue_FIFO_first_def)
  show "distinct (ql q) \<and> set (ql q) \<subseteq> T \<and> NULL \<notin> T" using D q by blast
qed simp

subsection \<open>Priority queues\<close>

lemma compares_priority: "compares (Thread_queue_Compare_priority k) (\<lambda>u. prio k u)"
  by (auto simp: compares_def Thread_queue_Compare_priority_def Let_def)

definition prio_rep :: "Kernel \<Rightarrow> addr set \<Rightarrow> addr set \<Rightarrow> (addr \<Rightarrow> addr list) \<Rightarrow> bool" where
  "prio_rep k C T ql \<longleftrightarrow> NULL \<notin> T \<and> C \<inter> T = {}
     \<and> (\<forall>q \<in> C. rb_rep (wait_tree k q) q (ql q) \<and> sorted (map (\<lambda>u. prio k u) (ql q)) \<and> distinct (ql q) \<and> set (ql q) \<subseteq> T)"

lemma sorted_remove: "sorted (map f xs) \<Longrightarrow> sorted (map f (remove1 x xs))"
  by (induction xs) (auto dest: notin_set_remove1)

lemma distinct_insert_after: "distinct ts \<Longrightarrow> t \<notin> set ts \<Longrightarrow> distinct (insert_after key t ts)"
  by (auto simp: insert_after_def distinct_takeWhile dest: set_takeWhileD set_dropWhileD)
    (metis IntI distinct_append emptyE takeWhile_dropWhile_id)

interpretation prioq: thread_queue_discipline prio_rep Thread_queue_Priority_enqueue Thread_queue_Priority_extract Thread_queue_Priority_first
  insert_after
proof
  fix k C T ql q
  assume rep: "prio_rep k C T ql" and q: "q \<in> C"
  have R: "rb_rep (wait_tree k q) q (ql q)" "sorted (map (\<lambda>u. prio k u) (ql q))" "distinct (ql q)" "set (ql q) \<subseteq> T" "NULL \<notin> T" "q \<notin> T"
    using rep q by (auto simp: prio_rep_def)
  show "\<exists>k'. Thread_queue_Priority_enqueue q t k = Some k' \<and> links_only k k' \<and> prio_rep k' C T (ql(q := insert_after (\<lambda>u. prio k u) t (ql q)))"
    if t: "t \<in> T" "\<forall>c \<in> C. t \<notin> set (ql c)" for t
  proof -
    have "t \<noteq> NULL" "t \<noteq> q" "t \<notin> set (ql q)" using t q R by auto
    then obtain s where s: "RBTree_Insert q t (Thread_queue_Compare_priority k) False (wait_tree k q) = Some (s, NULL)"
      "rb_rep s q (insert_after (\<lambda>u. prio k u) t (ql q))" using rb_rep_Insert [OF compares_priority R(1,2), of t False] by auto
    moreover have "sorted (map (\<lambda>u. prio k u) (insert_after (\<lambda>u. prio k u) t (ql q)))" by (rule sorted_insert_after [OF R(2)])
    moreover have "distinct (insert_after (\<lambda>u. prio k u) t (ql q))" using R(3) \<open>t \<notin> set (ql q)\<close> by (rule distinct_insert_after)
    ultimately show ?thesis using rep t(1) R(4) by (simp add: Thread_queue_Priority_enqueue_def links_only_def prio_rep_def)
  qed
  show "\<exists>k'. Thread_queue_Priority_extract q t k = Some k' \<and> links_only k k' \<and> prio_rep k' C T (ql(q := remove1 t (ql q)))" if t: "t \<in> set (ql q)" for t
  proof -
    obtain A B where AB: "ql q = A @ t # B" "t \<notin> set A" using split_list_first [OF t] by blast
    then have rm: "remove1 t (ql q) = A @ B" by (simp add: remove1_append)
    obtain s where "RBTree_Extract q t (wait_tree k q) = Some s" "rb_rep s q (A @ B)" using rb_rep_Extract R(1) unfolding AB(1) by blast
    moreover have "sorted (map (\<lambda>u. prio k u) (A @ B))" using sorted_remove [OF R(2), of t] rm by simp
    ultimately show ?thesis using rep R(3,4) unfolding rm by (simp add: Thread_queue_Priority_extract_def links_only_def prio_rep_def AB(1))
  qed
  show "Thread_queue_Priority_first q k = (if ql q = [] then NULL else hd (ql q))"
    using R(1) by (simp add: Thread_queue_Priority_first_def RBTree_First_def rb_rep_def Let_def)
  show "distinct (ql q) \<and> set (ql q) \<subseteq> T \<and> NULL \<notin> T" using R by blast
qed simp

end
