(* ===== verification/Score_Kernel.thy ===== *)
theory Score_Kernel
  imports Score_ThreadQ_Props
begin

text \<open>
  The scheduler over the life of the kernel: from the initialization of the ready queues and the creation of the idle thread on, any
  sequence of the operations that create and start threads, change their states and priorities, let them yield, use up their time
  slices, move them between queues and dispatch them. In every state reached the heir is right.
\<close>

subsection \<open>Changes that the scheduler does not see\<close>

definition sched_same :: "Kernel \<Rightarrow> Kernel \<Rightarrow> bool" where
  "sched_same s s' \<longleftrightarrow> ready_mem s' = ready_mem s \<and> Ready s' = Ready s \<and> Bit_map s' = Bit_map s \<and> PRIORITY_MAXIMUM s' = PRIORITY_MAXIMUM s
     \<and> Thread_Heir s' = Thread_Heir s \<and> Thread_Executing s' = Thread_Executing s
     \<and> (\<forall>t. current_state (threads s' t) = current_state (threads s t) \<and> prio s' t = prio s t
          \<and> ready_chain (threads s' t) = ready_chain (threads s t) \<and> Priority_map (threads s' t) = Priority_map (threads s t)
          \<and> is_preemptible (threads s' t) = is_preemptible (threads s t))"

lemma sched_inv_same:
  assumes "sched_same s s'"
  shows "sched_inv T s' rq = sched_inv T s rq"
proof -
  have "sched_rep s' T lev rq = sched_rep s T lev rq" for lev by (rule sched_rep_cong) (use assms in \<open>simp_all add: sched_same_def\<close>)
  then show ?thesis using assms by (simp add: sched_inv_def sched_base_def heir_ok_def sched_same_def)
qed

lemma sched_same_links: "links_only s s' \<Longrightarrow> sched_same s s'"
  by (simp add: sched_same_def links_only_fields)

lemma sched_same_wait: "sched_same s (upd_wait t f s)"
  by (simp add: sched_same_def upd_wait_def upd_thread_def)

subsection \<open>Start of the system\<close>

text \<open>Before the idle thread is started the ready queues are empty and every thread is dormant.\<close>

definition dormant_ok :: "addr set \<Rightarrow> addr set \<Rightarrow> Kernel \<Rightarrow> bool" where
  "dormant_ok T S s \<longleftrightarrow> queues s T (\<lambda>_. []) \<and> bit_map_rep (Bit_map s) {}
     \<and> (\<forall>t \<in> S. prio s t \<le> PRIORITY_MAXIMUM s \<and> real_priority (threads s t) \<le> PRIORITY_MAXIMUM s
          \<and> ready_chain (threads s t) = Ready_at s (prio s t)
          \<and> Priority_map (threads s t) = Priority_bit_map_Initialize_information (prio s t) \<and> current_state (threads s t) = STATES_DORMANT)"

lemma Ready_queue_initialize_fields:
  "threads (Scheduler_priority_Ready_queue_initialize n i s) = threads s" "Ready_at (Scheduler_priority_Ready_queue_initialize n i s) = Ready_at s"
  "Bit_map (Scheduler_priority_Ready_queue_initialize n i s) = Bit_map s" "Ready (Scheduler_priority_Ready_queue_initialize n i s) = Ready s"
  "PRIORITY_MAXIMUM (Scheduler_priority_Ready_queue_initialize n i s) = PRIORITY_MAXIMUM s"
  by (induction n arbitrary: i s) simp_all

lemma Chain_Initialize_empty_frame: "x \<notin> control_cells c \<Longrightarrow> Chain_Initialize_empty m c x = m x"
  by (auto simp: Chain_Initialize_empty_def control_cells_def score_defs Let_def add.commute)

lemma chain_rep_Nil_cong: "\<forall>x \<in> control_cells c. m' x = m x \<Longrightarrow> chain_rep m c [] \<Longrightarrow> chain_rep m' c []"
  using chain_rep_cong [of c "[]" m' m] by (simp add: set_chain_cells)

lemma Ready_queue_initialize_chains:
  assumes "unat i + n \<le> 256" "\<And>p r. unat p < 256 \<Longrightarrow> unat r < unat i + n \<Longrightarrow> unat p < unat i + n \<Longrightarrow> p \<noteq> r
      \<Longrightarrow> control_cells (Ready_at s p) \<inter> control_cells (Ready_at s r) = {}"
  shows "(\<forall>p. unat i \<le> unat p \<and> unat p < unat i + n \<longrightarrow> chain_rep (ready_mem (Scheduler_priority_Ready_queue_initialize n i s)) (Ready_at s p) [])
    \<and> (\<forall>x. (\<forall>p. unat i \<le> unat p \<and> unat p < unat i + n \<longrightarrow> x \<notin> control_cells (Ready_at s p))
         \<longrightarrow> ready_mem (Scheduler_priority_Ready_queue_initialize n i s) x = ready_mem s x)"
  using assms
proof (induction n arbitrary: i s)
  case (Suc n)
  let ?s = "s\<lparr>ready_mem := Chain_Initialize_empty (ready_mem s) (Ready_at s i)\<rparr>"
  have i1: "unat (i + 1) = unat i + 1" using Suc.prems(1) by (simp add: unat_word_ariths)
  note IH = Suc.IH [of "i + 1" ?s, unfolded i1]
  have A: "\<forall>p. unat i + 1 \<le> unat p \<and> unat p < unat i + 1 + n \<longrightarrow> chain_rep (ready_mem (Scheduler_priority_Ready_queue_initialize n (i + 1) ?s)) (Ready_at s p) []"
    and B: "\<forall>x. (\<forall>p. unat i + 1 \<le> unat p \<and> unat p < unat i + 1 + n \<longrightarrow> x \<notin> control_cells (Ready_at s p))
         \<longrightarrow> ready_mem (Scheduler_priority_Ready_queue_initialize n (i + 1) ?s) x = ready_mem ?s x"
    using IH Suc.prems by simp_all
  have "ready_mem (Scheduler_priority_Ready_queue_initialize n (i + 1) ?s) x = ready_mem ?s x" if "x \<in> control_cells (Ready_at s i)" for x
  proof (intro B [rule_format] notI)
    fix p assume p: "unat i + 1 \<le> unat p \<and> unat p < unat i + 1 + n" "x \<in> control_cells (Ready_at s p)"
    then have "i \<noteq> p" "unat p < 256" using Suc.prems(1) by auto
    then show False using Suc.prems(2) [of i p] p that Suc.prems(1) by auto
  qed
  then have first: "chain_rep (ready_mem (Scheduler_priority_Ready_queue_initialize n (i + 1) ?s)) (Ready_at s i) []"
    by (intro chain_rep_Nil_cong [OF ballI Chain_Initialize_empty_rep [of "ready_mem s"]]) simp
  have "chain_rep (ready_mem (Scheduler_priority_Ready_queue_initialize n (i + 1) ?s)) (Ready_at s p) []"
    if "unat i \<le> unat p" "unat p < unat i + Suc n" for p
  proof -
    have "p = i \<or> unat i + 1 \<le> unat p" using that(1) by (auto simp: word_unat_eq_iff)
    then show ?thesis using A that first by auto
  qed
  moreover have "ready_mem (Scheduler_priority_Ready_queue_initialize n (i + 1) ?s) x = ready_mem s x"
    if "\<forall>p. unat i \<le> unat p \<and> unat p < unat i + Suc n \<longrightarrow> x \<notin> control_cells (Ready_at s p)" for x
    using B [rule_format, of x] Chain_Initialize_empty_frame [of x "Ready_at s i" "ready_mem s"] that by auto
  ultimately show ?case by simp
qed auto

lemma dormant_ok_init:
  assumes max: "unat (PRIORITY_MAXIMUM s) < 256" and ap: "apart (Ready_at s ` {p. p \<le> PRIORITY_MAXIMUM s}) T"
  shows "dormant_ok T {} (Scheduler_priority_Initialize s)"
proof -
  define n where "n = Suc (unat (PRIORITY_MAXIMUM s))"
  define s0 where "s0 = s\<lparr>Bit_map := Priority_bit_map_Initialize\<rparr>"
  define s1 where "s1 = Scheduler_priority_Ready_queue_initialize n 0 s0"
  have init: "Scheduler_priority_Initialize s = s1" by (simp add: Scheduler_priority_Initialize_def s1_def s0_def n_def Let_def)
  have le: "p \<le> PRIORITY_MAXIMUM s \<longleftrightarrow> unat p < n" for p by (simp add: n_def word_le_nat_alt less_Suc_eq_le)
  have "control_cells (Ready_at s p) \<inter> control_cells (Ready_at s r) = {}" if "unat r < n" "unat p < n" "p \<noteq> r" for p r
  proof -
    have "Ready_at s p \<noteq> Ready_at s r" using that Ready_at_level [OF max] le by metis
    then show ?thesis using ap that le unfolding apart_def by blast
  qed
  then have "\<forall>p. unat p < n \<longrightarrow> chain_rep (ready_mem s1) (Ready_at s p) []"
    using Ready_queue_initialize_chains [of 0 n s0] max by (simp add: s1_def s0_def n_def)
  then have "chains_rep (ready_mem s1) (Ready_at s ` {p. p \<le> PRIORITY_MAXIMUM s}) T (\<lambda>_. [])"
    using ap le by (auto simp: chains_rep_def)
  then show ?thesis using max bit_map_rep_empty unfolding init
    by (simp add: dormant_ok_def queues_def s1_def Ready_queue_initialize_fields s0_def)
qed

lemma Thread_Initialize_fields:
  "threads (Thread_Initialize t p b a s) u = (if u = t then (threads s t)\<lparr>Start_is_preemptible := b, Start_budget_algorithm := a,
      current_state := STATES_DORMANT, Wait := (Wait (threads s t))\<lparr>wait_queue := NULL, operations := Thread_queue_Operations_default, wait_flags := 0\<rparr>,
      resource_count := 0, current_priority := p, real_priority := p, priority_generation := 0, Start_initial_priority := p,
      ready_chain := Ready_at s p, Priority_map := Priority_bit_map_Initialize_information p\<rparr> else threads s u)"
  "ready_mem (Thread_Initialize t p b a s) = ready_mem s" "Ready (Thread_Initialize t p b a s) = Ready s" "Ready_at (Thread_Initialize t p b a s) = Ready_at s"
  "Bit_map (Thread_Initialize t p b a s) = Bit_map s" "PRIORITY_MAXIMUM (Thread_Initialize t p b a s) = PRIORITY_MAXIMUM s"
  "Thread_Heir (Thread_Initialize t p b a s) = Thread_Heir s" "Thread_Executing (Thread_Initialize t p b a s) = Thread_Executing s"
  "Thread_Dispatch_necessary (Thread_Initialize t p b a s) = Thread_Dispatch_necessary s"
  by (simp_all add: Thread_Initialize_def Let_def upd_thread_def upd_wait_def Scheduler_priority_Update_priority_def
      Scheduler_priority_Ready_queue_update_def Ready_at_def fun_eq_iff)

lemma dormant_ok_Thread_Initialize:
  assumes "dormant_ok T S s" "p \<le> PRIORITY_MAXIMUM s"
  shows "dormant_ok T (insert t S) (Thread_Initialize t p b a s)"
  using assms by (auto simp: dormant_ok_def Thread_Initialize_fields queues_def)

lemma dormant_ok_specs:
  assumes "dormant_ok T S s" "\<forall>(t, p, b, a) \<in> set specs. p \<le> PRIORITY_MAXIMUM s"
  shows "dormant_ok T (S \<union> fst ` set specs) (fold (\<lambda>(t, p, b, a). Thread_Initialize t p b a) specs s)
    \<and> PRIORITY_MAXIMUM (fold (\<lambda>(t, p, b, a). Thread_Initialize t p b a) specs s) = PRIORITY_MAXIMUM s"
  using assms
proof (induction specs arbitrary: S s)
  case (Cons x specs)
  obtain t p b a where x: "x = (t, p, b, a)" by (cases x)
  have "dormant_ok T (insert t S) (Thread_Initialize t p b a s)" using dormant_ok_Thread_Initialize Cons.prems x by auto
  from Cons.IH [OF this] Cons.prems(2) show ?case by (simp add: x Thread_Initialize_fields(6))
qed simp

subsection \<open>The invariant of the running kernel\<close>

definition run_inv :: "addr set \<Rightarrow> addr \<Rightarrow> Kernel \<Rightarrow> bool" where
  "run_inv T idle s \<longleftrightarrow> (\<exists>rq. sched_inv T s rq) \<and> idle \<in> T \<and> is_ready s idle
     \<and> (\<forall>t \<in> T. real_priority (threads s t) \<le> PRIORITY_MAXIMUM s)
     \<and> (Thread_Executing s \<noteq> Thread_Heir s \<longrightarrow> Thread_Dispatch_necessary s)"

lemma run_invI:
  assumes "sched_inv T s rq" "idle \<in> T" "is_ready s idle" "\<And>t. t \<in> T \<Longrightarrow> real_priority (threads s t) \<le> PRIORITY_MAXIMUM s"
    "Thread_Executing s \<noteq> Thread_Heir s \<Longrightarrow> Thread_Dispatch_necessary s"
  shows "run_inv T idle s"
  using assms by (auto simp: run_inv_def)

lemma run_inv_same:
  assumes "run_inv T idle s" "sched_same s s'" "Thread_Dispatch_necessary s' = Thread_Dispatch_necessary s"
    "\<And>t. real_priority (threads s' t) = real_priority (threads s t)"
  shows "run_inv T idle s'"
  using assms sched_inv_same [OF assms(2)] by (simp add: run_inv_def sched_same_def)

text \<open>The first idle thread.\<close>

lemma Thread_Create_idle_inv:
  assumes dorm: "dormant_ok T (T - {idle}) s" and idle: "idle \<in> T"
  shows "run_inv T idle (Thread_Create_idle_for_cpu idle s)"
proof -
  define M where "M = PRIORITY_MAXIMUM s"
  define s1 where "s1 = Thread_Initialize idle M True THREAD_CPU_BUDGET_ALGORITHM_NONE s"
  define s2 where "s2 = Thread_Load_environment idle (s1\<lparr>Thread_Heir := idle, Thread_Executing := idle\<rparr>)"
  define s3 where "s3 = upd_thread idle (\<lambda>c. c\<lparr>current_state := STATES_READY\<rparr>) s2"
  define s4 where "s4 = Scheduler_priority_Ready_queue_enqueue idle s3"
  have d1: "dormant_ok T T s1" using dormant_ok_Thread_Initialize [OF dorm, of M idle] idle by (simp add: s1_def M_def insert_absorb)
  have th: "threads s3 u = (if u = idle then (threads s1 idle)\<lparr>is_preemptible := True, budget_algorithm := THREAD_CPU_BUDGET_ALGORITHM_NONE,
      current_state := STATES_READY\<rparr> else threads s1 u)" for u
    by (simp add: s3_def s2_def s1_def Thread_Load_environment_def upd_thread_def Thread_Initialize_fields)
  have fr: "ready_mem s3 = ready_mem s1" "Ready s3 = Ready s1" "Bit_map s3 = Bit_map s1" "PRIORITY_MAXIMUM s3 = PRIORITY_MAXIMUM s1"
    "Thread_Heir s3 = idle" "Thread_Executing s3 = idle"
    by (simp_all add: s3_def s2_def Thread_Load_environment_def upd_thread_def)
  have p: "prio s3 u = prio s1 u" for u by (simp add: th)
  have "sched_rep s1 T (prio s1) (\<lambda>_. [])" using d1 by (intro sched_repI) (auto simp: dormant_ok_def)
  then have rep: "sched_rep s3 T (prio s1) (\<lambda>_. [])" using sched_rep_cong [of s3 s1 T "prio s1"] fr by (simp add: th)
  define rq where "rq = (\<lambda>_. [])(prio s1 idle := [idle])"
  have "sched_rep s4 T (prio s1) rq" using sched_rep_enqueue(1) [OF rep idle] by (simp add: s4_def rq_def)
  then have "sched_rep s4 T (\<lambda>u. prio s4 u) rq" by (simp add: s4_def enqueue_frame p)
  moreover have "u \<in> set (rq (prio s4 u)) \<longleftrightarrow> is_ready s4 u" if "u \<in> T" for u
    using d1 that by (auto simp: rq_def s4_def enqueue_frame th dormant_ok_def)
  ultimately have "sched_base T s4 rq" using idle by (simp add: sched_base_def s4_def enqueue_frame fr)
  moreover have "heir_ok T s4 rq" using idle by (auto simp: heir_ok_def Let_def s4_def enqueue_frame fr th rq_def)
  ultimately have inv: "sched_inv T s4 rq" by (simp add: sched_inv_def)
  have "PRIORITY_MAXIMUM s4 = PRIORITY_MAXIMUM s1" by (simp add: s4_def Scheduler_priority_Ready_queue_enqueue_def Let_def fr)
  then have "run_inv T idle s4"
    by (intro run_invI [OF inv idle]) (use d1 in \<open>auto simp: s4_def enqueue_frame th fr dormant_ok_def\<close>)
  moreover have "Thread_Create_idle_for_cpu idle s = s4"
    using fr(5) by (simp add: Thread_Create_idle_for_cpu_def Thread_Start_def Let_def Thread_Initialize_fields M_def [symmetric] s1_def [symmetric]
        s2_def [symmetric] s3_def [symmetric] Scheduler_priority_Unblock_def s4_def enqueue_frame) (simp add: s1_def Thread_Initialize_fields)
  ultimately show ?thesis by simp
qed

subsection \<open>The operations keep the invariant\<close>

definition dispatch_ok :: "Kernel \<Rightarrow> bool" where
  "dispatch_ok s \<longleftrightarrow> (Thread_Executing s \<noteq> Thread_Heir s \<longrightarrow> Thread_Dispatch_necessary s)"

text \<open>What an operation of the scheduler leaves as it is.\<close>

definition sched_frame :: "Kernel \<Rightarrow> Kernel \<Rightarrow> bool" where
  "sched_frame s s' \<longleftrightarrow> threads s' = threads s \<and> Thread_Executing s' = Thread_Executing s \<and> PRIORITY_MAXIMUM s' = PRIORITY_MAXIMUM s
     \<and> ticks_per_timeslice s' = ticks_per_timeslice s \<and> wait_chain s' = wait_chain s \<and> wait_tree s' = wait_tree s \<and> queue_operations s' = queue_operations s
     \<and> semaphores s' = semaphores s \<and> barriers s' = barriers s \<and> rwlocks s' = rwlocks s \<and> mutexes s' = mutexes s
     \<and> (dispatch_ok s \<longrightarrow> dispatch_ok s')"

lemma sched_frameD:
  assumes "sched_frame s s'"
  shows "threads s' = threads s" "Thread_Executing s' = Thread_Executing s" "PRIORITY_MAXIMUM s' = PRIORITY_MAXIMUM s"
    "wait_chain s' = wait_chain s" "wait_tree s' = wait_tree s" "queue_operations s' = queue_operations s" "dispatch_ok s \<Longrightarrow> dispatch_ok s'"
  using assms by (simp_all add: sched_frame_def)

named_theorems sched_frames \<open>operations that change only the ready queues and the heir\<close>

lemma sched_frame_refl [sched_frames]: "sched_frame s s"
  by (simp add: sched_frame_def)

lemma sched_frame_trans: "sched_frame s s1 \<Longrightarrow> sched_frame s1 s2 \<Longrightarrow> sched_frame s s2"
  by (simp add: sched_frame_def)

lemma sched_frame_ready [sched_frames]:
  "sched_frame s (s\<lparr>ready_mem := m\<rparr>)" "sched_frame s (s\<lparr>Bit_map := b\<rparr>)" "sched_frame s (s\<lparr>ready_mem := m, Bit_map := b\<rparr>)"
  by (simp_all add: sched_frame_def dispatch_ok_def)

lemma sched_frame_Update_heir [sched_frames]: "sched_frame s (Scheduler_Update_heir h f s)"
  by (simp add: sched_frame_def dispatch_ok_def Scheduler_Update_heir_def Let_def)

lemma sched_frame_Schedule_body [sched_frames]: "sched_frame s (Scheduler_priority_Schedule_body t f s)"
  by (simp add: Scheduler_priority_Schedule_body_def Let_def sched_frames)

lemma sched_frame_enqueue [sched_frames]:
  "sched_frame s (Scheduler_priority_Ready_queue_enqueue t s)" "sched_frame s (Scheduler_priority_Ready_queue_enqueue_first t s)"
  "sched_frame s (Scheduler_priority_Ready_queue_extract t s)"
  by (simp_all add: Scheduler_priority_Ready_queue_enqueue_def Scheduler_priority_Ready_queue_enqueue_first_def
      Scheduler_priority_Ready_queue_extract_def Let_def sched_frames)

lemma sched_frame_Block [sched_frames]: "sched_frame s (Scheduler_priority_Block t s)"
  using sched_frame_trans [OF sched_frame_enqueue(3) sched_frame_Schedule_body] sched_frame_enqueue(3)
  by (simp add: Scheduler_priority_Block_def Scheduler_Generic_block_def Scheduler_priority_Extract_body_def Let_def)

lemma sched_frame_Unblock [sched_frames]: "sched_frame s (Scheduler_priority_Unblock t s)"
  using sched_frame_trans [OF sched_frame_enqueue(1) sched_frame_Update_heir] sched_frame_enqueue(1)
  by (simp add: Scheduler_priority_Unblock_def Let_def)

lemma sched_frame_Yield [sched_frames]: "sched_frame s (Thread_Yield t s)"
  using sched_frame_trans [OF sched_frame_ready(1) sched_frame_Schedule_body]
  by (simp add: Thread_Yield_def Scheduler_priority_Yield_def Let_def sched_frames)

text \<open>The changes of a thread state.\<close>

lemma upd_state_dispatch [simp]: "dispatch_ok (upd_thread t f s) = dispatch_ok s"
  by (simp add: dispatch_ok_def upd_thread_def)

lemma Thread_Set_state_frame:
  "sched_frame (upd_thread t (\<lambda>c. c\<lparr>current_state := States_Set state (current_state c)\<rparr>) s) (fst (Thread_Set_state t state s))"
  by (simp add: Thread_Set_state_def Let_def upd_thread_def sched_frames)

lemma and_not_disjoint:
  assumes "x AND y = (0 :: uint32)"
  shows "x AND NOT y = x"
proof (rule bit_word_eqI)
  fix n assume "n < LENGTH(32)"
  moreover have "\<not> (bit x n \<and> bit y n)" using assms by (metis bit_and_iff bit_0_eq bot_apply bot_bool_def)
  ultimately show "bit (x AND NOT y) n = bit x n" by (auto simp: bit_and_iff bit_not_iff)
qed

lemma Thread_Clear_state_frame:
  "sched_frame (upd_thread t (\<lambda>c. c\<lparr>current_state := States_Clear state (current_state c)\<rparr>) s) (fst (Thread_Clear_state t state s))"
proof (cases "current_state (threads s t) AND state = 0")
  case True
  then have "current_state (threads s t) AND NOT state = current_state (threads s t)"
    by (rule and_not_disjoint)
  then have "upd_thread t (\<lambda>c. c\<lparr>current_state := States_Clear state (current_state c)\<rparr>) s = s" by (simp add: upd_thread_def States_Clear_def)
  then show ?thesis using True by (simp add: Thread_Clear_state_def Let_def sched_frames)
qed (simp add: Thread_Clear_state_def Let_def upd_thread_def sched_frames)

lemma run_inv_frame:
  assumes "sched_frame s s'" "sched_inv T s' rq" "idle \<in> T" "is_ready s idle" "\<forall>t \<in> T. real_priority (threads s t) \<le> PRIORITY_MAXIMUM s" "dispatch_ok s"
  shows "run_inv T idle s'"
  using assms sched_frameD [OF assms(1)] by (intro run_invI [OF assms(2,3)]) (auto simp: dispatch_ok_def)

lemma run_invD:
  assumes "run_inv T idle s"
  obtains rq where "sched_inv T s rq" "idle \<in> T" "is_ready s idle" "\<forall>t \<in> T. real_priority (threads s t) \<le> PRIORITY_MAXIMUM s" "dispatch_ok s"
  using assms by (auto simp: run_inv_def dispatch_ok_def)

lemma run_inv_Set_state:
  assumes "run_inv T idle s" "t \<in> T" "t \<noteq> idle" "state \<noteq> 0"
  shows "run_inv T idle (fst (Thread_Set_state t state s))"
proof -
  obtain rq where R: "sched_inv T s rq" "idle \<in> T" "is_ready s idle" "\<forall>t \<in> T. real_priority (threads s t) \<le> PRIORITY_MAXIMUM s" "dispatch_ok s"
    using assms(1) by (rule run_invD)
  have u: "idle \<noteq> t" using assms(3) by simp
  show ?thesis by (rule run_inv_frame [OF Thread_Set_state_frame Thread_Set_state_inv [OF R(1) assms(2,4) R(2) u R(3)] R(2)])
    (use R assms(3) in \<open>simp_all add: upd_thread_def dispatch_ok_def\<close>)
qed

lemma run_inv_Clear_state:
  assumes "run_inv T idle s" "t \<in> T"
  shows "run_inv T idle (fst (Thread_Clear_state t state s))"
proof -
  obtain rq where R: "sched_inv T s rq" "idle \<in> T" "is_ready s idle" "\<forall>t \<in> T. real_priority (threads s t) \<le> PRIORITY_MAXIMUM s" "dispatch_ok s"
    using assms(1) by (rule run_invD)
  show ?thesis by (rule run_inv_frame [OF Thread_Clear_state_frame Thread_Clear_state_inv [OF R(1) assms(2)] R(2)])
    (use R in \<open>auto simp: upd_thread_def dispatch_ok_def States_Clear_def\<close>)
qed

lemma run_inv_Yield:
  assumes "run_inv T idle s" "t \<in> T"
  shows "run_inv T idle (Thread_Yield t s)"
proof -
  obtain rq where R: "sched_inv T s rq" "idle \<in> T" "is_ready s idle" "\<forall>t \<in> T. real_priority (threads s t) \<le> PRIORITY_MAXIMUM s" "dispatch_ok s"
    using assms(1) by (rule run_invD)
  show ?thesis by (rule run_inv_frame [OF sched_frame_Yield Thread_Yield_inv [OF R(1) assms(2)] R(2-5)])
qed

lemma run_inv_budget: "run_inv T idle (upd_thread t (\<lambda>c. c\<lparr>cpu_time_budget := x c\<rparr>) s) = run_inv T idle s"
proof -
  have "upd_thread t (\<lambda>c. c\<lparr>cpu_time_budget := x c\<rparr>) s = upd_thread t (\<lambda>c. c\<lparr>cpu_time_budget := x (threads s t)\<rparr>) s"
    by (simp add: upd_thread_def)
  then have "sched_inv T (upd_thread t (\<lambda>c. c\<lparr>cpu_time_budget := x c\<rparr>) s) rq = sched_inv T s rq" for rq by (simp add: sched_inv_budget)
  moreover have "real_priority (threads (upd_thread t (\<lambda>c. c\<lparr>cpu_time_budget := x c\<rparr>) s) u) = real_priority (threads s u)"
    "current_state (threads (upd_thread t (\<lambda>c. c\<lparr>cpu_time_budget := x c\<rparr>) s) u) = current_state (threads s u)" for u
    by (simp_all add: upd_thread_def)
  ultimately show ?thesis by (simp add: run_inv_def) (simp add: upd_thread_def)
qed

lemma run_inv_Tick:
  assumes "run_inv T idle s" "t \<in> T" "budget_algorithm (threads s t) \<noteq> THREAD_CPU_BUDGET_ALGORITHM_CALLOUT"
  shows "run_inv T idle (Scheduler_default_Tick callout t s)"
  using assms by (cases "budget_algorithm (threads s t)") (simp_all add: Scheduler_default_Tick_def Let_def run_inv_budget run_inv_Yield)

lemma run_inv_level [simp]: "run_inv T idle (s\<lparr>Thread_Dispatch_disable_level := l\<rparr>) = run_inv T idle s"
  by (simp add: run_inv_def)

lemma run_inv_Do_dispatch:
  assumes "run_inv T idle s"
  shows "run_inv T idle (Thread_Do_dispatch s)"
proof -
  let ?s = "s\<lparr>Thread_Dispatch_necessary := False, Thread_Executing := Thread_Heir s\<rparr>"
  have "sched_inv T ?s rq" if "sched_inv T s rq" for rq
    using sched_inv_dispatch [OF that, where h = "Thread_Heir s" and n = False and l = "Thread_Dispatch_disable_level s"] by simp
  then have "run_inv T idle ?s" using assms by (auto simp: run_inv_def)
  then show ?thesis by (simp add: Thread_Do_dispatch_def Thread_Get_heir_and_make_it_executing_def Let_def run_inv_budget)
qed

lemma run_inv_dispatch:
  assumes "run_inv T idle s"
  shows "run_inv T idle (Thread_Dispatch_disable s)" "run_inv T idle (Thread_Dispatch_enable s)" "run_inv T idle (Thread_Dispatch s)"
  using assms run_inv_Do_dispatch
  by (simp_all add: Thread_Dispatch_disable_def Thread_Dispatch_enable_def Thread_Dispatch_def Let_def)

text \<open>Creation and start of a thread that is not ready.\<close>

lemma sched_inv_not_ready:
  assumes "sched_inv T s rq" "t \<in> T" "\<not> is_ready s t" "p \<le> PRIORITY_MAXIMUM s"
    and "ready_mem s' = ready_mem s" "Ready s' = Ready s" "Bit_map s' = Bit_map s" "PRIORITY_MAXIMUM s' = PRIORITY_MAXIMUM s"
      "Thread_Heir s' = Thread_Heir s" "Thread_Executing s' = Thread_Executing s" "\<And>u. u \<noteq> t \<Longrightarrow> threads s' u = threads s u"
    and t': "prio s' t = p" "\<not> is_ready s' t" "ready_chain (threads s' t) = Ready_at s p" "Priority_map (threads s' t) = Priority_bit_map_Initialize_information p"
  shows "sched_inv T s' rq"
proof -
  note I = sched_invD [OF assms(1)]
  have nq: "t \<notin> set (rq (prio s t))" using I(7) assms(2,3) by simp
  have heir: "Thread_Heir s \<noteq> t" using I(6) assms(3) by auto
  have pr: "prio s' u = ((\<lambda>u. prio s u)(t := p)) u" for u using assms(11) t'(1) by simp
  have "sched_rep (Scheduler_priority_Ready_queue_update t p s) T ((prio s)(t := p)) rq" by (rule sched_rep_update [OF I(3) assms(2) nq assms(4)])
  moreover have "sched_rep s' T ((prio s)(t := p)) rq = sched_rep (Scheduler_priority_Ready_queue_update t p s) T ((prio s)(t := p)) rq"
    by (rule sched_rep_cong) (use assms in \<open>simp_all add: Scheduler_priority_Ready_queue_update_def upd_thread_def\<close>)
  ultimately have rep: "sched_rep s' T (\<lambda>u. prio s' u) rq" unfolding pr by (simp del: fun_upd_apply)
  have "t \<notin> set (rq p)" using sched_not_queued [OF I(3) nq] assms(4) by blast
  then have "\<forall>u \<in> T. u \<in> set (rq (prio s' u)) \<longleftrightarrow> is_ready s' u" using I(7) t'(1,2) assms(11) by metis
  then have "sched_base T s' rq" using rep I(4) assms(10) by (simp add: sched_base_def)
  moreover have "heir_ok T s' rq" using I(2) heir assms(9,11) by (simp add: heir_ok_def Let_def)
  ultimately show ?thesis by (simp add: sched_inv_def)
qed

lemma run_inv_Thread_Initialize:
  assumes "run_inv T idle s" "t \<in> T" "\<not> is_ready s t" "p \<le> PRIORITY_MAXIMUM s"
  shows "run_inv T idle (Thread_Initialize t p b a s)"
proof -
  obtain rq where R: "sched_inv T s rq" "idle \<in> T" "is_ready s idle" "\<forall>t \<in> T. real_priority (threads s t) \<le> PRIORITY_MAXIMUM s" "dispatch_ok s"
    using assms(1) by (rule run_invD)
  have "sched_inv T (Thread_Initialize t p b a s) rq"
    by (rule sched_inv_not_ready [OF R(1) assms(2-4)]) (simp_all add: Thread_Initialize_fields)
  then show ?thesis by (rule run_invI [OF _ R(2)]) (use R(3-5) assms in \<open>auto simp: Thread_Initialize_fields dispatch_ok_def\<close>)
qed

lemma run_inv_Load_environment:
  assumes "run_inv T idle s" "t \<in> T" "\<not> is_ready s t"
  shows "run_inv T idle (Thread_Load_environment t s)"
proof -
  obtain rq where R: "sched_inv T s rq" "idle \<in> T" "is_ready s idle" "\<forall>t \<in> T. real_priority (threads s t) \<le> PRIORITY_MAXIMUM s" "dispatch_ok s"
    using assms(1) by (rule run_invD)
  note D = sched_repD [OF sched_invD(3) [OF R(1)]]
  have "sched_inv T (Thread_Load_environment t s) rq"
    by (rule sched_inv_not_ready [OF R(1) assms(2,3) D(4) [OF assms(2)]]) (use assms(3) D(5,6) [OF assms(2)] in \<open>simp_all add: Thread_Load_environment_def upd_thread_def\<close>)
  then show ?thesis
    by (rule run_invI [OF _ R(2)]) (use R(3-5) assms in \<open>auto simp: Thread_Load_environment_def upd_thread_def dispatch_ok_def\<close>)
qed

lemma run_inv_Start:
  assumes "run_inv T idle s" "t \<in> T"
  shows "run_inv T idle (fst (Thread_Start t False s))"
proof (cases "current_state (threads s t) AND STATES_DORMANT = 0")
  case False
  then have "\<not> is_ready s t" by auto
  then show ?thesis using False run_inv_Clear_state [OF run_inv_Load_environment [OF assms] assms(2)]
    by (simp add: Thread_Start_def Let_def Thread_Ready_def)
qed (simp add: Thread_Start_def assms)

subsection \<open>Priority changes\<close>

lemma ops_priority_change_links:
  assumes "ops_priority_change ops t p q k = Some k'"
  shows "links_only k k'"
proof (cases ops)
  case Thread_queue_Operations_priority
  then show ?thesis using assms
    by (auto simp: Thread_queue_Priority_priority_change_def Thread_queue_Priority_extract_def Thread_queue_Priority_enqueue_def
        links_only_def bind_eq_Some_conv)
qed (use assms in \<open>simp_all add: links_only_refl\<close>)

text \<open>What a filter may do: it changes the restore hint and the real priority of the thread, and the new priority is one the scheduler has.\<close>

definition filter_ok :: "addr set \<Rightarrow> Thread_Change_priority_filter \<Rightarrow> bool" where
  "filter_ok T filt \<longleftrightarrow> (\<forall>t p k. t \<in> T \<longrightarrow> p \<le> PRIORITY_MAXIMUM k \<longrightarrow> (\<forall>t \<in> T. real_priority (threads k t) \<le> PRIORITY_MAXIMUM k) \<longrightarrow>
     (\<exists>h r. fst (filt t p k) = upd_thread t (\<lambda>c. c\<lparr>priority_restore_hint := h, real_priority := r\<rparr>) k \<and> r \<le> PRIORITY_MAXIMUM k)
     \<and> fst (snd (filt t p k)) \<le> PRIORITY_MAXIMUM k)"

lemma filters_ok: "filter_ok T Thread_Raise_priority_filter" "filter_ok T Thread_Restore_priority_filter" "filter_ok T Thread_Set_priority_filter"
proof -
  have "upd_thread t (\<lambda>c. c\<lparr>priority_restore_hint := priority_restore_hint (threads k t), real_priority := real_priority (threads k t)\<rparr>) k = k" for t k
    by (simp add: upd_thread_def)
  then show "filter_ok T Thread_Raise_priority_filter" unfolding filter_ok_def Thread_Raise_priority_filter_def by (metis fst_conv snd_conv)
  have "upd_thread t (\<lambda>c. c\<lparr>priority_restore_hint := False, real_priority := real_priority (threads k t)\<rparr>) k = upd_thread t (\<lambda>c. c\<lparr>priority_restore_hint := False\<rparr>) k" for t k
    by (simp add: upd_thread_def)
  then show "filter_ok T Thread_Restore_priority_filter" unfolding filter_ok_def Thread_Restore_priority_filter_def Let_def by (metis fst_conv snd_conv)
  have "upd_thread t (\<lambda>c. c\<lparr>priority_restore_hint := priority_restore_hint (threads k t), real_priority := p\<rparr>) k = upd_thread t (\<lambda>c. c\<lparr>real_priority := p\<rparr>) k" for t k p
    by (simp add: upd_thread_def)
  then show "filter_ok T Thread_Set_priority_filter" unfolding filter_ok_def Thread_Set_priority_filter_def Let_def by (metis fst_conv snd_conv)
qed

lemma run_inv_hint:
  assumes "run_inv T idle s" "r \<le> PRIORITY_MAXIMUM s"
  shows "run_inv T idle (upd_thread t (\<lambda>c. c\<lparr>priority_restore_hint := h, real_priority := r\<rparr>) s)"
proof -
  have "sched_same s (upd_thread t (\<lambda>c. c\<lparr>priority_restore_hint := h, real_priority := r\<rparr>) s)" by (simp add: sched_same_def upd_thread_def)
  from sched_inv_same [OF this] assms show ?thesis by (simp add: run_inv_def) (auto simp: upd_thread_def)
qed

lemma Change_priority_frame:
  "sched_frame (Scheduler_priority_Ready_queue_update t p s) (Scheduler_priority_Change_priority t p prepend_it s)"
proof -
  define s1 where "s1 = Scheduler_priority_Ready_queue_update t p (Scheduler_priority_Ready_queue_extract t s)"
  define s2 where "s2 = (if prepend_it then Scheduler_priority_Ready_queue_enqueue_first t s1 else Scheduler_priority_Ready_queue_enqueue t s1)"
  have "Ready_at (Scheduler_priority_Ready_queue_extract t s) = Ready_at s"
    by (simp add: Scheduler_priority_Ready_queue_extract_def Let_def)
  then have "sched_frame (Scheduler_priority_Ready_queue_update t p s) s1"
    using sched_frame_enqueue(3) [of s t] by (simp add: s1_def sched_frame_def dispatch_ok_def Scheduler_priority_Ready_queue_update_def upd_thread_def)
  moreover have "sched_frame s1 s2" by (simp add: s2_def sched_frames)
  moreover have "sched_frame s2 (Scheduler_priority_Change_priority t p prepend_it s)"
    by (simp add: Scheduler_priority_Change_priority_def Let_def s1_def s2_def sched_frames)
  ultimately show ?thesis by (blast intro: sched_frame_trans)
qed

text \<open>The scheduler follows the new priority of a thread.\<close>

lemma run_inv_new_priority:
  assumes inv: "run_inv T idle s" and t: "t \<in> T" and p: "p \<le> PRIORITY_MAXIMUM s"
    and links: "links_only (upd_thread t (\<lambda>c. c\<lparr>current_priority := p, priority_generation := g\<rparr>) s) s'"
  shows "run_inv T idle (if is_ready s' t then Scheduler_priority_Change_priority t p prepend_it s' else Scheduler_priority_Update_priority t p s')"
proof -
  obtain rq where R: "sched_inv T s rq" "idle \<in> T" "is_ready s idle" "\<forall>t \<in> T. real_priority (threads s t) \<le> PRIORITY_MAXIMUM s" "dispatch_ok s"
    using inv by (rule run_invD)
  note I = sched_invD [OF R(1)]
  have th: "threads s' u = (if u = t then (threads s t)\<lparr>current_priority := p, priority_generation := g\<rparr> else threads s u)"
    and fr: "ready_mem s' = ready_mem s" "Ready s' = Ready s" "Bit_map s' = Bit_map s" "PRIORITY_MAXIMUM s' = PRIORITY_MAXIMUM s"
      "Thread_Heir s' = Thread_Heir s" "Thread_Executing s' = Thread_Executing s" for u
    using links_only_fields [OF links] by (simp_all add: upd_thread_def)
  have nec: "Thread_Dispatch_necessary s' = Thread_Dispatch_necessary s"
    by (subst links [unfolded links_only_def]) (simp add: upd_thread_def)
  show ?thesis
  proof (cases "is_ready s' t")
    case True
    have rep: "sched_rep s' T (prio s) rq" using sched_rep_cong [of s' s T "prio s" rq] I(3) fr by (simp add: th)
    have rdy: "\<forall>u \<in> T. u \<in> set (rq (prio s u)) \<longleftrightarrow> is_ready s' u" using I(7) by (simp add: th)
    have pr: "prio s' u = ((prio s)(t := p)) u" for u by (simp add: th)
    have ex: "Thread_Executing s' \<in> T" "p \<le> PRIORITY_MAXIMUM s'" "Thread_Heir s' \<in> T" "is_ready s' (Thread_Heir s')" using I(4-6) p fr by (auto simp: th)
    note C = Scheduler_priority_Change_priority_inv [OF rep rdy ex(1) t True ex(2) pr ex(3,4), of prepend_it]
    note F = sched_frameD [OF Change_priority_frame [of t p s' prepend_it]]
    have "dispatch_ok (Scheduler_priority_Ready_queue_update t p s')" using R(5) nec fr by (simp add: dispatch_ok_def Scheduler_priority_Ready_queue_update_def upd_thread_def)
    from F(7) [OF this] have "dispatch_ok (Scheduler_priority_Change_priority t p prepend_it s')" .
    then show ?thesis using True
      by (intro run_invI [OF _ R(2)]) (use C R(3,4) F(1,3) fr in \<open>auto simp: th update_frame dispatch_ok_def\<close>)
  next
    case False
    have "sched_inv T (Scheduler_priority_Update_priority t p s') rq"
      by (rule sched_inv_not_ready [OF R(1) t _ p]) (use False fr in \<open>simp_all add: th Scheduler_priority_Update_priority_def update_frame
          Scheduler_priority_Ready_queue_update_def upd_thread_def Ready_at_def\<close>)
    then show ?thesis using False
      by (intro run_invI [OF _ R(2)]) (use R(3-5) fr nec in \<open>auto simp: th Scheduler_priority_Update_priority_def update_frame dispatch_ok_def
          Scheduler_priority_Ready_queue_update_def upd_thread_def\<close>)
  qed
qed

lemma run_inv_Change_priority:
  assumes inv: "run_inv T idle s" and t: "t \<in> T" and p: "p \<le> PRIORITY_MAXIMUM s" and filt: "filter_ok T filt"
    and res: "Thread_Change_priority t p filt prepend_it s = Some s'"
  shows "run_inv T idle s'"
proof -
  define s1 where "s1 = upd_thread t (\<lambda>c. c\<lparr>priority_restore_hint := True\<rparr>) s"
  obtain s2 p' change where f: "filt t p s1 = (s2, p', change)" by (cases "filt t p s1")
  have hint: "s1 = upd_thread t (\<lambda>c. c\<lparr>priority_restore_hint := True, real_priority := real_priority (threads s t)\<rparr>) s"
    by (simp add: s1_def upd_thread_def)
  have real: "\<forall>t \<in> T. real_priority (threads s t) \<le> PRIORITY_MAXIMUM s" using inv by (simp add: run_inv_def)
  have i1: "run_inv T idle s1" unfolding hint by (rule run_inv_hint [OF inv]) (use real t in blast)
  have "PRIORITY_MAXIMUM s1 = PRIORITY_MAXIMUM s" by (simp add: s1_def upd_thread_def)
  then obtain h r where s2: "s2 = upd_thread t (\<lambda>c. c\<lparr>priority_restore_hint := h, real_priority := r\<rparr>) s1" "r \<le> PRIORITY_MAXIMUM s1"
    and p': "p' \<le> PRIORITY_MAXIMUM s1"
    using filt t p i1 f unfolding filter_ok_def run_inv_def by (metis fst_conv snd_conv)
  have i2: "run_inv T idle s2" using run_inv_hint [OF i1 s2(2)] s2(1) by simp
  have m2: "p' \<le> PRIORITY_MAXIMUM s2" using p' s2(1) by (simp add: upd_thread_def)
  show ?thesis
  proof (cases change)
    case False
    then show ?thesis using res i2 f by (simp add: Thread_Change_priority_def Let_def s1_def [symmetric])
  next
    case True
    define g where "g = priority_generation (threads s2 t) + 1"
    define s3 where "s3 = upd_thread t (\<lambda>c. c\<lparr>current_priority := p', priority_generation := g\<rparr>) s2"
    obtain s4 where s4: "ops_priority_change (operations (Wait (threads s3 t))) t p' (wait_queue (Wait (threads s3 t))) s3 = Some s4"
      and s': "s' = (if priority_generation (threads s4 t) = g then if is_ready s4 t then Scheduler_priority_Change_priority t p' prepend_it s4
          else Scheduler_priority_Update_priority t p' s4 else s4)"
      using res f True by (auto simp: Thread_Change_priority_def Let_def s1_def [symmetric] g_def [symmetric] s3_def [symmetric] States_Is_ready_def bind_eq_Some_conv)
    have l: "links_only s3 s4" by (rule ops_priority_change_links [OF s4])
    then have "priority_generation (threads s4 t) = g" by (simp add: links_only_fields s3_def upd_thread_def)
    then show ?thesis using run_inv_new_priority [OF i2 t m2 l [unfolded s3_def], of prepend_it] s' by simp
  qed
qed

lemma run_inv_Thread_queue_Initialize:
  assumes "run_inv T idle s"
  shows "run_inv T idle (Thread_queue_Initialize q d s)"
  by (rule run_inv_same [OF assms]) (simp_all add: sched_same_def Thread_queue_Initialize_def Thread_queue_Priority_initialize_def
      Thread_queue_FIFO_initialize_def Let_def)

subsection \<open>All runs\<close>

text \<open>The threads of the set \<open>T\<close> are created with the priorities and modes of a list, the idle thread is started, and then the
  operations follow each other in any order. The idle thread never blocks. The last rules let thread queues change their links
  and the wait information of threads, synchronization objects change their counts, and mutexes count the resources of threads.\<close>

inductive runs :: "addr set \<Rightarrow> addr \<Rightarrow> Kernel \<Rightarrow> bool" for T :: "addr set" and idle :: addr where
  boot: "unat (PRIORITY_MAXIMUM s) < 256 \<Longrightarrow> apart (Ready_at s ` {p. p \<le> PRIORITY_MAXIMUM s}) T \<Longrightarrow> idle \<in> T
    \<Longrightarrow> T - {idle} \<subseteq> fst ` set specs \<Longrightarrow> \<forall>(t, p, b, a) \<in> set specs. p \<le> PRIORITY_MAXIMUM s
    \<Longrightarrow> runs T idle (Thread_Create_idle_for_cpu idle (fold (\<lambda>(t, p, b, a). Thread_Initialize t p b a) specs (Scheduler_priority_Initialize s)))"
| create: "runs T idle s \<Longrightarrow> t \<in> T \<Longrightarrow> \<not> is_ready s t \<Longrightarrow> p \<le> PRIORITY_MAXIMUM s \<Longrightarrow> runs T idle (Thread_Initialize t p b a s)"
| start: "runs T idle s \<Longrightarrow> t \<in> T \<Longrightarrow> runs T idle (fst (Thread_Start t False s))"
| set_state: "runs T idle s \<Longrightarrow> t \<in> T \<Longrightarrow> t \<noteq> idle \<Longrightarrow> state \<noteq> 0 \<Longrightarrow> runs T idle (fst (Thread_Set_state t state s))"
| clear_state: "runs T idle s \<Longrightarrow> t \<in> T \<Longrightarrow> runs T idle (fst (Thread_Clear_state t state s))"
| yield_it: "runs T idle s \<Longrightarrow> t \<in> T \<Longrightarrow> runs T idle (Thread_Yield t s)"
| tick: "runs T idle s \<Longrightarrow> budget_algorithm (threads s (Thread_Executing s)) \<noteq> THREAD_CPU_BUDGET_ALGORITHM_CALLOUT
    \<Longrightarrow> runs T idle (Scheduler_default_Tick callout (Thread_Executing s) s)"
| raise_priority: "runs T idle s \<Longrightarrow> t \<in> T \<Longrightarrow> p \<le> PRIORITY_MAXIMUM s \<Longrightarrow> Thread_Raise_priority t p s = Some s' \<Longrightarrow> runs T idle s'"
| restore_priority: "runs T idle s \<Longrightarrow> t \<in> T \<Longrightarrow> Thread_Restore_priority t s = Some s' \<Longrightarrow> runs T idle s'"
| set_priority: "runs T idle s \<Longrightarrow> t \<in> T \<Longrightarrow> p \<le> PRIORITY_MAXIMUM s \<Longrightarrow> Thread_Set_priority t p prepend_it s = Some (s', old) \<Longrightarrow> runs T idle s'"
| dispatch: "runs T idle s \<Longrightarrow> runs T idle (Thread_Dispatch s)"
| dispatch_disable: "runs T idle s \<Longrightarrow> runs T idle (Thread_Dispatch_disable s)"
| dispatch_enable: "runs T idle s \<Longrightarrow> runs T idle (Thread_Dispatch_enable s)"
| queue: "runs T idle s \<Longrightarrow> runs T idle (Thread_queue_Initialize q d s)"
| links: "runs T idle s \<Longrightarrow> links_only s s' \<Longrightarrow> runs T idle s'"
| wait: "runs T idle s \<Longrightarrow> runs T idle (upd_wait t f s)"
| core: "runs T idle s \<Longrightarrow> core_only s s' \<Longrightarrow> runs T idle s'"
| resource: "runs T idle s \<Longrightarrow> runs T idle (upd_thread t (\<lambda>c. c\<lparr>resource_count := n\<rparr>) s)"

lemma runs_inv: "runs T idle s \<Longrightarrow> run_inv T idle s"
proof (induction rule: runs.induct)
  case (boot s specs)
  have "dormant_ok T ({} \<union> fst ` set specs) (fold (\<lambda>(t, p, b, a). Thread_Initialize t p b a) specs (Scheduler_priority_Initialize s))"
    using dormant_ok_specs [OF dormant_ok_init [OF boot.hyps(1,2)]] boot.hyps(5)
    by (simp add: Scheduler_priority_Initialize_def Let_def Ready_queue_initialize_fields)
  then show ?case by (intro Thread_Create_idle_inv [OF _ boot.hyps(3)]) (use boot.hyps(4) in \<open>auto simp: dormant_ok_def\<close>)
next
  case (tick s callout)
  have "Thread_Executing s \<in> T" using tick.IH sched_invD(4) by (auto simp: run_inv_def)
  then show ?case by (rule run_inv_Tick [OF tick.IH _ tick.hyps(2)])
next
  case (restore_priority s t s')
  show ?case by (rule run_inv_Change_priority [OF restore_priority.IH restore_priority.hyps(2) _ filters_ok(2)
        restore_priority.hyps(3) [unfolded Thread_Restore_priority_def]]) simp
next
  case (links s s')
  have "Thread_Dispatch_necessary s' = Thread_Dispatch_necessary s" by (subst links.hyps(2) [unfolded links_only_def]) simp
  then show ?case using run_inv_same [OF links.IH sched_same_links [OF links.hyps(2)]] links_only_fields(1) [OF links.hyps(2)] by simp
next
  case (core s s')
  show ?case by (rule run_inv_same [OF core.IH]; subst core.hyps(2) [unfolded core_only_def]; simp add: sched_same_def)
next
  case (wait s t f)
  show ?case by (rule run_inv_same [OF wait.IH sched_same_wait]) (simp_all add: upd_wait_def upd_thread_def)
next
  case (resource s t n)
  show ?case by (rule run_inv_same [OF resource.IH]) (simp_all add: upd_thread_def sched_same_def)
qed (auto intro: run_inv_Thread_Initialize run_inv_Start run_inv_Set_state run_inv_Clear_state run_inv_Yield run_inv_dispatch
    run_inv_Thread_queue_Initialize run_inv_Change_priority [OF _ _ _ filters_ok(1)] run_inv_Change_priority [OF _ _ _ filters_ok(3)]
    simp: Thread_Raise_priority_def Thread_Set_priority_def)

lemma run_inv_heir:
  assumes "run_inv T idle s"
  shows "Thread_Heir s \<in> T \<and> is_ready s (Thread_Heir s)
    \<and> (is_preemptible (threads s (Thread_Heir s)) \<longrightarrow> (\<forall>t \<in> T. is_ready s t \<longrightarrow> prio s (Thread_Heir s) \<le> prio s t))"
proof -
  obtain rq where rq: "sched_inv T s rq" using assms by (auto simp: run_inv_def)
  note I = sched_invD [OF rq]
  have "prio s (Thread_Heir s) \<le> prio s t" if "is_preemptible (threads s (Thread_Heir s))" "t \<in> T" "is_ready s t" for t
  proof (rule ccontr)
    assume "\<not> prio s (Thread_Heir s) \<le> prio s t"
    then have "rq (prio s t) = []" using I(2) that(1) by (simp add: heir_ok_def Let_def)
    then show False using I(7) [OF that(2)] that(3) by simp
  qed
  then show ?thesis using I(5,6) by blast
qed

text \<open>C1: In every state that the kernel can reach, by creating, starting, blocking, readying, preempting and dispatching threads and by
  changing their priorities in any order, a dispatch makes a ready thread the executing one, and unless this thread
  runs in a mode without preemption no ready thread is more important.\<close>

theorem kernel_executes_most_important:
  assumes "runs T idle s"
  shows "Thread_Executing (Thread_Dispatch s) \<in> T \<and> is_ready (Thread_Dispatch s) (Thread_Executing (Thread_Dispatch s))
    \<and> Thread_Executing (Thread_Dispatch s) = Thread_Heir s
    \<and> (is_preemptible (threads (Thread_Dispatch s) (Thread_Executing (Thread_Dispatch s))) \<longrightarrow>
        (\<forall>t \<in> T. is_ready (Thread_Dispatch s) t \<longrightarrow> prio (Thread_Dispatch s) (Thread_Executing (Thread_Dispatch s)) \<le> prio (Thread_Dispatch s) t))"
proof -
  have inv: "run_inv T idle s" "run_inv T idle (Thread_Dispatch s)" using runs_inv assms run_inv_dispatch by blast+
  have "Thread_Heir (Thread_Dispatch s) = Thread_Heir s" "Thread_Executing (Thread_Dispatch s) = Thread_Heir s"
    using inv(1) by (auto simp: run_inv_def Thread_Dispatch_def Thread_Do_dispatch_def Thread_Get_heir_and_make_it_executing_def Let_def upd_thread_def)
  then show ?thesis using run_inv_heir [OF inv(2)] by simp
qed

subsection \<open>A small kernel\<close>

text \<open>Four priorities, an idle thread and one more thread with priority 1.\<close>

definition blank_wait :: Thread_Wait_information where
  "blank_wait = \<lparr>wait_id = 0, wait_count = 0, return_argument = 0, return_argument_second = 0, wait_option = 0, return_code = 0,
     timeout_code = 0, wait_queue = NULL, wait_flags = 0, operations = Thread_queue_Operations_default\<rparr>"

definition blank_thread :: Thread_Control where
  "blank_thread = \<lparr>current_state = STATES_DORMANT, current_priority = 0, real_priority = 0, priority_generation = 0, priority_restore_hint = False,
     resource_count = 0, Wait = blank_wait, is_preemptible = True, cpu_time_budget = 0, budget_algorithm = THREAD_CPU_BUDGET_ALGORITHM_NONE,
     ready_chain = NULL, Priority_map = Priority_bit_map_Initialize_information 0, Start_is_preemptible = True,
     Start_budget_algorithm = THREAD_CPU_BUDGET_ALGORITHM_NONE, Start_initial_priority = 0\<rparr>"

definition blank_kernel :: Kernel where
  "blank_kernel = \<lparr>threads = (\<lambda>_. blank_thread), ready_mem = (\<lambda>_. 0), Ready = 0x1000, Bit_map = Priority_bit_map_Initialize,
     Thread_Executing = NULL, Thread_Heir = NULL, Thread_Dispatch_necessary = False, Thread_Dispatch_disable_level = 0, PRIORITY_MAXIMUM = 3,
     ticks_per_timeslice = 50, wait_chain = (\<lambda>_. 0), wait_tree = (\<lambda>_. rb_three), queue_operations = (\<lambda>_. Thread_queue_Operations_default),
     semaphores = (\<lambda>_. \<lparr>sem_maximum_count = 0, sem_discipline = CORE_SEMAPHORE_DISCIPLINES_FIFO, sem_count = 0\<rparr>),
     barriers = (\<lambda>_. \<lparr>bar_discipline = CORE_BARRIER_MANUAL_RELEASE, bar_maximum_count = 0, number_of_waiting_threads = 0\<rparr>),
     rwlocks = (\<lambda>_. \<lparr>rw_state = CORE_RWLOCK_UNLOCKED, number_of_readers = 0\<rparr>),
     mutexes = (\<lambda>_. \<lparr>Attributes = \<lparr>lock_nesting_behavior = CORE_MUTEX_NESTING_ACQUIRES, only_owner_release = True,
       mutex_discipline = CORE_MUTEX_DISCIPLINES_PRIORITY, priority_ceiling = 0\<rparr>, nest_count = 0, holder = NULL\<rparr>)\<rparr>"

definition two_threads :: Kernel where
  "two_threads = Thread_Create_idle_for_cpu 0x3000 (Thread_Initialize 0x2000 1 True THREAD_CPU_BUDGET_ALGORITHM_NONE (Scheduler_priority_Initialize blank_kernel))"

lemma blank_levels: "Ready_at blank_kernel ` {p. p \<le> 3} = {0x1000, 0x100c, 0x1018, 0x1024}"
proof -
  have "{p :: uint32. p \<le> 3} = {0, 1, 2, 3}"
  proof (rule set_eqI)
    fix p :: uint32
    have "unat p \<le> 3 \<longleftrightarrow> unat p = 0 \<or> unat p = 1 \<or> unat p = 2 \<or> unat p = 3" by auto
    then show "p \<in> {p. p \<le> 3} \<longleftrightarrow> p \<in> {0, 1, 2, 3}" by (simp add: word_le_nat_alt word_unat_eq_iff)
  qed
  then show ?thesis by (simp add: Ready_at_def blank_kernel_def)
qed

lemma two_threads_runs: "runs {0x2000, 0x3000} 0x3000 two_threads"
proof -
  have "apart (Ready_at blank_kernel ` {p. p \<le> PRIORITY_MAXIMUM blank_kernel}) {0x2000, 0x3000}"
    using blank_levels by (simp add: blank_kernel_def apart_def control_cells_def node_cells_def)
  from runs.boot [OF _ this, of "0x3000" "[(0x2000, 1, True, THREAD_CPU_BUDGET_ALGORITHM_NONE)]"]
  have "runs {0x2000, 0x3000} 0x3000 (Thread_Create_idle_for_cpu 0x3000 (fold (\<lambda>(t, p, b, a). Thread_Initialize t p b a)
      [(0x2000, 1, True, THREAD_CPU_BUDGET_ALGORITHM_NONE)] (Scheduler_priority_Initialize blank_kernel)))" by (auto simp: blank_kernel_def)
  then show ?thesis by (simp add: two_threads_def)
qed

lemma two_threads_start:
  "Thread_Heir (fst (Thread_Start 0x2000 False two_threads)) = 0x2000"
  by (simp add: two_threads_def) code_simp

theorem kernel_executes_most_important_witness:
  "Thread_Executing (Thread_Dispatch (fst (Thread_Start 0x2000 False two_threads))) = 0x2000
   \<and> is_ready (Thread_Dispatch (fst (Thread_Start 0x2000 False two_threads))) 0x2000"
  using kernel_executes_most_important [OF runs.start [OF two_threads_runs, of "0x2000"]] two_threads_start by auto

end
