(* ===== verification/Score_Wakeup.thy ===== *)
theory Score_Wakeup
  imports Score_Kernel
begin

text \<open>
  Blocking at thread queues and being woken. The queues of both disciplines are one collection of lists of threads here, and the wait
  information of every thread says at which queue it waits. Threads leave a queue in the order of its discipline, and a
  thread that is about to block is never lost, whatever interrupts take from its queue while it blocks.
\<close>

subsection \<open>All thread queues\<close>

definition queues_with :: "Kernel \<Rightarrow> addr set \<Rightarrow> Thread_queue_Operations \<Rightarrow> addr set" where
  "queues_with k Q ops = {q \<in> Q. queue_operations k q = ops}"

definition waits :: "Kernel \<Rightarrow> addr set \<Rightarrow> addr set \<Rightarrow> (addr \<Rightarrow> addr list) \<Rightarrow> bool" where
  "waits k Q T ql \<longleftrightarrow> fifo_rep k (queues_with k Q Thread_queue_Operations_FIFO) T ql
     \<and> prio_rep k (queues_with k Q Thread_queue_Operations_priority) T ql
     \<and> (\<forall>q \<in> Q. queue_operations k q \<noteq> Thread_queue_Operations_default)
     \<and> (\<forall>q \<in> Q. \<forall>r \<in> Q. q \<noteq> r \<longrightarrow> set (ql q) \<inter> set (ql r) = {})"

text \<open>The place of a thread in a queue.\<close>

definition placed :: "Kernel \<Rightarrow> addr \<Rightarrow> addr \<Rightarrow> addr list \<Rightarrow> addr list" where
  "placed k q t ts = (if queue_operations k q = Thread_queue_Operations_FIFO then ts @ [t] else insert_after (\<lambda>u. prio k u) t ts)"

lemma placed_set [simp]: "set (placed k q t ts) = insert t (set ts)"
  by (simp add: placed_def)

lemma fifo_rep_cong: "wait_chain k' = wait_chain k \<Longrightarrow> (\<And>c. c \<in> C \<Longrightarrow> ql' c = ql c) \<Longrightarrow> fifo_rep k' C T ql' = fifo_rep k C T ql"
  using chains_rep_cong [of C ql' ql] by (simp add: fifo_rep_def)

lemma prio_rep_cong:
  assumes "\<And>q. q \<in> C \<Longrightarrow> wait_tree k' q = wait_tree k q" "\<And>t. prio k' t = prio k t" "\<And>c. c \<in> C \<Longrightarrow> ql' c = ql c"
  shows "prio_rep k' C T ql' = prio_rep k C T ql"
  using assms by (simp add: prio_rep_def cong: ball_cong)

text \<open>Changes that the queues do not see.\<close>

definition wait_same :: "Kernel \<Rightarrow> Kernel \<Rightarrow> bool" where
  "wait_same k k' \<longleftrightarrow> wait_chain k' = wait_chain k \<and> wait_tree k' = wait_tree k \<and> queue_operations k' = queue_operations k \<and> (\<forall>t. prio k' t = prio k t)
     \<and> semaphores k' = semaphores k \<and> barriers k' = barriers k \<and> rwlocks k' = rwlocks k \<and> mutexes k' = mutexes k
     \<and> (\<forall>t. real_priority (threads k' t) = real_priority (threads k t) \<and> resource_count (threads k' t) = resource_count (threads k t)
          \<and> priority_restore_hint (threads k' t) = priority_restore_hint (threads k t))"

lemma waits_same: "wait_same k k' \<Longrightarrow> waits k' Q T ql = waits k Q T ql"
  using fifo_rep_cong [of k' k _ ql ql] prio_rep_cong [of _ k' k ql ql] by (simp add: waits_def wait_same_def queues_with_def)

lemma waits_core:
  assumes "core_only k k'"
  shows "waits k' Q T ql = waits k Q T ql"
  using fifo_rep_cong [of k' k _ ql ql] prio_rep_cong [of _ k' k ql ql] core_only_fields [OF assms] by (simp add: waits_def queues_with_def)

lemma waits_disjoint: "waits k Q T ql \<Longrightarrow> q \<in> Q \<Longrightarrow> r \<in> Q \<Longrightarrow> t \<in> set (ql q) \<Longrightarrow> t \<in> set (ql r) \<Longrightarrow> q = r"
  unfolding waits_def by blast

lemma waits_cases:
  assumes "waits k Q T ql" "q \<in> Q"
  obtains "queue_operations k q = Thread_queue_Operations_FIFO" "q \<in> queues_with k Q Thread_queue_Operations_FIFO"
  | "queue_operations k q = Thread_queue_Operations_priority" "q \<in> queues_with k Q Thread_queue_Operations_priority"
  using assms by (cases "queue_operations k q") (auto simp: waits_def queues_with_def)

lemma waits_apart: "waits k Q T ql \<Longrightarrow> q \<in> Q \<Longrightarrow> distinct (ql q) \<and> set (ql q) \<subseteq> T \<and> NULL \<notin> T"
  by (rule waits_cases) (auto simp: waits_def dest: fifo.rep_apart prioq.rep_apart)

lemma waits_first:
  assumes "waits k Q T ql" "q \<in> Q"
  shows "Thread_queue_First_locked q k = Some (if ql q = [] then NULL else hd (ql q))"
  using assms(1,2)
proof (rule waits_cases)
  assume c: "queue_operations k q = Thread_queue_Operations_FIFO" "q \<in> queues_with k Q Thread_queue_Operations_FIFO"
  show ?thesis using assms(1) c(1) fifo.front_rep [OF _ c(2), of k T ql] unfolding waits_def Thread_queue_First_locked_def by simp
next
  assume c: "queue_operations k q = Thread_queue_Operations_priority" "q \<in> queues_with k Q Thread_queue_Operations_priority"
  show ?thesis using assms(1) c(1) prioq.front_rep [OF _ c(2), of k T ql] unfolding waits_def Thread_queue_First_locked_def by simp
qed

text \<open>One queue changes, by an operation on the chains or on the trees.\<close>

lemma waits_update:
  assumes "waits k Q T ql" "q \<in> Q" "links_only k k'" "set xs \<subseteq> insert t (set (ql q))" "\<forall>r \<in> Q. r \<noteq> q \<longrightarrow> t \<notin> set (ql r)"
    and "queue_operations k q = Thread_queue_Operations_FIFO \<Longrightarrow> fifo_rep k' (queues_with k Q Thread_queue_Operations_FIFO) T (ql(q := xs)) \<and> wait_tree k' = wait_tree k"
    and "queue_operations k q = Thread_queue_Operations_priority \<Longrightarrow> prio_rep k' (queues_with k Q Thread_queue_Operations_priority) T (ql(q := xs)) \<and> wait_chain k' = wait_chain k"
  shows "waits k' Q T (ql(q := xs))"
proof -
  note L = links_only_fields [OF assms(3)]
  have qs: "queues_with k' Q ops = queues_with k Q ops" for ops by (simp add: queues_with_def L)
  have dis: "set ((ql(q := xs)) a) \<inter> set ((ql(q := xs)) b) = {}" if "a \<in> Q" "b \<in> Q" "a \<noteq> b" for a b
  proof -
    have "set (ql a) \<inter> set (ql b) = {}" "set (ql q) \<inter> set (ql a) = {} \<or> a = q" "set (ql q) \<inter> set (ql b) = {} \<or> b = q"
      using assms(1,2) that unfolding waits_def by blast+
    then show ?thesis using assms(4,5) that by auto
  qed
  from assms(1,2) show ?thesis
  proof (rule waits_cases)
    assume c: "queue_operations k q = Thread_queue_Operations_FIFO" "q \<in> queues_with k Q Thread_queue_Operations_FIFO"
    have "prio_rep k' (queues_with k Q Thread_queue_Operations_priority) T (ql(q := xs)) = prio_rep k (queues_with k Q Thread_queue_Operations_priority) T ql"
      by (rule prio_rep_cong) (use c assms(6) L in \<open>auto simp: queues_with_def\<close>)
    then show ?thesis using assms(1) assms(6) [OF c(1)] dis unfolding waits_def qs L by blast
  next
    assume c: "queue_operations k q = Thread_queue_Operations_priority" "q \<in> queues_with k Q Thread_queue_Operations_priority"
    have "fifo_rep k' (queues_with k Q Thread_queue_Operations_FIFO) T (ql(q := xs)) = fifo_rep k (queues_with k Q Thread_queue_Operations_FIFO) T ql"
      by (rule fifo_rep_cong) (use c assms(7) in \<open>auto simp: queues_with_def\<close>)
    then show ?thesis using assms(1) assms(7) [OF c(1)] dis unfolding waits_def qs L by blast
  qed
qed

lemma waits_enqueue:
  assumes "waits k Q T ql" "q \<in> Q" "t \<in> T" "\<forall>c \<in> Q. t \<notin> set (ql c)"
  shows "\<exists>k'. ops_enqueue (queue_operations k q) q t k = Some k' \<and> links_only k k' \<and> waits k' Q T (ql(q := placed k q t (ql q)))"
  using assms(1,2)
proof (rule waits_cases)
  assume c: "queue_operations k q = Thread_queue_Operations_FIFO" "q \<in> queues_with k Q Thread_queue_Operations_FIFO"
  have "fifo_rep k (queues_with k Q Thread_queue_Operations_FIFO) T ql" using assms(1) by (simp add: waits_def)
  from fifo.enq_rep [OF this c(2) assms(3)] assms(4) obtain k' where k': "Thread_queue_FIFO_enqueue q t k = Some k'" "links_only k k'"
    "fifo_rep k' (queues_with k Q Thread_queue_Operations_FIFO) T (ql(q := ql q @ [t]))" by (auto simp: queues_with_def)
  moreover have "wait_tree k' = wait_tree k" using k'(1) by (auto simp: Thread_queue_FIFO_enqueue_def)
  ultimately show ?thesis using c waits_update [OF assms(1,2) k'(2), of "ql q @ [t]" t] assms(4) by (auto simp: placed_def)
next
  assume c: "queue_operations k q = Thread_queue_Operations_priority" "q \<in> queues_with k Q Thread_queue_Operations_priority"
  have "prio_rep k (queues_with k Q Thread_queue_Operations_priority) T ql" using assms(1) by (simp add: waits_def)
  from prioq.enq_rep [OF this c(2) assms(3)] assms(4) obtain k' where k': "Thread_queue_Priority_enqueue q t k = Some k'" "links_only k k'"
    "prio_rep k' (queues_with k Q Thread_queue_Operations_priority) T (ql(q := insert_after (\<lambda>u. prio k u) t (ql q)))" by (auto simp: queues_with_def)
  moreover have "wait_chain k' = wait_chain k" using k'(1) by (auto simp: Thread_queue_Priority_enqueue_def)
  ultimately show ?thesis using c waits_update [OF assms(1,2) k'(2), of "insert_after (\<lambda>u. prio k u) t (ql q)" t] assms(4) by (auto simp: placed_def)
qed

lemma waits_extract:
  assumes "waits k Q T ql" "q \<in> Q" "t \<in> set (ql q)"
  shows "\<exists>k'. ops_extract (queue_operations k q) q t k = Some k' \<and> links_only k k' \<and> waits k' Q T (ql(q := remove1 t (ql q)))"
  using assms(1,2)
proof (rule waits_cases)
  have sub: "set (remove1 t (ql q)) \<subseteq> insert t (set (ql q))" using set_remove1_subset [of t "ql q"] by blast
  have other: "\<forall>r \<in> Q. r \<noteq> q \<longrightarrow> t \<notin> set (ql r)" using waits_disjoint [OF assms(1,2)] assms(3) by blast
  note U = waits_update [OF assms(1,2) _ sub other]
  {
    assume c: "queue_operations k q = Thread_queue_Operations_FIFO" "q \<in> queues_with k Q Thread_queue_Operations_FIFO"
    have "fifo_rep k (queues_with k Q Thread_queue_Operations_FIFO) T ql" using assms(1) by (simp add: waits_def)
    from fifo.ext_rep [OF this c(2) assms(3)] obtain k' where k': "Thread_queue_FIFO_extract q t k = Some k'" "links_only k k'"
      "fifo_rep k' (queues_with k Q Thread_queue_Operations_FIFO) T (ql(q := remove1 t (ql q)))" by blast
    moreover have "wait_tree k' = wait_tree k" using k'(1) by (auto simp: Thread_queue_FIFO_extract_def)
    ultimately show ?thesis using c U [OF k'(2)] by auto
  next
    assume c: "queue_operations k q = Thread_queue_Operations_priority" "q \<in> queues_with k Q Thread_queue_Operations_priority"
    have "prio_rep k (queues_with k Q Thread_queue_Operations_priority) T ql" using assms(1) by (simp add: waits_def)
    from prioq.ext_rep [OF this c(2) assms(3)] obtain k' where k': "Thread_queue_Priority_extract q t k = Some k'" "links_only k k'"
      "prio_rep k' (queues_with k Q Thread_queue_Operations_priority) T (ql(q := remove1 t (ql q)))" by blast
    moreover have "wait_chain k' = wait_chain k" using k'(1) by (auto simp: Thread_queue_Priority_extract_def)
    ultimately show ?thesis using c U [OF k'(2)] by auto
  }
qed

subsection \<open>What blocking and waking leave to the queues\<close>

named_theorems wait_frames \<open>operations that keep the queues\<close>

lemma wait_same_refl [wait_frames]: "wait_same k k"
  by (simp add: wait_same_def)

lemma wait_same_trans: "wait_same k k1 \<Longrightarrow> wait_same k1 k2 \<Longrightarrow> wait_same k k2"
  by (simp add: wait_same_def)

lemma wait_same_frame: "sched_frame k k' \<Longrightarrow> wait_same k k'"
  by (simp add: sched_frame_def wait_same_def)

lemma wait_same_upd_wait [wait_frames]: "wait_same k (upd_wait t f k)"
  by (simp add: wait_same_def upd_wait_def upd_thread_def)

lemma wait_same_states [wait_frames]: "wait_same k (fst (Thread_Set_state t state k))" "wait_same k (fst (Thread_Clear_state t state k))"
  "wait_same k (Thread_Unblock t k)"
proof -
  have u: "wait_same k (upd_thread t (\<lambda>c. c\<lparr>current_state := x c\<rparr>) k)" for x by (simp add: wait_same_def upd_thread_def)
  show "wait_same k (fst (Thread_Set_state t state k))" by (rule wait_same_trans [OF u wait_same_frame [OF Thread_Set_state_frame]])
  show *: "wait_same k (fst (Thread_Clear_state t state k))" for state by (rule wait_same_trans [OF u wait_same_frame [OF Thread_Clear_state_frame]])
  show "wait_same k (Thread_Unblock t k)" unfolding Thread_Unblock_def by (rule *)
qed

lemma wait_same_dispatch [wait_frames]: "wait_same k (Thread_Dispatch_disable k)" "wait_same k (Thread_Dispatch_enable k)"
  by (simp_all add: wait_same_def Thread_Dispatch_disable_def Thread_Dispatch_enable_def Thread_Do_dispatch_def
      Thread_Get_heir_and_make_it_executing_def Let_def upd_thread_def)

lemma wait_same_info [wait_frames]:
  "wait_same k (Thread_Wait_flags_set t f k)" "wait_same k (fst (Thread_Wait_flags_try_change t e d k))" "wait_same k (Thread_Wait_set_queue t q k)"
  "wait_same k (Thread_Wait_set_operations t ops k)" "wait_same k (Thread_Wait_restore_default_operations t k)" "wait_same k (Thread_Wait_set_timeout_code t c k)"
  by (simp_all add: Thread_Wait_flags_set_def Thread_Wait_flags_try_change_def Thread_Wait_set_queue_def Thread_Wait_set_operations_def
      Thread_Wait_restore_default_operations_def Thread_Wait_set_timeout_code_def Let_def wait_frames)

text \<open>The watchdogs do not touch the kernel.\<close>

lemma world_upd [simp]: "world (upd_control s w f) = world s" "world (upd_iterator s i g) = world s" "world (upd_header s h e) = world s"
  by (simp_all add: upd_control_def upd_iterator_def upd_header_def)

lemma world_Remove_it_iterators [simp]: "world (Watchdog_Remove_it_iterators is w n p d s) = world s"
  by (induction "is" arbitrary: s) (simp_all add: Let_def split: chain_pos.splits)

lemma world_Remove [simp]: "world (fst (Watchdog_Remove s h w)) = world s"
  by (simp add: Watchdog_Remove_def Watchdog_Remove_it_def Let_def split: Watchdog_States.splits chain_pos.splits)

lemma world_Insert_fixup_iterators [simp]: "world (Watchdog_Insert_fixup_iterators is w n s) = world s"
  by (induction "is" arbitrary: s) simp_all

lemma Unblock_critical_eq:
  "Thread_queue_Unblock_critical q t s =
     (if Thread_Wait_flags_get t (world s) = THREAD_QUEUE_INTEND_TO_BLOCK then s\<lparr>world := Thread_Wait_flags_set t THREAD_QUEUE_READY_AGAIN (world s)\<rparr>
      else let s1 = fst (Watchdog_Remove (s\<lparr>world := Thread_Dispatch_disable (Thread_Wait_flags_set t THREAD_QUEUE_READY_AGAIN (world s))\<rparr>) Ticks_header t)
           in s1\<lparr>world := Thread_Dispatch_enable (Thread_Unblock t (world s1))\<rparr>)"
  by (simp add: Thread_queue_Unblock_critical_def Thread_Wait_flags_try_change_def Thread_Wait_flags_get_def Thread_Wait_flags_set_def
      Thread_queue_Unblock_def Let_def)

lemma wait_same_Unblock_critical [wait_frames]: "wait_same (world s) (world (Thread_queue_Unblock_critical q t s))"
  by (auto simp: Unblock_critical_eq Let_def
      intro!: wait_same_trans [OF _ wait_same_dispatch(2)] wait_same_trans [OF _ wait_same_states(3)] wait_same_trans [OF _ wait_same_dispatch(1)] wait_same_info)

subsection \<open>Order\<close>

lemma waits_upd_same: "waits k Q T ql \<Longrightarrow> wait_same k k' \<Longrightarrow> waits k' Q T ql"
  by (simp add: waits_same)

lemma same_prio: "wait_same k k' \<Longrightarrow> prio k' t = prio k t"
  by (simp add: wait_same_def)

lemma Enqueue_quiet:
  assumes "waits (world s) Q T ql" "q \<in> Q" "t \<in> T" "\<forall>c \<in> Q. t \<notin> set (ql c)"
  shows "\<exists>s'. Thread_queue_Enqueue_critical (\<lambda>n s. s) it rtn q t state WATCHDOG_NO_TIMEOUT code s = Some s'
    \<and> waits (world s') Q T (ql(q := placed (world s) q t (ql q))) \<and> (\<forall>u. prio (world s') u = prio (world s) u) \<and> queue_operations (world s') = queue_operations (world s)
    \<and> semaphores (world s') = semaphores (world s)"
proof -
  define k0 where "k0 = Thread_Wait_set_operations t (queue_operations (world s) q) (Thread_Wait_set_queue t q (world s))"
  have k0: "wait_same (world s) k0" unfolding k0_def by (rule wait_same_trans [OF wait_same_info(3) wait_same_info(4)])
  have ops: "queue_operations k0 = queue_operations (world s)" "placed k0 q t (ql q) = placed (world s) q t (ql q)" using k0 by (simp_all add: wait_same_def placed_def)
  obtain k1 where k1: "ops_enqueue (queue_operations (world s) q) q t k0 = Some k1" "links_only k0 k1" "waits k1 Q T (ql(q := placed (world s) q t (ql q)))"
    using waits_enqueue [OF waits_upd_same [OF assms(1) k0] assms(2-4)] ops by auto
  define k2 where "k2 = fst (Thread_Set_state t state (Thread_Dispatch_disable (Thread_Wait_flags_set t THREAD_QUEUE_INTEND_TO_BLOCK k1)))"
  have k2: "wait_same k1 k2" unfolding k2_def by (intro wait_same_trans [OF wait_same_trans [OF wait_same_info(1) wait_same_dispatch(1)] wait_same_states(1)])
  obtain k3 success where f: "Thread_Wait_flags_try_change t THREAD_QUEUE_INTEND_TO_BLOCK THREAD_QUEUE_BLOCKED k2 = (k3, success)" by fastforce
  define s4 where "s4 = (if \<not> success then Thread_queue_Unblock t (s\<lparr>world := k3\<rparr>) else s\<lparr>world := k3\<rparr>)"
  define s' where "s' = s4\<lparr>world := Thread_Dispatch_enable (world s4)\<rparr>"
  have "wait_same k2 k3" using wait_same_info(2) [of k2 t THREAD_QUEUE_INTEND_TO_BLOCK THREAD_QUEUE_BLOCKED] f by simp
  moreover have "wait_same k3 (world s4)" by (simp add: s4_def Thread_queue_Unblock_def wait_frames)
  moreover have "wait_same (world s4) (world s')" by (simp add: s'_def wait_frames)
  ultimately have same: "wait_same k1 (world s')" using k2 wait_same_trans by blast
  have "Thread_queue_Enqueue_critical (\<lambda>n s. s) it rtn q t state WATCHDOG_NO_TIMEOUT code s = Some s'"
    using k1(1) f by (simp add: Thread_queue_Enqueue_critical_def Let_def try_kernel_def k0_def [symmetric] k2_def [symmetric] s4_def s'_def)
  moreover have "prio (world s') u = prio (world s) u" for u
    using same_prio [OF same] same_prio [OF k0] links_only_fields(1) [OF k1(2)] by simp
  moreover have "queue_operations (world s') = queue_operations (world s)" "semaphores (world s') = semaphores (world s)"
    using same k0 links_only_fields [OF k1(2)] by (simp_all add: wait_same_def)
  ultimately show ?thesis using waits_upd_same [OF k1(3) same] by blast
qed

lemma Extract_critical_waits:
  assumes "waits (world s) Q T ql" "q \<in> Q" "t \<in> set (ql q)"
  shows "\<exists>k s'. Thread_queue_Extract_locked q t (world s) = Some k \<and> Thread_queue_Extract_critical q t s = Some s'
    \<and> s' = Thread_queue_Unblock_critical q t (s\<lparr>world := k\<rparr>) \<and> waits k Q T (ql(q := remove1 t (ql q)))
    \<and> waits (world s') Q T (ql(q := remove1 t (ql q))) \<and> (\<forall>u. prio (world s') u = prio (world s) u)
    \<and> queue_operations (world s') = queue_operations (world s) \<and> semaphores (world s') = semaphores (world s)"
proof -
  obtain k1 where k1: "ops_extract (queue_operations (world s) q) q t (world s) = Some k1" "links_only (world s) k1" "waits k1 Q T (ql(q := remove1 t (ql q)))"
    using waits_extract [OF assms] by blast
  define k where "k = Thread_Wait_restore_default_operations t (Thread_Wait_set_queue t NULL k1)"
  have same: "wait_same k1 k" unfolding k_def by (rule wait_same_trans [OF wait_same_info(3) wait_same_info(5)])
  define s' where "s' = Thread_queue_Unblock_critical q t (s\<lparr>world := k\<rparr>)"
  have same': "wait_same k (world s')" using wait_same_Unblock_critical [of "s\<lparr>world := k\<rparr>" q t] by (simp add: s'_def)
  have lock: "Thread_queue_Extract_locked q t (world s) = Some k" using k1(1) by (simp add: Thread_queue_Extract_locked_def k_def)
  moreover have "Thread_queue_Extract_critical q t s = Some s'" using lock by (simp add: Thread_queue_Extract_critical_def try_kernel_def s'_def)
  moreover have "prio (world s') u = prio (world s) u" for u
    using same_prio [OF same] same_prio [OF same'] links_only_fields(1) [OF k1(2)] by simp
  moreover have "queue_operations (world s') = queue_operations (world s)" "semaphores (world s') = semaphores (world s)"
    using same same' links_only_fields [OF k1(2)] by (simp_all add: wait_same_def)
  ultimately show ?thesis using waits_upd_same [OF k1(3) same] waits_upd_same [OF waits_upd_same [OF k1(3) same] same'] s'_def by blast
qed

lemma Dequeue_waits:
  assumes "waits (world s) Q T ql" "q \<in> Q" "ql q = t # ts"
  shows "\<exists>s'. Thread_queue_Dequeue q s = Some (s', t) \<and> waits (world s') Q T (ql(q := ts)) \<and> (\<forall>u. prio (world s') u = prio (world s) u)"
proof -
  have "t \<noteq> NULL" using waits_apart [OF assms(1,2)] assms(3) by auto
  then show ?thesis using Extract_critical_waits [OF assms(1,2), of t] waits_first [OF assms(1,2)] assms(3) by (auto simp: Thread_queue_Dequeue_def)
qed

lemma Dequeue_empty: "waits (world s) Q T ql \<Longrightarrow> q \<in> Q \<Longrightarrow> ql q = [] \<Longrightarrow> Thread_queue_Dequeue q s = Some (s, NULL)"
  using waits_first [of "world s" Q T ql q] by (simp add: Thread_queue_Dequeue_def)

text \<open>Threads that block one after the other, and the first threads taken from a queue.\<close>

fun block_all :: "iid \<Rightarrow> addr \<Rightarrow> addr \<Rightarrow> States_Control \<Rightarrow> uint32 \<Rightarrow> addr list \<Rightarrow> System \<Rightarrow> System option" where
  "block_all it rtn q state code [] s = Some s"
| "block_all it rtn q state code (t # ts) s = do {
     s \<leftarrow> Thread_queue_Enqueue_critical (\<lambda>n s. s) it rtn q t state WATCHDOG_NO_TIMEOUT code s;
     block_all it rtn q state code ts s
   }"

fun wake_all :: "addr \<Rightarrow> nat \<Rightarrow> System \<Rightarrow> (addr list \<times> System) option" where
  "wake_all q 0 s = Some ([], s)"
| "wake_all q (Suc n) s = do {
     (s, t) \<leftarrow> Thread_queue_Dequeue q s;
     (ts, s) \<leftarrow> wake_all q n s;
     Some (t # ts, s)
   }"

lemma block_all_waits:
  assumes "waits (world s) Q T ql" "q \<in> Q" "set ts \<subseteq> T" "distinct ts" "\<forall>t \<in> set ts. \<forall>c \<in> Q. t \<notin> set (ql c)"
  shows "\<exists>s'. block_all it rtn q state code ts s = Some s' \<and> waits (world s') Q T (ql(q := fold (placed (world s) q) ts (ql q)))"
  using assms
proof (induction ts arbitrary: s ql)
  case (Cons t ts)
  define ql1 where "ql1 = ql(q := placed (world s) q t (ql q))"
  obtain s1 where s1: "Thread_queue_Enqueue_critical (\<lambda>n s. s) it rtn q t state WATCHDOG_NO_TIMEOUT code s = Some s1"
    "waits (world s1) Q T ql1" "\<forall>u. prio (world s1) u = prio (world s) u" "queue_operations (world s1) = queue_operations (world s)"
    using Enqueue_quiet [OF Cons.prems(1,2), of t it rtn state code] Cons.prems(3,5) unfolding ql1_def by auto
  have pl: "placed (world s1) q = placed (world s) q" using s1(3,4) by (simp add: placed_def fun_eq_iff)
  have "\<forall>u \<in> set ts. \<forall>c \<in> Q. u \<notin> set (ql1 c)" using Cons.prems(2,4,5) by (auto simp: ql1_def)
  from Cons.IH [OF s1(2) Cons.prems(2) _ _ this] Cons.prems(3,4) obtain s2 where
    "block_all it rtn q state code ts s1 = Some s2" "waits (world s2) Q T (ql1(q := fold (placed (world s1) q) ts (ql1 q)))" by (auto simp del: fun_upd_apply)
  then show ?case using s1(1) pl by (simp add: ql1_def fun_upd_same del: fun_upd_apply)
qed simp

lemma wake_all_waits:
  assumes "waits (world s) Q T ql" "q \<in> Q" "n \<le> length (ql q)"
  shows "\<exists>s'. wake_all q n s = Some (take n (ql q), s') \<and> waits (world s') Q T (ql(q := drop n (ql q)))"
  using assms
proof (induction n arbitrary: s ql)
  case (Suc n)
  then obtain t ts where ts: "ql q = t # ts" by (cases "ql q") auto
  obtain s1 where s1: "Thread_queue_Dequeue q s = Some (s1, t)" "waits (world s1) Q T (ql(q := ts))"
    using Dequeue_waits [OF Suc.prems(1,2) ts] by blast
  from Suc.IH [OF s1(2) Suc.prems(2)] Suc.prems(3) ts obtain s2 where
    "wake_all q n s1 = Some (take n ts, s2)" "waits (world s2) Q T (ql(q := drop n ts))" by (auto simp del: fun_upd_apply simp: fun_upd_same)
  then show ?case using s1(1) ts by (simp del: fun_upd_apply)
qed simp

text \<open>Placing threads by priority one after the other sorts them stably.\<close>

lemma mset_insert_after: "mset (insert_after key t ts) = add_mset t (mset ts)"
proof -
  have "mset ts = mset (takeWhile (\<lambda>a. key a \<le> key t) ts) + mset (dropWhile (\<lambda>a. key a \<le> key t) ts)"
    by (metis mset_append takeWhile_dropWhile_id)
  then show ?thesis by (simp add: insert_after_def)
qed

lemma filter_insert_after:
  assumes "sorted (map key ts)"
  shows "filter (\<lambda>u. key u = x) (insert_after key t ts) = filter (\<lambda>u. key u = x) (ts @ [t])"
proof -
  define ds where "ds = dropWhile (\<lambda>a. key a \<le> key t) ts"
  have so: "sorted (map key ds)" unfolding ds_def using assms by (metis map_append sorted_append takeWhile_dropWhile_id)
  have "key t < key u" if "u \<in> set ds" for u
  proof (cases ds)
    case (Cons v vs)
    have "\<not> key v \<le> key t" using hd_dropWhile [of "\<lambda>a. key a \<le> key t" ts] Cons unfolding ds_def by simp
    then show ?thesis using that so Cons by auto
  qed (use that in simp)
  then have "filter (\<lambda>u. key u = x) ds = []" if "key t = x" using that by (fastforce simp: filter_empty_conv)
  then have "filter (\<lambda>u. key u = x) (insert_after key t ts) = filter (\<lambda>u. key u = x) (takeWhile (\<lambda>a. key a \<le> key t) ts @ ds @ [t])"
    by (auto simp: insert_after_def ds_def)
  then show ?thesis unfolding ds_def by (metis append.assoc takeWhile_dropWhile_id)
qed

lemma fold_insert_after: "sorted (map key acc) \<Longrightarrow> sorted (map key (fold (insert_after key) ts acc))
    \<and> mset (fold (insert_after key) ts acc) = mset acc + mset ts
    \<and> (\<forall>x. filter (\<lambda>u. key u = x) (fold (insert_after key) ts acc) = filter (\<lambda>u. key u = x) (acc @ ts))"
proof (induction ts arbitrary: acc)
  case (Cons t ts)
  from Cons.IH [OF sorted_insert_after [OF Cons.prems]] show ?case
    using filter_insert_after [OF Cons.prems] by (auto simp: mset_insert_after)
qed simp

lemma fold_insert_after_sort: "fold (insert_after key) ts [] = sort_key key ts"
proof (rule properties_for_sort_key [symmetric])
  show "filter (\<lambda>x. key k = key x) (fold (insert_after key) ts []) = filter (\<lambda>x. key k = key x) ts" for k
    using fold_insert_after [of key "[]" ts] by (simp add: eq_commute [of "key k"])
qed (use fold_insert_after [of key "[]" ts] in simp_all)

lemma fold_placed:
  assumes "queue_operations k q \<noteq> Thread_queue_Operations_default"
  shows "fold (placed k q) ts [] = (if queue_operations k q = Thread_queue_Operations_FIFO then ts else sort_key (\<lambda>u. prio k u) ts)"
proof -
  have "fold (\<lambda>t ts. ts @ [t]) xs ys = ys @ xs" for xs ys :: "addr list" by (induction xs arbitrary: ys) simp_all
  moreover have "placed k q = (if queue_operations k q = Thread_queue_Operations_FIFO then \<lambda>t ts. ts @ [t] else insert_after (\<lambda>u. prio k u))"
    by (simp add: placed_def fun_eq_iff)
  ultimately show ?thesis by (simp add: fold_insert_after_sort)
qed

text \<open>A queue right after its initialization.\<close>

lemma waits_initialized:
  assumes "apart {q} T" and q: "q \<noteq> NULL"
  shows "waits (Thread_queue_Initialize q d k) {q} T (\<lambda>_. [])" "queue_operations (Thread_queue_Initialize q d k) q =
      (if d = THREAD_QUEUE_DISCIPLINE_FIFO then Thread_queue_Operations_FIFO else Thread_queue_Operations_priority)"
    "prio (Thread_queue_Initialize q d k) t = prio k t"
proof -
  have "q \<notin> T" "NULL \<notin> T" using assms by (auto simp: apart_def control_cells_def node_cells_def)
  moreover have "rb_rep (RBTree_Initialize_empty q s) q []" for s :: RBTree
    using q by (auto simp: RBTree_Initialize_empty_def rb_rep_ends ends_def rbt_def rb_at_def score_defs intro!: exI [of _ Tip])
  ultimately show "waits (Thread_queue_Initialize q d k) {q} T (\<lambda>_. [])"
    using assms Chain_Initialize_empty_rep [of "wait_chain k" q]
    by (cases d) (auto simp: waits_def queues_with_def fifo_rep_def prio_rep_def chains_rep_def apart_def Thread_queue_Initialize_def
        Thread_queue_FIFO_initialize_def Thread_queue_Priority_initialize_def)
qed (cases d; simp add: Thread_queue_Initialize_def Thread_queue_FIFO_initialize_def Thread_queue_Priority_initialize_def)+

text \<open>C37: Threads that block at a new thread queue one after the other are woken by as many calls of \<open>_Thread_queue_Dequeue\<close> in the order of
  their arrival when the queue is a FIFO queue, and in the order of their priorities, those of equal priority
  in the order of their arrival, when it is a priority queue. All the calls return, and the queue is empty afterwards.\<close>

theorem Thread_queue_order:
  assumes "apart {q} (set ts)" "distinct ts" "q \<noteq> NULL"
  shows "\<exists>s1 s2. block_all it rtn q state code ts (s\<lparr>world := Thread_queue_Initialize q d (world s)\<rparr>) = Some s1
    \<and> wake_all q (length ts) s1 = Some (if d = THREAD_QUEUE_DISCIPLINE_FIFO then ts else sort_key (\<lambda>t. prio (world s) t) ts, s2)
    \<and> Thread_queue_First q (world s2) = Some NULL"
proof -
  define k where "k = Thread_queue_Initialize q d (world s)"
  note W = waits_initialized [OF assms(1,3), of d "world s"]
  have pr: "(\<lambda>u. prio k u) = (\<lambda>u. prio (world s) u)" using W(3) by (simp add: k_def)
  define ys where "ys = (if d = THREAD_QUEUE_DISCIPLINE_FIFO then ts else sort_key (\<lambda>t. prio (world s) t) ts)"
  have ys: "fold (placed k q) ts [] = ys" using fold_placed [of k q ts] W(2) pr by (simp add: k_def [symmetric] ys_def)
  obtain s1 where s1: "block_all it rtn q state code ts (s\<lparr>world := k\<rparr>) = Some s1" "waits (world s1) {q} (set ts) ((\<lambda>_. [])(q := ys))"
    using block_all_waits [of "s\<lparr>world := k\<rparr>" "{q}" "set ts" "\<lambda>_. []" q ts it rtn state code] W(1) assms(2) ys by (auto simp: k_def)
  have "length ys = length ts" by (simp add: ys_def)
  then obtain s2 where s2: "wake_all q (length ts) s1 = Some (ys, s2)" "waits (world s2) {q} (set ts) (((\<lambda>_. [])(q := ys))(q := []))"
    using wake_all_waits [OF s1(2), of q "length ts"] by auto
  from waits_first [OF s2(2), of q] have "Thread_queue_First q (world s2) = Some NULL" by (simp add: Thread_queue_First_def)
  then show ?thesis using s1(1) s2(1) unfolding k_def ys_def by blast
qed

text \<open>Three threads with priorities 5, 2 and 5 at a priority queue.\<close>

definition example_system :: System where
  "example_system = \<lparr>Ticks_since_boot = 0, headers = (\<lambda>h. \<lparr>Watchdogs = [], Iterators = []\<rparr>),
     control = (\<lambda>w. \<lparr>wd_state = WATCHDOG_INACTIVE, initial = 0, delta_interval = 0, start_time = 0, stop_time = 0, routine = 0, wd_id = 0, user_data = 0\<rparr>),
     iterator = (\<lambda>i. \<lparr>it_delta_interval = 0, current = Head\<rparr>),
     world = blank_kernel\<lparr>threads := (\<lambda>t. blank_thread\<lparr>current_priority := if t = 0x3000 then 2 else 5\<rparr>)\<rparr>\<rparr>"

theorem Thread_queue_order_witness:
  "\<exists>s1 s2. block_all 1 0x60 0x5000 STATES_WAITING_FOR_SEMAPHORE 3 [0x2000, 0x3000, 0x4000]
       (example_system\<lparr>world := Thread_queue_Initialize 0x5000 THREAD_QUEUE_DISCIPLINE_PRIORITY (world example_system)\<rparr>) = Some s1
     \<and> wake_all 0x5000 3 s1 = Some ([0x3000, 0x2000, 0x4000], s2)"
proof -
  have so: "sort_key (\<lambda>t. prio (world example_system) t) [0x2000, 0x3000, 0x4000] = [0x3000, 0x2000, 0x4000]"
    by (simp add: example_system_def)
  have le: "length [0x2000, 0x3000, 0x4000 :: addr] = 3" by simp
  have "apart {0x5000} (set [0x2000, 0x3000, 0x4000])" by (simp add: apart_def control_cells_def node_cells_def)
  from Thread_queue_order [OF this, where it = 1 and rtn = "0x60" and state = STATES_WAITING_FOR_SEMAPHORE and code = 3 and s = example_system
      and d = THREAD_QUEUE_DISCIPLINE_PRIORITY, unfolded so le]
  show ?thesis by (simp del: block_all.simps wake_all.simps) blast
qed

subsection \<open>A thread that blocks is not lost\<close>

abbreviation wflags :: "Kernel \<Rightarrow> addr \<Rightarrow> Thread_Wait_flags" where
  "wflags k t \<equiv> wait_flags (Wait (threads k t))"

text \<open>The wait information of every thread says at which queue it waits, if any.\<close>

definition wait_info :: "Kernel \<Rightarrow> addr set \<Rightarrow> addr set \<Rightarrow> (addr \<Rightarrow> addr list) \<Rightarrow> bool" where
  "wait_info k Q T ql \<longleftrightarrow>
     (\<forall>q \<in> Q. \<forall>t \<in> set (ql q). wait_queue (Wait (threads k t)) = q \<and> operations (Wait (threads k t)) = queue_operations k q)
     \<and> (\<forall>t \<in> T. (\<forall>q \<in> Q. t \<notin> set (ql q)) \<longrightarrow> wait_queue (Wait (threads k t)) = NULL \<and> operations (Wait (threads k t)) = Thread_queue_Operations_default)"

definition queued :: "Kernel \<Rightarrow> addr set \<Rightarrow> addr set \<Rightarrow> (addr \<Rightarrow> addr list) \<Rightarrow> bool" where
  "queued k Q T ql \<longleftrightarrow> waits k Q T ql \<and> wait_info k Q T ql"

text \<open>An operation on the thread \<open>t\<close> alone, which moves no thread between queues.\<close>

definition only_thread :: "addr \<Rightarrow> Kernel \<Rightarrow> Kernel \<Rightarrow> bool" where
  "only_thread t k k' \<longleftrightarrow> wait_same k k' \<and> (\<forall>u. wait_queue (Wait (threads k' u)) = wait_queue (Wait (threads k u))
       \<and> operations (Wait (threads k' u)) = operations (Wait (threads k u)))
     \<and> (\<forall>u. u \<noteq> t \<longrightarrow> wflags k' u = wflags k u \<and> current_state (threads k' u) = current_state (threads k u))"

lemma only_thread_trans: "only_thread t k k1 \<Longrightarrow> only_thread t k1 k2 \<Longrightarrow> only_thread t k k2"
  by (simp add: only_thread_def wait_same_def)

lemma only_thread_queued: "only_thread t k k' \<Longrightarrow> queued k' Q T ql = queued k Q T ql"
  using waits_same [of k k'] by (simp add: only_thread_def queued_def wait_info_def wait_same_def)

named_theorems thread_frames \<open>operations on one thread\<close>

lemma only_thread_flags [thread_frames]: "only_thread t k (Thread_Wait_flags_set t f k)"
  by (simp add: only_thread_def wait_frames) (simp add: Thread_Wait_flags_set_def upd_wait_def upd_thread_def)

lemma only_thread_sched: "sched_frame k k' \<Longrightarrow> only_thread t k k'"
  by (simp add: only_thread_def wait_same_frame) (simp add: sched_frame_def)

lemma only_thread_state [thread_frames]: "only_thread t k (fst (Thread_Set_state t state k))" "only_thread t k (Thread_Unblock t k)"
proof -
  have u: "only_thread t k (upd_thread t (\<lambda>c. c\<lparr>current_state := x c\<rparr>) k)" for x by (simp add: only_thread_def wait_same_def upd_thread_def)
  show "only_thread t k (fst (Thread_Set_state t state k))" by (rule only_thread_trans [OF u only_thread_sched [OF Thread_Set_state_frame]])
  show "only_thread t k (Thread_Unblock t k)"
    unfolding Thread_Unblock_def by (rule only_thread_trans [OF u only_thread_sched [OF Thread_Clear_state_frame]])
qed

lemma dispatch_wait: "Wait (threads (Thread_Dispatch_enable k) u) = Wait (threads k u)" "Wait (threads (Thread_Dispatch_disable k) u) = Wait (threads k u)"
  "current_state (threads (Thread_Dispatch_enable k) u) = current_state (threads k u)" "threads (Thread_Dispatch_disable k) = threads k"
  by (simp_all add: Thread_Dispatch_enable_def Thread_Dispatch_disable_def Thread_Do_dispatch_def Thread_Get_heir_and_make_it_executing_def Let_def upd_thread_def)

lemma only_thread_dispatch [thread_frames]: "only_thread t k (Thread_Dispatch_enable k)" "only_thread t k (Thread_Dispatch_disable k)"
  by (simp_all add: only_thread_def wait_frames dispatch_wait)

lemma only_thread_Unblock_critical [thread_frames]: "only_thread t (world s) (world (Thread_queue_Unblock_critical q t s))"
  by (auto simp: Unblock_critical_eq Let_def intro!: thread_frames only_thread_trans [OF _ only_thread_dispatch(1)] only_thread_trans [OF _ only_thread_state(2)]
      only_thread_trans [OF _ only_thread_dispatch(2)])

lemma wflags_set [simp]: "wflags (Thread_Wait_flags_set t f k) u = (if u = t then f else wflags k u)"
  "current_state (threads (Thread_Wait_flags_set t f k) u) = current_state (threads k u)"
  by (simp_all add: Thread_Wait_flags_set_def upd_wait_def upd_thread_def)

text \<open>A thread is taken out of its queue.\<close>

lemma queued_remove:
  assumes "queued k Q T ql" "q \<in> Q" "t \<in> set (ql q)"
  shows "\<exists>k1. ops_extract (queue_operations k q) q t k = Some k1 \<and> links_only k k1
    \<and> queued (Thread_Wait_restore_default_operations t (Thread_Wait_set_queue t NULL k1)) Q T (ql(q := remove1 t (ql q)))"
proof -
  have w: "waits k Q T ql" and info: "wait_info k Q T ql" using assms(1) by (simp_all add: queued_def)
  obtain k1 where k1: "ops_extract (queue_operations k q) q t k = Some k1" "links_only k k1" "waits k1 Q T (ql(q := remove1 t (ql q)))"
    using waits_extract [OF w assms(2,3)] by blast
  define k2 where "k2 = Thread_Wait_restore_default_operations t (Thread_Wait_set_queue t NULL k1)"
  have "wait_same k1 k2" unfolding k2_def by (rule wait_same_trans [OF wait_same_info(3) wait_same_info(5)])
  then have w2: "waits k2 Q T (ql(q := remove1 t (ql q)))" using waits_same k1(3) by blast
  have th: "Wait (threads k2 u) = (if u = t then (Wait (threads k t))\<lparr>wait_queue := NULL, operations := Thread_queue_Operations_default\<rparr> else Wait (threads k u))"
    and ops: "queue_operations k2 = queue_operations k" for u using links_only_fields [OF k1(2)]
    by (simp_all add: k2_def Thread_Wait_restore_default_operations_def Thread_Wait_set_queue_def upd_wait_def upd_thread_def)
  have gone: "t \<notin> set ((ql(q := remove1 t (ql q))) r)" if "r \<in> Q" for r
    using waits_disjoint [OF w assms(2) that assms(3)] waits_apart [OF w assms(2)] by (cases "r = q") auto
  have mem: "u \<in> set ((ql(q := remove1 t (ql q))) r) \<longleftrightarrow> u \<in> set (ql r)" if "u \<noteq> t" for u r using that by auto
  have "wait_info k2 Q T (ql(q := remove1 t (ql q)))"
    unfolding wait_info_def ops
  proof (intro conjI ballI impI; (elim conjE)?)
    fix r u assume r: "r \<in> Q" "u \<in> set ((ql(q := remove1 t (ql q))) r)"
    then have "u \<noteq> t" using gone by blast
    then show "wait_queue (Wait (threads k2 u)) = r" "operations (Wait (threads k2 u)) = queue_operations k r"
      using info r mem by (simp_all add: wait_info_def th del: fun_upd_apply)
  next
    fix u assume "u \<in> T" "\<forall>r \<in> Q. u \<notin> set ((ql(q := remove1 t (ql q))) r)"
    then show "wait_queue (Wait (threads k2 u)) = NULL" "operations (Wait (threads k2 u)) = Thread_queue_Operations_default"
      using info mem by (cases "u = t"; simp add: wait_info_def th del: fun_upd_apply)+
  qed
  then show ?thesis using k1 w2 unfolding queued_def k2_def by blast
qed

text \<open>A thread that has entered its queue and intends to block: it is still in the queue, or something has already taken it out and has left
  the mark that it is ready again. Its state is its own business until it has seen the mark.\<close>

definition blocking :: "addr set \<Rightarrow> addr set \<Rightarrow> addr \<Rightarrow> addr \<Rightarrow> States_Control \<Rightarrow> Kernel \<Rightarrow> bool" where
  "blocking Q T q t st k \<longleftrightarrow> (\<exists>ql. queued k Q T ql \<and> current_state (threads k t) = st
     \<and> (t \<in> set (ql q) \<and> wflags k t = THREAD_QUEUE_INTEND_TO_BLOCK \<or> (\<forall>r \<in> Q. t \<notin> set (ql r)) \<and> wflags k t = THREAD_QUEUE_READY_AGAIN))"

text \<open>What may happen in an interrupt: the first thread of a queue is dequeued, a thread is taken out of its queue, a timeout of a thread
  expires, a synchronization object changes its fields.\<close>

inductive wake_event :: "addr set \<Rightarrow> addr set \<Rightarrow> System \<Rightarrow> System \<Rightarrow> bool" for Q T :: "addr set" where
  give: "r \<in> Q \<Longrightarrow> Thread_queue_Dequeue r s = Some (s', u) \<Longrightarrow> wake_event Q T s s'"
| take_out: "u \<in> T \<Longrightarrow> Thread_queue_Extract u s = Some s' \<Longrightarrow> wake_event Q T s s'"
| expire: "u \<in> T \<Longrightarrow> Thread_Timeout u (world s) = Some k \<Longrightarrow> wake_event Q T s (s\<lparr>world := k\<rparr>)"
| core: "core_only (world s) k \<Longrightarrow> wake_event Q T s (s\<lparr>world := k\<rparr>)"

lemma wait_flag_values: "THREAD_QUEUE_INTEND_TO_BLOCK = 0x401" "THREAD_QUEUE_BLOCKED = 0x402" "THREAD_QUEUE_READY_AGAIN = 0x404"
  by (simp_all add: THREAD_QUEUE_INTEND_TO_BLOCK_def THREAD_QUEUE_BLOCKED_def THREAD_QUEUE_READY_AGAIN_def)

lemma removed_fields:
  assumes "links_only k k1"
  shows "wflags (Thread_Wait_restore_default_operations u (Thread_Wait_set_queue u NULL k1)) v = wflags k v"
    "current_state (threads (Thread_Wait_restore_default_operations u (Thread_Wait_set_queue u NULL k1)) v) = current_state (threads k v)"
  using links_only_fields [OF assms]
  by (simp_all add: Thread_Wait_restore_default_operations_def Thread_Wait_set_queue_def upd_wait_def upd_thread_def)

lemma ops_extract_links: "ops_extract ops q t k = Some k' \<Longrightarrow> links_only k k'"
  by (cases ops) (auto simp: Thread_queue_FIFO_extract_def Thread_queue_Priority_extract_def links_only_def)

text \<open>Whoever takes the thread out leaves the mark; whoever takes out another thread does not touch it.\<close>

lemma blocking_removed:
  assumes q: "queued k Q T ql" "q \<in> Q" "r \<in> Q" "u \<in> set (ql r)"
    and t: "t \<in> set (ql q) \<and> wflags k t = THREAD_QUEUE_INTEND_TO_BLOCK \<or> (\<forall>r \<in> Q. t \<notin> set (ql r)) \<and> wflags k t = THREAD_QUEUE_READY_AGAIN"
    and k2: "queued k2 Q T (ql(r := remove1 u (ql r)))" "\<And>v. wflags k2 v = wflags k v" "\<And>v. current_state (threads k2 v) = current_state (threads k v)"
    and k3: "only_thread u k2 k3" "wflags k2 u = THREAD_QUEUE_INTEND_TO_BLOCK \<Longrightarrow> wflags k3 u = THREAD_QUEUE_READY_AGAIN \<and> current_state (threads k3 u) = current_state (threads k2 u)"
  shows "blocking Q T q t (current_state (threads k t)) k3"
proof -
  have w: "waits k Q T ql" using q(1) by (simp add: queued_def)
  have q3: "queued k3 Q T (ql(r := remove1 u (ql r)))" using only_thread_queued [OF k3(1)] k2(1) by simp
  show ?thesis
  proof (cases "u = t")
    case True
    then have "wflags k t = THREAD_QUEUE_INTEND_TO_BLOCK" using t q(3,4) by blast
    moreover have "\<forall>a \<in> Q. t \<notin> set ((ql(r := remove1 u (ql r))) a)"
      using waits_disjoint [OF w q(3) _ q(4)] waits_apart [OF w q(3)] True by auto
    ultimately show ?thesis using q3 k2(2,3) k3(2) True unfolding blocking_def by (intro exI [of _ "ql(r := remove1 u (ql r))"]) (simp del: fun_upd_apply)
  next
    case False
    then have "t \<in> set ((ql(r := remove1 u (ql r))) a) \<longleftrightarrow> t \<in> set (ql a)" for a by auto
    moreover have "wflags k3 t = wflags k t" "current_state (threads k3 t) = current_state (threads k t)"
      using k3(1) k2(2,3) False by (simp_all add: only_thread_def)
    ultimately show ?thesis using q3 t unfolding blocking_def by (intro exI [of _ "ql(r := remove1 u (ql r))"]) (simp del: fun_upd_apply)
  qed
qed

lemma blocking_Extract_critical:
  assumes "blocking Q T q t st (world s)" "queued (world s) Q T ql" "q \<in> Q" "r \<in> Q" "u \<in> set (ql r)" "Thread_queue_Extract_critical r u s = Some s'"
    and t: "t \<in> set (ql q) \<and> wflags (world s) t = THREAD_QUEUE_INTEND_TO_BLOCK \<or> (\<forall>r \<in> Q. t \<notin> set (ql r)) \<and> wflags (world s) t = THREAD_QUEUE_READY_AGAIN"
  shows "blocking Q T q t st (world s')"
proof -
  obtain k1 where k1: "ops_extract (queue_operations (world s) r) r u (world s) = Some k1" "links_only (world s) k1"
    "queued (Thread_Wait_restore_default_operations u (Thread_Wait_set_queue u NULL k1)) Q T (ql(r := remove1 u (ql r)))"
    using queued_remove [OF assms(2,4,5)] by blast
  define k2 where "k2 = Thread_Wait_restore_default_operations u (Thread_Wait_set_queue u NULL k1)"
  have s': "s' = Thread_queue_Unblock_critical r u (s\<lparr>world := k2\<rparr>)"
    using assms(6) k1(1) by (simp add: Thread_queue_Extract_critical_def Thread_queue_Extract_locked_def try_kernel_def k2_def)
  have st: "current_state (threads (world s) t) = st" using assms(1) by (auto simp: blocking_def)
  have "blocking Q T q t (current_state (threads (world s) t)) (world s')"
  proof (rule blocking_removed [OF assms(2-5) t])
    show "queued k2 Q T (ql(r := remove1 u (ql r)))" "wflags k2 v = wflags (world s) v" "current_state (threads k2 v) = current_state (threads (world s) v)" for v
      using k1(3) removed_fields [OF k1(2)] by (simp_all add: k2_def del: fun_upd_apply)
    show "only_thread u k2 (world s')" using only_thread_Unblock_critical [of u "s\<lparr>world := k2\<rparr>" r] by (simp add: s')
    show "wflags (world s') u = THREAD_QUEUE_READY_AGAIN \<and> current_state (threads (world s') u) = current_state (threads k2 u)"
      if "wflags k2 u = THREAD_QUEUE_INTEND_TO_BLOCK" using that by (simp add: s' Unblock_critical_eq Thread_Wait_flags_get_def)
  qed
  then show ?thesis using st by simp
qed

lemma blocking_Timeout:
  assumes "blocking Q T q t st k" "q \<in> Q" "u \<in> T" "Thread_Timeout u k = Some k'"
  shows "blocking Q T q t st k'"
proof (cases "wflags k u AND THREAD_WAIT_STATE_READY_AGAIN = 0")
  case False
  then show ?thesis using assms(1,4) by (simp add: Thread_Timeout_def Thread_Wait_flags_get_def)
next
  case True
  obtain ql where ql: "queued k Q T ql" "current_state (threads k t) = st"
    and t: "t \<in> set (ql q) \<and> wflags k t = THREAD_QUEUE_INTEND_TO_BLOCK \<or> (\<forall>r \<in> Q. t \<notin> set (ql r)) \<and> wflags k t = THREAD_QUEUE_READY_AGAIN"
    using assms(1) by (auto simp: blocking_def)
  define k0 where "k0 = upd_wait u (\<lambda>w. w\<lparr>return_code := timeout_code w\<rparr>) k"
  have o0: "only_thread u k k0" "\<And>v. wflags k0 v = wflags k v" "\<And>v. current_state (threads k0 v) = current_state (threads k v)"
    by (simp_all add: k0_def only_thread_def wait_frames) (simp_all add: upd_wait_def upd_thread_def)
  have q0: "queued k0 Q T ql" using only_thread_queued [OF o0(1)] ql(1) by simp
  define fin where "fin = (\<lambda>k. let wc = wflags k u AND THREAD_WAIT_CLASS_MASK in if wflags k u = (wc OR THREAD_WAIT_STATE_INTEND_TO_BLOCK)
      then Thread_Wait_flags_set u (wc OR THREAD_WAIT_STATE_READY_AGAIN) k else Thread_Unblock u (Thread_Wait_flags_set u (wc OR THREAD_WAIT_STATE_READY_AGAIN) k))"
  have fin: "only_thread u k (fin k)" for k
    by (auto simp: fin_def Let_def intro!: thread_frames only_thread_trans [OF _ only_thread_state(2)])
  obtain k1 where k1: "ops_extract (operations (Wait (threads k0 u))) (wait_queue (Wait (threads k0 u))) u k0 = Some k1"
    and k': "k' = fin (Thread_Wait_restore_default_operations u (Thread_Wait_set_queue u NULL k1))"
  proof -
    obtain k1 where k1: "ops_extract (operations (Wait (threads k0 u))) (wait_queue (Wait (threads k0 u))) u k0 = Some k1"
      using assms(4) True by (cases "ops_extract (operations (Wait (threads k0 u))) (wait_queue (Wait (threads k0 u))) u k0")
        (simp_all add: Thread_Timeout_def Thread_Do_timeout_def Thread_Wait_flags_get_def Let_def k0_def [symmetric])
    have "wflags (Thread_Wait_restore_default_operations u (Thread_Wait_set_queue u NULL k1)) u = wflags k u"
      using removed_fields(1) [OF ops_extract_links [OF k1]] o0(2) by simp
    then have "k' = fin (Thread_Wait_restore_default_operations u (Thread_Wait_set_queue u NULL k1))"
      using assms(4) True k1 by (simp add: Thread_Timeout_def Thread_Do_timeout_def Thread_Wait_flags_get_def k0_def [symmetric] Let_def fin_def
          Thread_Wait_flags_try_change_def Thread_Wait_flags_set_def split: if_splits)
    then show thesis using k1 that by blast
  qed
  show ?thesis
  proof (cases "\<exists>r \<in> Q. u \<in> set (ql r)")
    case True
    then obtain r where r: "r \<in> Q" "u \<in> set (ql r)" by blast
    then have "wait_queue (Wait (threads k0 u)) = r" "operations (Wait (threads k0 u)) = queue_operations k0 r"
      using q0 by (auto simp: queued_def wait_info_def)
    then have l: "links_only k0 k1" "queued (Thread_Wait_restore_default_operations u (Thread_Wait_set_queue u NULL k1)) Q T (ql(r := remove1 u (ql r)))"
      using queued_remove [OF q0 r] k1 by auto
    have "blocking Q T q t (current_state (threads k0 t)) k'" unfolding k'
    proof (rule blocking_removed [OF q0 assms(2) r _ l(2) removed_fields(1) [OF l(1)] removed_fields(2) [OF l(1)] fin])
      show "t \<in> set (ql q) \<and> wflags k0 t = THREAD_QUEUE_INTEND_TO_BLOCK \<or> (\<forall>r \<in> Q. t \<notin> set (ql r)) \<and> wflags k0 t = THREAD_QUEUE_READY_AGAIN" using t o0 by simp
    qed (simp add: fin_def Let_def wait_flag_values)
    then show ?thesis using ql(2) o0 by simp
  next
    case False
    then have d: "wait_queue (Wait (threads k0 u)) = NULL" "operations (Wait (threads k0 u)) = Thread_queue_Operations_default"
      using q0 assms(3) by (auto simp: queued_def wait_info_def)
    then have "only_thread u k0 (Thread_Wait_restore_default_operations u (Thread_Wait_set_queue u NULL k1))"
      using k1 by (simp add: only_thread_def wait_same_def Thread_Wait_restore_default_operations_def Thread_Wait_set_queue_def upd_wait_def upd_thread_def)
    then have o: "only_thread u k k'" unfolding k' using fin o0(1) only_thread_trans by blast
    have "u \<noteq> t"
    proof
      assume "u = t"
      then have "wflags k u = THREAD_QUEUE_READY_AGAIN" using t False assms(2) by blast
      then show False using \<open>wflags k u AND THREAD_WAIT_STATE_READY_AGAIN = 0\<close> by (simp add: wait_flag_values)
    qed
    then have "wflags k' t = wflags k t" "current_state (threads k' t) = current_state (threads k t)" using o by (simp_all add: only_thread_def)
    then show ?thesis using ql t only_thread_queued [OF o] unfolding blocking_def by auto
  qed
qed

lemma blocking_only:
  assumes "blocking Q T q t st k" "only_thread t k k'" "wflags k' t = wflags k t"
  shows "blocking Q T q t (current_state (threads k' t)) k'"
  using assms only_thread_queued [OF assms(2)] by (auto simp: blocking_def)

lemma blocking_event:
  assumes "wake_event Q T s s'" "blocking Q T q t st (world s)" "q \<in> Q"
  shows "blocking Q T q t st (world s')"
  using assms(1)
proof cases
  case (expire u k)
  then show ?thesis using blocking_Timeout [OF assms(2,3)] by simp
next
  case (core k)
  then have "queued k Q T ql = queued (world s) Q T ql" "threads k = threads (world s)" for ql
    using waits_core [of "world s" k] core_only_fields [of "world s" k] by (simp_all add: queued_def wait_info_def)
  then show ?thesis using assms(2) core(1) by (simp add: blocking_def)
next
  case (give r u)
  obtain ql where ql: "queued (world s) Q T ql" "t \<in> set (ql q) \<and> wflags (world s) t = THREAD_QUEUE_INTEND_TO_BLOCK
      \<or> (\<forall>r \<in> Q. t \<notin> set (ql r)) \<and> wflags (world s) t = THREAD_QUEUE_READY_AGAIN" using assms(2) by (auto simp: blocking_def)
  have w: "waits (world s) Q T ql" using ql(1) by (simp add: queued_def)
  show ?thesis
  proof (cases "ql r")
    case Nil
    then show ?thesis using Dequeue_empty [OF w give(1)] give(2) assms(2) by simp
  next
    case (Cons v vs)
    then have "v \<noteq> NULL" using waits_apart [OF w give(1)] by auto
    then have ext: "Thread_queue_Extract_critical r v s = Some s'" using give(2) waits_first [OF w give(1)] Cons by (auto simp: Thread_queue_Dequeue_def bind_eq_Some_conv)
    have "v \<in> set (ql r)" using Cons by simp
    from blocking_Extract_critical [OF assms(2) ql(1) assms(3) give(1) this ext ql(2)] show ?thesis .
  qed
next
  case (take_out u)
  obtain ql where ql: "queued (world s) Q T ql" "t \<in> set (ql q) \<and> wflags (world s) t = THREAD_QUEUE_INTEND_TO_BLOCK
      \<or> (\<forall>r \<in> Q. t \<notin> set (ql r)) \<and> wflags (world s) t = THREAD_QUEUE_READY_AGAIN" using assms(2) by (auto simp: blocking_def)
  show ?thesis
  proof (cases "wait_queue (Wait (threads (world s) u)) = NULL")
    case False
    then obtain r where r: "r \<in> Q" "u \<in> set (ql r)" "wait_queue (Wait (threads (world s) u)) = r"
      using ql(1) take_out(1) False unfolding queued_def wait_info_def by metis
    then have "Thread_queue_Extract_critical r u s = Some s'" using take_out(2) False by (simp add: Thread_queue_Extract_def)
    then show ?thesis using blocking_Extract_critical [OF assms(2) ql(1) assms(3) r(1,2) _ ql(2)] by blast
  qed (use take_out(2) assms(2) in \<open>simp add: Thread_queue_Extract_def\<close>)
qed

lemma blocking_events:
  assumes "(wake_event Q T)\<^sup>*\<^sup>* s s'" "blocking Q T q t st (world s)" "q \<in> Q"
  shows "blocking Q T q t st (world s')"
  using assms by (induction rule: rtranclp_induct) (auto intro: blocking_event)

text \<open>The insertion of a watchdog changes the kernel only in its interrupt windows.\<close>

lemma world_Insert_step: "Watchdog_Insert_step h w it s cur delta = Inl s1 \<Longrightarrow> world s1 = world s"
  "Watchdog_Insert_step h w it s cur delta = Inr s1 \<Longrightarrow> world s1 = world s"
  by (auto simp: Watchdog_Insert_step_def Watchdog_Insert_fixup_def Let_def split: chain_pos.splits if_splits)

lemma world_Insert_loop:
  assumes "Watchdog_Insert_loop flash h w it s cur delta = Some s'" "\<And>s. P (world s) \<Longrightarrow> P (world (flash s))" "P (world s)"
  shows "P (world s')"
proof -
  have "(\<forall>s. P (world s) \<longrightarrow> P (world (flash s))) \<longrightarrow> P (world s) \<longrightarrow> P (world s')"
  proof (rule Watchdog_Insert_loop.raw_induct [OF _ assms(1)])
    fix loop and flash :: "'a Watchdog_Handler \<Rightarrow> 'a Watchdog_Handler" and h w it s cur delta s'
    assume 1: "\<And>flash h w it s cur delta s'. loop flash h w it s cur delta = Some s' \<Longrightarrow>
        (\<forall>s. P (world s) \<longrightarrow> P (world (flash s))) \<longrightarrow> P (world s) \<longrightarrow> P (world s')"
      "(case Watchdog_Insert_step h w it s cur delta of Inl s \<Rightarrow> Some (Watchdog_Insert_link h w s cur delta)
        | Inr s \<Rightarrow> let s = flash s in if wd_state (control s w) \<noteq> WATCHDOG_BEING_INSERTED then Some s
            else loop flash h w it s (current (iterator s it)) (it_delta_interval (iterator s it))) = Some s'"
    show "(\<forall>s. P (world s) \<longrightarrow> P (world (flash s))) \<longrightarrow> P (world s) \<longrightarrow> P (world s')"
    proof (cases "Watchdog_Insert_step h w it s cur delta")
      case (Inl a)
      then show ?thesis using 1(2) world_Insert_step(1) [OF Inl] by (auto simp: Watchdog_Insert_link_def Let_def)
    next
      case (Inr b)
      then show ?thesis using 1(1) [of flash h w it "flash b"] 1(2) world_Insert_step(2) [OF Inr] by (auto simp: Let_def split: if_splits)
    qed
  qed
  then show ?thesis using assms(2,3) by blast
qed

lemma world_Insert_ticks:
  assumes "Watchdog_Insert_ticks flash it s w units = Some s'" "\<And>s. P (world s) \<Longrightarrow> P (world (flash s))" "P (world s)"
  shows "P (world s')"
  using assms by (auto simp: Watchdog_Insert_ticks_def Watchdog_Insert_def Watchdog_Insert_locked_def Let_def split: if_splits option.splits
      dest!: world_Insert_loop [where P = P])

text \<open>The thread enters the queue with the intention to block.\<close>

lemma queued_enqueue:
  assumes q: "queued k Q T ql" "q \<in> Q" "t \<in> T" "\<forall>r \<in> Q. t \<notin> set (ql r)"
  defines "k0 \<equiv> Thread_Wait_set_operations t (queue_operations k q) (Thread_Wait_set_queue t q k)"
  shows "\<exists>k1. ops_enqueue (queue_operations k q) q t k0 = Some k1 \<and> links_only k0 k1 \<and> queued k1 Q T (ql(q := placed k0 q t (ql q)))"
proof -
  have w: "waits k Q T ql" and info: "wait_info k Q T ql" using q(1) by (simp_all add: queued_def)
  have same: "wait_same k k0" unfolding k0_def by (rule wait_same_trans [OF wait_same_info(3) wait_same_info(4)])
  have ops: "queue_operations k0 = queue_operations k" using same by (simp add: wait_same_def)
  define ql1 where "ql1 = ql(q := placed k0 q t (ql q))"
  obtain k1 where k1: "ops_enqueue (queue_operations k q) q t k0 = Some k1" "links_only k0 k1" "waits k1 Q T ql1"
    using waits_enqueue [OF waits_upd_same [OF w same] q(2-4)] ops by (auto simp: ql1_def)
  have th: "Wait (threads k1 u) = (if u = t then (Wait (threads k t))\<lparr>wait_queue := q, operations := queue_operations k q\<rparr> else Wait (threads k u))" for u
    using links_only_fields(1) [OF k1(2)] by (simp add: k0_def Thread_Wait_set_operations_def Thread_Wait_set_queue_def upd_wait_def upd_thread_def)
  have ops1: "queue_operations k1 = queue_operations k" using links_only_fields(2) [OF k1(2)] ops by simp
  have mem: "u \<in> set (ql1 r) \<longleftrightarrow> u \<in> set (ql r) \<or> u = t \<and> r = q" for u r by (auto simp: ql1_def)
  have "wait_info k1 Q T ql1" using info q(2,4) by (auto simp: wait_info_def ops1 mem th)
  then show ?thesis using k1 unfolding queued_def ql1_def by blast
qed

lemma Enqueue_blocking:
  assumes q: "queued k Q T ql" "q \<in> Q" "t \<in> T" "\<forall>r \<in> Q. t \<notin> set (ql r)"
  defines "k0 \<equiv> Thread_Wait_set_operations t (queue_operations k q) (Thread_Wait_set_queue t q k)"
  shows "\<exists>k1. ops_enqueue (queue_operations k q) q t k0 = Some k1
    \<and> blocking Q T q t (current_state (threads k t)) (Thread_Wait_flags_set t THREAD_QUEUE_INTEND_TO_BLOCK k1)"
proof -
  obtain k1 where k1: "ops_enqueue (queue_operations k q) q t k0 = Some k1" "links_only k0 k1" "queued k1 Q T (ql(q := placed k0 q t (ql q)))"
    using queued_enqueue [OF q] unfolding k0_def by blast
  have "current_state (threads k1 t) = current_state (threads k t)" using links_only_fields(1) [OF k1(2)]
    by (simp add: k0_def Thread_Wait_set_operations_def Thread_Wait_set_queue_def upd_wait_def upd_thread_def)
  then have "blocking Q T q t (current_state (threads k t)) (Thread_Wait_flags_set t THREAD_QUEUE_INTEND_TO_BLOCK k1)"
    using only_thread_queued [OF only_thread_flags] k1(3) unfolding blocking_def by (intro exI [of _ "ql(q := placed k0 q t (ql q))"]) simp
  then show ?thesis using k1(1) by blast
qed

text \<open>The last step: the thread finds the mark, or it is blocked from now on.\<close>

lemma Enqueue_finish:
  assumes "blocking Q T q t (States_Set state st) (world s)"
  defines "r \<equiv> Thread_Wait_flags_try_change t THREAD_QUEUE_INTEND_TO_BLOCK THREAD_QUEUE_BLOCKED (world s)"
  defines "s' \<equiv> on_kernel Thread_Dispatch_enable (if \<not> snd r then Thread_queue_Unblock t (s\<lparr>world := fst r\<rparr>) else s\<lparr>world := fst r\<rparr>)"
  shows "\<exists>ql. queued (world s') Q T ql \<and>
    (t \<in> set (ql q) \<and> wflags (world s') t = THREAD_QUEUE_BLOCKED \<and> current_state (threads (world s') t) AND state = state
     \<or> (\<forall>r \<in> Q. t \<notin> set (ql r)) \<and> wflags (world s') t = THREAD_QUEUE_READY_AGAIN \<and> current_state (threads (world s') t) AND STATES_BLOCKED = 0)"
proof -
  obtain ql where ql: "queued (world s) Q T ql" "current_state (threads (world s) t) = States_Set state st"
    "t \<in> set (ql q) \<and> wflags (world s) t = THREAD_QUEUE_INTEND_TO_BLOCK \<or> (\<forall>r \<in> Q. t \<notin> set (ql r)) \<and> wflags (world s) t = THREAD_QUEUE_READY_AGAIN"
    using assms(1) by (auto simp: blocking_def)
  show ?thesis
  proof (cases "wflags (world s) t = THREAD_QUEUE_INTEND_TO_BLOCK")
    case True
    define k where "k = Thread_Wait_flags_set t THREAD_QUEUE_BLOCKED (world s)"
    have w: "world s' = Thread_Dispatch_enable k"
      using True by (simp add: s'_def r_def Thread_Wait_flags_try_change_def k_def Thread_Wait_flags_set_def)
    have "queued (world s') Q T ql" unfolding w k_def
      using only_thread_queued [OF only_thread_trans [OF only_thread_flags only_thread_dispatch(1)]] ql(1) by blast
    moreover have "wflags (world s') t = THREAD_QUEUE_BLOCKED" "current_state (threads (world s') t) = States_Set state st"
      using ql(2) by (simp_all add: w dispatch_wait k_def)
    moreover have "States_Set state st AND state = state" by (simp add: States_Set_def bit_eq_iff bit_and_iff bit_or_iff)
    moreover have "t \<in> set (ql q)" using ql(3) True by (auto simp: wait_flag_values)
    ultimately show ?thesis by auto
  next
    case False
    then have f: "\<forall>r \<in> Q. t \<notin> set (ql r)" "wflags (world s) t = THREAD_QUEUE_READY_AGAIN" using ql(3) by blast+
    have w: "world s' = Thread_Dispatch_enable (Thread_Unblock t (world s))"
      using False by (simp add: s'_def r_def Thread_Wait_flags_try_change_def Thread_queue_Unblock_def)
    have "queued (world s') Q T ql" unfolding w
      using only_thread_queued [OF only_thread_trans [OF only_thread_state(2) only_thread_dispatch(1)]] ql(1) by blast
    moreover have th: "threads (Thread_Unblock t (world s)) = threads (upd_thread t (\<lambda>c. c\<lparr>current_state := States_Clear STATES_BLOCKED (current_state c)\<rparr>) (world s))"
      unfolding Thread_Unblock_def by (rule sched_frameD(1) [OF Thread_Clear_state_frame])
    have "wflags (world s') t = THREAD_QUEUE_READY_AGAIN" "current_state (threads (world s') t) = States_Clear STATES_BLOCKED (States_Set state st)"
      using f(2) ql(2) th by (simp_all add: w dispatch_wait upd_thread_def)
    moreover have "States_Clear STATES_BLOCKED x AND STATES_BLOCKED = 0" for x by (simp add: States_Clear_def bit_eq_iff bit_and_iff bit_not_iff)
    ultimately show ?thesis using f(1) by auto
  qed
qed

subsection \<open>The thread is in the queue or ready\<close>

text \<open>C2: A thread that calls \<open>_Thread_queue_Enqueue_critical\<close> is not lost, whatever interrupts do in the windows where they are enabled: they may
  dequeue threads, take any thread out of its queue, let timeouts expire and change synchronization objects. Without a timeout the call returns, and whenever it has
  returned the thread is either in its queue and blocked in the given state, or in no queue and not blocked. All queues keep
  their form.\<close>

theorem Thread_queue_Enqueue_critical_not_lost:
  assumes q: "queued (world s) Q T ql" "q \<in> Q" "t \<in> T" "\<forall>r \<in> Q. t \<notin> set (ql r)" and isr: "\<And>n s. (wake_event Q T)\<^sup>*\<^sup>* s (isr n s)"
  shows "(timeout = WATCHDOG_NO_TIMEOUT \<longrightarrow> (\<exists>s'. Thread_queue_Enqueue_critical isr it rtn q t state timeout code s = Some s'))
    \<and> (\<forall>s'. Thread_queue_Enqueue_critical isr it rtn q t state timeout code s = Some s' \<longrightarrow> (\<exists>ql. queued (world s') Q T ql \<and>
         (t \<in> set (ql q) \<and> wflags (world s') t = THREAD_QUEUE_BLOCKED \<and> current_state (threads (world s') t) AND state = state
          \<or> (\<forall>r \<in> Q. t \<notin> set (ql r)) \<and> wflags (world s') t = THREAD_QUEUE_READY_AGAIN \<and> current_state (threads (world s') t) AND STATES_BLOCKED = 0)))"
proof -
  define st where "st = current_state (threads (world s) t)"
  define k0 where "k0 = Thread_Wait_set_operations t (queue_operations (world s) q) (Thread_Wait_set_queue t q (world s))"
  obtain k1 where k1: "ops_enqueue (queue_operations (world s) q) q t k0 = Some k1"
    and b1: "blocking Q T q t st (Thread_Wait_flags_set t THREAD_QUEUE_INTEND_TO_BLOCK k1)"
    using Enqueue_blocking [OF q] unfolding k0_def st_def by blast
  define s1 where "s1 = isr 0 (s\<lparr>world := Thread_Dispatch_disable (Thread_Wait_flags_set t THREAD_QUEUE_INTEND_TO_BLOCK k1)\<rparr>)"
  have "blocking Q T q t st (Thread_Dispatch_disable (Thread_Wait_flags_set t THREAD_QUEUE_INTEND_TO_BLOCK k1))"
    using blocking_only [OF b1 only_thread_dispatch(2)] b1 by (auto simp: dispatch_wait blocking_def)
  then have "blocking Q T q t st (world s1)" unfolding s1_def by (intro blocking_events [OF isr _ q(2)]) simp
  define s2 where "s2 = isr 1 (s1\<lparr>world := fst (Thread_Set_state t state (world s1))\<rparr>)"
  have th: "threads (fst (Thread_Set_state t state k)) = threads (upd_thread t (\<lambda>c. c\<lparr>current_state := States_Set state (current_state c)\<rparr>) k)" for k
    by (rule sched_frameD(1) [OF Thread_Set_state_frame])
  have "blocking Q T q t (States_Set state st) (fst (Thread_Set_state t state (world s1)))"
    using blocking_only [OF \<open>blocking Q T q t st (world s1)\<close> only_thread_state(1)] \<open>blocking Q T q t st (world s1)\<close>
    by (auto simp: th upd_thread_def blocking_def)
  then have b2: "blocking Q T q t (States_Set state st) (world s2)" unfolding s2_def by (intro blocking_events [OF isr _ q(2)]) simp
  define insertion where "insertion = (if timeout \<noteq> WATCHDOG_NO_TIMEOUT
      then Watchdog_Insert_ticks (isr 2) it (Watchdog_Initialize (s2\<lparr>world := Thread_Wait_set_timeout_code t code (world s2)\<rparr>) t rtn 0 t) t timeout else Some s2)"
  define last where "last = (\<lambda>s. let r = Thread_Wait_flags_try_change t THREAD_QUEUE_INTEND_TO_BLOCK THREAD_QUEUE_BLOCKED (world s)
      in on_kernel Thread_Dispatch_enable (if \<not> snd r then Thread_queue_Unblock t (s\<lparr>world := fst r\<rparr>) else s\<lparr>world := fst r\<rparr>))"
  have eq: "Thread_queue_Enqueue_critical isr it rtn q t state timeout code s = insertion \<bind> (\<lambda>s. Some (last (isr 3 s)))"
    using k1 by (simp add: Thread_queue_Enqueue_critical_def Let_def try_kernel_def k0_def [symmetric] s1_def [symmetric] s2_def [symmetric]
        insertion_def last_def split_def del: One_nat_def)
  have "blocking Q T q t (States_Set state st) (world s3)" if "insertion = Some s3" for s3
  proof (cases "timeout = WATCHDOG_NO_TIMEOUT")
    case False
    have "blocking Q T q t (States_Set state st) (Thread_Wait_set_timeout_code t code (world s2))"
    proof -
      have "only_thread t (world s2) (Thread_Wait_set_timeout_code t code (world s2))"
        by (simp add: only_thread_def wait_frames) (simp add: Thread_Wait_set_timeout_code_def upd_wait_def upd_thread_def)
      from blocking_only [OF b2 this] b2 show ?thesis by (auto simp: Thread_Wait_set_timeout_code_def upd_wait_def upd_thread_def blocking_def)
    qed
    then show ?thesis
      using that False by (auto simp: insertion_def Watchdog_Initialize_def
          intro: world_Insert_ticks [where P = "blocking Q T q t (States_Set state st)"] blocking_events [OF isr _ q(2)])
  qed (use that b2 in \<open>simp add: insertion_def\<close>)
  then have "\<exists>ql. queued (world (last (isr 3 s3))) Q T ql \<and>
      (t \<in> set (ql q) \<and> wflags (world (last (isr 3 s3))) t = THREAD_QUEUE_BLOCKED \<and> current_state (threads (world (last (isr 3 s3))) t) AND state = state
       \<or> (\<forall>r \<in> Q. t \<notin> set (ql r)) \<and> wflags (world (last (isr 3 s3))) t = THREAD_QUEUE_READY_AGAIN \<and> current_state (threads (world (last (isr 3 s3))) t) AND STATES_BLOCKED = 0)"
    if "insertion = Some s3" for s3
    unfolding last_def Let_def by (intro Enqueue_finish [OF blocking_events [OF isr _ q(2)]]) (use that in blast)
  moreover have "timeout = WATCHDOG_NO_TIMEOUT \<longrightarrow> insertion = Some s2" by (simp add: insertion_def)
  ultimately show ?thesis unfolding eq by (auto simp: bind_eq_Some_conv)
qed

text \<open>An interrupt that gives to the queue right after the thread has got its waiting state.\<close>

definition give_at_1 :: "addr \<Rightarrow> nat \<Rightarrow> System \<Rightarrow> System" where
  "give_at_1 q n s = (if n = 1 then case Thread_queue_Dequeue q s of None \<Rightarrow> s | Some (s', u) \<Rightarrow> s' else s)"

lemma give_at_1_event: "q \<in> Q \<Longrightarrow> (wake_event Q T)\<^sup>*\<^sup>* s (give_at_1 q n s)"
  by (auto simp: give_at_1_def split: option.splits intro!: r_into_rtranclp wake_event.give)

definition example_queue :: System where
  "example_queue = example_system\<lparr>world := Thread_queue_Initialize 0x5000 THREAD_QUEUE_DISCIPLINE_FIFO (world example_system)\<rparr>"

lemma example_queued: "queued (world example_queue) {0x5000} {0x2000, 0x3000, 0x4000} (\<lambda>_. [])"
proof -
  have "apart {0x5000} {0x2000, 0x3000, 0x4000}" by (simp add: apart_def control_cells_def node_cells_def)
  from waits_initialized(1) [OF this] have "waits (world example_queue) {0x5000} {0x2000, 0x3000, 0x4000} (\<lambda>_. [])" by (simp add: example_queue_def)
  moreover have "wait_info (world example_queue) {0x5000} {0x2000, 0x3000, 0x4000} (\<lambda>_. [])"
    by (simp add: wait_info_def example_queue_def Thread_queue_Initialize_def Thread_queue_FIFO_initialize_def example_system_def
        blank_kernel_def blank_thread_def blank_wait_def)
  ultimately show ?thesis by (simp add: queued_def)
qed

theorem Thread_queue_Enqueue_critical_not_lost_witness:
  "\<exists>s' ql. Thread_queue_Enqueue_critical (give_at_1 0x5000) 1 0x60 0x5000 0x2000 STATES_WAITING_FOR_SEMAPHORE WATCHDOG_NO_TIMEOUT 3 example_queue = Some s'
     \<and> queued (world s') {0x5000} {0x2000, 0x3000, 0x4000} ql
     \<and> (0x2000 \<in> set (ql 0x5000) \<and> current_state (threads (world s') 0x2000) AND STATES_WAITING_FOR_SEMAPHORE = STATES_WAITING_FOR_SEMAPHORE
        \<or> 0x2000 \<notin> set (ql 0x5000) \<and> current_state (threads (world s') 0x2000) AND STATES_BLOCKED = 0)"
proof -
  have "(wake_event {0x5000} {0x2000, 0x3000, 0x4000})\<^sup>*\<^sup>* s (give_at_1 0x5000 n s)" for n s by (rule give_at_1_event) simp
  from Thread_queue_Enqueue_critical_not_lost [where isr = "give_at_1 0x5000" and q = "0x5000" and t = "0x2000"
      and timeout = WATCHDOG_NO_TIMEOUT and it = 1 and rtn = "0x60" and state = STATES_WAITING_FOR_SEMAPHORE and code = 3, OF example_queued _ _ _ this]
  show ?thesis by auto
qed

subsection \<open>Invariants of objects with a thread queue\<close>

text \<open>The threads that wait at a queue, by their wait information.\<close>

definition waiting :: "Kernel \<Rightarrow> addr set \<Rightarrow> addr \<Rightarrow> addr set" where
  "waiting k T q = {u \<in> T. wait_queue (Wait (threads k u)) = q \<and> operations (Wait (threads k u)) \<noteq> Thread_queue_Operations_default}"

lemma queued_waiting:
  assumes "queued k Q T ql" "q \<in> Q"
  shows "set (ql q) = waiting k T q"
proof (rule set_eqI)
  have w: "waits k Q T ql" using assms(1) by (simp add: queued_def)
  fix u
  show "u \<in> set (ql q) \<longleftrightarrow> u \<in> waiting k T q"
  proof (cases "\<exists>r \<in> Q. u \<in> set (ql r)")
    case True
    then obtain r where r: "r \<in> Q" "u \<in> set (ql r)" by blast
    then have "wait_queue (Wait (threads k u)) = r" "operations (Wait (threads k u)) \<noteq> Thread_queue_Operations_default" "u \<in> T"
      using assms(1) waits_apart [OF w r(1)] by (auto simp: queued_def wait_info_def waits_def)
    then show ?thesis using r waits_disjoint [OF w r(1) assms(2) r(2)] by (auto simp: waiting_def)
  next
    case False
    then show ?thesis using assms by (auto simp: queued_def wait_info_def waiting_def)
  qed
qed

lemma waiting_only: "only_thread t k k' \<Longrightarrow> waiting k' T q = waiting k T q"
  by (simp add: waiting_def only_thread_def)

lemma only_thread_wait [thread_frames]:
  assumes "\<And>w. wait_queue (f w) = wait_queue w \<and> operations (f w) = operations w"
  shows "only_thread t k (upd_wait t f k)"
  using assms by (simp add: only_thread_def wait_frames) (simp add: upd_wait_def upd_thread_def)

lemma only_thread_try_change [thread_frames]: "only_thread t k (fst (Thread_Wait_flags_try_change t e d k))"
  by (auto simp: Thread_Wait_flags_try_change_def Let_def intro!: only_thread_wait) (simp add: only_thread_def wait_frames)

text \<open>A thread that has been taken out of its queue.\<close>

definition taken_out :: "addr \<Rightarrow> Kernel \<Rightarrow> Kernel" where
  "taken_out u k = Thread_Wait_restore_default_operations u (Thread_Wait_set_queue u NULL k)"

lemma taken_out_fields:
  "Wait (threads (taken_out u k) v) = (if v = u then (Wait (threads k u))\<lparr>wait_queue := NULL, operations := Thread_queue_Operations_default\<rparr> else Wait (threads k v))"
  "wait_same k (taken_out u k)"
  by (simp_all add: taken_out_def wait_same_trans [OF wait_same_info(3) wait_same_info(5)])
    (simp add: Thread_Wait_restore_default_operations_def Thread_Wait_set_queue_def upd_wait_def upd_thread_def)

lemma queued_taken_out:
  assumes "queued k Q T ql" "q \<in> Q" "t \<in> set (ql q)"
  shows "\<exists>k1. ops_extract (queue_operations k q) q t k = Some k1 \<and> links_only k k1 \<and> queued (taken_out t k1) Q T (ql(q := remove1 t (ql q)))"
  using queued_remove [OF assms] by (simp add: taken_out_def)

lemma waiting_taken_out: "links_only k k1 \<Longrightarrow> waiting (taken_out u k1) T r = waiting k T r - {u}"
  using links_only_fields(1) [of k k1] by (auto simp: waiting_def taken_out_fields)

text \<open>What an object promises about its thread queue: an invariant that survives whatever happens to a single thread and the loss of a waiting
  thread. It then survives everything a thread queue does.\<close>

locale queue_client =
  fixes Q T :: "addr set" and P :: "Kernel \<Rightarrow> bool"
  assumes client_queued: "P k \<Longrightarrow> \<exists>ql. queued k Q T ql"
    and client_only: "only_thread t k k' \<Longrightarrow> P k \<Longrightarrow> P k'"
    and client_removed: "P k \<Longrightarrow> queued k Q T ql \<Longrightarrow> r \<in> Q \<Longrightarrow> u \<in> set (ql r) \<Longrightarrow> ops_extract (queue_operations k r) r u k = Some k1 \<Longrightarrow> P (taken_out u k1)"
begin

lemma Extract_critical_keeps:
  assumes "P (world s)" "queued (world s) Q T ql" "r \<in> Q" "u \<in> set (ql r)" "Thread_queue_Extract_critical r u s = Some s'"
  shows "P (world s')"
proof -
  obtain k1 where k1: "ops_extract (queue_operations (world s) r) r u (world s) = Some k1" using queued_taken_out [OF assms(2-4)] by blast
  have "s' = Thread_queue_Unblock_critical r u (s\<lparr>world := taken_out u k1\<rparr>)"
    using assms(5) k1 by (simp add: Thread_queue_Extract_critical_def Thread_queue_Extract_locked_def try_kernel_def taken_out_def)
  then show ?thesis using client_only [OF only_thread_Unblock_critical [of u "s\<lparr>world := taken_out u k1\<rparr>" r]] client_removed [OF assms(1-4) k1] by simp
qed

lemma Extract_keeps:
  assumes "P (world s)" "u \<in> T" "Thread_queue_Extract u s = Some s'"
  shows "P (world s')"
proof (cases "wait_queue (Wait (threads (world s) u)) = NULL")
  case False
  obtain ql where ql: "queued (world s) Q T ql" using client_queued [OF assms(1)] by blast
  obtain r where r: "r \<in> Q" "u \<in> set (ql r)" "wait_queue (Wait (threads (world s) u)) = r"
    using ql assms(2) False unfolding queued_def wait_info_def by metis
  then show ?thesis using Extract_critical_keeps [OF assms(1) ql r(1,2)] assms(3) False by (simp add: Thread_queue_Extract_def)
qed (use assms in \<open>simp add: Thread_queue_Extract_def\<close>)

lemma Timeout_keeps:
  assumes "P k" "u \<in> T" "Thread_Timeout u k = Some k'"
  shows "P k'"
proof (cases "wflags k u AND THREAD_WAIT_STATE_READY_AGAIN = 0")
  case False
  then show ?thesis using assms(1,3) by (simp add: Thread_Timeout_def Thread_Wait_flags_get_def)
next
  case True
  define k0 where "k0 = upd_wait u (\<lambda>w. w\<lparr>return_code := timeout_code w\<rparr>) k"
  have p0: "P k0" unfolding k0_def by (rule client_only [OF only_thread_wait assms(1)]) simp
  then obtain ql where ql: "queued k0 Q T ql" using client_queued by blast
  obtain k1 where k1: "ops_extract (operations (Wait (threads k0 u))) (wait_queue (Wait (threads k0 u))) u k0 = Some k1"
    using assms(3) True by (cases "ops_extract (operations (Wait (threads k0 u))) (wait_queue (Wait (threads k0 u))) u k0")
      (simp_all add: Thread_Timeout_def Thread_Do_timeout_def Thread_Wait_flags_get_def Let_def k0_def [symmetric])
  have "P (taken_out u k1)"
  proof (cases "\<exists>r \<in> Q. u \<in> set (ql r)")
    case True
    then obtain r where r: "r \<in> Q" "u \<in> set (ql r)" by blast
    then have "wait_queue (Wait (threads k0 u)) = r" "operations (Wait (threads k0 u)) = queue_operations k0 r" using ql by (auto simp: queued_def wait_info_def)
    then show ?thesis using client_removed [OF p0 ql r] k1 by simp
  next
    case False
    then have d: "wait_queue (Wait (threads k0 u)) = NULL" "operations (Wait (threads k0 u)) = Thread_queue_Operations_default"
      using ql assms(2) by (auto simp: queued_def wait_info_def)
    then have "only_thread u k0 (taken_out u k1)"
      using k1 taken_out_fields(2) [of k0 u] by (simp add: only_thread_def taken_out_fields(1))
        (simp add: taken_out_def Thread_Wait_restore_default_operations_def Thread_Wait_set_queue_def upd_wait_def upd_thread_def)
    then show ?thesis using client_only p0 by blast
  qed
  moreover have "only_thread u (taken_out u k1) k'"
    using assms(3) True k1 by (auto simp: Thread_Timeout_def Thread_Do_timeout_def Thread_Wait_flags_get_def k0_def [symmetric] taken_out_def [symmetric] Let_def
        Thread_Wait_flags_try_change_def Thread_Wait_flags_set_def intro!: only_thread_wait only_thread_trans [OF _ only_thread_state(2)] split: if_splits)
  ultimately show ?thesis using client_only by blast
qed

lemma Enqueue_keeps:
  assumes k1: "ops_enqueue (queue_operations (world s) q) q t (Thread_Wait_set_operations t (queue_operations (world s) q) (Thread_Wait_set_queue t q (world s))) = Some k1"
      "P k1"
    and isr: "\<And>n s. P (world s) \<Longrightarrow> P (world (isr n s))"
    and res: "Thread_queue_Enqueue_critical isr it rtn q t state timeout code s = Some s'"
  shows "P (world s')"
proof -
  define k2 where "k2 = Thread_Dispatch_disable (Thread_Wait_flags_set t THREAD_QUEUE_INTEND_TO_BLOCK k1)"
  have "P k2" unfolding k2_def using client_only [OF only_thread_dispatch(2)] client_only [OF only_thread_flags] k1(2) by blast
  define s1 where "s1 = isr 0 (s\<lparr>world := k2\<rparr>)"
  have "P (world s1)" unfolding s1_def by (rule isr) (use \<open>P k2\<close> in simp)
  define s2 where "s2 = isr 1 (s1\<lparr>world := fst (Thread_Set_state t state (world s1))\<rparr>)"
  have p2: "P (world s2)" unfolding s2_def by (rule isr) (use client_only [OF only_thread_state(1) \<open>P (world s1)\<close>] in simp)
  define insertion where "insertion = (if timeout \<noteq> WATCHDOG_NO_TIMEOUT
      then Watchdog_Insert_ticks (isr 2) it (Watchdog_Initialize (s2\<lparr>world := Thread_Wait_set_timeout_code t code (world s2)\<rparr>) t rtn 0 t) t timeout else Some s2)"
  define fin where "fin = (\<lambda>s. let r = Thread_Wait_flags_try_change t THREAD_QUEUE_INTEND_TO_BLOCK THREAD_QUEUE_BLOCKED (world s)
      in on_kernel Thread_Dispatch_enable (if \<not> snd r then Thread_queue_Unblock t (s\<lparr>world := fst r\<rparr>) else s\<lparr>world := fst r\<rparr>))"
  have "Thread_queue_Enqueue_critical isr it rtn q t state timeout code s = insertion \<bind> (\<lambda>s. Some (fin (isr 3 s)))"
    using k1(1) by (simp add: Thread_queue_Enqueue_critical_def Let_def try_kernel_def k2_def [symmetric] s1_def [symmetric] s2_def [symmetric]
        insertion_def fin_def split_def del: One_nat_def)
  then obtain s3 where s3: "insertion = Some s3" "s' = fin (isr 3 s3)" using res by (cases insertion) auto
  have "P (Thread_Wait_set_timeout_code t code (world s2))"
    unfolding Thread_Wait_set_timeout_code_def by (rule client_only [OF only_thread_wait p2]) simp
  then have "P (world s3)"
    using s3(1) p2 by (auto simp: insertion_def Watchdog_Initialize_def split: if_splits intro: world_Insert_ticks [where P = P] isr)
  then have "P (fst (Thread_Wait_flags_try_change t THREAD_QUEUE_INTEND_TO_BLOCK THREAD_QUEUE_BLOCKED (world (isr 3 s3))))"
    using isr client_only [OF only_thread_try_change] by blast
  then show ?thesis unfolding s3(2) fin_def Let_def
    by (auto simp: Thread_queue_Unblock_def intro!: client_only [OF only_thread_dispatch(1)] client_only [OF only_thread_state(2)])
qed

lemma Flush_keeps:
  assumes "Thread_queue_Flush q status s = Some s'" "q \<in> Q" "P (world s)"
  shows "P (world s')"
proof -
  have "q \<in> Q \<longrightarrow> P (world s) \<longrightarrow> P (world s')"
  proof (rule Thread_queue_Flush.raw_induct [OF _ assms(1)])
    fix flush q status s s'
    assume IH: "\<And>q status s s'. flush q status s = Some s' \<Longrightarrow> q \<in> Q \<longrightarrow> P (world s) \<longrightarrow> P (world s')"
      and res: "do { t \<leftarrow> Thread_queue_First_locked q (world s);
         if t \<noteq> NULL then do { let s = on_kernel (upd_wait t (\<lambda>w. w\<lparr>return_code := status\<rparr>)) s; s \<leftarrow> Thread_queue_Extract_critical q t s; flush q status s }
         else Some s } = Some s'"
    show "q \<in> Q \<longrightarrow> P (world s) \<longrightarrow> P (world s')"
    proof (intro impI)
      assume q: "q \<in> Q" and inv: "P (world s)"
      obtain ql where ql: "queued (world s) Q T ql" using client_queued [OF inv] by blast
      then have w: "waits (world s) Q T ql" by (simp add: queued_def)
      show "P (world s')"
      proof (cases "ql q")
        case Nil
        then show ?thesis using res waits_first [OF w q] inv by simp
      next
        case (Cons v vs)
        define k where "k = upd_wait v (\<lambda>w. w\<lparr>return_code := status\<rparr>) (world s)"
        have o: "only_thread v (world s) k" unfolding k_def by (rule only_thread_wait) simp
        have v: "v \<noteq> NULL" "v \<in> set (ql q)" using waits_apart [OF w q] Cons by auto
        obtain s1 where s1: "Thread_queue_Extract_critical q v (s\<lparr>world := k\<rparr>) = Some s1" "flush q status s1 = Some s'"
          using res waits_first [OF w q] Cons v by (auto simp: k_def bind_eq_Some_conv)
        have "P (world s1)" using Extract_critical_keeps [of "s\<lparr>world := k\<rparr>" ql q v s1] client_only [OF o inv] only_thread_queued [OF o] ql q v(2) s1(1) by simp
        then show ?thesis using IH [OF s1(2)] q by blast
      qed
    qed
  qed
  then show ?thesis using assms(2,3) by blast
qed

end

end
