(* ===== verification/Score_Core_Props.thy ===== *)
theory Score_Core_Props
  imports Score_Core Score_Wakeup
begin

text \<open>
  Semaphores refine counting semaphores with a list of waiting threads, also when interrupts surrender units while
  a thread blocks; the last release of a read-write lock hands it to the first writer or to the readers before it; releasing a
  barrier wakes every waiting thread; and the count of waiting threads of a barrier is wrong after a timeout.
\<close>

subsection \<open>A counting semaphore\<close>

datatype sem_op = Seize addr bool | Surrender

text \<open>The abstract semaphore: its count and the waiting threads. \<open>place\<close> puts a thread into the list. The result is the status of the operation; a
  thread that has to wait gets the status of success when it gets its unit.\<close>

fun sem_spec :: "(addr \<Rightarrow> addr list \<Rightarrow> addr list) \<Rightarrow> nat \<Rightarrow> sem_op \<Rightarrow> nat \<times> addr list \<Rightarrow> (nat \<times> addr list) \<times> uint32" where
  "sem_spec place m (Seize t wait) (c, ws) =
     (if 0 < c then ((c - 1, ws), CORE_SEMAPHORE_STATUS_SUCCESSFUL)
      else if \<not> wait then ((c, ws), CORE_SEMAPHORE_STATUS_UNSATISFIED_NOWAIT)
      else ((c, place t ws), CORE_SEMAPHORE_STATUS_SUCCESSFUL))"
| "sem_spec place m Surrender (c, []) =
     (if c < m then ((c + 1, []), CORE_SEMAPHORE_STATUS_SUCCESSFUL) else ((c, []), CORE_SEMAPHORE_MAXIMUM_COUNT_EXCEEDED))"
| "sem_spec place m Surrender (c, t # ws) = ((c, ws), CORE_SEMAPHORE_STATUS_SUCCESSFUL)"

fun sem_specs :: "(addr \<Rightarrow> addr list \<Rightarrow> addr list) \<Rightarrow> nat \<Rightarrow> sem_op list \<Rightarrow> nat \<times> addr list \<Rightarrow> (nat \<times> addr list) \<times> uint32 list" where
  "sem_specs place m [] a = (a, [])"
| "sem_specs place m (p # ps) a = (let (a, r) = sem_spec place m p a; (a, rs) = sem_specs place m ps a in (a, r # rs))"

text \<open>A waiting thread does not call.\<close>

fun sem_legal :: "(addr \<Rightarrow> addr list \<Rightarrow> addr list) \<Rightarrow> nat \<Rightarrow> addr set \<Rightarrow> sem_op list \<Rightarrow> nat \<times> addr list \<Rightarrow> bool" where
  "sem_legal place m T [] a \<longleftrightarrow> True"
| "sem_legal place m T (p # ps) a \<longleftrightarrow> (case p of Seize t wait \<Rightarrow> t \<in> T \<and> t \<notin> set (snd a) | Surrender \<Rightarrow> True)
     \<and> sem_legal place m T ps (fst (sem_spec place m p a))"

text \<open>The operations of the code, without interrupts and timeouts.\<close>

fun sem_step :: "iid \<Rightarrow> addr \<Rightarrow> addr \<Rightarrow> sem_op \<Rightarrow> System \<Rightarrow> (System \<times> uint32) option" where
  "sem_step it rtn q (Seize t wait) s = do {
     s \<leftarrow> CORE_semaphore_Seize (\<lambda>n s. s) it rtn q t 0 wait WATCHDOG_NO_TIMEOUT s;
     Some (s, return_code (Wait (threads (world s) t)))
   }"
| "sem_step it rtn q Surrender s = CORE_semaphore_Surrender q s"

fun sem_steps :: "iid \<Rightarrow> addr \<Rightarrow> addr \<Rightarrow> sem_op list \<Rightarrow> System \<Rightarrow> (System \<times> uint32 list) option" where
  "sem_steps it rtn q [] s = Some (s, [])"
| "sem_steps it rtn q (p # ps) s = do {
     (s, r) \<leftarrow> sem_step it rtn q p s;
     (s, rs) \<leftarrow> sem_steps it rtn q ps s;
     Some (s, r # rs)
   }"

definition sem_rel :: "Kernel \<Rightarrow> addr \<Rightarrow> addr set \<Rightarrow> nat \<Rightarrow> System \<Rightarrow> nat \<times> addr list \<Rightarrow> bool" where
  "sem_rel k q T m s a \<longleftrightarrow> waits (world s) {q} T ((\<lambda>_. [])(q := snd a)) \<and> unat (sem_count (semaphores (world s) q)) = fst a
     \<and> unat (sem_maximum_count (semaphores (world s) q)) = m \<and> fst a \<le> m
     \<and> queue_operations (world s) = queue_operations k \<and> (\<forall>t. prio (world s) t = prio k t)"

lemma upd_semaphore_core: "core_only k (upd_semaphore q f k)"
  by (simp add: core_only_def upd_semaphore_def)

text \<open>The return code that a blocking thread has set survives its blocking, when nobody interrupts it.\<close>

lemma Set_state_return_code: "return_code (Wait (threads (fst (Thread_Set_state t state k)) u)) = return_code (Wait (threads k u))"
  using sched_frameD(1) [OF Thread_Set_state_frame [of t state k]] by (simp add: upd_thread_def)

lemma Unblock_return_code: "return_code (Wait (threads (Thread_Unblock t k) u)) = return_code (Wait (threads k u))"
  using sched_frameD(1) [OF Thread_Clear_state_frame [of t STATES_BLOCKED k]] by (simp add: upd_thread_def Thread_Unblock_def)

lemma ops_enqueue_links: "ops_enqueue ops q t k = Some k' \<Longrightarrow> links_only k k'"
  by (cases ops) (auto simp: Thread_queue_FIFO_enqueue_def Thread_queue_Priority_enqueue_def links_only_def)

lemma info_return_code:
  "return_code (Wait (threads (Thread_Wait_flags_set t f k) u)) = return_code (Wait (threads k u))"
  "return_code (Wait (threads (fst (Thread_Wait_flags_try_change t e d k)) u)) = return_code (Wait (threads k u))"
  "return_code (Wait (threads (Thread_Wait_set_queue t q k) u)) = return_code (Wait (threads k u))"
  "return_code (Wait (threads (Thread_Wait_set_operations t ops k) u)) = return_code (Wait (threads k u))"
  by (simp_all add: Thread_Wait_flags_set_def Thread_Wait_flags_try_change_def Thread_Wait_set_queue_def Thread_Wait_set_operations_def upd_wait_def upd_thread_def Let_def)

lemma Enqueue_quiet_return_code:
  assumes "Thread_queue_Enqueue_critical (\<lambda>n s. s) it rtn q t state WATCHDOG_NO_TIMEOUT code s = Some s'"
  shows "return_code (Wait (threads (world s') u)) = return_code (Wait (threads (world s) u))"
proof -
  define k0 where "k0 = Thread_Wait_set_operations t (queue_operations (world s) q) (Thread_Wait_set_queue t q (world s))"
  obtain k1 where k1: "ops_enqueue (queue_operations (world s) q) q t k0 = Some k1"
    using assms by (auto simp: Thread_queue_Enqueue_critical_def Let_def try_kernel_def k0_def bind_eq_Some_conv)
  have "return_code (Wait (threads k1 u)) = return_code (Wait (threads (world s) u))"
    using links_only_fields(1) [OF ops_enqueue_links [OF k1]] by (simp add: k0_def info_return_code)
  then show ?thesis using assms k1 [unfolded k0_def]
    by (auto simp: Thread_queue_Enqueue_critical_def Let_def try_kernel_def split_def Thread_queue_Unblock_def dispatch_wait Set_state_return_code
        Unblock_return_code info_return_code split: if_splits)
qed

lemma sem_step_refines:
  assumes rel: "sem_rel k q T m s a" and legal: "case p of Seize t wait \<Rightarrow> t \<in> T \<and> t \<notin> set (snd a) | Surrender \<Rightarrow> True"
  shows "\<exists>s'. sem_step it rtn q p s = Some (s', snd (sem_spec (placed k q) m p a)) \<and> sem_rel k q T m s' (fst (sem_spec (placed k q) m p a))"
proof -
  obtain c ws where a: "a = (c, ws)" by (cases a)
  have W: "waits (world s) {q} T ((\<lambda>_. [])(q := ws))" and cnt: "unat (sem_count (semaphores (world s) q)) = c"
    and mx: "unat (sem_maximum_count (semaphores (world s) q)) = m" "c \<le> m" and fx: "queue_operations (world s) = queue_operations k" "\<forall>t. prio (world s) t = prio k t"
    using rel by (simp_all add: sem_rel_def a)
  have pl: "placed (world s) q = placed k q" using fx by (simp add: placed_def fun_eq_iff)
  show ?thesis
  proof (cases p)
    case Surrender
    show ?thesis
    proof (cases ws)
      case Nil
      then have F: "Thread_queue_First_locked q (world s) = Some NULL" using waits_first [OF W] by simp
      have lt: "sem_count (semaphores (world s) q) < sem_maximum_count (semaphores (world s) q) \<longleftrightarrow> c < m" using cnt mx by (simp add: word_less_nat_alt)
      show ?thesis
      proof (cases "c < m")
        case True
        define k' where "k' = upd_semaphore q (\<lambda>c. c\<lparr>sem_count := sem_count c + 1\<rparr>) (world s)"
        have "unat (sem_count (semaphores (world s) q) + 1) = c + 1"
          using True cnt mx(1) unat_uint32_bound [of "sem_maximum_count (semaphores (world s) q)"] by (simp add: unat_add_no_wrap)
        moreover have "waits k' {q} T ((\<lambda>_. [])(q := ws))" using W waits_core [OF upd_semaphore_core] by (simp add: k'_def)
        ultimately have "sem_rel k q T m (s\<lparr>world := k'\<rparr>) (c + 1, [])"
          using True fx mx by (simp add: sem_rel_def Nil) (simp add: k'_def upd_semaphore_def)
        then show ?thesis using F lt True Surrender by (simp add: a Nil CORE_semaphore_Surrender_def k'_def)
      next
        case False
        then show ?thesis using F lt rel Surrender by (simp add: a Nil CORE_semaphore_Surrender_def)
      qed
    next
      case (Cons t ts)
      have "t \<noteq> NULL" using waits_apart [OF W] Cons by auto
      then show ?thesis using Extract_critical_waits [OF W, of q t] waits_first [OF W] Cons Surrender cnt mx fx
        by (auto simp: a sem_rel_def CORE_semaphore_Surrender_def)
    qed
  next
    case (Seize t wait)
    have t: "t \<in> T" "t \<notin> set ws" using legal by (simp_all add: Seize a)
    define k1 where "k1 = upd_wait t (\<lambda>w. w\<lparr>return_code := CORE_SEMAPHORE_STATUS_SUCCESSFUL\<rparr>) (world s)"
    have k1: "wait_same (world s) k1" "return_code (Wait (threads k1 t)) = 0" by (simp_all add: k1_def wait_frames) (simp add: upd_wait_def upd_thread_def)
    have W1: "waits k1 {q} T ((\<lambda>_. [])(q := ws))" using W waits_same [OF k1(1)] by simp
    have z: "sem_count (semaphores k1 q) = 0 \<longleftrightarrow> c = 0" using cnt k1(1) by (auto simp: wait_same_def unat_eq_zero)
    consider "0 < c" | "c = 0" "\<not> wait" | "c = 0" wait by blast
    then show ?thesis
    proof cases
      case 1
      define k' where "k' = upd_semaphore q (\<lambda>c. c\<lparr>sem_count := sem_count c - 1\<rparr>) k1"
      have "unat (sem_count (semaphores k1 q) - 1) = c - 1"
        using 1 cnt z k1(1) by (simp add: wait_same_def unat_minus_one)
      moreover have "waits k' {q} T ((\<lambda>_. [])(q := ws))" using W1 waits_core [OF upd_semaphore_core] by (simp add: k'_def)
      ultimately have "sem_rel k q T m (s\<lparr>world := k'\<rparr>) (c - 1, ws)"
        using fx mx k1(1) by (simp add: sem_rel_def) (simp add: k'_def upd_semaphore_def wait_same_def)
      then show ?thesis using 1 z Seize k1(2) by (simp add: a CORE_semaphore_Seize_def Let_def k1_def [symmetric] k'_def) (simp add: upd_semaphore_def)
    next
      case 2
      define k' where "k' = upd_wait t (\<lambda>w. w\<lparr>return_code := CORE_SEMAPHORE_STATUS_UNSATISFIED_NOWAIT\<rparr>) k1"
      have k': "wait_same k1 k'" "return_code (Wait (threads k' t)) = 1" by (simp_all add: k'_def wait_frames) (simp add: upd_wait_def upd_thread_def)
      have "sem_rel k q T m (s\<lparr>world := k'\<rparr>) (c, ws)" using W1 waits_same [OF k'(1)] cnt mx fx k1(1) k'(1) by (simp add: sem_rel_def wait_same_def)
      then show ?thesis using 2 z Seize k'(2) by (simp add: a CORE_semaphore_Seize_def Let_def k1_def [symmetric] k'_def [symmetric])
    next
      case 3
      define k' where "k' = upd_wait t (\<lambda>w. w\<lparr>wait_id := 0\<rparr>) k1"
      have k': "wait_same k1 k'" "return_code (Wait (threads k' t)) = 0" using k1(2) by (simp_all add: k'_def wait_frames) (simp add: upd_wait_def upd_thread_def)
      have W2: "waits (world (s\<lparr>world := k'\<rparr>)) {q} T ((\<lambda>_. [])(q := ws))" using W1 waits_same [OF k'(1)] by simp
      have pl': "placed k' q = placed k q" using fx k1(1) k'(1) by (simp add: placed_def wait_same_def fun_eq_iff)
      obtain s' where s': "Thread_queue_Enqueue_critical (\<lambda>n s. s) it rtn q t STATES_WAITING_FOR_SEMAPHORE WATCHDOG_NO_TIMEOUT CORE_SEMAPHORE_TIMEOUT (s\<lparr>world := k'\<rparr>) = Some s'"
        "waits (world s') {q} T (((\<lambda>_. [])(q := ws))(q := placed k q t ws))" "\<forall>u. prio (world s') u = prio k' u"
        "queue_operations (world s') = queue_operations k'" "semaphores (world s') = semaphores k'"
        using Enqueue_quiet [OF W2, of q t it rtn STATES_WAITING_FOR_SEMAPHORE CORE_SEMAPHORE_TIMEOUT] t pl' by auto
      have "sem_rel k q T m s' (c, placed k q t ws)" using s' cnt mx fx k1(1) k'(1) by (simp add: sem_rel_def wait_same_def)
      moreover have "return_code (Wait (threads (world s') t)) = 0" using Enqueue_quiet_return_code [OF s'(1)] k'(2) by simp
      ultimately show ?thesis using 3 z Seize s'(1) by (simp add: a CORE_semaphore_Seize_def Let_def k1_def [symmetric] k'_def [symmetric])
    qed
  qed
qed

lemma sem_steps_refine:
  assumes "sem_rel k q T m s a" "sem_legal (placed k q) m T ps a"
  shows "\<exists>s'. sem_steps it rtn q ps s = Some (s', snd (sem_specs (placed k q) m ps a)) \<and> sem_rel k q T m s' (fst (sem_specs (placed k q) m ps a))"
  using assms
proof (induction ps arbitrary: s a)
  case (Cons p ps)
  obtain s1 where s1: "sem_step it rtn q p s = Some (s1, snd (sem_spec (placed k q) m p a))" "sem_rel k q T m s1 (fst (sem_spec (placed k q) m p a))"
    using sem_step_refines [OF Cons.prems(1), of p it rtn] Cons.prems(2) by auto
  from Cons.IH [OF s1(2)] Cons.prems(2) obtain s2 where
    "sem_steps it rtn q ps s1 = Some (s2, snd (sem_specs (placed k q) m ps (fst (sem_spec (placed k q) m p a))))"
    "sem_rel k q T m s2 (fst (sem_specs (placed k q) m ps (fst (sem_spec (placed k q) m p a))))" by auto
  then show ?case using s1(1) by (simp add: split_def Let_def)
qed simp

text \<open>A new semaphore.\<close>

definition sem_place :: "Kernel \<Rightarrow> CORE_semaphore_Disciplines \<Rightarrow> addr \<Rightarrow> addr list \<Rightarrow> addr list" where
  "sem_place k d t ws = (if d = CORE_SEMAPHORE_DISCIPLINES_PRIORITY then insert_after (\<lambda>u. prio k u) t ws else ws @ [t])"

lemma sem_rel_Initialize:
  fixes s :: System and d :: CORE_semaphore_Disciplines
  assumes "apart {q} T" "q \<noteq> NULL" "n \<le> m"
  defines "k \<equiv> CORE_semaphore_Initialize q m d n (world s)"
  shows "sem_rel k q T (unat m) (s\<lparr>world := k\<rparr>) (unat n, [])" "placed k q = sem_place (world s) d"
proof -
  define k0 where "k0 = upd_semaphore q (\<lambda>c. c\<lparr>sem_count := n\<rparr>) (upd_semaphore q (\<lambda>c. c\<lparr>sem_maximum_count := m, sem_discipline := d\<rparr>) (world s))"
  define qd where "qd = (if CORE_semaphore_Is_priority d then THREAD_QUEUE_DISCIPLINE_PRIORITY else THREAD_QUEUE_DISCIPLINE_FIFO)"
  have k: "k = Thread_queue_Initialize q qd k0" by (simp add: k_def CORE_semaphore_Initialize_def Let_def k0_def qd_def)
  note W = waits_initialized [OF assms(1,2), of qd k0]
  have "semaphores k = semaphores k0" by (simp add: k Thread_queue_Initialize_def Thread_queue_FIFO_initialize_def Thread_queue_Priority_initialize_def Let_def)
  moreover have "(\<lambda>_. [])(q := []) = (\<lambda>_. [] :: addr list)" by auto
  ultimately show "sem_rel k q T (unat m) (s\<lparr>world := k\<rparr>) (unat n, [])"
    using W(1) assms(3) by (simp add: sem_rel_def k word_le_nat_alt) (simp add: k0_def upd_semaphore_def)
  have "prio k t = prio (world s) t" for t using W(3) by (simp add: k k0_def upd_semaphore_def)
  moreover have "queue_operations k q = (if d = CORE_SEMAPHORE_DISCIPLINES_PRIORITY then Thread_queue_Operations_priority else Thread_queue_Operations_FIFO)"
    using W(2) unfolding k by (simp add: qd_def CORE_semaphore_Is_priority_def)
  ultimately show "placed k q = sem_place (world s) d" by (simp add: placed_def sem_place_def fun_eq_iff)
qed

text \<open>C38: A semaphore refines a counting semaphore with a list of waiting threads. For every sequence of seizures and surrenders in which no waiting
  thread calls, every call returns, with the status of the abstract semaphore: a seizure takes a unit, is refused when the
  caller does not want to wait, or queues the caller by the discipline of the semaphore; a surrender wakes the first waiting thread, or else
  adds a unit up to the maximum and is refused at the maximum. In the end count and waiting threads are those of the abstract semaphore.\<close>

theorem CORE_semaphore_refines:
  assumes "apart {q} T" "q \<noteq> NULL" "n \<le> m" "sem_legal (sem_place (world s) d) (unat m) T ps (unat n, [])"
    "sem_specs (sem_place (world s) d) (unat m) ps (unat n, []) = ((c, ws), rs)"
  shows "\<exists>s'. sem_steps it rtn q ps (s\<lparr>world := CORE_semaphore_Initialize q m d n (world s)\<rparr>) = Some (s', rs)
    \<and> unat (CORE_semaphore_Get_count q (world s')) = c \<and> waits (world s') {q} T ((\<lambda>_. [])(q := ws))"
proof -
  note I = sem_rel_Initialize [OF assms(1-3), of d s]
  show ?thesis using sem_steps_refine [OF I(1), of ps it rtn] assms(4,5) unfolding I(2)
    by (auto simp: sem_rel_def CORE_semaphore_Get_count_def)
qed

theorem CORE_semaphore_refines_witness:
  "\<exists>s'. sem_steps 1 0x60 0x5000 [Seize 0x2000 True, Seize 0x4000 False, Seize 0x4000 True, Seize 0x3000 True, Surrender, Surrender, Surrender, Surrender]
      (example_system\<lparr>world := CORE_semaphore_Initialize 0x5000 1 CORE_SEMAPHORE_DISCIPLINES_PRIORITY 1 (world example_system)\<rparr>)
      = Some (s', [CORE_SEMAPHORE_STATUS_SUCCESSFUL, CORE_SEMAPHORE_STATUS_UNSATISFIED_NOWAIT, CORE_SEMAPHORE_STATUS_SUCCESSFUL, CORE_SEMAPHORE_STATUS_SUCCESSFUL,
          CORE_SEMAPHORE_STATUS_SUCCESSFUL, CORE_SEMAPHORE_STATUS_SUCCESSFUL, CORE_SEMAPHORE_STATUS_SUCCESSFUL, CORE_SEMAPHORE_MAXIMUM_COUNT_EXCEEDED])
    \<and> unat (CORE_semaphore_Get_count 0x5000 (world s')) = 1"
proof -
  let ?ps = "[Seize 0x2000 True, Seize 0x4000 False, Seize 0x4000 True, Seize 0x3000 True, Surrender, Surrender, Surrender, Surrender]"
  have "apart {0x5000} {0x2000, 0x3000, 0x4000}" by (simp add: apart_def control_cells_def node_cells_def)
  moreover have "sem_place (world example_system) CORE_SEMAPHORE_DISCIPLINES_PRIORITY 0x4000 [] = [0x4000]"
    "sem_place (world example_system) CORE_SEMAPHORE_DISCIPLINES_PRIORITY 0x3000 [0x4000] = [0x3000, 0x4000]"
    by (simp_all add: sem_place_def insert_after_def example_system_def)
  moreover from this have "sem_legal (sem_place (world example_system) CORE_SEMAPHORE_DISCIPLINES_PRIORITY) (unat (1 :: uint32)) {0x2000, 0x3000, 0x4000} ?ps (unat (1 :: uint32), [])"
    "sem_specs (sem_place (world example_system) CORE_SEMAPHORE_DISCIPLINES_PRIORITY) (unat (1 :: uint32)) ?ps (unat (1 :: uint32), []) = ((1, []), [0, 1, 0, 0, 0, 0, 0, 4])"
    by simp_all
  ultimately show ?thesis
    using CORE_semaphore_refines [where q = "0x5000" and T = "{0x2000, 0x3000, 0x4000}" and n = 1 and m = 1 and s = example_system
        and d = CORE_SEMAPHORE_DISCIPLINES_PRIORITY and ps = ?ps and it = 1 and rtn = "0x60"] by auto
qed

subsection \<open>Units and waiting threads under interrupts\<close>

text \<open>No semaphore has units while threads wait for them, and none has more units than its maximum.\<close>

definition units_ok :: "addr set \<Rightarrow> addr set \<Rightarrow> Kernel \<Rightarrow> bool" where
  "units_ok Q T k \<longleftrightarrow> (\<forall>q \<in> Q. sem_count (semaphores k q) \<le> sem_maximum_count (semaphores k q) \<and> (sem_count (semaphores k q) \<noteq> 0 \<longrightarrow> waiting k T q = {}))"

definition no_idle_units :: "addr set \<Rightarrow> addr set \<Rightarrow> Kernel \<Rightarrow> bool" where
  "no_idle_units Q T k \<longleftrightarrow> (\<exists>ql. queued k Q T ql) \<and> units_ok Q T k"

interpretation sem_queue: queue_client Q T "no_idle_units Q T" for Q T
proof
  fix k t k' ql r u k1
  show "no_idle_units Q T k \<Longrightarrow> \<exists>ql. queued k Q T ql" by (simp add: no_idle_units_def)
  show "only_thread t k k' \<Longrightarrow> no_idle_units Q T k \<Longrightarrow> no_idle_units Q T k'"
    using only_thread_queued [of t k k' Q T] waiting_only [of t k k' T] by (simp add: no_idle_units_def units_ok_def) (simp add: only_thread_def wait_same_def)
  assume a: "no_idle_units Q T k" "queued k Q T ql" "r \<in> Q" "u \<in> set (ql r)" "ops_extract (queue_operations k r) r u k = Some k1"
  have l: "links_only k k1" "queued (taken_out u k1) Q T (ql(r := remove1 u (ql r)))" using queued_taken_out [OF a(2-4)] a(5) by auto
  have "semaphores (taken_out u k1) = semaphores k" using links_only_fields(9) [OF l(1)] taken_out_fields(2) [of k1 u] by (simp add: wait_same_def)
  then show "no_idle_units Q T (taken_out u k1)" using l(2) a(1) waiting_taken_out [OF l(1), of u T] by (auto simp: no_idle_units_def units_ok_def)
qed

lemma no_idle_upd_semaphore:
  assumes "no_idle_units Q T k" "q \<in> Q" "sem_count (f (semaphores k q)) \<le> sem_maximum_count (f (semaphores k q))"
    "sem_count (f (semaphores k q)) \<noteq> 0 \<longrightarrow> waiting k T q = {}"
  shows "no_idle_units Q T (upd_semaphore q f k)"
proof -
  have "queued (upd_semaphore q f k) Q T ql = queued k Q T ql" for ql
    using waits_core [OF upd_semaphore_core] core_only_fields [OF upd_semaphore_core] by (simp add: queued_def wait_info_def)
  moreover have "units_ok Q T (upd_semaphore q f k)" unfolding units_ok_def
  proof (intro ballI)
    fix r assume "r \<in> Q"
    then show "sem_count (semaphores (upd_semaphore q f k) r) \<le> sem_maximum_count (semaphores (upd_semaphore q f k) r)
        \<and> (sem_count (semaphores (upd_semaphore q f k) r) \<noteq> 0 \<longrightarrow> waiting (upd_semaphore q f k) T r = {})"
      using assms by (cases "r = q") (auto simp: no_idle_units_def units_ok_def upd_semaphore_def waiting_def)
  qed
  ultimately show ?thesis using assms(1) by (simp add: no_idle_units_def)
qed

lemma no_idle_Surrender:
  assumes "no_idle_units Q T (world s)" "q \<in> Q" "CORE_semaphore_Surrender q s = Some (s', status)"
  shows "no_idle_units Q T (world s')"
proof -
  obtain ql where ql: "queued (world s) Q T ql" "waits (world s) Q T ql" using sem_queue.client_queued [OF assms(1)] by (auto simp: queued_def)
  note first = waits_first [OF ql(2) assms(2)] and wt = queued_waiting [OF ql(1) assms(2)]
  show ?thesis
  proof (cases "ql q")
    case (Cons v vs)
    then have v: "v \<noteq> NULL" "v \<in> set (ql q)" using waits_apart [OF ql(2) assms(2)] by auto
    then have "Thread_queue_Extract_critical q v s = Some s'" using assms(3) first Cons by (auto simp: CORE_semaphore_Surrender_def bind_eq_Some_conv)
    from sem_queue.Extract_critical_keeps [OF assms(1) ql(1) assms(2) v(2) this] show ?thesis .
  next
    case Nil
    show ?thesis
    proof (cases "sem_count (semaphores (world s) q) < sem_maximum_count (semaphores (world s) q)")
      case True
      then have "sem_count (semaphores (world s) q) + 1 \<le> sem_maximum_count (semaphores (world s) q)" by (rule inc_le)
      then show ?thesis using no_idle_upd_semaphore [OF assms(1,2)] assms(3) True first Nil wt by (auto simp: CORE_semaphore_Surrender_def)
    next
      case False
      then show ?thesis using assms first Nil by (simp add: CORE_semaphore_Surrender_def)
    qed
  qed
qed

text \<open>What interrupts may do with semaphores.\<close>

inductive sem_interrupt :: "addr set \<Rightarrow> addr set \<Rightarrow> System \<Rightarrow> System \<Rightarrow> bool" for Q T :: "addr set" where
  surrender: "q \<in> Q \<Longrightarrow> CORE_semaphore_Surrender q s = Some (s', status) \<Longrightarrow> sem_interrupt Q T s s'"
| expire: "u \<in> T \<Longrightarrow> Thread_Timeout u (world s) = Some k \<Longrightarrow> sem_interrupt Q T s (s\<lparr>world := k\<rparr>)"
| take_out: "u \<in> T \<Longrightarrow> Thread_queue_Extract u s = Some s' \<Longrightarrow> sem_interrupt Q T s s'"

lemma no_idle_interrupts:
  assumes "(sem_interrupt Q T)\<^sup>*\<^sup>* s s'" "no_idle_units Q T (world s)"
  shows "no_idle_units Q T (world s')"
  using assms
proof (induction rule: rtranclp_induct)
  case (step s1 s2)
  from step.hyps(2) step.IH [OF step.prems] show ?case
    by cases (auto intro: no_idle_Surrender sem_queue.Timeout_keeps sem_queue.Extract_keeps)
qed

text \<open>A thread that joins the queue of a semaphore without units.\<close>

lemma no_idle_joins:
  assumes "no_idle_units Q T k" "queued k Q T ql" "q \<in> Q" "t \<in> T" "\<forall>r \<in> Q. t \<notin> set (ql r)" "sem_count (semaphores k q) = 0"
  defines "k0 \<equiv> Thread_Wait_set_operations t (queue_operations k q) (Thread_Wait_set_queue t q k)"
  shows "\<exists>k1. ops_enqueue (queue_operations k q) q t k0 = Some k1 \<and> no_idle_units Q T k1"
proof -
  obtain k1 where k1: "ops_enqueue (queue_operations k q) q t k0 = Some k1" "links_only k0 k1" "queued k1 Q T (ql(q := placed k0 q t (ql q)))"
    using queued_enqueue [OF assms(2-5)] unfolding k0_def by blast
  have "semaphores k1 = semaphores k" using links_only_fields(9) [OF k1(2)]
    by (simp add: k0_def Thread_Wait_set_operations_def Thread_Wait_set_queue_def upd_wait_def upd_thread_def)
  moreover have "waiting k1 T r = waiting k T r" if "r \<in> Q" "r \<noteq> q" for r
    using queued_waiting [OF k1(3) that(1)] queued_waiting [OF assms(2) that(1)] that(2) by simp
  ultimately have "units_ok Q T k1" using assms(1,6) unfolding no_idle_units_def units_ok_def by metis
  then show ?thesis using k1 by (auto simp: no_idle_units_def)
qed

lemma no_idle_Seize:
  assumes inv: "no_idle_units Q T (world s)" and q: "q \<in> Q" "t \<in> T" "operations (Wait (threads (world s) t)) = Thread_queue_Operations_default"
    and isr: "\<And>n s. (sem_interrupt Q T)\<^sup>*\<^sup>* s (isr n s)" and res: "CORE_semaphore_Seize isr it rtn q t ident wait timeout s = Some s'"
  shows "no_idle_units Q T (world s')"
proof -
  define k1 where "k1 = upd_wait t (\<lambda>w. w\<lparr>return_code := CORE_SEMAPHORE_STATUS_SUCCESSFUL\<rparr>) (world s)"
  have i1: "no_idle_units Q T k1" unfolding k1_def by (rule sem_queue.client_only [OF only_thread_wait inv]) simp
  consider (unit) "sem_count (semaphores k1 q) \<noteq> 0" | (nowait) "sem_count (semaphores k1 q) = 0" "\<not> wait" | (wait) "sem_count (semaphores k1 q) = 0" wait by blast
  then show ?thesis
  proof cases
    case unit
    have "sem_count (semaphores k1 q) - 1 \<le> sem_count (semaphores k1 q)" using unit by (simp add: word_le_nat_alt unat_minus_one)
    then have "no_idle_units Q T (upd_semaphore q (\<lambda>c. c\<lparr>sem_count := sem_count c - 1\<rparr>) k1)"
      using i1 unit q(1) by (intro no_idle_upd_semaphore) (auto simp: no_idle_units_def units_ok_def)
    then show ?thesis using res unit by (simp add: CORE_semaphore_Seize_def Let_def k1_def [symmetric]) auto
  next
    case nowait
    have "no_idle_units Q T (upd_wait t (\<lambda>w. w\<lparr>return_code := CORE_SEMAPHORE_STATUS_UNSATISFIED_NOWAIT\<rparr>) k1)"
      by (rule sem_queue.client_only [OF only_thread_wait i1]) simp
    then show ?thesis using res nowait by (simp add: CORE_semaphore_Seize_def Let_def k1_def [symmetric]) auto
  next
    case wait
    define k2 where "k2 = upd_wait t (\<lambda>w. w\<lparr>wait_id := ident\<rparr>) k1"
    have i2: "no_idle_units Q T k2" unfolding k2_def by (rule sem_queue.client_only [OF only_thread_wait i1]) simp
    then obtain ql where ql: "queued k2 Q T ql" using sem_queue.client_queued by blast
    have k2: "operations (Wait (threads k2 t)) = Thread_queue_Operations_default" "sem_count (semaphores k2 q) = 0"
      using q(3) wait(1) by (simp_all add: k2_def k1_def upd_wait_def upd_thread_def)
    have "\<forall>r \<in> Q. t \<notin> set (ql r)" using queued_waiting [OF ql] k2(1) by (simp add: waiting_def)
    then obtain k3 where k3: "ops_enqueue (queue_operations k2 q) q t (Thread_Wait_set_operations t (queue_operations k2 q) (Thread_Wait_set_queue t q k2)) = Some k3"
      "no_idle_units Q T k3" using no_idle_joins [OF i2 ql q(1,2) _ k2(2)] by blast
    have "Thread_queue_Enqueue_critical isr it rtn q t STATES_WAITING_FOR_SEMAPHORE timeout CORE_SEMAPHORE_TIMEOUT (s\<lparr>world := k2\<rparr>) = Some s'"
      using res wait by (simp add: CORE_semaphore_Seize_def Let_def k1_def [symmetric] k2_def [symmetric])
    from sem_queue.Enqueue_keeps [OF _ k3(2) _ this] k3(1) show ?thesis using no_idle_interrupts [OF isr] by simp
  qed
qed

text \<open>Any sequence of operations on the semaphores of the set \<open>Q\<close> by the threads of the set \<open>T\<close>, each with its own interrupts. A thread that
  seizes is not waiting.\<close>

inductive sem_runs :: "addr set \<Rightarrow> addr set \<Rightarrow> System \<Rightarrow> bool" for Q T :: "addr set" where
  start: "queued (world s) Q T (\<lambda>_. []) \<Longrightarrow> \<forall>q \<in> Q. sem_count (semaphores (world s) q) \<le> sem_maximum_count (semaphores (world s) q) \<Longrightarrow> sem_runs Q T s"
| interrupt: "sem_runs Q T s \<Longrightarrow> sem_interrupt Q T s s' \<Longrightarrow> sem_runs Q T s'"
| seize: "sem_runs Q T s \<Longrightarrow> q \<in> Q \<Longrightarrow> t \<in> T \<Longrightarrow> operations (Wait (threads (world s) t)) = Thread_queue_Operations_default
    \<Longrightarrow> (\<And>n s. (sem_interrupt Q T)\<^sup>*\<^sup>* s (isr n s)) \<Longrightarrow> CORE_semaphore_Seize isr it rtn q t ident wait timeout s = Some s' \<Longrightarrow> sem_runs Q T s'"
| flush: "sem_runs Q T s \<Longrightarrow> q \<in> Q \<Longrightarrow> CORE_semaphore_Flush q status s = Some s' \<Longrightarrow> sem_runs Q T s'"

lemma sem_runs_no_idle: "sem_runs Q T s \<Longrightarrow> no_idle_units Q T (world s)"
proof (induction rule: sem_runs.induct)
  case (start s)
  then show ?case using queued_waiting [of "world s" Q T "\<lambda>_. []"] by (auto simp: no_idle_units_def units_ok_def)
next
  case (interrupt s s')
  then show ?case using no_idle_interrupts by blast
next
  case (seize s q t isr it rtn ident wait timeout s')
  show ?case by (rule no_idle_Seize [OF seize.IH seize.hyps(2-4) _ seize.hyps(6)]) (rule seize.hyps(5))
next
  case (flush s q status s')
  then show ?case using sem_queue.Flush_keeps by (simp add: CORE_semaphore_Flush_def)
qed

text \<open>C3: No unit of a semaphore is idle while a thread waits for it: whatever the threads seize, surrender and flush in any order, with interrupts that
  surrender units, let timeouts expire and take threads out of their queues in the middle of a seizure, a semaphore with units has no
  waiting thread. No semaphore gets more units than its maximum.\<close>

theorem CORE_semaphore_no_idle_units:
  assumes "sem_runs Q T s" "q \<in> Q"
  shows "CORE_semaphore_Get_count q (world s) \<le> sem_maximum_count (semaphores (world s) q)
    \<and> (CORE_semaphore_Get_count q (world s) = 0 \<or> Thread_queue_First q (world s) = Some NULL)"
proof -
  have inv: "no_idle_units Q T (world s)" by (rule sem_runs_no_idle [OF assms(1)])
  then obtain ql where ql: "queued (world s) Q T ql" using sem_queue.client_queued by blast
  then have "waits (world s) Q T ql" by (simp add: queued_def)
  then show ?thesis using waits_first [of "world s" Q T ql q] queued_waiting [OF ql assms(2)] inv assms(2)
    by (auto simp: no_idle_units_def units_ok_def CORE_semaphore_Get_count_def Thread_queue_First_def)
qed

text \<open>A thread seizes a semaphore without units, and while it blocks an interrupt surrenders two units: one for the thread, one to keep.\<close>

definition surrender_twice_at_1 :: "addr \<Rightarrow> nat \<Rightarrow> System \<Rightarrow> System" where
  "surrender_twice_at_1 q n s = (if n \<noteq> 1 then s else
     case CORE_semaphore_Surrender q s of None \<Rightarrow> s
     | Some (s1, _) \<Rightarrow> (case CORE_semaphore_Surrender q s1 of None \<Rightarrow> s1 | Some (s2, _) \<Rightarrow> s2))"

lemma surrender_twice_interrupt: "q \<in> Q \<Longrightarrow> (sem_interrupt Q T)\<^sup>*\<^sup>* s (surrender_twice_at_1 q n s)"
  by (auto simp: surrender_twice_at_1_def split: option.splits)
    (meson converse_rtranclp_into_rtranclp r_into_rtranclp sem_interrupt.surrender)+

definition example_semaphore :: System where
  "example_semaphore = example_queue\<lparr>world := upd_semaphore 0x5000 (\<lambda>c. c\<lparr>sem_maximum_count := 3\<rparr>) (world example_queue)\<rparr>"

lemma example_semaphore_runs: "sem_runs {0x5000} {0x2000, 0x3000, 0x4000} example_semaphore"
proof (rule sem_runs.start)
  show "queued (world example_semaphore) {0x5000} {0x2000, 0x3000, 0x4000} (\<lambda>_. [])"
    using example_queued waits_core [OF upd_semaphore_core] by (simp add: queued_def wait_info_def example_semaphore_def) (simp add: upd_semaphore_def)
  show "\<forall>q \<in> {0x5000}. sem_count (semaphores (world example_semaphore) q) \<le> sem_maximum_count (semaphores (world example_semaphore) q)"
    by (simp add: example_semaphore_def example_queue_def example_system_def upd_semaphore_def Thread_queue_Initialize_def Thread_queue_FIFO_initialize_def blank_kernel_def)
qed

lemma example_seizure:
  "map_option (\<lambda>s'. CORE_semaphore_Get_count 0x5000 (world s'))
     (CORE_semaphore_Seize (surrender_twice_at_1 0x5000) 1 0x60 0x5000 0x2000 0 True WATCHDOG_NO_TIMEOUT example_semaphore) = Some 1"
  by code_simp

theorem CORE_semaphore_no_idle_units_witness:
  "\<exists>s'. CORE_semaphore_Seize (surrender_twice_at_1 0x5000) 1 0x60 0x5000 0x2000 0 True WATCHDOG_NO_TIMEOUT example_semaphore = Some s'
     \<and> CORE_semaphore_Get_count 0x5000 (world s') = 1 \<and> Thread_queue_First 0x5000 (world s') = Some NULL"
proof -
  obtain s' where s': "CORE_semaphore_Seize (surrender_twice_at_1 0x5000) 1 0x60 0x5000 0x2000 0 True WATCHDOG_NO_TIMEOUT example_semaphore = Some s'"
    "CORE_semaphore_Get_count 0x5000 (world s') = 1" using example_seizure by auto
  have "operations (Wait (threads (world example_semaphore) 0x2000)) = Thread_queue_Operations_default"
    using example_queued by (simp add: queued_def wait_info_def example_semaphore_def upd_semaphore_def)
  from sem_runs.seize [OF example_semaphore_runs _ _ this _ s'(1)] have "sem_runs {0x5000} {0x2000, 0x3000, 0x4000} s'" by (simp add: surrender_twice_interrupt)
  from CORE_semaphore_no_idle_units [OF this, of "0x5000"] s' show ?thesis by simp
qed

subsection \<open>Barriers\<close>

lemma CORE_barrier_Release_loop_waits:
  assumes "waits (world s) Q T ql" "q \<in> Q"
  shows "\<exists>s'. CORE_barrier_Release_loop q n s = Some (s', n + of_nat (length (ql q))) \<and> waits (world s') Q T (ql(q := []))"
  using assms
proof (induction "ql q" arbitrary: ql s n)
  case Nil
  then have "ql(q := []) = ql" by auto
  then show ?case using Dequeue_empty [OF Nil.prems] Nil.hyps [symmetric] Nil.prems(1) by (subst CORE_barrier_Release_loop.simps) simp
next
  case (Cons t ts)
  obtain s1 where s1: "Thread_queue_Dequeue q s = Some (s1, t)" "waits (world s1) Q T (ql(q := ts))"
    using Dequeue_waits [OF Cons.prems Cons.hyps(2) [symmetric]] by blast
  have "t \<noteq> NULL" using waits_apart [OF Cons.prems] Cons.hyps(2) by (metis list.set_intros(1) subsetD)
  moreover from Cons.hyps(1) [of "ql(q := ts)" s1 "n + 1"] s1(2) Cons.prems(2)
  obtain s2 where "CORE_barrier_Release_loop q (n + 1) s1 = Some (s2, n + 1 + of_nat (length ts))" "waits (world s2) Q T (ql(q := []))" by auto
  ultimately show ?case using s1(1) Cons.hyps(2) [symmetric] by (subst CORE_barrier_Release_loop.simps) (simp add: add.assoc)
qed

text \<open>C41: Releasing a barrier returns; it wakes every waiting thread, tells how many they were and starts the count of waiting threads anew. The other
  queues keep their threads.\<close>

lemma CORE_barrier_Release_correct:
  assumes "waits (world s) Q T ql" "q \<in> Q"
  shows "\<exists>s'. CORE_barrier_Release q s = Some (s', of_nat (length (ql q))) \<and> waits (world s') Q T (ql(q := []))
    \<and> number_of_waiting_threads (barriers (world s') q) = 0"
proof -
  obtain s1 where s1: "CORE_barrier_Release_loop q 0 s = Some (s1, of_nat (length (ql q)))" "waits (world s1) Q T (ql(q := []))"
    using CORE_barrier_Release_loop_waits [OF assms, of 0] by auto
  define k where "k = upd_barrier q (\<lambda>c. c\<lparr>number_of_waiting_threads := 0\<rparr>) (world s1)"
  have "core_only (world s1) k" by (simp add: k_def core_only_def upd_barrier_def)
  then have "waits k Q T (ql(q := []))" using waits_core s1(2) by blast
  moreover have "number_of_waiting_threads (barriers k q) = 0" by (simp add: k_def upd_barrier_def)
  ultimately show ?thesis using s1(1) by (simp add: CORE_barrier_Release_def k_def)
qed

definition example_barrier :: System where
  "example_barrier = example_system\<lparr>world := CORE_barrier_Initialize 0x5000 CORE_BARRIER_AUTOMATIC_RELEASE 2 (world example_system)\<rparr>"

lemma CORE_barrier_Release_example:
  "\<exists>s1 s2. block_all 1 0x60 0x5000 STATES_WAITING_FOR_BARRIER CORE_BARRIER_TIMEOUT [0x2000, 0x3000]
      (example_system\<lparr>world := Thread_queue_Initialize 0x5000 THREAD_QUEUE_DISCIPLINE_FIFO (world example_system)\<rparr>) = Some s1
    \<and> CORE_barrier_Release 0x5000 s1 = Some (s2, 2)"
proof -
  have ap: "apart {0x5000} {0x2000, 0x3000}" by (simp add: apart_def control_cells_def node_cells_def)
  let ?s = "example_system\<lparr>world := Thread_queue_Initialize 0x5000 THREAD_QUEUE_DISCIPLINE_FIFO (world example_system)\<rparr>"
  have W: "waits (world ?s) {0x5000} {0x2000, 0x3000} (\<lambda>_. [])" using waits_initialized(1) [OF ap] by simp
  obtain s1 where s1: "block_all 1 0x60 0x5000 STATES_WAITING_FOR_BARRIER CORE_BARRIER_TIMEOUT [0x2000, 0x3000] ?s = Some s1"
    "waits (world s1) {0x5000} {0x2000, 0x3000} ((\<lambda>_. [])(0x5000 := fold (placed (world ?s) 0x5000) [0x2000, 0x3000] []))"
    using block_all_waits [OF W, of "0x5000" "[0x2000, 0x3000]" 1 "0x60" STATES_WAITING_FOR_BARRIER CORE_BARRIER_TIMEOUT] by auto
  have "fold (placed (world ?s) 0x5000) [0x2000, 0x3000] [] = [0x2000, 0x3000]" by (simp add: placed_def Thread_queue_Initialize_def Thread_queue_FIFO_initialize_def)
  then show ?thesis using CORE_barrier_Release_correct [OF s1(2), of "0x5000"] s1(1) by auto
qed

text \<open>The service routine of the timeout watchdog.\<close>

definition timeout_service :: "Kernel service" where
  "timeout_service r i u s = (case Thread_Timeout u (world s) of None \<Rightarrow> s | Some k \<Rightarrow> s\<lparr>world := k\<rparr>)"

declare Watchdog_Insert_loop.simps [code] Watchdog_Tickle_loop.simps [code]


subsection \<open>Read-write locks\<close>

abbreviation woption :: "Kernel \<Rightarrow> addr \<Rightarrow> uint32" where
  "woption k t \<equiv> wait_option (Wait (threads k t))"

lemma Unblock_critical_option: "woption (world (Thread_queue_Unblock_critical q t s)) u = woption (world s) u"
proof -
  have "woption (Thread_Wait_flags_set t f k) u = woption k u" for f k by (simp add: Thread_Wait_flags_set_def upd_wait_def upd_thread_def)
  moreover have "woption (Thread_Unblock t k) u = woption k u" for k
    using sched_frameD(1) [OF Thread_Clear_state_frame [of t STATES_BLOCKED k]] by (simp add: upd_thread_def Thread_Unblock_def)
  ultimately show ?thesis by (simp add: Unblock_critical_eq Let_def dispatch_wait)
qed

lemma Extract_critical_queued:
  assumes "queued (world s) Q T ql" "q \<in> Q" "t \<in> set (ql q)"
  shows "\<exists>s'. Thread_queue_Extract_critical q t s = Some s' \<and> queued (world s') Q T (ql(q := remove1 t (ql q)))
    \<and> rwlocks (world s') = rwlocks (world s) \<and> (\<forall>u. woption (world s') u = woption (world s) u)"
proof -
  obtain k1 where k1: "ops_extract (queue_operations (world s) q) q t (world s) = Some k1" "links_only (world s) k1"
    "queued (Thread_Wait_restore_default_operations t (Thread_Wait_set_queue t NULL k1)) Q T (ql(q := remove1 t (ql q)))"
    using queued_remove [OF assms] by blast
  define k2 where "k2 = Thread_Wait_restore_default_operations t (Thread_Wait_set_queue t NULL k1)"
  define s' where "s' = Thread_queue_Unblock_critical q t (s\<lparr>world := k2\<rparr>)"
  have o: "only_thread t k2 (world s')" using only_thread_Unblock_critical [of t "s\<lparr>world := k2\<rparr>" q] by (simp add: s'_def)
  have "Thread_queue_Extract_critical q t s = Some s'"
    using k1(1) by (simp add: Thread_queue_Extract_critical_def Thread_queue_Extract_locked_def try_kernel_def s'_def k2_def)
  moreover have "queued (world s') Q T (ql(q := remove1 t (ql q)))" using only_thread_queued [OF o] k1(3) by (simp add: k2_def)
  moreover have "rwlocks k2 = rwlocks (world s)" "woption k2 u = woption (world s) u" for u using links_only_fields [OF k1(2)]
    by (simp_all add: k2_def Thread_Wait_restore_default_operations_def Thread_Wait_set_queue_def upd_wait_def upd_thread_def)
  ultimately show ?thesis using o Unblock_critical_option [of q t "s\<lparr>world := k2\<rparr>"] by (auto simp: s'_def only_thread_def wait_same_def)
qed

lemma queued_core: "core_only k k' \<Longrightarrow> queued k' Q T ql = queued k Q T ql"
  using waits_core [of k k'] core_only_fields [of k k'] by (simp add: queued_def wait_info_def)

lemma upd_rwlock_core: "core_only k (upd_rwlock q f k)"
  by (simp add: core_only_def upd_rwlock_def)

text \<open>The loop lets the readers in that wait before the first writer.\<close>

lemma CORE_RWLock_Release_loop_readers:
  assumes "queued (world s) Q T ql" "q \<in> Q" "q \<noteq> NULL" "reader = (\<lambda>t. woption (world s) t \<noteq> CORE_RWLOCK_THREAD_WAITING_FOR_WRITE)"
  shows "\<exists>s'. CORE_RWLock_Release_loop q s = Some s' \<and> queued (world s') Q T (ql(q := dropWhile reader (ql q)))
    \<and> rwlocks (world s') q = (rwlocks (world s) q)\<lparr>number_of_readers := number_of_readers (rwlocks (world s) q) + of_nat (length (takeWhile reader (ql q)))\<rparr>"
  using assms
proof (induction "ql q" arbitrary: ql s)
  case Nil
  have "Thread_queue_First_locked q (world s) = Some NULL" using waits_first [of "world s" Q T ql q] Nil by (simp add: queued_def)
  then show ?case using Nil.prems(1) Nil.hyps [symmetric] fun_upd_triv [of ql q] by (subst CORE_RWLock_Release_loop.simps) (simp add: Thread_queue_First_def)
next
  case (Cons t ts)
  note ql = Cons.hyps(2) [symmetric]
  have w: "waits (world s) Q T ql" using Cons.prems(1) by (simp add: queued_def)
  have first: "Thread_queue_First q (world s) = Some t" using waits_first [OF w Cons.prems(2)] ql by (simp add: Thread_queue_First_def)
  have t: "t \<noteq> NULL" "t \<in> set (ql q)" using waits_apart [OF w Cons.prems(2)] ql by auto
  show ?case
  proof (cases "woption (world s) t = CORE_RWLOCK_THREAD_WAITING_FOR_WRITE")
    case True
    then show ?thesis using Cons.prems(1) ql first fun_upd_triv [of ql q] by (subst CORE_RWLock_Release_loop.simps) (simp add: Cons.prems(4))
  next
    case False
    define k where "k = upd_rwlock q (\<lambda>c. c\<lparr>number_of_readers := number_of_readers c + 1\<rparr>) (world s)"
    have k: "queued k Q T ql" "threads k = threads (world s)" using Cons.prems(1) queued_core [OF upd_rwlock_core] by (simp_all add: k_def) (simp add: upd_rwlock_def)
    obtain s1 where s1: "Thread_queue_Extract_critical q t (s\<lparr>world := k\<rparr>) = Some s1" "queued (world s1) Q T (ql(q := ts))"
      "rwlocks (world s1) = rwlocks k" "\<forall>u. woption (world s1) u = woption k u"
      using Extract_critical_queued [of "s\<lparr>world := k\<rparr>" Q T ql q t] k(1) Cons.prems(2) t(2) ql by auto
    have same: "reader = (\<lambda>t. woption (world s1) t \<noteq> CORE_RWLOCK_THREAD_WAITING_FOR_WRITE)" using s1(4) k(2) by (simp add: Cons.prems(4))
    have "wait_queue (Wait (threads k t)) = q" using k(1) t(2) Cons.prems(2) by (auto simp: queued_def wait_info_def)
    then have ext: "Thread_queue_Extract t (s\<lparr>world := k\<rparr>) = Some s1" using s1(1) Cons.prems(3) by (simp add: Thread_queue_Extract_def)
    obtain s2 where s2: "CORE_RWLock_Release_loop q s1 = Some s2" "queued (world s2) Q T (ql(q := dropWhile reader ts))"
      "rwlocks (world s2) q = (rwlocks (world s1) q)\<lparr>number_of_readers := number_of_readers (rwlocks (world s1) q) + of_nat (length (takeWhile reader ts))\<rparr>"
      using Cons.hyps(1) [of "ql(q := ts)" s1, OF _ s1(2) Cons.prems(2,3) same] by (auto simp del: fun_upd_apply simp: fun_upd_same)
    have r: "reader t" using False by (simp add: Cons.prems(4))
    have "rwlocks k q = (rwlocks (world s) q)\<lparr>number_of_readers := number_of_readers (rwlocks (world s) q) + 1\<rparr>" by (simp add: k_def upd_rwlock_def)
    then show ?thesis using first t(1) False ext s2 s1(3) r ql
      by (subst CORE_RWLock_Release_loop.simps) (simp add: k_def [symmetric] add.assoc del: fun_upd_apply)
  qed
qed



end
