(* ===== verification/Score_Mutex_Props.thy ===== *)
theory Score_Mutex_Props
  imports Score_Mutex Score_Core_Props
begin

text \<open>
  Mutexes under any interleaving of seizures, surrenders, flushes, interrupts and switches between threads: a free mutex has no waiting thread,
  the holder of an inheritance mutex is at least as important as every thread that waits for it, the holder of a ceiling mutex
  runs at the ceiling, and a thread without such mutexes gets its own priority back.
\<close>

subsection \<open>A thread changes its priority\<close>

lemma prio_rep_members:
  assumes "\<And>q. q \<in> C \<Longrightarrow> wait_tree k' q = wait_tree k q" "\<And>q u. q \<in> C \<Longrightarrow> u \<in> set (ql q) \<Longrightarrow> prio k' u = prio k u"
  shows "prio_rep k' C T ql = prio_rep k C T ql"
proof -
  have "map (\<lambda>u. prio k' u) (ql q) = map (\<lambda>u. prio k u) (ql q)" if "q \<in> C" for q using assms(2) [OF that] by simp
  then show ?thesis unfolding prio_rep_def by (intro conj_cong refl ball_cong) (simp_all add: assms(1) del: map_eq_conv)
qed

lemma waits_members:
  assumes "wait_chain k' = wait_chain k" "wait_tree k' = wait_tree k" "queue_operations k' = queue_operations k"
    "\<And>q u. q \<in> Q \<Longrightarrow> queue_operations k q = Thread_queue_Operations_priority \<Longrightarrow> u \<in> set (ql q) \<Longrightarrow> prio k' u = prio k u"
  shows "waits k' Q T ql = waits k Q T ql"
  using fifo_rep_cong [of k' k _ ql ql] prio_rep_members [of "queues_with k Q Thread_queue_Operations_priority" k' k ql T] assms
  by (auto simp: waits_def queues_with_def)

lemma waits_sorted:
  assumes "waits k Q T ql" "q \<in> Q" "queue_operations k q = Thread_queue_Operations_priority"
  shows "sorted (map (\<lambda>u. prio k u) (ql q))"
  using assms by (auto simp: waits_def prio_rep_def queues_with_def)

text \<open>A waiting thread is put into its place again.\<close>

lemma priority_change_queued:
  assumes q: "queued k Q T ql" and t: "t \<in> T"
    and k': "wait_chain k' = wait_chain k" "wait_tree k' = wait_tree k" "queue_operations k' = queue_operations k"
      "\<And>u. Wait (threads k' u) = Wait (threads k u)" "\<And>u. u \<noteq> t \<Longrightarrow> prio k' u = prio k u"
  shows "\<exists>k'' ql'. ops_priority_change (operations (Wait (threads k' t))) t p (wait_queue (Wait (threads k' t))) k' = Some k''
    \<and> links_only k' k'' \<and> queued k'' Q T ql'"
proof (cases "\<exists>q \<in> Q. t \<in> set (ql q) \<and> queue_operations k q = Thread_queue_Operations_priority")
  case False
  have w: "waits k Q T ql" and info: "wait_info k Q T ql" using q by (simp_all add: queued_def)
  have "operations (Wait (threads k t)) \<noteq> Thread_queue_Operations_priority"
    using info t False by (cases "\<exists>q \<in> Q. t \<in> set (ql q)") (auto simp: wait_info_def)
  then have "ops_priority_change (operations (Wait (threads k' t))) t p (wait_queue (Wait (threads k' t))) k' = Some k'"
    by (cases "operations (Wait (threads k t))") (simp_all add: k'(4))
  moreover have "waits k' Q T ql = waits k Q T ql" by (rule waits_members [OF k'(1-3)]) (use k'(5) False in metis)
  then have "queued k' Q T ql" using w info k' by (simp add: queued_def wait_info_def)
  ultimately show ?thesis using links_only_refl by blast
next
  case True
  then obtain q where q: "q \<in> Q" "t \<in> set (ql q)" "queue_operations k q = Thread_queue_Operations_priority" by blast
  have w: "waits k Q T ql" and info: "wait_info k Q T ql" using assms(1) by (simp_all add: queued_def)
  have at: "operations (Wait (threads k' t)) = Thread_queue_Operations_priority" "wait_queue (Wait (threads k' t)) = q"
    using info q k'(4) by (auto simp: wait_info_def)
  define ql1 where "ql1 = ql(q := remove1 t (ql q))"
  obtain k1 where k1: "Thread_queue_Priority_extract q t k = Some k1" "links_only k k1" "waits k1 Q T ql1"
    using waits_extract [OF w q(1,2)] q(3) by (auto simp: ql1_def)
  define k1' where "k1' = k'\<lparr>wait_tree := wait_tree k1\<rparr>"
  have ext: "Thread_queue_Priority_extract q t k' = Some k1'" using k1(1) k'(2) by (auto simp: Thread_queue_Priority_extract_def k1'_def)
  have gone: "\<forall>r \<in> Q. t \<notin> set (ql1 r)" using waits_disjoint [OF w q(1) _ q(2)] waits_apart [OF w q(1)] by (auto simp: ql1_def)
  have ch: "wait_chain k1 = wait_chain k" using k1(1) by (auto simp: Thread_queue_Priority_extract_def)
  have "waits k1' Q T ql1 = waits k1 Q T ql1"
  proof (rule waits_members)
    fix r u assume "r \<in> Q" "u \<in> set (ql1 r)"
    then have "u \<noteq> t" using gone by blast
    then show "prio k1' u = prio k1 u" using k'(5) links_only_fields(1) [OF k1(2)] by (simp add: k1'_def)
  qed (use k'(1-3) links_only_fields [OF k1(2)] ch in \<open>simp_all add: k1'_def\<close>)
  then have w1: "waits k1' Q T ql1" using k1(3) by simp
  define ql2 where "ql2 = ql1(q := placed k1' q t (ql1 q))"
  have ops: "queue_operations k1' q = Thread_queue_Operations_priority" using q(3) k'(3) by (simp add: k1'_def)
  obtain k2 where k2: "Thread_queue_Priority_enqueue q t k1' = Some k2" "links_only k1' k2" "waits k2 Q T ql2"
    using waits_enqueue [OF w1 q(1) t gone] ops by (auto simp: ql2_def)
  have l: "links_only k' k2" by (rule links_only_trans [OF _ k2(2)]) (simp add: links_only_def k1'_def)
  have mem: "set (ql2 r) = set (ql r)" if "r \<in> Q" for r
    using waits_apart [OF w q(1)] q(2) by (auto simp: ql2_def ql1_def)
  have "wait_info k2 Q T ql2" using info mem links_only_fields [OF l] k'(3,4) by (simp add: wait_info_def)
  then show ?thesis using ext k2(1,3) l at by (auto simp: queued_def Thread_queue_Priority_priority_change_def)
qed

text \<open>What a change of priorities to \<open>f\<close> leaves as it is.\<close>

definition reprio :: "(addr \<Rightarrow> Priority_Control) \<Rightarrow> Kernel \<Rightarrow> Kernel \<Rightarrow> bool" where
  "reprio f k k' \<longleftrightarrow> mutexes k' = mutexes k \<and> queue_operations k' = queue_operations k \<and> Thread_Executing k' = Thread_Executing k
     \<and> (\<forall>u. Wait (threads k' u) = Wait (threads k u) \<and> real_priority (threads k' u) = real_priority (threads k u)
        \<and> resource_count (threads k' u) = resource_count (threads k u) \<and> prio k' u = f u)"

abbreviation hint :: "Kernel \<Rightarrow> addr \<Rightarrow> bool" where
  "hint k t \<equiv> priority_restore_hint (threads k t)"

lemma Change_priority_body:
  assumes "queued k Q T ql" "t \<in> T"
  defines "g \<equiv> priority_generation (threads k t) + 1"
  shows "\<exists>k' ql'. (do {
      let k = upd_thread t (\<lambda>c. c\<lparr>current_priority := p, priority_generation := g\<rparr>) k;
      k \<leftarrow> ops_priority_change (operations (Wait (threads k t))) t p (wait_queue (Wait (threads k t))) k;
      Some (if priority_generation (threads k t) = g
            then if States_Is_ready (current_state (threads k t)) then Scheduler_priority_Change_priority t p prepend_it k
                 else Scheduler_priority_Update_priority t p k
            else k) }) = Some k' \<and> queued k' Q T ql' \<and> reprio ((prio k)(t := p)) k k' \<and> (\<forall>u. hint k' u = hint k u)"
proof -
  define k1 where "k1 = upd_thread t (\<lambda>c. c\<lparr>current_priority := p, priority_generation := g\<rparr>) k"
  obtain k2 ql' where k2: "ops_priority_change (operations (Wait (threads k1 t))) t p (wait_queue (Wait (threads k1 t))) k1 = Some k2"
    "links_only k1 k2" "queued k2 Q T ql'"
    using priority_change_queued [OF assms(1,2), of k1 p] by (auto simp: k1_def upd_thread_def)
  define k3 where "k3 = Scheduler_priority_Ready_queue_update t p k2"
  define k' where "k' = (if States_Is_ready (current_state (threads k2 t)) then Scheduler_priority_Change_priority t p prepend_it k2 else k3)"
  have fr: "sched_frame k3 k'" using Change_priority_frame [of t p k2 prepend_it] sched_frame_refl by (auto simp: k'_def k3_def)
  have o: "only_thread t k2 k3" by (simp add: k3_def Scheduler_priority_Ready_queue_update_def only_thread_def wait_same_def upd_thread_def)
  have "queued k' Q T ql'" using only_thread_queued [OF only_thread_trans [OF o only_thread_sched [OF fr]]] k2(3) by simp
  moreover have "reprio ((prio k)(t := p)) k k'" "\<forall>u. hint k' u = hint k u" using links_only_fields [OF k2(2)] fr
    by (auto simp: reprio_def sched_frame_def k3_def Scheduler_priority_Ready_queue_update_def k1_def upd_thread_def)
  moreover have "priority_generation (threads k2 t) = g" using links_only_fields(1) [OF k2(2)] by (simp add: k1_def upd_thread_def)
  moreover have "k' = (if States_Is_ready (current_state (threads k2 t)) then Scheduler_priority_Change_priority t p prepend_it k2
      else Scheduler_priority_Update_priority t p k2)" by (simp add: k'_def k3_def Scheduler_priority_Update_priority_def)
  ultimately show ?thesis using k2(1) by (intro exI [of _ k'] exI [of _ ql']) (simp add: k1_def [symmetric])
qed

lemma queued_hint: "queued (upd_thread t (\<lambda>c. c\<lparr>priority_restore_hint := b\<rparr>) k) Q T ql = queued k Q T ql"
proof -
  have "waits (upd_thread t (\<lambda>c. c\<lparr>priority_restore_hint := b\<rparr>) k) Q T ql = waits k Q T ql" by (rule waits_members) (simp_all add: upd_thread_def)
  moreover have "Wait (threads (upd_thread t (\<lambda>c. c\<lparr>priority_restore_hint := b\<rparr>) k) u) = Wait (threads k u)"
    "queue_operations (upd_thread t (\<lambda>c. c\<lparr>priority_restore_hint := b\<rparr>) k) = queue_operations k" for u by (simp_all add: upd_thread_def)
  ultimately show ?thesis by (simp add: queued_def wait_info_def)
qed

lemma Raise_priority_effect:
  assumes "queued k Q T ql" "t \<in> T"
  shows "\<exists>k' ql'. Thread_Raise_priority t p k = Some k' \<and> queued k' Q T ql' \<and> reprio ((prio k)(t := min (prio k t) p)) k k'
    \<and> (\<forall>u. hint k' u = (u = t \<or> hint k u))"
proof -
  define k0 where "k0 = upd_thread t (\<lambda>c. c\<lparr>priority_restore_hint := True\<rparr>) k"
  have k0: "queued k0 Q T ql" "reprio (prio k) k k0" "\<forall>u. hint k0 u = (u = t \<or> hint k u)"
    using assms(1) queued_hint by (simp_all add: k0_def reprio_def) (simp_all add: upd_thread_def)
  show ?thesis
  proof (cases "p < prio k t")
    case True
    obtain k' ql' where "Thread_Raise_priority t p k = Some k'" "queued k' Q T ql'" "reprio ((prio k0)(t := p)) k0 k'" "\<forall>u. hint k' u = hint k0 u"
      using Change_priority_body [OF k0(1) assms(2), of p False] True k0(2)
      by (auto simp: Thread_Raise_priority_def Thread_Change_priority_def Thread_Raise_priority_filter_def Thread_Priority_less_than_def Let_def k0_def [symmetric] reprio_def)
    then show ?thesis using k0 True by (intro exI [of _ k'] exI [of _ ql']) (auto simp: reprio_def)
  next
    case False
    then have "Thread_Raise_priority t p k = Some k0" using k0(2)
      by (simp add: Thread_Raise_priority_def Thread_Change_priority_def Thread_Raise_priority_filter_def Thread_Priority_less_than_def Let_def k0_def [symmetric] reprio_def)
    moreover have "(prio k)(t := min (prio k t) p) = prio k" using False by auto
    ultimately show ?thesis using k0 by auto
  qed
qed

lemma Restore_priority_effect:
  assumes "queued k Q T ql" "t \<in> T"
  shows "\<exists>k' ql'. Thread_Restore_priority t k = Some k' \<and> queued k' Q T ql' \<and> reprio ((prio k)(t := real_priority (threads k t))) k k'
    \<and> (\<forall>u. hint k' u = (u \<noteq> t \<and> hint k u))"
proof -
  define k0 where "k0 = upd_thread t (\<lambda>c. c\<lparr>priority_restore_hint := False\<rparr>) (upd_thread t (\<lambda>c. c\<lparr>priority_restore_hint := True\<rparr>) k)"
  have k0: "queued k0 Q T ql" "reprio (prio k) k k0" "\<forall>u. hint k0 u = (u \<noteq> t \<and> hint k u)"
    using assms(1) queued_hint by (simp_all add: k0_def reprio_def) (simp_all add: upd_thread_def)
  let ?p = "real_priority (threads k t)"
  have eq: "Thread_Restore_priority t k = (if ?p \<noteq> prio k t then do {
      let g = priority_generation (threads k0 t) + 1;
      let k = upd_thread t (\<lambda>c. c\<lparr>current_priority := ?p, priority_generation := g\<rparr>) k0;
      k \<leftarrow> ops_priority_change (operations (Wait (threads k t))) t ?p (wait_queue (Wait (threads k t))) k;
      Some (if priority_generation (threads k t) = g
            then if States_Is_ready (current_state (threads k t)) then Scheduler_priority_Change_priority t ?p True k
                 else Scheduler_priority_Update_priority t ?p k
            else k) } else Some k0)"
  proof -
    have "real_priority (threads (upd_thread t (\<lambda>c. c\<lparr>priority_restore_hint := True\<rparr>) k) t) = ?p" "prio k0 t = prio k t"
      by (simp_all add: k0_def upd_thread_def)
    then show ?thesis
      by (simp add: Thread_Restore_priority_def Thread_Change_priority_def Thread_Restore_priority_filter_def Let_def k0_def [symmetric] cong: if_cong)
  qed
  show ?thesis
  proof (cases "?p = prio k t")
    case True
    then have "(prio k)(t := ?p) = prio k" by auto
    then show ?thesis using k0 eq True by auto
  next
    case False
    obtain k' ql' where "Thread_Restore_priority t k = Some k'" "queued k' Q T ql'" "reprio ((prio k0)(t := ?p)) k0 k'" "\<forall>u. hint k' u = hint k0 u"
      using Change_priority_body [OF k0(1) assms(2), of ?p True] False unfolding eq Let_def by auto
    then show ?thesis using k0 by (intro exI [of _ k'] exI [of _ ql']) (auto simp: reprio_def)
  qed
qed

subsection \<open>The invariant\<close>

abbreviation mutex_attr :: "Kernel \<Rightarrow> addr \<Rightarrow> CORE_mutex_Attributes" where
  "mutex_attr k q \<equiv> Attributes (mutexes k q)"

abbreviation mutex_holder :: "Kernel \<Rightarrow> addr \<Rightarrow> addr" where
  "mutex_holder k q \<equiv> holder (mutexes k q)"

abbreviation own_prio :: "Kernel \<Rightarrow> addr \<Rightarrow> Priority_Control" where
  "own_prio k t \<equiv> real_priority (threads k t)"

abbreviation resources :: "Kernel \<Rightarrow> addr \<Rightarrow> uint32" where
  "resources k t \<equiv> resource_count (threads k t)"

text \<open>The mutexes with a priority protocol, and those a thread holds.\<close>

definition guarded :: "Kernel \<Rightarrow> addr \<Rightarrow> bool" where
  "guarded k q \<longleftrightarrow> CORE_mutex_Is_inherit_priority (mutex_attr k q) \<or> CORE_mutex_Is_priority_ceiling (mutex_attr k q)"

definition held :: "Kernel \<Rightarrow> addr set \<Rightarrow> addr \<Rightarrow> addr set" where
  "held k Q t = {q \<in> Q. guarded k q \<and> mutex_holder k q = t}"

definition lock_ok :: "Kernel \<Rightarrow> addr set \<Rightarrow> addr \<Rightarrow> bool" where
  "lock_ok k T q \<longleftrightarrow> (if mutex_holder k q = NULL then nest_count (mutexes k q) = 0 \<and> waiting k T q = {}
     else nest_count (mutexes k q) \<noteq> 0 \<and> mutex_holder k q \<in> T
       \<and> (lock_nesting_behavior (mutex_attr k q) = CORE_MUTEX_NESTING_ACQUIRES \<longrightarrow> mutex_holder k q \<notin> waiting k T q))"

definition protocol_ok :: "Kernel \<Rightarrow> addr set \<Rightarrow> addr \<Rightarrow> bool" where
  "protocol_ok k T q \<longleftrightarrow>
     (CORE_mutex_Is_inherit_priority (mutex_attr k q) \<longrightarrow> (\<forall>u \<in> waiting k T q. prio k (mutex_holder k q) \<le> own_prio k u))
     \<and> (CORE_mutex_Is_priority_ceiling (mutex_attr k q) \<longrightarrow> mutex_holder k q \<noteq> NULL \<longrightarrow> prio k (mutex_holder k q) \<le> priority_ceiling (mutex_attr k q))"

definition thread_ok :: "Kernel \<Rightarrow> addr set \<Rightarrow> addr \<Rightarrow> bool" where
  "thread_ok k Q t \<longleftrightarrow> unat (resources k t) = card (held k Q t) \<and> prio k t \<le> own_prio k t \<and> (\<not> hint k t \<longrightarrow> prio k t = own_prio k t)"

text \<open>Only the owner may release a mutex with a priority protocol, and its threads wait by priority.\<close>

definition attr_ok :: "Kernel \<Rightarrow> addr \<Rightarrow> bool" where
  "attr_ok k q \<longleftrightarrow> (guarded k q \<longrightarrow> only_owner_release (mutex_attr k q) \<and> queue_operations k q = Thread_queue_Operations_priority)"

text \<open>The mutexes of the set \<open>X\<close> are in the middle of an operation.\<close>

definition mutex_ok :: "addr set \<Rightarrow> addr set \<Rightarrow> addr set \<Rightarrow> Kernel \<Rightarrow> bool" where
  "mutex_ok X Q T k \<longleftrightarrow> NULL \<notin> Q \<and> NULL \<notin> T \<and> (\<exists>ql. queued k Q T ql) \<and> (\<forall>q \<in> Q. attr_ok k q) \<and> (\<forall>q \<in> Q - X. lock_ok k T q \<and> protocol_ok k T q)
     \<and> (\<forall>t \<in> T. thread_ok k Q t)"

lemma mutex_okD:
  assumes "mutex_ok X Q T k"
  shows "NULL \<notin> Q" "NULL \<notin> T" "\<exists>ql. queued k Q T ql" "\<And>q. q \<in> Q \<Longrightarrow> attr_ok k q" "\<And>q. q \<in> Q \<Longrightarrow> q \<notin> X \<Longrightarrow> lock_ok k T q"
    "\<And>q. q \<in> Q \<Longrightarrow> q \<notin> X \<Longrightarrow> protocol_ok k T q" "\<And>t. t \<in> T \<Longrightarrow> thread_ok k Q t"
  using assms by (simp_all add: mutex_ok_def)

lemma mutex_ok_open: "mutex_ok X Q T k \<Longrightarrow> X \<subseteq> Y \<Longrightarrow> mutex_ok Y Q T k"
  by (auto simp: mutex_ok_def)

lemma mutex_ok_close: "mutex_ok (insert q X) Q T k \<Longrightarrow> lock_ok k T q \<Longrightarrow> protocol_ok k T q \<Longrightarrow> mutex_ok X Q T k"
  by (auto simp: mutex_ok_def)

text \<open>A change of the kernel that the mutexes do not see, except that waiting threads may leave.\<close>

lemma mutex_ok_cong:
  assumes "mutex_ok X Q T k" "mutexes k' = mutexes k" "queue_operations k' = queue_operations k"
    "\<And>u. prio k' u = prio k u \<and> own_prio k' u = own_prio k u \<and> resources k' u = resources k u \<and> hint k' u = hint k u"
    "\<And>q. waiting k' T q \<subseteq> waiting k T q" "\<exists>ql. queued k' Q T ql"
  shows "mutex_ok X Q T k'"
proof -
  have g: "guarded k' = guarded k" "held k' = held k" using assms(2) by (auto simp: guarded_def held_def fun_eq_iff)
  have "lock_ok k' T q" if "lock_ok k T q" for q using that assms(2) assms(5) [of q] by (auto simp: lock_ok_def split: if_splits)
  moreover have "protocol_ok k' T q" if "protocol_ok k T q" for q using that assms(2,4) assms(5) [of q] by (auto simp: protocol_ok_def)
  moreover have "thread_ok k' Q t = thread_ok k Q t" "attr_ok k' q = attr_ok k q" for t q using assms(2-4) g by (simp_all add: thread_ok_def attr_ok_def)
  ultimately show ?thesis using assms(1,6) by (auto simp: mutex_ok_def)
qed

text \<open>What interrupts keep: mutexes with a priority protocol, the holders of those and their priorities. They let waiting threads go.\<close>

definition mutex_quiet :: "addr set \<Rightarrow> Kernel \<Rightarrow> Kernel \<Rightarrow> bool" where
  "mutex_quiet Q k k' \<longleftrightarrow> queue_operations k' = queue_operations k \<and> (\<forall>q \<in> Q. mutex_attr k' q = mutex_attr k q \<and> (guarded k q \<longrightarrow> mutexes k' q = mutexes k q))
     \<and> (\<forall>u. own_prio k' u = own_prio k u \<and> resources k' u = resources k u \<and> (resources k u \<noteq> 0 \<longrightarrow> prio k' u = prio k u)
        \<and> (wait_queue (Wait (threads k' u)) = wait_queue (Wait (threads k u)) \<and> operations (Wait (threads k' u)) = operations (Wait (threads k u))
           \<or> operations (Wait (threads k' u)) = Thread_queue_Operations_default))"

lemma mutex_quiet_refl: "mutex_quiet Q k k"
  by (simp add: mutex_quiet_def)

lemma mutex_quiet_trans: "mutex_quiet Q k k1 \<Longrightarrow> mutex_quiet Q k1 k2 \<Longrightarrow> mutex_quiet Q k k2"
  unfolding mutex_quiet_def guarded_def by metis

lemma mutex_quiet_waiting: "mutex_quiet Q k k' \<Longrightarrow> waiting k' T q \<subseteq> waiting k T q"
proof
  fix u assume "mutex_quiet Q k k'" "u \<in> waiting k' T q"
  moreover from this(1) have "wait_queue (Wait (threads k' u)) = wait_queue (Wait (threads k u)) \<and> operations (Wait (threads k' u)) = operations (Wait (threads k u))
      \<or> operations (Wait (threads k' u)) = Thread_queue_Operations_default" by (simp add: mutex_quiet_def)
  ultimately show "u \<in> waiting k T q" by (auto simp: waiting_def)
qed

lemma mutex_quiet_only: "only_thread t k k' \<Longrightarrow> mutex_quiet Q k k'"
  by (simp add: only_thread_def wait_same_def mutex_quiet_def)

lemma taken_out_mutexes:
  assumes "links_only k k1"
  shows "mutexes (taken_out u k1) = mutexes k" "queue_operations (taken_out u k1) = queue_operations k"
    "prio (taken_out u k1) v = prio k v" "own_prio (taken_out u k1) v = own_prio k v" "resources (taken_out u k1) v = resources k v"
    "hint (taken_out u k1) v = hint k v"
  using links_only_fields [OF assms] taken_out_fields(2) [of k1 u] by (simp_all add: wait_same_def)

lemma mutex_quiet_taken_out: "links_only k k1 \<Longrightarrow> mutex_quiet Q k (taken_out u k1)"
  using taken_out_mutexes [of k k1 u] links_only_fields(1) [of k k1] by (simp add: mutex_quiet_def taken_out_fields)

interpretation mutex_queue: queue_client Q T "\<lambda>k. mutex_ok X Q T k \<and> mutex_quiet Q k0 k" for X Q T k0
proof
  fix k t k' ql r u k1
  show "mutex_ok X Q T k \<and> mutex_quiet Q k0 k \<Longrightarrow> \<exists>ql. queued k Q T ql" by (simp add: mutex_ok_def)
  show "mutex_ok X Q T k' \<and> mutex_quiet Q k0 k'" if "only_thread t k k'" "mutex_ok X Q T k \<and> mutex_quiet Q k0 k"
  proof -
    have "mutex_ok X Q T k'" by (rule mutex_ok_cong [OF conjunct1 [OF that(2)]])
      (use that only_thread_queued [OF that(1)] waiting_only [OF that(1)] in \<open>simp_all add: only_thread_def wait_same_def mutex_ok_def\<close>)
    then show ?thesis using mutex_quiet_trans mutex_quiet_only [OF that(1)] that(2) by blast
  qed
  assume a: "mutex_ok X Q T k \<and> mutex_quiet Q k0 k" "queued k Q T ql" "r \<in> Q" "u \<in> set (ql r)" "ops_extract (queue_operations k r) r u k = Some k1"
  have l: "links_only k k1" "queued (taken_out u k1) Q T (ql(r := remove1 u (ql r)))" using queued_taken_out [OF a(2-4)] a(5) by auto
  have "mutex_ok X Q T (taken_out u k1)"
    by (rule mutex_ok_cong [OF conjunct1 [OF a(1)]]) (use taken_out_mutexes [OF l(1)] waiting_taken_out [OF l(1)] l(2) in auto)
  then show "mutex_ok X Q T (taken_out u k1) \<and> mutex_quiet Q k0 (taken_out u k1)" using mutex_quiet_trans mutex_quiet_taken_out [OF l(1)] a(1) by blast
qed

lemma mutex_ok_only: "only_thread t k k' \<Longrightarrow> mutex_ok X Q T k \<Longrightarrow> mutex_ok X Q T k'"
  using mutex_queue.client_only [of t k k' X Q T k] mutex_quiet_refl by blast

text \<open>Priorities: a holder only becomes more important.\<close>

lemma held_nonzero:
  assumes "thread_ok k Q t" "q \<in> Q" "guarded k q" "mutex_holder k q = t" "finite Q"
  shows "resources k t \<noteq> 0"
proof
  assume "resources k t = 0"
  then have "held k Q t = {}" using assms(1,5) by (simp add: thread_ok_def held_def)
  then show False using assms(2-4) by (auto simp: held_def)
qed

lemma mutex_ok_reprio:
  assumes "mutex_ok X Q T k" "reprio f k k'" "\<exists>ql. queued k' Q T ql" "\<And>t. t \<in> T \<Longrightarrow> f t \<le> own_prio k t \<and> (\<not> hint k' t \<longrightarrow> f t = own_prio k t)"
    "\<And>t. t \<in> T \<Longrightarrow> resources k t \<noteq> 0 \<Longrightarrow> f t \<le> prio k t"
  shows "mutex_ok X Q T k'"
proof -
  have R: "mutexes k' = mutexes k" "queue_operations k' = queue_operations k" "\<And>u. Wait (threads k' u) = Wait (threads k u)"
    "\<And>u. own_prio k' u = own_prio k u" "\<And>u. resources k' u = resources k u" "\<And>u. prio k' u = f u" using assms(2) by (simp_all add: reprio_def)
  have W: "waiting k' T q = waiting k T q" for q using R(3) by (simp add: waiting_def)
  have g: "guarded k' = guarded k" "held k' = held k" using R(1) by (auto simp: guarded_def held_def fun_eq_iff)
  have le: "f (mutex_holder k q) \<le> prio k (mutex_holder k q)" if "q \<in> Q" "guarded k q" "mutex_holder k q \<in> T" for q
    using assms(5) [OF that(3)] held_nonzero [OF mutex_okD(7) [OF assms(1) that(3)] that(1,2)] by simp
  have "protocol_ok k' T q" if "q \<in> Q" "q \<notin> X" for q
  proof -
    have l: "lock_ok k T q" and p: "protocol_ok k T q" using assms(1) that by (simp_all add: mutex_ok_def)
    show ?thesis
    proof (cases "mutex_holder k q = NULL \<or> \<not> guarded k q")
      case True
      then show ?thesis using l p by (auto simp: protocol_ok_def lock_ok_def guarded_def W R)
    next
      case False
      then have "mutex_holder k q \<in> T" using l by (simp add: lock_ok_def)
      then have "f (mutex_holder k q) \<le> prio k (mutex_holder k q)" using le that(1) False by blast
      then show ?thesis using p by (auto simp: protocol_ok_def W R intro: order_trans)
    qed
  qed
  moreover have "lock_ok k' T q = lock_ok k T q" "attr_ok k' q = attr_ok k q" for q by (simp_all add: lock_ok_def attr_ok_def W R g)
  moreover have "thread_ok k' Q t" if "t \<in> T" for t using assms(4) [OF that] mutex_okD(7) [OF assms(1) that] by (simp add: thread_ok_def R g)
  ultimately show ?thesis using assms(1,3) by (simp add: mutex_ok_def)
qed

lemma mutex_ok_Raise:
  assumes "mutex_ok X Q T k" "t \<in> T"
  shows "\<exists>k'. Thread_Raise_priority t p k = Some k' \<and> mutex_ok X Q T k' \<and> reprio ((prio k)(t := min (prio k t) p)) k k'"
proof -
  obtain ql where "queued k Q T ql" using mutex_okD(3) [OF assms(1)] by blast
  from Raise_priority_effect [OF this assms(2)] obtain k' ql' where k': "Thread_Raise_priority t p k = Some k'" "queued k' Q T ql'"
    "reprio ((prio k)(t := min (prio k t) p)) k k'" "\<forall>u. hint k' u = (u = t \<or> hint k u)" by blast
  have "min (prio k t) p \<le> own_prio k t" using mutex_okD(7) [OF assms] by (auto simp: thread_ok_def intro: min.coboundedI1)
  then have "mutex_ok X Q T k'"
    by (intro mutex_ok_reprio [OF assms(1) k'(3)]) (use k'(2,4) mutex_okD(7) [OF assms(1)] in \<open>auto simp: thread_ok_def\<close>)
  then show ?thesis using k' by blast
qed

lemma mutex_ok_Restore:
  assumes "mutex_ok X Q T k" "t \<in> T" "resources k t = 0"
  shows "\<exists>k'. Thread_Restore_priority t k = Some k' \<and> mutex_ok X Q T k' \<and> reprio ((prio k)(t := own_prio k t)) k k'"
proof -
  obtain ql where "queued k Q T ql" using mutex_okD(3) [OF assms(1)] by blast
  from Restore_priority_effect [OF this assms(2)] obtain k' ql' where k': "Thread_Restore_priority t k = Some k'" "queued k' Q T ql'"
    "reprio ((prio k)(t := own_prio k t)) k k'" "\<forall>u. hint k' u = (u \<noteq> t \<and> hint k u)" by blast
  have "mutex_ok X Q T k'"
    by (rule mutex_ok_reprio [OF assms(1) k'(3)]) (use k'(2,4) assms(3) mutex_okD(7) [OF assms(1)] in \<open>auto simp: thread_ok_def\<close>)
  then show ?thesis using k' by blast
qed

subsection \<open>A mutex changes hands\<close>

definition assign :: "addr \<Rightarrow> CORE_mutex_Control \<Rightarrow> addr \<Rightarrow> uint32 \<Rightarrow> Kernel \<Rightarrow> Kernel" where
  "assign q m t n k = upd_mutex q (\<lambda>_. m) (if guarded k q then upd_thread t (\<lambda>c. c\<lparr>resource_count := n\<rparr>) k else k)"

lemma assign_fields:
  "mutexes (assign q m t n k) = (mutexes k)(q := m)" "queue_operations (assign q m t n k) = queue_operations k"
  "wait_chain (assign q m t n k) = wait_chain k" "wait_tree (assign q m t n k) = wait_tree k"
  "Wait (threads (assign q m t n k) u) = Wait (threads k u)" "prio (assign q m t n k) u = prio k u" "own_prio (assign q m t n k) u = own_prio k u"
  "hint (assign q m t n k) u = hint k u" "resources (assign q m t n k) u = (if u = t \<and> guarded k q then n else resources k u)"
  by (simp_all add: assign_def upd_mutex_def upd_thread_def)

lemma assign_waiting [simp]: "waiting (assign q m t n k) T r = waiting k T r"
  by (simp add: waiting_def assign_fields)

lemma assign_queued: "queued (assign q m t n k) Q T ql = queued k Q T ql"
proof -
  have "waits (assign q m t n k) Q T ql = waits k Q T ql" by (rule waits_members) (simp_all add: assign_fields)
  then show ?thesis by (simp add: queued_def wait_info_def assign_fields)
qed

lemma assign_guarded: "Attributes m = mutex_attr k q \<Longrightarrow> guarded (assign q m t n k) r = guarded k r"
  by (simp add: guarded_def assign_fields)

lemma assign_held:
  assumes "Attributes m = mutex_attr k q" "q \<in> Q"
  shows "held (assign q m t n k) Q u = (if guarded k q \<and> holder m = u then insert q (held k Q u) else held k Q u - {q})"
  using assms by (auto simp: held_def assign_guarded assign_fields)

lemma mutex_ok_assign:
  assumes ok: "mutex_ok (insert q X) Q T k" and q: "q \<in> Q" and m: "Attributes m = mutex_attr k q"
    and other: "\<And>u. u \<in> T \<Longrightarrow> u \<noteq> t \<Longrightarrow> holder m = u \<longleftrightarrow> mutex_holder k q = u"
    and count: "t \<in> T" "guarded k q \<Longrightarrow> unat n = card (held (assign q m t n k) Q t)"
  shows "mutex_ok (insert q X) Q T (assign q m t n k)"
proof -
  let ?k = "assign q m t n k"
  have "lock_ok ?k T r \<and> protocol_ok ?k T r" if "r \<in> Q" "r \<noteq> q" "r \<notin> X" for r
    using mutex_okD(5,6) [OF ok that(1)] that by (simp add: lock_ok_def protocol_ok_def assign_fields)
  moreover have "attr_ok ?k r" if "r \<in> Q" for r using mutex_okD(4) [OF ok that] m by (auto simp: attr_ok_def assign_guarded assign_fields)
  moreover have "thread_ok ?k Q u" if u: "u \<in> T" for u
  proof -
    have "unat (resources ?k u) = card (held ?k Q u)"
    proof (cases "u = t \<and> guarded k q")
      case True
      then show ?thesis using count(2) by (simp add: assign_fields)
    next
      case False
      have "q \<in> held k Q u \<longleftrightarrow> guarded k q \<and> mutex_holder k q = u" using q by (simp add: held_def)
      then have "held ?k Q u = held k Q u" using False other [OF u] unfolding assign_held [OF m q] by auto
      then show ?thesis using False mutex_okD(7) [OF ok u] by (auto simp: assign_fields thread_ok_def)
    qed
    then show ?thesis using mutex_okD(7) [OF ok u] by (simp add: thread_ok_def assign_fields)
  qed
  ultimately show ?thesis using mutex_okD(1-3) [OF ok] unfolding mutex_ok_def assign_queued by blast
qed

text \<open>The holder gives the mutex up, and a thread gets a free mutex. The count of resources never wraps around.\<close>

lemma mutex_ok_vacate:
  assumes "mutex_ok X Q T k" "q \<in> Q" "mutex_holder k q \<in> T" "Attributes m = mutex_attr k q" "holder m = NULL"
  shows "mutex_ok (insert q X) Q T (assign q m (mutex_holder k q) (resources k (mutex_holder k q) - 1) k)"
proof (rule mutex_ok_assign [OF _ assms(2,4)])
  let ?h = "mutex_holder k q"
  show "mutex_ok (insert q X) Q T k" by (rule mutex_ok_open [OF assms(1)]) blast
  have null: "NULL \<notin> T" by (rule mutex_okD(2) [OF assms(1)])
  show "holder m = u \<longleftrightarrow> ?h = u" if "u \<in> T" "u \<noteq> ?h" for u using that null assms(5) by auto
  show "unat (resources k ?h - 1) = card (held (assign q m ?h (resources k ?h - 1) k) Q ?h)" if "guarded k q"
  proof -
    have n: "resources k ?h \<noteq> 0" using held_nonzero [OF mutex_okD(7) [OF assms(1,3)] assms(2) that] by simp
    have "q \<in> held k Q ?h" using that assms(2) by (simp add: held_def)
    then have "card (held k Q ?h - {q}) = card (held k Q ?h) - 1" by (simp add: card_Diff_singleton)
    moreover have "held (assign q m ?h (resources k ?h - 1) k) Q ?h = held k Q ?h - {q}"
      using null assms(3,5) by (auto simp: assign_held [OF assms(4,2)])
    ultimately show ?thesis using mutex_okD(7) [OF assms(1,3)] n by (simp add: thread_ok_def unat_minus_one)
  qed
qed (rule assms(3))

lemma mutex_ok_occupy:
  assumes "mutex_ok (insert q X) Q T k" "q \<in> Q" "mutex_holder k q = NULL" "t \<in> T" "Attributes m = mutex_attr k q" "holder m = t"
  shows "mutex_ok (insert q X) Q T (assign q m t (resources k t + 1) k)"
proof (rule mutex_ok_assign [OF assms(1,2,5)])
  have null: "NULL \<notin> T" "NULL \<notin> Q" using mutex_okD(1,2) [OF assms(1)] by blast+
  show "holder m = u \<longleftrightarrow> mutex_holder k q = u" if "u \<in> T" "u \<noteq> t" for u using that null assms(3,6) by auto
  show "unat (resources k t + 1) = card (held (assign q m t (resources k t + 1) k) Q t)" if "guarded k q"
  proof -
    have q: "q \<notin> held k Q t" using assms(3,4) null by (auto simp: held_def)
    have "insert q (held k Q t) \<subseteq> Q" using assms(2) by (auto simp: held_def)
    then have "card (insert q (held k Q t)) \<le> card (UNIV - {NULL :: addr})" using null(2) by (intro card_mono) auto
    also have "\<dots> = 2 ^ 32 - 1" by (simp add: card_Diff_singleton card_word)
    finally have "Suc (card (held k Q t)) < 2 ^ 32" using q by simp
    then have "unat (resources k t + 1) = Suc (card (held k Q t))"
      using mutex_okD(7) [OF assms(1,4)] by (simp add: thread_ok_def unat_add_no_wrap)
    then show ?thesis using that assms(6) q by (simp add: assign_held [OF assms(5,2)])
  qed
qed (rule assms(4))

text \<open>A thread joins the queue of a mutex that another thread holds.\<close>

lemma mutex_ok_joins:
  assumes "mutex_ok X Q T k" "q \<in> Q" "t \<in> T" "operations (Wait (threads k t)) = Thread_queue_Operations_default"
    "mutex_holder k q \<noteq> NULL" "lock_nesting_behavior (mutex_attr k q) = CORE_MUTEX_NESTING_ACQUIRES \<Longrightarrow> mutex_holder k q \<noteq> t"
    "CORE_mutex_Is_inherit_priority (mutex_attr k q) \<Longrightarrow> prio k (mutex_holder k q) \<le> own_prio k t"
  defines "k0 \<equiv> Thread_Wait_set_operations t (queue_operations k q) (Thread_Wait_set_queue t q k)"
  shows "\<exists>k1. ops_enqueue (queue_operations k q) q t k0 = Some k1 \<and> mutex_ok X Q T k1"
proof -
  obtain ql where ql: "queued k Q T ql" using mutex_okD(3) [OF assms(1)] by blast
  have "\<forall>r \<in> Q. t \<notin> set (ql r)" using queued_waiting [OF ql] assms(4) by (simp add: waiting_def)
  from queued_enqueue [OF ql assms(2,3) this] obtain k1 where k1: "ops_enqueue (queue_operations k q) q t k0 = Some k1" "links_only k0 k1"
    "queued k1 Q T (ql(q := placed k0 q t (ql q)))" unfolding k0_def by blast
  have F: "mutexes k1 = mutexes k" "queue_operations k1 = queue_operations k" "prio k1 u = prio k u" "own_prio k1 u = own_prio k u"
    "resources k1 u = resources k u" "hint k1 u = hint k u" for u
    using links_only_fields [OF k1(2)] by (simp_all add: k0_def Thread_Wait_set_operations_def Thread_Wait_set_queue_def upd_wait_def upd_thread_def)
  have W: "waiting k1 T r = (if r = q then insert t (waiting k T r) else waiting k T r)" if "r \<in> Q" for r
    using queued_waiting [OF k1(3) that] queued_waiting [OF ql that] by (simp split: if_splits)
  have g: "guarded k1 = guarded k" "held k1 = held k" using F(1) by (auto simp: guarded_def held_def fun_eq_iff)
  have "lock_ok k1 T r \<and> protocol_ok k1 T r" if "r \<in> Q" "r \<notin> X" for r
    using mutex_okD(5,6) [OF assms(1) that] assms(5-7) by (auto simp: lock_ok_def protocol_ok_def F W [OF that(1)])
  moreover have "attr_ok k1 r = attr_ok k r" "thread_ok k1 Q u = thread_ok k Q u" for r u by (simp_all add: attr_ok_def thread_ok_def F g)
  ultimately have "mutex_ok X Q T k1" using mutex_okD(1,2,4,7) [OF assms(1)] k1(3) unfolding mutex_ok_def by blast
  then show ?thesis using k1(1) by blast
qed

subsection \<open>Surrendering\<close>

lemma assign_quiet:
  assumes "\<not> guarded k q" "Attributes m = mutex_attr k q"
  shows "mutex_quiet Q k (assign q m t n k)"
  using assms by (auto simp: mutex_quiet_def assign_fields)

lemma guarded_discipline:
  "guarded k q \<longleftrightarrow> mutex_discipline (mutex_attr k q) = CORE_MUTEX_DISCIPLINES_PRIORITY_INHERIT
     \<or> mutex_discipline (mutex_attr k q) = CORE_MUTEX_DISCIPLINES_PRIORITY_CEILING"
  by (simp add: guarded_def CORE_mutex_Is_inherit_priority_def CORE_mutex_Is_priority_ceiling_def)

text \<open>The thread that gets the mutex, out of the queue and with its resource counted; with a ceiling its priority is raised.\<close>

lemma Transfer_occupies:
  assumes ok: "mutex_ok (insert q X) Q T k" and q: "q \<in> Q" "mutex_holder k q = NULL" "v \<in> T"
  defines "m \<equiv> (mutexes k q)\<lparr>holder := v, nest_count := 1\<rparr>"
  defines "k1 \<equiv> assign q m v (resources k v + 1) k"
  shows "\<exists>k2. (case mutex_discipline (mutex_attr k q) of CORE_MUTEX_DISCIPLINES_PRIORITY_CEILING \<Rightarrow> Thread_Raise_priority v (priority_ceiling (mutex_attr k q)) k1 | _ \<Rightarrow> Some k1) = Some k2
    \<and> mutex_ok (insert q X) Q T k2 \<and> mutexes k2 q = m \<and> (\<forall>r. waiting k2 T r = waiting k T r) \<and> (\<forall>u. own_prio k2 u = own_prio k u)
    \<and> prio k2 v \<le> prio k v
    \<and> (CORE_mutex_Is_priority_ceiling (mutex_attr k q) \<longrightarrow> prio k2 v \<le> priority_ceiling (mutex_attr k q)) \<and> (\<not> guarded k q \<longrightarrow> k2 = k1)"
proof -
  have k1: "mutex_ok (insert q X) Q T k1" unfolding k1_def by (rule mutex_ok_occupy [OF ok q]) (simp_all add: m_def)
  show ?thesis
  proof (cases "mutex_discipline (mutex_attr k q) = CORE_MUTEX_DISCIPLINES_PRIORITY_CEILING")
    case False
    then show ?thesis using k1 by (cases "mutex_discipline (mutex_attr k q)") (simp_all add: k1_def assign_fields CORE_mutex_Is_priority_ceiling_def)
  next
    case True
    obtain k2 where "Thread_Raise_priority v (priority_ceiling (mutex_attr k q)) k1 = Some k2" "mutex_ok (insert q X) Q T k2"
      "reprio ((prio k1)(v := min (prio k1 v) (priority_ceiling (mutex_attr k q)))) k1 k2" using mutex_ok_Raise [OF k1 q(3)] by blast
    then show ?thesis using True by (simp add: reprio_def waiting_def guarded_discipline k1_def assign_fields)
  qed
qed

lemma mutex_ok_Transfer:
  assumes ok: "mutex_ok (insert q X) Q T (world s)" and q: "q \<in> Q" "mutex_holder (world s) q = NULL" "nest_count (mutexes (world s) q) = 0"
  shows "\<exists>s'. CORE_mutex_Transfer q s = Some s' \<and> mutex_ok X Q T (world s') \<and> (\<not> guarded (world s) q \<longrightarrow> mutex_quiet Q (world s) (world s'))"
proof -
  let ?k = "world s"
  obtain ql where ql: "queued ?k Q T ql" using mutex_okD(3) [OF ok] by blast
  then have w: "waits ?k Q T ql" by (simp add: queued_def)
  note first = waits_first [OF w q(1)] and wt = queued_waiting [OF ql q(1)]
  show ?thesis
  proof (cases "ql q")
    case Nil
    have "lock_ok ?k T q" "protocol_ok ?k T q" using q Nil wt by (simp_all add: lock_ok_def protocol_ok_def)
    then show ?thesis using mutex_ok_close [OF ok] first Nil mutex_quiet_refl by (simp add: CORE_mutex_Transfer_def)
  next
    case (Cons v vs)
    have v: "v \<noteq> NULL" "v \<in> set (ql q)" "v \<in> T" "v \<notin> set vs" using waits_apart [OF w q(1)] Cons by auto
    obtain k1 where k1: "ops_extract (queue_operations ?k q) q v ?k = Some k1" "links_only ?k k1" using queued_taken_out [OF ql q(1) v(2)] by blast
    define k2 where "k2 = taken_out v k1"
    have F: "mutexes k2 = mutexes ?k" "\<And>u. prio k2 u = prio ?k u" "\<And>u. own_prio k2 u = own_prio ?k u" using taken_out_mutexes [OF k1(2)] by (simp_all add: k2_def)
    have g: "guarded k2 q = guarded ?k q" using F(1) by (simp add: guarded_def)
    have ext: "Thread_queue_Extract_locked q v ?k = Some k2" using k1(1) by (simp add: Thread_queue_Extract_locked_def k2_def taken_out_def)
    have ok2: "mutex_ok (insert q X) Q T k2" using mutex_queue.client_removed [of "insert q X" Q T ?k ?k ql q v k1] ok mutex_quiet_refl ql q(1) v(2) k1(1) by (simp add: k2_def)
    define m where "m = (mutexes k2 q)\<lparr>holder := v, nest_count := 1\<rparr>"
    define k3 where "k3 = assign q m v (resources k2 v + 1) k2"
    obtain k4 where k4: "(case mutex_discipline (mutex_attr k2 q) of CORE_MUTEX_DISCIPLINES_PRIORITY_CEILING \<Rightarrow> Thread_Raise_priority v (priority_ceiling (mutex_attr k2 q)) k3
        | _ \<Rightarrow> Some k3) = Some k4" "mutex_ok (insert q X) Q T k4" "mutexes k4 q = m" "\<forall>r. waiting k4 T r = waiting k2 T r" "\<forall>u. own_prio k4 u = own_prio k2 u"
      "prio k4 v \<le> prio k2 v" "CORE_mutex_Is_priority_ceiling (mutex_attr k2 q) \<longrightarrow> prio k4 v \<le> priority_ceiling (mutex_attr k2 q)"
      "\<not> guarded k2 q \<longrightarrow> k4 = k3" using Transfer_occupies [OF ok2 q(1) _ v(3)] q(2) F(1) unfolding m_def k3_def by auto
    have wq: "waiting k4 T q = set vs" using waiting_taken_out [OF k1(2), of v T q] k4(4) wt Cons v(4) by (auto simp: k2_def)
    have "lock_ok k4 T q" using k4(3) wq v(1,3,4) by (simp add: lock_ok_def m_def)
    moreover have "protocol_ok k4 T q"
    proof -
      have "prio k4 v \<le> own_prio k4 u" if "CORE_mutex_Is_inherit_priority (mutex_attr ?k q)" "u \<in> set vs" for u
      proof -
        have "queue_operations ?k q = Thread_queue_Operations_priority" using mutex_okD(4) [OF ok q(1)] that(1) by (simp add: attr_ok_def guarded_def)
        from waits_sorted [OF w q(1) this] have "prio ?k v \<le> prio ?k u" using Cons that(2) by simp
        moreover have "u \<in> T" using waits_apart [OF w q(1)] Cons that(2) by auto
        then have "prio ?k u \<le> own_prio ?k u" using mutex_okD(7) [OF ok] by (simp add: thread_ok_def)
        ultimately show ?thesis using k4(5,6) F by (auto intro: order_trans)
      qed
      then show ?thesis using k4(3,7) wq F(1) by (simp add: protocol_ok_def m_def)
    qed
    ultimately have ok4: "mutex_ok X Q T k4" using mutex_ok_close [OF k4(2)] by blast
    define s' where "s' = Thread_queue_Unblock_critical q v (s\<lparr>world := k4\<rparr>)"
    have o: "only_thread v k4 (world s')" using only_thread_Unblock_critical [of v "s\<lparr>world := k4\<rparr>" q] by (simp add: s'_def)
    have k3: "k3 = (if guarded k2 q then upd_thread v (\<lambda>c. c\<lparr>resource_count := resource_count c + 1\<rparr>) (upd_mutex q (\<lambda>m. m\<lparr>holder := v, nest_count := 1\<rparr>) k2)
        else upd_mutex q (\<lambda>m. m\<lparr>holder := v, nest_count := 1\<rparr>) k2)" by (simp add: k3_def assign_def m_def upd_mutex_def upd_thread_def)
    have "mutex_attr (upd_mutex q (\<lambda>m. m\<lparr>holder := v, nest_count := 1\<rparr>) k2) q = mutex_attr k2 q" by (simp add: upd_mutex_def)
    then have "CORE_mutex_Transfer q s = Some s'"
      using first Cons v(1) ext k4(1) unfolding s'_def k3 guarded_discipline
      by (cases "mutex_discipline (mutex_attr k2 q)") (simp_all add: CORE_mutex_Transfer_def try_kernel_def)
    moreover have "mutex_quiet Q ?k (world s')" if "\<not> guarded ?k q"
    proof -
      have "mutex_quiet Q k2 k4" using assign_quiet [of k2 q m Q v] that g k4(8) by (simp add: k3_def m_def)
      then show ?thesis using mutex_quiet_trans mutex_quiet_taken_out [OF k1(2)] mutex_quiet_only [OF o] unfolding k2_def by blast
    qed
    ultimately show ?thesis using mutex_ok_only [OF o ok4] by blast
  qed
qed

lemma mutex_ok_nest:
  assumes "mutex_ok X Q T k" "q \<in> Q" "mutex_holder k q \<noteq> NULL" "n \<noteq> 0"
  shows "mutex_ok X Q T (upd_mutex q (\<lambda>m. m\<lparr>nest_count := n\<rparr>) k)"
proof -
  let ?k = "upd_mutex q (\<lambda>m. m\<lparr>nest_count := n\<rparr>) k"
  have F: "threads ?k = threads k" "queue_operations ?k = queue_operations k" "\<And>r. mutex_attr ?k r = mutex_attr k r" "\<And>r. mutex_holder ?k r = mutex_holder k r"
    "\<And>r. r \<noteq> q \<Longrightarrow> mutexes ?k r = mutexes k r" "nest_count (mutexes ?k q) = n" by (simp_all add: upd_mutex_def)
  have W: "waiting ?k T r = waiting k T r" for r by (simp add: waiting_def F)
  have "queued ?k Q T ql = queued k Q T ql" for ql
    using waits_core [of k ?k Q T ql] by (simp add: queued_def wait_info_def F) (simp add: core_only_def upd_mutex_def)
  moreover have "lock_ok ?k T r = lock_ok k T r" if "r \<in> Q" "r \<notin> X" for r
    using mutex_okD(5) [OF assms(1) that] assms(3,4) by (cases "r = q") (simp_all add: lock_ok_def W F)
  moreover have "guarded ?k r = guarded k r" "held ?k Q t = held k Q t" for r t by (simp_all add: guarded_def held_def F)
  ultimately show ?thesis using assms(1) by (simp add: mutex_ok_def attr_ok_def protocol_ok_def thread_ok_def W F)
qed

lemma nest_quiet: "\<not> guarded k q \<Longrightarrow> mutex_quiet Q k (upd_mutex q (\<lambda>m. m\<lparr>nest_count := n\<rparr>) k)"
  by (simp add: mutex_quiet_def upd_mutex_def)

lemma mutex_ok_release:
  assumes ok: "mutex_ok X Q T (world s)" and q: "q \<in> Q" "q \<notin> X"
  shows "\<exists>s' b st. CORE_mutex_Surrender_release q s = Some (s', b, st) \<and> mutex_ok X Q T (world s') \<and> (\<not> guarded (world s) q \<longrightarrow> mutex_quiet Q (world s) (world s'))"
proof -
  let ?k = "world s" and ?m = "mutexes (world s) q"
  define k1 where "k1 = upd_mutex q (\<lambda>m. m\<lparr>nest_count := nest_count m - 1\<rparr>) ?k"
  have k1: "k1 = upd_mutex q (\<lambda>m. m\<lparr>nest_count := nest_count ?m - 1\<rparr>) ?k" by (simp add: k1_def upd_mutex_def)
  consider (refused) "only_owner_release (Attributes ?m) \<and> \<not> Thread_Is_executing (holder ?m) ?k \<or> nest_count ?m = 0"
    | (nested) "\<not> (only_owner_release (Attributes ?m) \<and> \<not> Thread_Is_executing (holder ?m) ?k)" "nest_count ?m \<noteq> 0" "nest_count ?m - 1 \<noteq> 0"
    | (last) "\<not> (only_owner_release (Attributes ?m) \<and> \<not> Thread_Is_executing (holder ?m) ?k)" "nest_count ?m \<noteq> 0" "nest_count ?m - 1 = 0" by blast
  then show ?thesis
  proof cases
    case refused
    then show ?thesis using ok mutex_quiet_refl by (auto simp: CORE_mutex_Surrender_release_def Let_def)
  next
    case nested
    have "holder ?m \<noteq> NULL" using mutex_okD(5) [OF ok q] nested(2) by (auto simp: lock_ok_def)
    then have "mutex_ok X Q T k1" unfolding k1 using mutex_ok_nest [OF ok q(1)] nested(3) by blast
    moreover have "CORE_mutex_Surrender_release q s = Some (s\<lparr>world := k1\<rparr>, False, CORE_MUTEX_STATUS_SUCCESSFUL)"
      using nested by (auto simp: CORE_mutex_Surrender_release_def Let_def k1_def) (simp_all add: upd_mutex_def)
    ultimately show ?thesis using nest_quiet [of ?k q Q "nest_count ?m - 1"] k1 by auto
  next
    case last
    have h: "holder ?m \<in> T" "holder ?m \<noteq> NULL" using mutex_okD(5) [OF ok q] last(2) by (auto simp: lock_ok_def split: if_splits)
    define m where "m = ?m\<lparr>nest_count := 0, holder := NULL\<rparr>"
    define k2 where "k2 = assign q m (holder ?m) (resources ?k (holder ?m) - 1) ?k"
    have ok2: "mutex_ok (insert q X) Q T k2" unfolding k2_def by (rule mutex_ok_vacate [OF ok q(1) h(1)]) (simp_all add: m_def)
    have g: "guarded k2 q = guarded ?k q" unfolding k2_def by (rule assign_guarded) (simp add: m_def)
    obtain s' where s': "CORE_mutex_Transfer q (s\<lparr>world := k2\<rparr>) = Some s'" "mutex_ok X Q T (world s')" "\<not> guarded k2 q \<longrightarrow> mutex_quiet Q k2 (world s')"
      using mutex_ok_Transfer [of q X Q T "s\<lparr>world := k2\<rparr>"] ok2 q(1) by (auto simp: k2_def assign_fields m_def)
    have "k2 = upd_mutex q (\<lambda>m. m\<lparr>holder := NULL\<rparr>) (if guarded ?k q then upd_thread (holder ?m) (\<lambda>c. c\<lparr>resource_count := resource_count c - 1\<rparr>) k1 else k1)"
      using last(3) by (simp add: k2_def k1 assign_def m_def upd_mutex_def upd_thread_def)
    then have "CORE_mutex_Surrender_release q s = Some (s', True, CORE_MUTEX_STATUS_SUCCESSFUL)"
      using last s'(1) by (simp add: CORE_mutex_Surrender_release_def Let_def k1_def [symmetric] guarded_def) (auto simp: k1_def upd_mutex_def)
    moreover have "mutex_quiet Q ?k k2" if "\<not> guarded ?k q" unfolding k2_def by (rule assign_quiet [OF that]) (simp add: m_def)
    ultimately show ?thesis using s'(2,3) g mutex_quiet_trans by blast
  qed
qed

lemma mutex_ok_restore:
  assumes "mutex_ok X Q T (world s)" "u \<in> T"
  shows "\<exists>s'. CORE_mutex_Surrender_restore u s = Some s' \<and> mutex_ok X Q T (world s') \<and> mutex_quiet Q (world s) (world s')
    \<and> resources (world s') u = resources (world s) u \<and> (resources (world s') u = 0 \<longrightarrow> prio (world s') u = own_prio (world s') u)"
proof (cases "resources (world s) u = 0 \<and> hint (world s) u")
  case False
  then show ?thesis using assms mutex_okD(7) [OF assms] mutex_quiet_refl by (auto simp: CORE_mutex_Surrender_restore_def Thread_Owns_resources_def thread_ok_def)
next
  case True
  define k where "k = Thread_Dispatch_disable (world s)"
  have o: "only_thread u (world s) k" unfolding k_def by (rule only_thread_dispatch)
  have r0: "resources k u = 0" using True by (simp add: k_def Thread_Dispatch_disable_def)
  obtain k' where k': "Thread_Restore_priority u k = Some k'" "mutex_ok X Q T k'" "reprio ((prio k)(u := own_prio k u)) k k'"
    using mutex_ok_Restore [OF mutex_ok_only [OF o assms(1)] assms(2) r0] by blast
  define s' where "s' = s\<lparr>world := Thread_Dispatch_enable k'\<rparr>"
  have o': "only_thread u k' (world s')" by (simp add: s'_def only_thread_dispatch)
  have "mutex_quiet Q k k'" using k'(3) r0 by (auto simp: mutex_quiet_def reprio_def)
  then have "mutex_quiet Q (world s) (world s')" using mutex_quiet_only [OF o] mutex_quiet_only [OF o'] mutex_quiet_trans by blast
  moreover have "prio (world s') u = own_prio (world s') u" using o' k'(3) by (simp add: only_thread_def wait_same_def reprio_def)
  moreover have "CORE_mutex_Surrender_restore u s = Some s'"
    using True k'(1) by (simp add: CORE_mutex_Surrender_restore_def Thread_Owns_resources_def try_kernel_def k_def s'_def)
  ultimately show ?thesis using mutex_ok_only [OF o' k'(2)] by (auto simp: mutex_quiet_def)
qed

subsection \<open>Interrupts\<close>

text \<open>Interrupts surrender mutexes without a priority protocol, let timeouts expire and take threads out of their queues. \<open>restore\<close> is the second part of
  a surrender.\<close>

inductive mutex_interrupt :: "addr set \<Rightarrow> addr set \<Rightarrow> System \<Rightarrow> System \<Rightarrow> bool" for Q T :: "addr set" where
  release: "q \<in> Q \<Longrightarrow> \<not> guarded (world s) q \<Longrightarrow> CORE_mutex_Surrender_release q s = Some (s', b, status) \<Longrightarrow> mutex_interrupt Q T s s'"
| restore: "u \<in> T \<Longrightarrow> CORE_mutex_Surrender_restore u s = Some s' \<Longrightarrow> mutex_interrupt Q T s s'"
| expire: "u \<in> T \<Longrightarrow> Thread_Timeout u (world s) = Some k \<Longrightarrow> mutex_interrupt Q T s (s\<lparr>world := k\<rparr>)"
| take_out: "u \<in> T \<Longrightarrow> Thread_queue_Extract u s = Some s' \<Longrightarrow> mutex_interrupt Q T s s'"

lemma mutex_interrupt_keeps:
  assumes "mutex_interrupt Q T s s'" "mutex_ok X Q T (world s)" "\<forall>q \<in> X. guarded (world s) q"
  shows "mutex_ok X Q T (world s') \<and> mutex_quiet Q (world s) (world s')"
  using assms(1)
proof cases
  case (release q b status)
  then show ?thesis using mutex_ok_release [OF assms(2), of q] assms(3) by auto
next
  case (restore u)
  then show ?thesis using mutex_ok_restore [OF assms(2) restore(1)] by auto
next
  case (expire u k)
  then show ?thesis using mutex_queue.Timeout_keeps [of X Q T "world s" "world s" u k] assms(2) mutex_quiet_refl by simp
next
  case (take_out u)
  then show ?thesis using mutex_queue.Extract_keeps [of X Q T s "world s" u s'] assms(2) mutex_quiet_refl by blast
qed

lemma mutex_interrupts_keep:
  assumes "(mutex_interrupt Q T)\<^sup>*\<^sup>* s s'" "mutex_ok X Q T (world s)" "\<forall>q \<in> X. guarded (world s) q" "X \<subseteq> Q"
  shows "mutex_ok X Q T (world s') \<and> mutex_quiet Q (world s) (world s')"
  using assms
proof (induction rule: rtranclp_induct)
  case base
  then show ?case using mutex_quiet_refl by blast
next
  case (step s1 s2)
  then have i: "mutex_ok X Q T (world s1)" "mutex_quiet Q (world s) (world s1)" by blast+
  have "mutex_attr (world s1) q = mutex_attr (world s) q" if "q \<in> X" for q using i(2) step.prems(3) that by (auto simp: mutex_quiet_def)
  then have "\<forall>q \<in> X. guarded (world s1) q" using step.prems(2) by (simp add: guarded_def)
  then show ?case using mutex_interrupt_keeps [OF step.hyps(2) i(1)] mutex_quiet_trans [OF i(2)] by blast
qed

subsection \<open>Seizing\<close>

text \<open>The ceiling case: the thread holds the mutex already and is raised to the ceiling.\<close>

lemma mutex_ok_to_ceiling:
  assumes ok: "mutex_ok {q} Q T k" and q: "q \<in> Q" "t \<in> T" and m: "mutexes k q = m" "holder m = t" "nest_count m \<noteq> 0" "CORE_mutex_Is_priority_ceiling (Attributes m)"
    and wt: "waiting k T q = {}" and isr: "\<And>n s. (mutex_interrupt Q T)\<^sup>*\<^sup>* s (isr n s)" and s: "world s = k"
  shows "\<exists>s'. try_kernel (Thread_Raise_priority t (priority_ceiling (Attributes m))) (isr n s) = Some s' \<and> mutex_ok {} Q T (world s')
    \<and> mutexes (world s') q = m"
proof -
  have g: "guarded k q" using m by (simp add: guarded_def)
  have i: "mutex_ok {q} Q T (world (isr n s))" "mutex_quiet Q k (world (isr n s))"
    using mutex_interrupts_keep [OF isr, of "{q}" s n] ok g q(1) s by auto
  have m': "mutexes (world (isr n s)) q = m" "waiting (world (isr n s)) T q = {}"
    using i(2) g q(1) m(1) mutex_quiet_waiting [OF i(2), of T q] wt by (auto simp: mutex_quiet_def)
  obtain k' where k': "Thread_Raise_priority t (priority_ceiling (Attributes m)) (world (isr n s)) = Some k'" "mutex_ok {q} Q T k'"
    "reprio ((prio (world (isr n s)))(t := min (prio (world (isr n s)) t) (priority_ceiling (Attributes m)))) (world (isr n s)) k'"
    using mutex_ok_Raise [OF i(1) q(2)] by blast
  have m'': "mutexes k' q = m" "waiting k' T q = {}" "prio k' t \<le> priority_ceiling (Attributes m)" using k'(3) m' by (simp_all add: reprio_def waiting_def)
  have "t \<noteq> NULL" using mutex_okD(2) [OF ok] q(2) by auto
  then have "lock_ok k' T q" "protocol_ok k' T q" using m'' m q(2) by (simp_all add: lock_ok_def protocol_ok_def)
  then have "mutex_ok {} Q T k'" using mutex_ok_close [OF k'(2)] by blast
  then show ?thesis using k'(1) m''(1) by (simp add: try_kernel_def)
qed

lemma mutex_ok_trylock_free:
  assumes ok: "mutex_ok {} Q T k" and q: "q \<in> Q" "t \<in> T" and free: "mutex_holder k q = NULL"
  defines "m \<equiv> (mutexes k q)\<lparr>holder := t, nest_count := 1\<rparr>"
  defines "k' \<equiv> assign q m t (resources k t + 1) k"
  shows "mutex_ok {q} Q T k'" "mutexes k' q = m" "waiting k' T q = {}"
    "\<not> CORE_mutex_Is_priority_ceiling (mutex_attr k q) \<or> prio k t = priority_ceiling (mutex_attr k q) \<Longrightarrow> mutex_ok {} Q T k'"
proof -
  have "mutex_ok {q} Q T k" using ok by (rule mutex_ok_open) blast
  from mutex_ok_occupy [OF this q(1) free q(2), of m] show 1: "mutex_ok {q} Q T k'" by (simp add: k'_def m_def)
  show 2: "mutexes k' q = m" by (simp add: k'_def assign_fields)
  show 3: "waiting k' T q = {}" using mutex_okD(5) [OF ok q(1)] free by (simp add: k'_def lock_ok_def)
  assume "\<not> CORE_mutex_Is_priority_ceiling (mutex_attr k q) \<or> prio k t = priority_ceiling (mutex_attr k q)"
  moreover have "t \<noteq> NULL" using mutex_okD(2) [OF ok] q(2) by auto
  moreover have "prio k' t = prio k t" by (simp add: k'_def assign_fields)
  ultimately have "lock_ok k' T q" "protocol_ok k' T q" using 2 3 q(2) by (auto simp: lock_ok_def protocol_ok_def m_def)
  then show "mutex_ok {} Q T k'" using mutex_ok_close [OF 1] by blast
qed

lemma trylock_undo:
  assumes "holder (mutexes k q) = NULL" "nest_count (mutexes k q) = 0"
  shows "upd_thread t (\<lambda>c. c\<lparr>resource_count := resource_count c - 1\<rparr>) (upd_mutex q (\<lambda>m. m\<lparr>holder := NULL, nest_count := 0\<rparr>)
     (upd_wait t f (upd_thread t (\<lambda>c. c\<lparr>resource_count := resource_count c + 1\<rparr>) (upd_mutex q (\<lambda>m. m\<lparr>holder := t, nest_count := 1\<rparr>) k)))) = upd_wait t f k"
proof -
  have "(mutexes k q)\<lparr>holder := NULL, nest_count := 0\<rparr> = mutexes k q" using assms by (cases "mutexes k q") simp
  then show ?thesis by (simp add: upd_thread_def upd_wait_def upd_mutex_def fun_upd_idem)
qed

lemma mutex_ok_trylock:
  assumes ok: "mutex_ok {} Q T (world s)" and q: "q \<in> Q" "t \<in> T" "Thread_Executing (world s) = t" "nest_count (mutexes (world s) q) \<noteq> 0xffffffff"
    and isr: "\<And>n s. (mutex_interrupt Q T)\<^sup>*\<^sup>* s (isr n s)"
  shows "\<exists>s' b. CORE_mutex_Seize_interrupt_trylock isr q t s = Some (s', b) \<and> mutex_ok {} Q T (world s') \<and>
    (b \<noteq> 0 \<longrightarrow> only_thread t (world s) (world s') \<and> mutex_holder (world s') q \<noteq> NULL
       \<and> (lock_nesting_behavior (mutex_attr (world s') q) = CORE_MUTEX_NESTING_ACQUIRES \<longrightarrow> mutex_holder (world s') q \<noteq> t))"
proof -
  define k where "k = upd_wait t (\<lambda>w. w\<lparr>return_code := CORE_MUTEX_STATUS_SUCCESSFUL\<rparr>) (world s)"
  have o: "only_thread t (world s) k" unfolding k_def by (rule only_thread_wait) simp
  have okk: "mutex_ok {} Q T k" by (rule mutex_ok_only [OF o ok])
  have F: "mutexes k = mutexes (world s)" "Thread_Executing k = t" using q(3) by (simp_all add: k_def upd_wait_def upd_thread_def)
  let ?attr = "mutex_attr k q"
  define m where "m = (mutexes k q)\<lparr>holder := t, nest_count := 1\<rparr>"
  define k1 where "k1 = assign q m t (resources k t + 1) k"
  have k1: "k1 = (if guarded k q then upd_thread t (\<lambda>c. c\<lparr>resource_count := resource_count c + 1\<rparr>) (upd_mutex q (\<lambda>m. m\<lparr>holder := t, nest_count := 1\<rparr>) k)
      else upd_mutex q (\<lambda>m. m\<lparr>holder := t, nest_count := 1\<rparr>) k)" by (simp add: k1_def assign_def m_def upd_mutex_def upd_thread_def)
  have p1: "prio k1 t = prio k t" by (simp add: k1_def assign_fields)
  have trylock: "CORE_mutex_Seize_interrupt_trylock isr q t s = (if mutex_holder k q = NULL
      then if \<not> CORE_mutex_Is_priority_ceiling ?attr \<or> prio k t = priority_ceiling ?attr then Some (s\<lparr>world := k1\<rparr>, 0)
           else if prio k t > priority_ceiling ?attr
           then do { s \<leftarrow> try_kernel (Thread_Raise_priority t (priority_ceiling ?attr)) (isr 4 (s\<lparr>world := Thread_Dispatch_disable k1\<rparr>)); Some (on_kernel Thread_Dispatch_enable s, 0) }
           else Some (s\<lparr>world := upd_thread t (\<lambda>c. c\<lparr>resource_count := resource_count c - 1\<rparr>) (upd_mutex q (\<lambda>m. m\<lparr>holder := NULL, nest_count := 0\<rparr>)
              (upd_wait t (\<lambda>w. w\<lparr>return_code := CORE_MUTEX_STATUS_CEILING_VIOLATED\<rparr>) k1))\<rparr>, 0)
      else if mutex_holder k q = t \<and> lock_nesting_behavior ?attr = CORE_MUTEX_NESTING_ACQUIRES
      then Some (s\<lparr>world := upd_mutex q (\<lambda>m. m\<lparr>nest_count := nest_count m + 1\<rparr>) k\<rparr>, 0) else Some (s\<lparr>world := k\<rparr>, 1))"
  proof (cases "mutex_holder k q = NULL")
    case True
    have "current_priority (threads k1 t) = prio k t" by (rule p1)
    then show ?thesis using True unfolding CORE_mutex_Seize_interrupt_trylock_def Let_def on_kernel_def
      by (cases "CORE_mutex_Is_priority_ceiling ?attr"; cases "CORE_mutex_Is_inherit_priority ?attr")
        (simp_all add: k_def [symmetric] CORE_mutex_Is_locked_def k1 guarded_def)
  next
    case False
    then show ?thesis using F(2) by (simp add: CORE_mutex_Seize_interrupt_trylock_def Let_def k_def [symmetric] CORE_mutex_Is_locked_def Thread_Is_executing_def)
  qed
  show ?thesis
  proof (cases "mutex_holder k q = NULL")
    case False
    show ?thesis
    proof (cases "mutex_holder k q = t \<and> lock_nesting_behavior ?attr = CORE_MUTEX_NESTING_ACQUIRES")
      case True
      have "(0xffffffff :: uint32) = - 1" by simp
      then have "nest_count (mutexes k q) + 1 \<noteq> 0" using q(4) F(1) by (metis eq_neg_iff_add_eq_0)
      from mutex_ok_nest [OF okk q(1) False this] have "mutex_ok {} Q T (upd_mutex q (\<lambda>m. m\<lparr>nest_count := nest_count m + 1\<rparr>) k)" by (simp add: upd_mutex_def)
      then show ?thesis using True False trylock by simp
    qed (use False trylock o okk in auto)
  next
    case free: True
    note T = mutex_ok_trylock_free [OF okk q(1,2) free, folded m_def, folded k1_def]
    consider (now) "\<not> CORE_mutex_Is_priority_ceiling ?attr \<or> prio k t = priority_ceiling ?attr"
      | (raise) "CORE_mutex_Is_priority_ceiling ?attr" "prio k t > priority_ceiling ?attr"
      | (violated) "CORE_mutex_Is_priority_ceiling ?attr" "prio k t < priority_ceiling ?attr" by fastforce
    then show ?thesis
    proof cases
      case now
      then show ?thesis using T(4) trylock free by simp
    next
      case raise
      let ?k = "Thread_Dispatch_disable k1"
      have d: "only_thread t k1 ?k" by (rule only_thread_dispatch)
      obtain s' where s': "try_kernel (Thread_Raise_priority t (priority_ceiling (Attributes m))) (isr 4 (s\<lparr>world := ?k\<rparr>)) = Some s'" "mutex_ok {} Q T (world s')"
        using mutex_ok_to_ceiling [OF mutex_ok_only [OF d T(1)] q(1,2), of m isr "s\<lparr>world := ?k\<rparr>" 4] T(2,3) waiting_only [OF d] isr raise(1)
        by (auto simp: m_def Thread_Dispatch_disable_def)
      have "mutex_ok {} Q T (Thread_Dispatch_enable (world s'))" by (rule mutex_ok_only [OF only_thread_dispatch(1) s'(2)])
      moreover have "prio k t \<noteq> priority_ceiling ?attr" using raise(2) by simp
      ultimately show ?thesis using raise s'(1) trylock free by (simp add: m_def)
    next
      case violated
      let ?f = "\<lambda>w. w\<lparr>return_code := CORE_MUTEX_STATUS_CEILING_VIOLATED\<rparr>"
      have "nest_count (mutexes k q) = 0" using mutex_okD(5) [OF okk q(1)] free by (simp add: lock_ok_def)
      then have "upd_thread t (\<lambda>c. c\<lparr>resource_count := resource_count c - 1\<rparr>) (upd_mutex q (\<lambda>m. m\<lparr>holder := NULL, nest_count := 0\<rparr>) (upd_wait t ?f k1)) = upd_wait t ?f k"
        using trylock_undo [OF free, of t ?f] violated(1) by (simp add: k1 guarded_def)
      moreover have "mutex_ok {} Q T (upd_wait t ?f k)" by (rule mutex_ok_only [OF only_thread_wait okk]) simp
      moreover have "prio k t \<noteq> priority_ceiling ?attr" "\<not> prio k t > priority_ceiling ?attr" using violated(2) by simp_all
      ultimately show ?thesis using violated(1) trylock free by simp
    qed
  qed
qed

text \<open>The holder of an inheritance mutex gets the priority of the thread that is about to wait.\<close>

lemma mutex_ok_inherit:
  assumes ok: "mutex_ok {} Q T (world s)" and q: "q \<in> Q" "t \<in> T" "mutex_holder (world s) q \<noteq> NULL" "CORE_mutex_Is_inherit_priority (mutex_attr (world s) q)"
    and isr: "\<And>n s. (mutex_interrupt Q T)\<^sup>*\<^sup>* s (isr n s)"
  shows "\<exists>s'. try_kernel (Thread_Raise_priority (mutex_holder (world s) q) (current_priority (threads (world (isr a s)) t))) (isr a s) = Some s'
    \<and> mutex_ok {} Q T (world (isr b s')) \<and> mutexes (world (isr b s')) q = mutexes (world s) q
    \<and> prio (world (isr b s')) (mutex_holder (world s) q) \<le> own_prio (world (isr b s')) t
    \<and> (operations (Wait (threads (world s) t)) = Thread_queue_Operations_default \<longrightarrow> operations (Wait (threads (world (isr b s')) t)) = Thread_queue_Operations_default)"
proof -
  let ?k = "world s" and ?k1 = "world (isr a s)" and ?h = "mutex_holder (world s) q"
  have g: "guarded ?k q" using q(4) by (simp add: guarded_def)
  have h: "?h \<in> T" using mutex_okD(5) [OF ok q(1)] q(3) by (auto simp: lock_ok_def split: if_splits)
  have i1: "mutex_ok {} Q T ?k1" "mutex_quiet Q ?k ?k1" using mutex_interrupts_keep [OF isr, of "{}" s a] ok by auto
  have m1: "mutexes ?k1 q = mutexes ?k q" "resources ?k1 ?h = resources ?k ?h" using i1(2) g q(1) by (simp_all add: mutex_quiet_def)
  obtain k2 where k2: "Thread_Raise_priority ?h (prio ?k1 t) ?k1 = Some k2" "mutex_ok {} Q T k2" "reprio ((prio ?k1)(?h := min (prio ?k1 ?h) (prio ?k1 t))) ?k1 k2"
    using mutex_ok_Raise [OF i1(1) h] by blast
  have R: "mutexes k2 q = mutexes ?k q" "resources k2 ?h = resources ?k ?h" "prio k2 ?h \<le> prio ?k1 t" "own_prio k2 t = own_prio ?k1 t" "Wait (threads k2 t) = Wait (threads ?k1 t)"
    using k2(3) m1 by (simp_all add: reprio_def)
  define s' where "s' = (isr a s)\<lparr>world := k2\<rparr>"
  let ?k3 = "world (isr b s')"
  have i3: "mutex_ok {} Q T ?k3" "mutex_quiet Q k2 ?k3" using mutex_interrupts_keep [OF isr, of "{}" s' b] k2(2) by (auto simp: s'_def)
  have g2: "guarded k2 q" using g R(1) by (simp add: guarded_def)
  have "resources k2 ?h \<noteq> 0" using held_nonzero [OF mutex_okD(7) [OF ok h] q(1) g] R(2) by simp
  then have p3: "prio ?k3 ?h = prio k2 ?h" "own_prio ?k3 t = own_prio k2 t" "mutexes ?k3 q = mutexes k2 q" using i3(2) g2 q(1) by (simp_all add: mutex_quiet_def)
  have "prio ?k1 t \<le> own_prio ?k1 t" using mutex_okD(7) [OF i1(1) q(2)] by (simp add: thread_ok_def)
  then have "prio ?k3 ?h \<le> own_prio ?k3 t" using p3(1,2) R(3,4) by simp
  moreover have "operations (Wait (threads ?k1 t)) = Thread_queue_Operations_default" if "operations (Wait (threads ?k t)) = Thread_queue_Operations_default"
    using i1(2) that unfolding mutex_quiet_def by metis
  then have "operations (Wait (threads ?k3 t)) = Thread_queue_Operations_default" if "operations (Wait (threads ?k t)) = Thread_queue_Operations_default"
    using i3(2) R(5) that unfolding mutex_quiet_def by metis
  ultimately show ?thesis using k2(1) i3(1) p3(3) R(1) by (intro exI [of _ s']) (simp add: try_kernel_def s'_def)
qed

lemma mutex_ok_blocking:
  assumes ok: "mutex_ok {} Q T (world s)" and q: "q \<in> Q" "t \<in> T" "operations (Wait (threads (world s) t)) = Thread_queue_Operations_default"
    and hold: "mutex_holder (world s) q \<noteq> NULL" "lock_nesting_behavior (mutex_attr (world s) q) = CORE_MUTEX_NESTING_ACQUIRES \<longrightarrow> mutex_holder (world s) q \<noteq> t"
    and isr: "\<And>n s. (mutex_interrupt Q T)\<^sup>*\<^sup>* s (isr n s)"
    and res: "CORE_mutex_Seize_interrupt_blocking isr it rtn q t timeout s = Some s'"
  shows "mutex_ok {} Q T (world s')"
proof -
  define s0 where "s0 = on_kernel Thread_Dispatch_disable s"
  have o: "only_thread t (world s) (world s0)" by (simp add: s0_def only_thread_dispatch)
  have ok0: "mutex_ok {} Q T (world s0)" by (rule mutex_ok_only [OF o ok])
  have F: "mutexes (world s0) = mutexes (world s)" "operations (Wait (threads (world s0) t)) = Thread_queue_Operations_default"
    using o q(3) by (simp_all add: only_thread_def wait_same_def)
  define inherit where "inherit = (if CORE_mutex_Is_inherit_priority (mutex_attr (world s0) q) then do {
      s1 \<leftarrow> try_kernel (Thread_Raise_priority (mutex_holder (world s0) q) (current_priority (threads (world (isr 4 s0)) t))) (isr 4 s0); Some (isr 5 s1) } else Some s0)"
  have "\<exists>s1. inherit = Some s1 \<and> mutex_ok {} Q T (world s1) \<and> mutexes (world s1) q = mutexes (world s) q
      \<and> (CORE_mutex_Is_inherit_priority (mutex_attr (world s1) q) \<longrightarrow> prio (world s1) (mutex_holder (world s1) q) \<le> own_prio (world s1) t)
      \<and> operations (Wait (threads (world s1) t)) = Thread_queue_Operations_default"
  proof (cases "CORE_mutex_Is_inherit_priority (mutex_attr (world s0) q)")
    case True
    then show ?thesis using mutex_ok_inherit [where isr = isr and a = 4 and b = 5, OF ok0 q(1,2) _ True isr] F hold(1) by (auto simp: inherit_def)
  qed (use ok0 F in \<open>simp add: inherit_def\<close>)
  then obtain s1 where s1: "inherit = Some s1" "mutex_ok {} Q T (world s1)" "mutexes (world s1) q = mutexes (world s) q"
    "CORE_mutex_Is_inherit_priority (mutex_attr (world s1) q) \<Longrightarrow> prio (world s1) (mutex_holder (world s1) q) \<le> own_prio (world s1) t"
    "operations (Wait (threads (world s1) t)) = Thread_queue_Operations_default" by blast
  obtain k2 where k2: "ops_enqueue (queue_operations (world s1) q) q t (Thread_Wait_set_operations t (queue_operations (world s1) q) (Thread_Wait_set_queue t q (world s1))) = Some k2"
    "mutex_ok {} Q T k2" using mutex_ok_joins [OF s1(2) q(1,2) s1(5) _ _ s1(4)] hold s1(3) by auto
  have "CORE_mutex_Seize_interrupt_blocking isr it rtn q t timeout s = inherit \<bind> (\<lambda>s. do {
      s \<leftarrow> Thread_queue_Enqueue_critical isr it rtn q t STATES_WAITING_FOR_MUTEX timeout CORE_MUTEX_TIMEOUT s; Some (on_kernel Thread_Dispatch_enable s) })"
    by (simp add: CORE_mutex_Seize_interrupt_blocking_def Let_def s0_def [symmetric] inherit_def del: on_kernel_def)
  then obtain s2 where s2: "Thread_queue_Enqueue_critical isr it rtn q t STATES_WAITING_FOR_MUTEX timeout CORE_MUTEX_TIMEOUT s1 = Some s2"
    "s' = on_kernel Thread_Dispatch_enable s2"
    using res s1(1) by (cases "Thread_queue_Enqueue_critical isr it rtn q t STATES_WAITING_FOR_MUTEX timeout CORE_MUTEX_TIMEOUT s1") auto
  have "mutex_ok {} Q T (world s2) \<and> mutex_quiet Q k2 (world s2)"
  proof (rule mutex_queue.Enqueue_keeps [OF k2(1) _ _ s2(1)])
    show "mutex_ok {} Q T k2 \<and> mutex_quiet Q k2 k2" using k2(2) mutex_quiet_refl by blast
    show "mutex_ok {} Q T (world (isr n s)) \<and> mutex_quiet Q k2 (world (isr n s))" if "mutex_ok {} Q T (world s) \<and> mutex_quiet Q k2 (world s)" for n s
      using mutex_interrupts_keep [OF isr, of "{}" s n] that mutex_quiet_trans by blast
  qed
  then show ?thesis using mutex_ok_only [OF only_thread_dispatch(1)] s2(2) by simp
qed

lemma mutex_ok_Seize:
  assumes ok: "mutex_ok {} Q T (world s)" and q: "q \<in> Q" "t \<in> T" "Thread_Executing (world s) = t" "operations (Wait (threads (world s) t)) = Thread_queue_Operations_default"
      "nest_count (mutexes (world s) q) \<noteq> 0xffffffff"
    and isr: "\<And>n s. (mutex_interrupt Q T)\<^sup>*\<^sup>* s (isr n s)"
    and res: "CORE_mutex_Seize state isr it rtn q t ident wait timeout s = Some (Inr s')"
  shows "mutex_ok {} Q T (world s')"
proof -
  obtain s1 b where s1: "CORE_mutex_Seize_interrupt_trylock isr q t s = Some (s1, b)" "mutex_ok {} Q T (world s1)"
    "b \<noteq> 0 \<longrightarrow> only_thread t (world s) (world s1) \<and> mutex_holder (world s1) q \<noteq> NULL
       \<and> (lock_nesting_behavior (mutex_attr (world s1) q) = CORE_MUTEX_NESTING_ACQUIRES \<longrightarrow> mutex_holder (world s1) q \<noteq> t)"
    using mutex_ok_trylock [where isr = isr, OF ok q(1-3,5) isr] by blast
  have up: "\<not> CORE_mutex_Check_dispatch_for_seize state wait (world s)" using res by (auto simp: CORE_mutex_Seize_def)
  consider "b = 0" | "b \<noteq> 0" "\<not> wait" | "b \<noteq> 0" wait by blast
  then show ?thesis
  proof cases
    case 1
    then show ?thesis using res s1 up by (simp add: CORE_mutex_Seize_def)
  next
    case 2
    then have "s' = s1\<lparr>world := upd_wait t (\<lambda>w. w\<lparr>return_code := CORE_MUTEX_STATUS_UNSATISFIED_NOWAIT\<rparr>) (world s1)\<rparr>"
      using res s1(1) up by (simp add: CORE_mutex_Seize_def)
    then show ?thesis using mutex_ok_only [OF only_thread_wait s1(2)] by simp
  next
    case 3
    define k where "k = upd_wait t (\<lambda>w. w\<lparr>wait_id := ident\<rparr>) (world s1)"
    have o: "only_thread t (world s1) k" unfolding k_def by (rule only_thread_wait) simp
    have "operations (Wait (threads k t)) = Thread_queue_Operations_default" "mutexes k = mutexes (world s1)"
      using o s1(3) 3(1) q(4) by (simp_all add: only_thread_def wait_same_def)
    moreover have "CORE_mutex_Seize_interrupt_blocking isr it rtn q t timeout (s1\<lparr>world := k\<rparr>) = Some s'"
      using res s1(1) up 3 by (auto simp: CORE_mutex_Seize_def k_def bind_eq_Some_conv)
    ultimately show ?thesis using mutex_ok_blocking [of Q T "s1\<lparr>world := k\<rparr>" q t isr it rtn timeout s'] mutex_ok_only [OF o s1(2)] q(1,2) s1(3) 3(1) isr by simp
  qed
qed

text \<open>Inheritance goes one level: a thread that waits for a mutex, without interrupts and timeout, changes the priority of the holder and of no other thread. If the holder
  itself waits for another mutex, the holder of that one keeps its priority, and threads of medium priority may still delay the first thread.\<close>

lemma CORE_mutex_inheritance_one_level:
  assumes ok: "mutex_ok {} Q T (world s)" and q: "q \<in> Q" "t \<in> T" "operations (Wait (threads (world s) t)) = Thread_queue_Operations_default"
    and hold: "mutex_holder (world s) q \<noteq> NULL" "u \<noteq> mutex_holder (world s) q"
  shows "\<exists>s'. CORE_mutex_Seize_interrupt_blocking (\<lambda>n s. s) it rtn q t WATCHDOG_NO_TIMEOUT s = Some s' \<and> prio (world s') u = prio (world s) u"
proof -
  define s0 where "s0 = on_kernel Thread_Dispatch_disable s"
  have o: "only_thread t (world s) (world s0)" by (simp add: s0_def only_thread_dispatch)
  have ok0: "mutex_ok {} Q T (world s0)" by (rule mutex_ok_only [OF o ok])
  have F: "mutexes (world s0) = mutexes (world s)" "operations (Wait (threads (world s0) t)) = Thread_queue_Operations_default" "prio (world s0) u = prio (world s) u"
    using o q(3) by (simp_all add: only_thread_def wait_same_def)
  have h: "mutex_holder (world s0) q \<in> T" using mutex_okD(5) [OF ok0 q(1)] hold(1) F(1) by (auto simp: lock_ok_def split: if_splits)
  obtain k where k: "(if CORE_mutex_Is_inherit_priority (mutex_attr (world s0) q) then Thread_Raise_priority (mutex_holder (world s0) q) (prio (world s0) t) (world s0)
      else Some (world s0)) = Some k" "mutex_ok {} Q T k" "prio k u = prio (world s0) u" "Wait (threads k t) = Wait (threads (world s0) t)"
  proof (cases "CORE_mutex_Is_inherit_priority (mutex_attr (world s0) q)")
    case True
    then show thesis using mutex_ok_Raise [OF ok0 h, of "prio (world s0) t"] hold(2) F(1) that by (auto simp: reprio_def)
  qed (use ok0 that in simp)
  obtain ql where ql: "queued k Q T ql" using mutex_okD(3) [OF k(2)] by blast
  then have w: "waits (world (s0\<lparr>world := k\<rparr>)) Q T ql" "\<forall>c \<in> Q. t \<notin> set (ql c)"
    using queued_waiting [OF ql] k(4) F(2) by (simp_all add: queued_def waiting_def)
  obtain s' where s': "Thread_queue_Enqueue_critical (\<lambda>n s. s) it rtn q t STATES_WAITING_FOR_MUTEX WATCHDOG_NO_TIMEOUT CORE_MUTEX_TIMEOUT (s0\<lparr>world := k\<rparr>) = Some s'"
    "prio (world s') u = prio k u" using Enqueue_quiet [OF w(1) q(1,2) w(2), of it rtn STATES_WAITING_FOR_MUTEX CORE_MUTEX_TIMEOUT] by auto
  have "CORE_mutex_Seize_interrupt_blocking (\<lambda>n s. s) it rtn q t WATCHDOG_NO_TIMEOUT s = Some (on_kernel Thread_Dispatch_enable s')"
    using k(1) s'(1) unfolding CORE_mutex_Seize_interrupt_blocking_def Let_def s0_def [symmetric] by (auto simp: try_kernel_def split: if_splits)
  moreover have "prio (Thread_Dispatch_enable (world s')) u = prio (world s') u" using only_thread_dispatch(1) [of t "world s'"] by (simp add: only_thread_def wait_same_def)
  ultimately show ?thesis using s'(2) k(3) F(3) by simp
qed

subsection \<open>All runs\<close>

text \<open>The processor may go to any thread at any time. A thread that seizes a mutex is the executing one and does not wait. A complete surrender is a \<open>surrender\<close>,
  what happens until the thread goes on, and an \<open>interrupt\<close> step \<open>restore\<close>.\<close>

inductive mutex_runs :: "addr set \<Rightarrow> addr set \<Rightarrow> System \<Rightarrow> bool" for Q T :: "addr set" where
  start: "NULL \<notin> Q \<Longrightarrow> NULL \<notin> T \<Longrightarrow> queued (world s) Q T (\<lambda>_. []) \<Longrightarrow> \<forall>q \<in> Q. attr_ok (world s) q \<and> mutex_holder (world s) q = NULL \<and> nest_count (mutexes (world s) q) = 0
    \<Longrightarrow> \<forall>t \<in> T. resources (world s) t = 0 \<and> prio (world s) t = own_prio (world s) t \<Longrightarrow> mutex_runs Q T s"
| switch: "mutex_runs Q T s \<Longrightarrow> mutex_runs Q T (s\<lparr>world := (world s)\<lparr>Thread_Executing := t\<rparr>\<rparr>)"
| interrupt: "mutex_runs Q T s \<Longrightarrow> mutex_interrupt Q T s s' \<Longrightarrow> mutex_runs Q T s'"
| seize: "mutex_runs Q T s \<Longrightarrow> q \<in> Q \<Longrightarrow> t \<in> T \<Longrightarrow> Thread_Executing (world s) = t \<Longrightarrow> operations (Wait (threads (world s) t)) = Thread_queue_Operations_default
    \<Longrightarrow> nest_count (mutexes (world s) q) \<noteq> 0xffffffff \<Longrightarrow> (\<And>n s. (mutex_interrupt Q T)\<^sup>*\<^sup>* s (isr n s))
    \<Longrightarrow> CORE_mutex_Seize state isr it rtn q t ident wait timeout s = Some (Inr s') \<Longrightarrow> mutex_runs Q T s'"
| surrender: "mutex_runs Q T s \<Longrightarrow> q \<in> Q \<Longrightarrow> CORE_mutex_Surrender_release q s = Some (s', b, status) \<Longrightarrow> mutex_runs Q T s'"
| flush: "mutex_runs Q T s \<Longrightarrow> q \<in> Q \<Longrightarrow> CORE_mutex_Flush q status s = Some s' \<Longrightarrow> mutex_runs Q T s'"

lemma mutex_runs_ok: "mutex_runs Q T s \<Longrightarrow> mutex_ok {} Q T (world s)"
proof (induction rule: mutex_runs.induct)
  case (start s)
  have w: "waiting (world s) T q = {}" if "q \<in> Q" for q using queued_waiting [OF start(3) that] by simp
  have "held (world s) Q t = {}" if "t \<in> T" for t using that start(2,4) by (auto simp: held_def)
  then show ?case using start w by (auto simp: mutex_ok_def lock_ok_def protocol_ok_def thread_ok_def)
next
  case (switch s t)
  let ?k = "(world s)\<lparr>Thread_Executing := t\<rparr>"
  have "only_thread t (world s) ?k" by (simp add: only_thread_def wait_same_def)
  then show ?case using mutex_ok_only switch.IH by simp
next
  case (interrupt s s')
  then show ?case using mutex_interrupt_keeps by blast
next
  case (seize s q t isr state it rtn ident wait timeout s')
  show ?case by (rule mutex_ok_Seize [OF seize.IH seize.hyps(2-6) _ seize.hyps(8)]) (rule seize.hyps(7))
next
  case (surrender s q s' b status)
  then show ?case using mutex_ok_release [OF surrender.IH surrender.hyps(2)] by auto
next
  case (flush s q status s')
  then show ?case using mutex_queue.Flush_keeps [of q status s s' Q "{}" T "world s"] mutex_quiet_refl by (auto simp: CORE_mutex_Flush_def)
qed

subsection \<open>An example\<close>

text \<open>An inheritance mutex, two threads of priority 5 and the thread \<open>0x3000\<close> of priority 2. The thread \<open>0x2000\<close> seizes the mutex, then \<open>0x3000\<close> waits for it.\<close>

definition inherit_attributes :: CORE_mutex_Attributes where
  "inherit_attributes = \<lparr>lock_nesting_behavior = CORE_MUTEX_NESTING_ACQUIRES, only_owner_release = True,
     mutex_discipline = CORE_MUTEX_DISCIPLINES_PRIORITY_INHERIT, priority_ceiling = 0\<rparr>"

definition mutex_example :: System where
  "mutex_example = example_system\<lparr>world := case CORE_mutex_Initialize 0x5000 0x2000 inherit_attributes False
     (blank_kernel\<lparr>threads := (\<lambda>t. blank_thread\<lparr>current_priority := if t = 0x3000 then 2 else 5, real_priority := if t = 0x3000 then 2 else 5\<rparr>),
        Thread_Executing := 0x2000\<rparr>) of Some (k, _) \<Rightarrow> k | None \<Rightarrow> blank_kernel\<rparr>"

definition example_seizes :: "addr \<Rightarrow> System \<Rightarrow> (uint32 + System) option" where
  "example_seizes t s = CORE_mutex_Seize SYSTEM_STATE_UP (\<lambda>n s. s) 1 0x60 0x5000 t 0 True WATCHDOG_NO_TIMEOUT (s\<lparr>world := (world s)\<lparr>Thread_Executing := t\<rparr>\<rparr>)"

abbreviation example_threads :: "addr set" where "example_threads \<equiv> {0x2000, 0x3000, 0x4000}"

lemma mutex_example_runs: "mutex_runs {0x5000} example_threads mutex_example"
proof -
  define k where "k = upd_mutex 0x5000 (\<lambda>m. m\<lparr>nest_count := 0, holder := NULL\<rparr>) (upd_mutex 0x5000 (\<lambda>m. m\<lparr>Attributes := inherit_attributes\<rparr>)
     (blank_kernel\<lparr>threads := (\<lambda>t. blank_thread\<lparr>current_priority := if t = 0x3000 then 2 else 5, real_priority := if t = 0x3000 then 2 else 5\<rparr>), Thread_Executing := 0x2000\<rparr>))"
  have ex: "world mutex_example = Thread_queue_Initialize 0x5000 THREAD_QUEUE_DISCIPLINE_PRIORITY k"
    by (simp add: mutex_example_def CORE_mutex_Initialize_def Let_def k_def CORE_mutex_Is_fifo_def inherit_attributes_def)
  have F: "threads (world mutex_example) = threads k" "mutexes (world mutex_example) = mutexes k"
    by (simp_all add: ex Thread_queue_Initialize_def Thread_queue_Priority_initialize_def)
  have "apart {0x5000} example_threads" by (simp add: apart_def control_cells_def node_cells_def)
  note W = waits_initialized [OF this, of THREAD_QUEUE_DISCIPLINE_PRIORITY k]
  have "queued (world mutex_example) {0x5000} example_threads (\<lambda>_. [])"
    using W(1) by (simp add: queued_def wait_info_def F) (simp add: ex k_def upd_mutex_def blank_thread_def blank_wait_def)
  moreover have "\<forall>q \<in> {0x5000}. attr_ok (world mutex_example) q \<and> mutex_holder (world mutex_example) q = NULL \<and> nest_count (mutexes (world mutex_example) q) = 0"
    using W(2) by (simp add: attr_ok_def F guarded_def) (simp add: ex k_def upd_mutex_def inherit_attributes_def)
  moreover have "\<forall>t \<in> example_threads. resources (world mutex_example) t = 0 \<and> prio (world mutex_example) t = own_prio (world mutex_example) t"
    by (simp add: F k_def upd_mutex_def blank_thread_def)
  ultimately show ?thesis by (intro mutex_runs.start) simp_all
qed

lemma example_seizes_runs:
  assumes "mutex_runs {0x5000} example_threads s" "t \<in> example_threads" "operations (Wait (threads (world s) t)) = Thread_queue_Operations_default"
    "nest_count (mutexes (world s) 0x5000) \<noteq> 0xffffffff" "example_seizes t s = Some (Inr s')"
  shows "mutex_runs {0x5000} example_threads s'"
  by (rule mutex_runs.seize [OF mutex_runs.switch [OF assms(1), of t] _ assms(2) _ _ _ _ assms(5) [unfolded example_seizes_def]]) (use assms(3,4) in simp_all)

lemma example_contention:
  "\<exists>s1 s2. example_seizes 0x2000 mutex_example = Some (Inr s1) \<and> example_seizes 0x3000 s1 = Some (Inr s2)
     \<and> mutex_runs {0x5000} example_threads s1 \<and> mutex_runs {0x5000} example_threads s2
     \<and> mutex_holder (world s1) 0x5000 = 0x2000 \<and> nest_count (mutexes (world s1) 0x5000) = 1 \<and> Thread_Executing (world s1) = 0x2000
     \<and> mutex_attr (world s2) 0x5000 = inherit_attributes \<and> 0x3000 \<in> waiting (world s2) example_threads 0x5000"
proof -
  have "(case example_seizes 0x2000 mutex_example of Some (Inr s) \<Rightarrow> mutex_holder (world s) 0x5000 = 0x2000 \<and> nest_count (mutexes (world s) 0x5000) = 1
      \<and> Thread_Executing (world s) = 0x2000 \<and> operations (Wait (threads (world s) 0x3000)) = Thread_queue_Operations_default | _ \<Rightarrow> False)
    \<and> operations (Wait (threads (world mutex_example) 0x2000)) = Thread_queue_Operations_default \<and> nest_count (mutexes (world mutex_example) 0x5000) = 0" by code_simp
  then obtain s1 where s1: "example_seizes 0x2000 mutex_example = Some (Inr s1)" "mutex_holder (world s1) 0x5000 = 0x2000" "nest_count (mutexes (world s1) 0x5000) = 1"
    "Thread_Executing (world s1) = 0x2000" "operations (Wait (threads (world s1) 0x3000)) = Thread_queue_Operations_default"
    "operations (Wait (threads (world mutex_example) 0x2000)) = Thread_queue_Operations_default" "nest_count (mutexes (world mutex_example) 0x5000) = 0"
    by (auto split: option.splits sum.splits)
  have "(case example_seizes 0x2000 mutex_example of Some (Inr s1) \<Rightarrow> (case example_seizes 0x3000 s1 of Some (Inr s) \<Rightarrow> wait_queue (Wait (threads (world s) 0x3000)) = 0x5000
      \<and> operations (Wait (threads (world s) 0x3000)) \<noteq> Thread_queue_Operations_default \<and> mutex_attr (world s) 0x5000 = inherit_attributes | _ \<Rightarrow> False) | _ \<Rightarrow> False)" by code_simp
  then obtain s2 where s2: "example_seizes 0x3000 s1 = Some (Inr s2)" "wait_queue (Wait (threads (world s2) 0x3000)) = 0x5000"
    "operations (Wait (threads (world s2) 0x3000)) \<noteq> Thread_queue_Operations_default" "mutex_attr (world s2) 0x5000 = inherit_attributes"
    unfolding s1(1) by (auto split: option.splits sum.splits)
  have r1: "mutex_runs {0x5000} example_threads s1" by (rule example_seizes_runs [OF mutex_example_runs _ s1(6) _ s1(1)]) (simp_all add: s1(7))
  have "mutex_runs {0x5000} example_threads s2" by (rule example_seizes_runs [OF r1 _ s1(5) _ s2(1)]) (simp_all add: s1(3))
  then show ?thesis using s1 s2 r1 by (auto simp: waiting_def)
qed







end
