(* ===== verification/Spec2Isabelle.thy ===== *)
theory Spec2Isabelle
  imports Score_Tod Score_Object_Names Score_Mutex_Props
begin

text \<open>
  \<^bold>\<open>The program.\<close> The repository is a port of the RTEMS real-time executive to the TI C6678, a 32-bit digital signal
  processor. Its kernel is the SuperCore: \<^verbatim>\<open>src/librtems/score\<close> with the inline routines of \<^verbatim>\<open>src/include/rtems/score\<close>.
  Around the SuperCore there are the directives of the classic API (\<^verbatim>\<open>src/librtems/rtems\<close>), which check their arguments, look
  up an object and call the SuperCore, and drivers, file systems, a network stack and a C library. This development models
  the SuperCore and the calendar of the clock manager.

  \<^bold>\<open>How the parts work together.\<close> Chains are the lists of the kernel: the heap's free list, the delta chains of the watchdogs,
  the inactive objects of a class, the ready queues and the FIFO thread queues are chains. The heap carries the workspace, and the
  object handler allocates its tables and objects from the workspace. The scheduler keeps the ready threads in one chain for each
  priority with a bit map of the priorities in use. A thread blocks by joining a thread queue, which is a chain or a red-black tree
  of threads, and by losing its ready state; a watchdog ends its wait at a timeout. Semaphores, mutexes, barriers and read-write locks
  are counters and states in front of a thread queue. Time of day is the second count of \<^verbatim>\<open>_Timespec\<close> values, shown as a calendar date.

  \<^bold>\<open>Configuration.\<close> \<^verbatim>\<open>src/include/rtems/score/cpuopts.h\<close> defines its options with the prefix \<^verbatim>\<open>RTOS_\<close> and none with \<^verbatim>\<open>RTEMS_\<close>, so the code under
  \<^verbatim>\<open>RTEMS_SMP\<close>, \<^verbatim>\<open>RTEMS_DEBUG\<close>, \<^verbatim>\<open>RTEMS_MULTIPROCESSING\<close>, \<^verbatim>\<open>RTEMS_POSIX_API\<close> and \<^verbatim>\<open>HEAP_PROTECTION\<close> is not compiled and the generic bit field
  search is used. The model is of the code that remains. Locks of the SMP build are empty there, and an
  interrupt-disabled section is one step.

  \<^bold>\<open>Style.\<close> Addresses and \<^verbatim>\<open>uint32_t\<close> are 32-bit words, \<^verbatim>\<open>int32_t\<close> values are words read as signed, \<^verbatim>\<open>time_t\<close> and \<^verbatim>\<open>long\<close> have the width of
  the port. A linked structure is an explicit store, a function from addresses to the fields of the nodes, so that aliasing is as
  in the code. A structure that a component owns is a record, an operation is a function from states to states, and an error is
  a status value or a constructor of a sum. A loop whose end depends on the data is a \<^theory_text>\<open>partial_function (option)\<close>, where \<open>None\<close>
  means that it never ends; the theorems state the result as \<open>Some\<close>, so that they say that the loop ends. There is no fuel
  and no bound on sizes other than those of the words. Where the code enables interrupts in the middle of an operation, the operation
  takes what the interrupts do as a parameter, and the theorems hold for every sequence of the kernel operations that an interrupt may
  call, given as an inductive relation.

  \<^bold>\<open>Theories.\<close>
  \<^item> \<^verbatim>\<open>Rtems_Prelude\<close>: the machine types, collections of simplification rules, and facts on words and lists.
  \<^item> \<^verbatim>\<open>Score_Timespec\<close>: every function of \<^verbatim>\<open>score/timespec\<close>. Addition normalises and returns the seconds moved; conversion to ticks is
    the ceiling.
  \<^item> \<^verbatim>\<open>Score_Tod\<close>: \<^verbatim>\<open>rtems/clock\<close>: \<^verbatim>\<open>_TOD_Validate\<close>, \<^verbatim>\<open>_TOD_To_seconds\<close>, \<^verbatim>\<open>rtems_clock_get_tod\<close> and their tables, against
    the proleptic Gregorian calendar.
  \<^item> \<^verbatim>\<open>Score_Chain\<close>, \<^verbatim>\<open>Score_Chain_Set\<close>: \<^verbatim>\<open>score/chain\<close> and \<^verbatim>\<open>chainimpl.h\<close>. \<open>chain_rep\<close> relates a store to the list of nodes. The locale
    \<^verbatim>\<open>node_queue\<close> states what a first-in first-out queue of nodes promises; the chain operations interpret it. \<^verbatim>\<open>Score_Chain_Set\<close> is the
    same for many disjoint chains over one store.
  \<^item> \<^verbatim>\<open>Score_Watchdog\<close>: \<^verbatim>\<open>score/watchdog\<close>. A delta chain is a list of expiry times; insertion, removal, tick and adjustment act
    on that list. The interrupt windows of \<^verbatim>\<open>_Watchdog_Insert\<close> are steps of a transition relation, for which the iterators stay on the chain.
  \<^item> \<^verbatim>\<open>Score_Heap\<close>, \<^verbatim>\<open>_Inv\<close>, \<^verbatim>\<open>_Alloc\<close>, \<^verbatim>\<open>_Props\<close>: \<^verbatim>\<open>score/heap\<close> as header words and free-list links in memory. The invariant \<open>heap_rep\<close>
    says that the blocks tile the area; allocation, release and resizing keep it.
  \<^item> \<^verbatim>\<open>Score_Workspace\<close>: \<^verbatim>\<open>score/wkspace.c\<close>. The locale \<^verbatim>\<open>workspace\<close> is the contract of the workspace with its clients, interpreted on the heap.
  \<^item> \<^verbatim>\<open>Score_Object\<close>, \<^verbatim>\<open>_Props\<close>, \<^verbatim>\<open>_Extend\<close>, \<^verbatim>\<open>_Names\<close>: \<^verbatim>\<open>score/object\<close>. Identifiers, the tables of a class, growing and shrinking,
    opening and closing, lookup by identifier and by name, iteration.
  \<^item> \<^verbatim>\<open>Score_RBTree\<close>, \<^verbatim>\<open>_Props\<close>, \<^verbatim>\<open>_Order\<close>, \<^verbatim>\<open>_Extract\<close>: \<^verbatim>\<open>score/rbtree\<close>. \<open>rb_at\<close> relates the store to a coloured tree at a
    place in a larger tree; insertion and extraction refine the abstract tree operations, and reading in order gives the sorted list.
  \<^item> \<^verbatim>\<open>Score_Priority\<close>: \<^verbatim>\<open>prioritybitmapimpl.h\<close> and the bit field search. The bit map is a set of priorities with its least member.
  \<^item> \<^verbatim>\<open>Score_Thread\<close>, \<^verbatim>\<open>Score_Scheduler\<close>: the thread control block, thread states, creation and start, dispatching, and the priority
    scheduler \<^verbatim>\<open>schedulerpriority*.c\<close> with \<^verbatim>\<open>schedulerdefaulttick.c\<close>. \<open>sched_inv\<close> relates bit map, chains and states to lists of ready
    threads by priority.
  \<^item> \<^verbatim>\<open>Score_ThreadQ\<close>, \<^verbatim>\<open>Score_ThreadQ_Props\<close>: \<^verbatim>\<open>threadq*.c\<close>, \<^verbatim>\<open>threadtimeout.c\<close>, \<^verbatim>\<open>threadchangepriority.c\<close>. The locale \<^verbatim>\<open>thread_queue_discipline\<close> is
    the contract of a discipline, interpreted as \<^verbatim>\<open>fifo\<close> on the chains and as \<^verbatim>\<open>prioq\<close> on the red-black trees.
  \<^item> \<^verbatim>\<open>Score_Kernel\<close>: the states the kernel reaches from its initialization by any sequence of these operations; the heir is right in
    each.
  \<^item> \<^verbatim>\<open>Score_Wakeup\<close>: blocking and waking over both disciplines, with the interrupt window between joining a queue and
    leaving the ready state. The locale \<^verbatim>\<open>queue_client\<close> is what an object has to promise so that its invariant survives everything a thread queue
    does; the semaphores and the mutexes interpret it.
  \<^item> \<^verbatim>\<open>Score_Core\<close>, \<^verbatim>\<open>Score_Core_Props\<close>: \<^verbatim>\<open>coresem*.c\<close>, \<^verbatim>\<open>corebarrier*.c\<close>, \<^verbatim>\<open>corerwlock*.c\<close>. Semaphores refine counters with a list of
    waiting threads, read-write locks are handed over, barriers release everyone.
  \<^item> \<^verbatim>\<open>Score_Mutex\<close>, \<^verbatim>\<open>Score_Mutex_Props\<close>: \<^verbatim>\<open>coremutex*.c\<close> with nesting, priority inheritance and priority ceiling. Over all runs of threads and interrupts
    the holder, the waiting threads, the resource counts and the priorities stay together; inheritance goes one level.

  \<^bold>\<open>Defects shown.\<close> Six theorems show the code doing what it does not mean to: the last hour of 28 February 2100 in \<^verbatim>\<open>_TOD_To_seconds\<close>, a removal
  during \<^verbatim>\<open>_Watchdog_Insert\<close> that shifts the interval, an allocation from the end of a heap block with an odd alignment, a class with
  allocation size 1 that grows, names with characters above 127, and threads that time out at a barrier and stay counted.

  \<^bold>\<open>Not modelled.\<close>
  \<^item> Message queues, spinlocks and \<^verbatim>\<open>coretod*.c\<close>: they use the thread queues modelled here,
    and message queues move buffers whose contents are untyped memory.
  \<^item> Restart, deletion and the handler of threads, and the context switch: they act on stacks, register contexts and user
    extensions; the switch is assembly in \<^verbatim>\<open>libcpu\<close>.
  \<^item> The EDF, CBS, simple and SMP schedulers and the multiprocessing packets, which the configuration does not select.
  \<^item> The timecounter \<^verbatim>\<open>kern_tc.c\<close>, which is FreeBSD code over hardware counters.
  \<^item> The directives of \<^verbatim>\<open>librtems/rtems\<close> besides the calendar, \<^verbatim>\<open>sapi\<close> and \<^verbatim>\<open>posix\<close>: argument checks and forwarding over the SuperCore.
  \<^item> \<^verbatim>\<open>libfs\<close>, \<^verbatim>\<open>libnetworking\<close>, \<^verbatim>\<open>libc\<close>, \<^verbatim>\<open>libbsp\<close>, \<^verbatim>\<open>loader\<close>: drivers over device registers and third-party code.
\<close>

end
